(* ===== verification/Go_Prelude.thy ===== *)
theory Go_Prelude
  imports Main "HOL-Library.Word"
begin

text \<open>
  Shared vocabulary of the development: bytes and big-endian integers as Go's
  encoding/binary reads and writes them, the outcome of a Go call (a value, an
  error value, a run-time panic, or a loop that does not end), the sequential
  byte source behind a bufio.Reader, and the two interfaces the decoders are
  used through: a byte decoder (one byte per step) and an io.Reader.
  \<open>byte_decoder\<close> and \<open>go_reader\<close> are locales; every decoder of the
  development interprets them on its own definitions.
\<close>

unbundle bit_operations_syntax

section \<open>Types\<close>

type_synonym byte = "8 word"
type_synonym bytes = "8 word list"
type_synonym u16 = "16 word"
type_synonym u32 = "32 word"
type_synonym u64 = "64 word"

text \<open>int64 arithmetic: the result of an operation, wrapped to 64 bits.\<close>

definition wrap64 :: "int \<Rightarrow> int" where
  "wrap64 i = (i + 2 ^ 63) mod 2 ^ 64 - 2 ^ 63"

lemma wrap64_id: "- (2 ^ 63) \<le> i \<Longrightarrow> i < 2 ^ 63 \<Longrightarrow> wrap64 i = i"
  by (simp add: wrap64_def)

text \<open>Go string constants, as the bytes of their ASCII text.\<close>

definition str :: "string \<Rightarrow> bytes" where
  "str s = map of_char s"

lemma str_simps [simp]:
  "str [] = []"
  "str (c # cs) = of_char c # str cs"
  by (simp_all add: str_def)

lemma length_str [simp]: "length (str s) = length s"
  by (simp add: str_def)

named_theorems go_bytes \<open>reading back what the big-endian writers wrote\<close>
named_theorems go_outcome \<open>case analysis of the outcome of a call\<close>

section \<open>The outcome of a call\<close>

text \<open>
  A Go call returns a value, returns a non-nil error, panics (an index or a
  slice out of range, a division by zero), or never returns.
\<close>

datatype ('e, 'a) outcome = Ok 'a | Err 'e | Panic | Diverge

primrec and_then :: "('e, 'a) outcome \<Rightarrow> ('a \<Rightarrow> ('e, 'b) outcome) \<Rightarrow> ('e, 'b) outcome" where
  "and_then (Ok a) f = f a"
| "and_then (Err e) f = Err e"
| "and_then Panic f = Panic"
| "and_then Diverge f = Diverge"

lemma and_then_cong [fundef_cong]:
  "m = m' \<Longrightarrow> (\<And>a. m' = Ok a \<Longrightarrow> f a = g a) \<Longrightarrow> and_then m f = and_then m' g"
  by (cases m') auto

text \<open>An error wrapped on its way out, as \<open>fmt.Errorf\<close> with \<open>%w\<close> does.\<close>

primrec wrap_err :: "('e \<Rightarrow> 'f) \<Rightarrow> ('e, 'a) outcome \<Rightarrow> ('f, 'a) outcome" where
  "wrap_err w (Ok a) = Ok a"
| "wrap_err w (Err e) = Err (w e)"
| "wrap_err w Panic = Panic"
| "wrap_err w Diverge = Diverge"

lemma wrap_err_Ok_iff [simp]: "wrap_err w r = Ok a \<longleftrightarrow> r = Ok a"
  by (cases r) auto

lemma wrap_err_Err_iff [go_outcome]: "wrap_err w r = Err e \<longleftrightarrow> (\<exists>e'. r = Err e' \<and> e = w e')"
  by (cases r) auto

definition returns :: "('e, 'a) outcome \<Rightarrow> bool" where
  "returns r \<longleftrightarrow> r \<noteq> Panic \<and> r \<noteq> Diverge"

lemma returns_simps [simp]:
  "returns (Ok a)" "returns (Err e)" "\<not> returns Panic" "\<not> returns Diverge"
  by (simp_all add: returns_def)

lemma returns_wrap_err [simp]: "returns (wrap_err w r) \<longleftrightarrow> returns r"
  by (cases r) auto

lemma and_then_Ok_iff [go_outcome]:
  "and_then m f = Ok b \<longleftrightarrow> (\<exists>a. m = Ok a \<and> f a = Ok b)"
  by (cases m) auto

lemma and_then_Err_iff [go_outcome]:
  "and_then m f = Err e \<longleftrightarrow> m = Err e \<or> (\<exists>a. m = Ok a \<and> f a = Err e)"
  by (cases m) auto

lemma returns_and_then [go_outcome]:
  "returns (and_then m f) \<longleftrightarrow> returns m \<and> (\<forall>a. m = Ok a \<longrightarrow> returns (f a))"
  by (cases m) auto

text \<open>Indexing a slice or an array: out of range is a panic.\<close>

definition nth_go :: "'a list \<Rightarrow> nat \<Rightarrow> ('e, 'a) outcome" where
  "nth_go xs i = (if i < length xs then Ok (xs ! i) else Panic)"

text \<open>Slicing \<open>xs[i:j]\<close>: the bounds are checked as Go checks them.\<close>

definition slice_go :: "'a list \<Rightarrow> nat \<Rightarrow> nat \<Rightarrow> ('e, 'a list) outcome" where
  "slice_go xs i j = (if i \<le> j \<and> j \<le> length xs then Ok (take (j - i) (drop i xs)) else Panic)"

text \<open>Assigning to an element of an array or a slice.\<close>

definition set_go :: "'a list \<Rightarrow> nat \<Rightarrow> 'a \<Rightarrow> ('e, 'a list) outcome" where
  "set_go xs i v = (if i < length xs then Ok (xs[i := v]) else Panic)"

lemma set_go_Ok [simp]: "i < length xs \<Longrightarrow> set_go xs i v = Ok (xs[i := v])"
  by (simp add: set_go_def)

lemma set_go_Ok_iff [go_outcome]: "set_go xs i v = Ok ys \<longleftrightarrow> i < length xs \<and> ys = xs[i := v]"
  by (auto simp: set_go_def)

lemma nth_go_Ok_iff [go_outcome]: "nth_go xs i = Ok x \<longleftrightarrow> i < length xs \<and> x = xs ! i"
  by (auto simp: nth_go_def)

lemma nth_go_Ok [simp]: "i < length xs \<Longrightarrow> nth_go xs i = Ok (xs ! i)"
  by (simp add: nth_go_def)

lemma nth_go_returns [go_outcome]: "returns (nth_go xs i) \<longleftrightarrow> i < length xs"
  by (simp add: nth_go_def)

lemma slice_go_Ok [simp]:
  "i \<le> j \<Longrightarrow> j \<le> length xs \<Longrightarrow> slice_go xs i j = Ok (take (j - i) (drop i xs))"
  by (simp add: slice_go_def)

text \<open>\<open>copy(xs[i:], ys)\<close> when it fits.\<close>

definition blit :: "nat \<Rightarrow> 'a list \<Rightarrow> 'a list \<Rightarrow> 'a list" where
  "blit i ys xs = take i xs @ ys @ drop (i + length ys) xs"

lemma blit_Nil [simp]: "blit i [] xs = xs"
  by (simp add: blit_def)

lemma blit_Cons: "i < length xs \<Longrightarrow> blit i (y # ys) xs = blit (Suc i) ys (xs[i := y])"
  by (simp add: blit_def take_Suc_conv_app_nth)

lemma length_blit [simp]: "i + length ys \<le> length xs \<Longrightarrow> length (blit i ys xs) = length xs"
  by (simp add: blit_def)

lemma nth_blit:
  "i + length ys \<le> length xs \<Longrightarrow>
   blit i ys xs ! k = (if i \<le> k \<and> k < i + length ys then ys ! (k - i) else xs ! k)"
  by (auto simp: blit_def nth_append)

lemma blit_0: "blit 0 ys xs = ys @ drop (length ys) xs"
  by (simp add: blit_def)

section \<open>Big-endian integers\<close>

definition be16 :: "byte \<Rightarrow> byte \<Rightarrow> u16" where
  "be16 a b = push_bit 8 (ucast a) OR ucast b"

definition be32 :: "byte \<Rightarrow> byte \<Rightarrow> byte \<Rightarrow> byte \<Rightarrow> u32" where
  "be32 a b c d = push_bit 24 (ucast a) OR push_bit 16 (ucast b) OR push_bit 8 (ucast c) OR ucast d"

definition put16 :: "u16 \<Rightarrow> bytes" where
  "put16 v = [ucast (drop_bit 8 v), ucast v]"

definition put32 :: "u32 \<Rightarrow> bytes" where
  "put32 v = [ucast (drop_bit 24 v), ucast (drop_bit 16 v), ucast (drop_bit 8 v), ucast v]"

text \<open>\<open>binary.BigEndian.Uint16(b[off:])\<close> and its wider kin: a short slice panics.\<close>

definition uint16_at :: "bytes \<Rightarrow> nat \<Rightarrow> ('e, u16) outcome" where
  "uint16_at b off =
     (if off + 2 \<le> length b then Ok (be16 (b ! off) (b ! (off + 1))) else Panic)"

definition uint32_at :: "bytes \<Rightarrow> nat \<Rightarrow> ('e, u32) outcome" where
  "uint32_at b off =
     (if off + 4 \<le> length b
      then Ok (be32 (b ! off) (b ! (off + 1)) (b ! (off + 2)) (b ! (off + 3))) else Panic)"

definition get64 :: "u32 \<Rightarrow> u32 \<Rightarrow> u64" where
  "get64 hi lo = push_bit 32 (ucast hi) OR ucast lo"

definition put64 :: "u64 \<Rightarrow> bytes" where
  "put64 v = put32 (ucast (drop_bit 32 v)) @ put32 (ucast v)"

lemma uint16_at_Ok [simp]:
  "off + 2 \<le> length b \<Longrightarrow> uint16_at b off = Ok (be16 (b ! off) (b ! (off + 1)))"
  by (simp add: uint16_at_def)

lemma uint32_at_Ok [simp]:
  "off + 4 \<le> length b \<Longrightarrow>
   uint32_at b off = Ok (be32 (b ! off) (b ! (off + 1)) (b ! (off + 2)) (b ! (off + 3)))"
  by (simp add: uint32_at_def)

lemma length_put [simp]: "length (put16 v) = 2" "length (put32 w) = 4" "length (put64 x) = 8"
  by (simp_all add: put16_def put32_def put64_def)

lemma be16_put16 [go_bytes]: "be16 (put16 v ! 0) (put16 v ! 1) = v"
  by (rule bit_word_eqI) (auto simp: be16_def put16_def bit_simps)

lemma be16_bytes [go_bytes]: "be16 (ucast (drop_bit 8 v)) (ucast v) = v"
  using be16_put16 [of v] by (simp add: put16_def)

lemma be32_put32 [go_bytes]:
  "be32 (ucast (drop_bit 24 v)) (ucast (drop_bit 16 v)) (ucast (drop_bit 8 v)) (ucast v) = (v :: u32)"
proof (rule bit_word_eqI)
  fix n :: nat
  assume "n < LENGTH(32)"
  then consider "n < 8" | "8 \<le> n" "n < 16" | "16 \<le> n" "n < 24" | "24 \<le> n" "n < 32"
    by force
  then show "bit (be32 (ucast (drop_bit 24 v)) (ucast (drop_bit 16 v)) (ucast (drop_bit 8 v))
      (ucast v)) n = bit v n"
    by cases (auto simp: be32_def bit_simps)
qed

lemma put32_be32 [go_bytes]: "put32 (be32 a b c d) = [a, b, c, d]"
proof -
  have "ucast (drop_bit 24 (be32 a b c d)) = a" "ucast (drop_bit 16 (be32 a b c d)) = b"
    "ucast (drop_bit 8 (be32 a b c d)) = c" "ucast (be32 a b c d) = d"
    by (rule bit_word_eqI, auto simp: be32_def bit_simps dest: bit_imp_le_length)+
  then show ?thesis by (simp add: put32_def)
qed

lemma uint32_at_put32 [go_bytes]: "uint32_at (pre @ put32 v @ post) (length pre) = Ok v"
  by (simp add: uint32_at_def put32_def nth_append be32_put32)

lemma unat_put32_bytes:
  "unat (put32 v ! 0) = unat v div 2 ^ 24" "unat (put32 v ! 1) = unat v div 2 ^ 16 mod 256"
  "unat (put32 v ! 2) = unat v div 2 ^ 8 mod 256" "unat (put32 v ! 3) = unat v mod 256"
proof -
  have "unat v div 2 ^ 24 < 256" using unsigned_less [of v] by (simp add: div_less_iff_less_mult)
  then show "unat (put32 v ! 0) = unat v div 2 ^ 24" "unat (put32 v ! 1) = unat v div 2 ^ 16 mod 256"
    "unat (put32 v ! 2) = unat v div 2 ^ 8 mod 256" "unat (put32 v ! 3) = unat v mod 256"
    by (simp_all add: put32_def unsigned_ucast_eq unat_div_distrib drop_bit_eq_div take_bit_eq_mod)
qed

lemma unat_put32_horner:
  "((unat (put32 v ! 0) * 256 + unat (put32 v ! 1)) * 256 + unat (put32 v ! 2)) * 256 +
    unat (put32 v ! 3) = unat v"
proof -
  have "n div 2 ^ 16 = n div 2 ^ 24 * 256 + n div 2 ^ 16 mod 256" for n :: nat
    using div_mult_mod_eq [of "n div 2 ^ 16" 256] by (simp add: div_mult2_eq [symmetric])
  moreover have "n div 2 ^ 8 = n div 2 ^ 16 * 256 + n div 2 ^ 8 mod 256" for n :: nat
    using div_mult_mod_eq [of "n div 2 ^ 8" 256] by (simp add: div_mult2_eq [symmetric])
  moreover have "n = n div 2 ^ 8 * 256 + n mod 256" for n :: nat
    using div_mult_mod_eq [of n 256] by simp
  ultimately show ?thesis unfolding unat_put32_bytes by metis
qed

lemma get64_split [go_bytes]: "get64 (ucast (drop_bit 32 v)) (ucast v) = v"
  by (rule bit_word_eqI) (auto simp: get64_def bit_simps not_le)

section \<open>Sequential byte sources\<close>

datatype io_error = EOF | UnexpectedEOF | ReadError nat

text \<open>
  What a bufio.Reader has still to deliver: the bytes its underlying reader
  yields, then either end of file (\<open>failure = None\<close>) or a read error.
\<close>

record src =
  pending :: bytes
  failure :: "nat option"

definition end_error :: "src \<Rightarrow> io_error" where
  "end_error s = (case failure s of None \<Rightarrow> EOF | Some e \<Rightarrow> ReadError e)"

text \<open>\<open>bufio.Reader.ReadByte\<close>.\<close>

definition read_byte :: "src \<Rightarrow> (io_error, byte \<times> src) outcome" where
  "read_byte s =
     (case pending s of [] \<Rightarrow> Err (end_error s) | b # bs \<Rightarrow> Ok (b, s\<lparr>pending := bs\<rparr>))"

text \<open>
  \<open>io.ReadFull\<close> into a buffer of \<open>n\<close> bytes: the bytes read, the error (nil only
  when the buffer was filled; end of file after some bytes is an unexpected
  end of file), and the source afterwards.
\<close>

definition read_full :: "nat \<Rightarrow> src \<Rightarrow> bytes \<times> io_error option \<times> src" where
  "read_full n s =
     (let got = take n (pending s)
      in (got,
          (if length got = n then None
           else if failure s = None \<and> got \<noteq> [] then Some UnexpectedEOF
           else Some (end_error s)),
          s\<lparr>pending := drop n (pending s)\<rparr>))"

lemma read_byte_Ok_iff [go_outcome]:
  "read_byte s = Ok (b, s') \<longleftrightarrow>
     (\<exists>bs. pending s = b # bs \<and> s' = s\<lparr>pending := bs\<rparr>)"
  by (auto simp: read_byte_def split: list.splits)

lemma read_byte_returns [simp]: "returns (read_byte s)"
  by (simp add: read_byte_def split: list.splits)

lemma read_byte_shorter:
  "read_byte s = Ok (b, s') \<Longrightarrow> length (pending s') < length (pending s)"
  by (auto simp: read_byte_Ok_iff)

section \<open>The io.Reader contract\<close>

text \<open>
  \<open>rd n s\<close> is \<open>Read\<close> into a buffer of \<open>n\<close> bytes: the bytes put at the front of
  the buffer, the error, the state afterwards. \<open>content s\<close> is what a reader in
  state \<open>s\<close> has still to deliver and \<open>final s\<close> the error it ends with.
\<close>

locale go_reader =
  fixes rd :: "nat \<Rightarrow> 's \<Rightarrow> ('x, bytes \<times> 'e option \<times> 's) outcome"
    and content :: "'s \<Rightarrow> bytes"
    and final :: "'s \<Rightarrow> 'e"
    and ok :: "'s \<Rightarrow> bool"
  assumes rd_total: "ok s \<Longrightarrow> \<exists>b e s'. rd n s = Ok (b, e, s')"
    and rd_ok: "ok s \<Longrightarrow> rd n s = Ok (b, e, s') \<Longrightarrow> ok s'"
    and rd_length: "ok s \<Longrightarrow> rd n s = Ok (b, e, s') \<Longrightarrow> length b \<le> n"
    and rd_content: "ok s \<Longrightarrow> rd n s = Ok (b, e, s') \<Longrightarrow> content s = b @ content s'"
    and rd_final: "ok s \<Longrightarrow> rd n s = Ok (b, e, s') \<Longrightarrow> final s' = final s"
    and rd_error: "ok s \<Longrightarrow> rd n s = Ok (b, Some err, s') \<Longrightarrow> err = final s \<and> content s' = []"
    and rd_progress: "ok s \<Longrightarrow> 0 < n \<Longrightarrow> rd n s = Ok (b, None, s') \<Longrightarrow> b \<noteq> []"

lemma go_readerI:
  assumes "\<And>s n. ok s \<Longrightarrow> \<exists>b e s'. rd n s = Ok (b, e, s') \<and> ok s' \<and> length b \<le> n \<and>
    content s = b @ content s' \<and> final s' = final s \<and>
    (\<forall>err. e = Some err \<longrightarrow> err = final s \<and> content s' = []) \<and> (0 < n \<and> e = None \<longrightarrow> b \<noteq> [])"
  shows "go_reader rd content final ok"
proof
  fix s n b e s'
  assume "ok s"
  from assms [OF this, of n] show "\<exists>b e s'. rd n s = Ok (b, e, s')" by blast
  assume r: "rd n s = Ok (b, e, s')"
  with assms [OF \<open>ok s\<close>, of n] show "ok s'" "length b \<le> n" "content s = b @ content s'"
    "final s' = final s" by auto
next
  fix s n b err s'
  assume "ok s" and "rd n s = Ok (b, Some err, s')"
  with assms [OF \<open>ok s\<close>, of n] show "err = final s \<and> content s' = []" by auto
next
  fix s n b s'
  assume "ok s" and "0 < n" and "rd n s = Ok (b, None, s')"
  with assms [OF \<open>ok s\<close>, of n] show "b \<noteq> []" by auto
qed

text \<open>A client that reads with buffers of the sizes \<open>ns\<close> until an error.\<close>

fun drain :: "(nat \<Rightarrow> 's \<Rightarrow> ('x, bytes \<times> 'e option \<times> 's) outcome) \<Rightarrow> nat list \<Rightarrow> 's \<Rightarrow>
    ('x, bytes \<times> 'e option) outcome" where
  "drain rd [] s = Ok ([], None)"
| "drain rd (n # ns) s = and_then (rd n s) (\<lambda>(b, e, s').
     case e of
       Some err \<Rightarrow> Ok (b, Some err)
     | None \<Rightarrow> and_then (drain rd ns s') (\<lambda>(bs, e'). Ok (b @ bs, e')))"

context go_reader
begin

text \<open>
  Whatever the (non-zero) buffer sizes, a client that keeps reading gets the
  content and then the final error.
\<close>

lemma drain_content:
  assumes "ok s" and "\<forall>n \<in> set ns. 0 < n" and "length (content s) < length ns"
  shows "drain rd ns s = Ok (content s, Some (final s))"
  using assms
proof (induction ns arbitrary: s)
  case Nil
  then show ?case by simp
next
  case (Cons n ns)
  from rd_total [OF Cons.prems(1)] obtain b e s' where r: "rd n s = Ok (b, e, s')"
    by blast
  note facts = rd_ok [OF Cons.prems(1) r] rd_content [OF Cons.prems(1) r]
    rd_final [OF Cons.prems(1) r]
  show ?case
  proof (cases e)
    case (Some err)
    with rd_error [OF Cons.prems(1)] r have "err = final s" "content s' = []"
      by auto
    with r Some facts show ?thesis by simp
  next
    case None
    with r rd_progress [OF Cons.prems(1)] Cons.prems(2) have "b \<noteq> []"
      by auto
    with facts Cons.prems(3) have "length (content s') < length ns"
      by (cases b) auto
    with Cons.IH [of s'] facts Cons.prems(2)
    have "drain rd ns s' = Ok (content s', Some (final s'))" by simp
    with r None facts show ?thesis by simp
  qed
qed

lemma drain_returns: "ok s \<Longrightarrow> returns (drain rd ns s)"
proof (induction ns arbitrary: s)
  case (Cons n ns)
  with rd_total [OF Cons.prems, of n] rd_ok [OF Cons.prems, of n] show ?case
    by (auto simp: go_outcome split: option.splits)
qed simp

end

section \<open>Byte decoders\<close>

text \<open>
  A decoder hands out one byte per successful step. \<open>unfold n step s\<close> collects
  the bytes of at most \<open>n\<close> steps and the error that ended them.
\<close>

fun unfold :: "('s \<Rightarrow> ('e, byte \<times> 's) outcome) \<Rightarrow> nat \<Rightarrow> 's \<Rightarrow> bytes \<times> 'e option" where
  "unfold step 0 s = ([], None)"
| "unfold step (Suc n) s =
     (case step s of
        Ok (b, s') \<Rightarrow> (let (bs, e) = unfold step n s' in (b # bs, e))
      | Err e \<Rightarrow> ([], Some e)
      | _ \<Rightarrow> ([], None))"

text \<open>
  Everything a decoder delivers, when \<open>meas\<close> bounds the number of its steps.
\<close>

definition stream_of :: "('s \<Rightarrow> ('e, byte \<times> 's) outcome) \<Rightarrow> ('s \<Rightarrow> nat) \<Rightarrow> 's \<Rightarrow> bytes \<times> 'e option" where
  "stream_of step meas s = unfold step (Suc (meas s)) s"

definition stream_bytes :: "('s \<Rightarrow> ('e, byte \<times> 's) outcome) \<Rightarrow> ('s \<Rightarrow> nat) \<Rightarrow> 's \<Rightarrow> bytes" where
  "stream_bytes step meas s = fst (stream_of step meas s)"

definition stream_error :: "('s \<Rightarrow> ('e, byte \<times> 's) outcome) \<Rightarrow> ('s \<Rightarrow> nat) \<Rightarrow> 's \<Rightarrow> 'e" where
  "stream_error step meas s = the (snd (stream_of step meas s))"

locale byte_decoder =
  fixes step :: "'s \<Rightarrow> ('e, byte \<times> 's) outcome"
    and meas :: "'s \<Rightarrow> nat"
    and ok :: "'s \<Rightarrow> bool"
  assumes step_returns: "ok s \<Longrightarrow> returns (step s)"
    and step_ok: "ok s \<Longrightarrow> step s = Ok (b, s') \<Longrightarrow> ok s'"
    and step_less: "ok s \<Longrightarrow> step s = Ok (b, s') \<Longrightarrow> meas s' < meas s"
begin

lemma step_cases:
  assumes "ok s"
  obtains (byte) b s' where "step s = Ok (b, s')" "ok s'" "meas s' < meas s"
  | (error) e where "step s = Err e"
proof (cases "step s")
  case (Ok p)
  moreover obtain b s' where "p = (b, s')" by (cases p)
  ultimately show ?thesis
    using that(1) step_ok [OF assms] step_less [OF assms] by blast
qed (use step_returns [OF assms] that(2) in auto)

text \<open>Any fuel above the measure gives the same stream, and the stream ends in an error.\<close>

lemma unfold_enough:
  assumes "ok s" and "meas s < n" and "meas s < m"
  shows "unfold step n s = unfold step m s \<and> (\<exists>e. snd (unfold step n s) = Some e)"
  using assms
proof (induction n arbitrary: m s)
  case 0
  then show ?case by simp
next
  case (Suc n)
  from Suc.prems obtain m' where m: "m = Suc m'" by (cases m) auto
  from \<open>ok s\<close> show ?case
  proof (cases rule: step_cases)
    case (byte b s')
    with Suc.prems m have "meas s' < n" "meas s' < m'" by auto
    with Suc.IH [of s' m'] byte m show ?thesis
      by (auto split: prod.splits)
  next
    case (error e)
    with m show ?thesis by simp
  qed
qed

lemma stream_Ok:
  assumes "ok s" and "step s = Ok (b, s')"
  shows "stream_bytes step meas s = b # stream_bytes step meas s'"
    and "stream_error step meas s = stream_error step meas s'"
proof -
  have "ok s'" "meas s' < meas s"
    using step_ok [OF assms] step_less [OF assms] by auto
  then have "unfold step (meas s) s' = unfold step (Suc (meas s')) s'"
    using unfold_enough by blast
  then have "stream_of step meas s =
      (b # fst (stream_of step meas s'), snd (stream_of step meas s'))"
    using assms(2) by (simp add: stream_of_def split: prod.splits)
  then show "stream_bytes step meas s = b # stream_bytes step meas s'"
    and "stream_error step meas s = stream_error step meas s'"
    by (simp_all add: stream_bytes_def stream_error_def)
qed

lemma stream_Err:
  assumes "step s = Err e"
  shows "stream_bytes step meas s = []" and "stream_error step meas s = e"
  using assms by (simp_all add: stream_bytes_def stream_error_def stream_of_def)

end

section \<open>Loops over a range or a slice\<close>

text \<open>A loop whose body may leave the function with an error or a panic.\<close>

fun for_each :: "('i \<Rightarrow> 's \<Rightarrow> ('e, 's) outcome) \<Rightarrow> 'i list \<Rightarrow> 's \<Rightarrow> ('e, 's) outcome" where
  "for_each body [] s = Ok s"
| "for_each body (i # is) s = and_then (body i s) (for_each body is)"

lemma for_each_fold:
  "(\<And>i s. i \<in> set is \<Longrightarrow> body i s = Ok (g i s)) \<Longrightarrow> for_each body is s = Ok (fold g is s)"
  by (induction "is" arbitrary: s) auto

lemma for_each_append:
  "for_each body (is @ js) s = and_then (for_each body is s) (for_each body js)"
proof (induction "is" arbitrary: s)
  case (Cons i "is")
  then show ?case by (cases "body i s") auto
qed simp

lemma for_each_invariant:
  assumes "for_each body is s = Ok s'" and "P s"
    and "\<And>i s s'. i \<in> set is \<Longrightarrow> P s \<Longrightarrow> body i s = Ok s' \<Longrightarrow> P s'"
  shows "P s'"
  using assms by (induction "is" arbitrary: s) (auto simp: go_outcome)

lemma for_each_returns:
  assumes "P s" and "\<And>i s. i \<in> set is \<Longrightarrow> P s \<Longrightarrow> returns (body i s)"
    and "\<And>i s s'. i \<in> set is \<Longrightarrow> P s \<Longrightarrow> body i s = Ok s' \<Longrightarrow> P s'"
  shows "returns (for_each body is s)"
  using assms
proof (induction "is" arbitrary: s)
  case (Cons i "is")
  then have "returns (body i s)" by simp
  moreover have "returns (for_each body is s')" if "body i s = Ok s'" for s'
    using Cons.IH [of s'] Cons.prems that by (meson list.set_intros)
  ultimately show ?case by (simp add: go_outcome)
qed simp

lemma fold_append_concat: "fold (\<lambda>i acc. acc @ f i) xs acc = acc @ concat (map f xs)"
  by (induction xs arbitrary: acc) auto

lemma fold_snoc_map: "fold (\<lambda>i acc. acc @ [f i]) xs acc = acc @ map f xs"
  by (induction xs arbitrary: acc) auto

text \<open>A buffer of \<open>n\<close> zero bytes after a read has put \<open>got\<close> at its front.\<close>

definition into_buf :: "nat \<Rightarrow> bytes \<Rightarrow> bytes" where
  "into_buf n got = take n got @ replicate (n - length got) 0"

lemma length_into_buf [simp]: "length (into_buf n got) = n"
  by (simp add: into_buf_def)

lemma into_buf_full [simp]: "length got = n \<Longrightarrow> into_buf n got = got"
  by (simp add: into_buf_def)

text \<open>\<open>sort.Search\<close>: the library's binary search.\<close>

function search_between :: "nat \<Rightarrow> nat \<Rightarrow> (nat \<Rightarrow> bool) \<Rightarrow> nat" where
  "search_between i j f =
     (if i < j then
        let h = (i + j) div 2
        in if \<not> f h then search_between (h + 1) j f else search_between i h f
      else i)"
  by pat_completeness auto
termination
  by (relation "measure (\<lambda>(i, j, _). j - i)") (auto simp: Let_def)

declare search_between.simps [simp del]

definition sort_Search :: "nat \<Rightarrow> (nat \<Rightarrow> bool) \<Rightarrow> nat" where
  "sort_Search n f = search_between 0 n f"

lemma search_between_bounds: "i \<le> j \<Longrightarrow> i \<le> search_between i j f \<and> search_between i j f \<le> j"
proof (induction i j f rule: search_between.induct)
  case (1 i j f)
  show ?case
  proof (cases "i < j")
    case True
    with 1 show ?thesis
      by (subst (1 2) search_between.simps) (force simp: Let_def)
  qed (use 1 in \<open>simp add: search_between.simps\<close>)
qed

text \<open>On a predicate that stays true it is the least index where it holds.\<close>

lemma search_between_least:
  assumes "i \<le> j" and "\<And>a b. a \<le> b \<Longrightarrow> b < j \<Longrightarrow> f a \<Longrightarrow> f b" and "\<And>a. a < i \<Longrightarrow> \<not> f a"
  shows "(\<forall>a < search_between i j f. \<not> f a) \<and>
    (\<forall>a. search_between i j f \<le> a \<and> a < j \<longrightarrow> f a)"
  using assms
proof (induction i j f rule: search_between.induct)
  case (1 i j f)
  show ?case
  proof (cases "i < j")
    case False
    then have "search_between i j f = i" by (simp add: search_between.simps [of i j])
    with False "1.prems" show ?thesis by simp
  next
    case True
    let ?h = "(i + j) div 2"
    have h: "i \<le> ?h" "?h < j" using True by auto
    show ?thesis
    proof (cases "f ?h")
      case True
      then have "(\<forall>a < search_between i ?h f. \<not> f a) \<and>
          (\<forall>a. search_between i ?h f \<le> a \<and> a < ?h \<longrightarrow> f a)"
        by (intro "1.IH"(2) [OF \<open>i < j\<close> refl]) (use "1.prems" h less_trans in \<open>blast+\<close>)
      moreover have "search_between i j f = search_between i ?h f"
        using True \<open>i < j\<close> by (subst search_between.simps) (simp add: Let_def)
      moreover have "f a" if "?h \<le> a" "a < j" for a using that "1.prems"(2) True by blast
      ultimately show ?thesis using not_le by simp blast
    next
      case False
      then have "\<not> f a" if "a < ?h + 1" for a
        using that "1.prems"(2) [of a ?h] h by auto
      with False have "(\<forall>a < search_between (?h + 1) j f. \<not> f a) \<and>
          (\<forall>a. search_between (?h + 1) j f \<le> a \<and> a < j \<longrightarrow> f a)"
        by (intro "1.IH"(1) [OF \<open>i < j\<close> refl]) (use "1.prems" h in \<open>auto simp: Suc_le_eq\<close>)
      moreover have "search_between i j f = search_between (?h + 1) j f"
        using False \<open>i < j\<close> by (subst search_between.simps) (simp add: Let_def)
      ultimately show ?thesis by simp
    qed
  qed
qed

lemma sort_Search_le: "sort_Search n f \<le> n"
  using search_between_bounds [of 0 n f] by (simp add: sort_Search_def)

lemma sort_Search_least:
  assumes "\<And>a b. a \<le> b \<Longrightarrow> b < n \<Longrightarrow> f a \<Longrightarrow> f b"
  shows "\<And>a. a < sort_Search n f \<Longrightarrow> \<not> f a" and "\<And>a. sort_Search n f \<le> a \<Longrightarrow> a < n \<Longrightarrow> f a"
  using search_between_least [of 0 n f] assms by (auto simp: sort_Search_def)

section \<open>Fixed-size records back to back\<close>

lemma take_drop_concat:
  assumes "\<forall>x \<in> set xs. length x = k" and "i < length xs"
  shows "take k (drop (k * i) (concat xs)) = xs ! i"
  using assms
proof (induction xs arbitrary: i)
  case (Cons x xs)
  then show ?case by (cases i) auto
qed simp

lemma length_concat_same: "\<forall>x \<in> set xs. length x = k \<Longrightarrow> length (concat xs) = k * length xs"
  by (induction xs) auto

lemma nth_concat_same:
  assumes "\<forall>x \<in> set xs. length x = k" and "i < length xs" and "j < k"
  shows "concat xs ! (k * i + j) = xs ! i ! j"
proof -
  have "k * i + k \<le> k * length xs" using assms(2) by (metis Suc_leI mult_Suc_right mult_le_mono2 add.commute)
  with assms length_concat_same [OF assms(1)] have "concat xs ! (k * i + j) = take k (drop (k * i) (concat xs)) ! j"
    by simp
  with take_drop_concat [OF assms(1,2)] show ?thesis by simp
qed

text \<open>A 32-bit field at an offset, when it is there, and in a slot of a table.\<close>

definition word_at :: "bytes \<Rightarrow> nat \<Rightarrow> u32" where
  "word_at b off = be32 (b ! off) (b ! (off + 1)) (b ! (off + 2)) (b ! (off + 3))"

lemma uint32_at_word: "off + 4 \<le> length b \<Longrightarrow> uint32_at b off = Ok (word_at b off)"
  by (simp add: word_at_def)

lemma word_at_put32 [simp]: "word_at (pre @ put32 v @ post) (length pre) = v"
  by (simp add: word_at_def put32_def nth_append be32_put32)

lemma get64_at: "get64 (word_at (pre @ put64 v @ post) (length pre)) (word_at (pre @ put64 v @ post) (length pre + 4)) = v"
  using word_at_put32 [of pre "ucast (drop_bit 32 v)" "put32 (ucast v) @ post"]
    word_at_put32 [of "pre @ put32 (ucast (drop_bit 32 v))" "ucast v" post]
  by (simp add: put64_def get64_split)

lemma put64_get64: "put64 (get64 a b) = put32 a @ put32 b"
proof -
  have "ucast (drop_bit 32 (get64 a b)) = a" "ucast (get64 a b) = b"
    by (rule bit_word_eqI, auto simp: get64_def bit_simps dest: bit_imp_le_length)+
  then show ?thesis by (simp add: put64_def)
qed

lemma drop_word_at: "i + 4 \<le> length b \<Longrightarrow> drop i b = put32 (word_at b i) @ drop (i + 4) b"
  by (simp add: word_at_def put32_be32 Cons_nth_drop_Suc numeral_eq_Suc)

lemma word_at_slot:
  assumes "\<forall>x \<in> set xs. length x = k" and "i < length xs" and "j + 4 \<le> k"
  shows "word_at (pre @ concat xs @ post) (length pre + (k * i + j)) = word_at (xs ! i) j"
proof -
  have "k * i + k \<le> length (concat xs)"
    using assms(2) length_concat_same [OF assms(1)] by (metis Suc_leI mult_Suc_right mult_le_mono2 add.commute)
  then have "(pre @ concat xs @ post) ! (length pre + (k * i + j) + m) = xs ! i ! (j + m)" if "m < 4" for m
    using that assms nth_concat_same [OF assms(1,2), of "j + m"] by (simp add: nth_append add.assoc)
  from this [of 0] this [of 1] this [of 2] this [of 3] show ?thesis by (simp add: word_at_def)
qed

lemma slot_at:
  assumes "\<forall>x \<in> set xs. length x = k" and "i < length xs" and "j \<le> k"
  shows "take j (drop (length pre + k * i) (pre @ concat xs @ post)) = take j (xs ! i)"
proof -
  have "k * i + k \<le> length (concat xs)"
    using assms(2) length_concat_same [OF assms(1)] by (metis Suc_leI mult_Suc_right mult_le_mono2 add.commute)
  then have "take j (drop (length pre + k * i) (pre @ concat xs @ post)) = take j (take k (drop (k * i) (concat xs)))"
    using assms(3) by (simp add: min_absorb1)
  then show ?thesis using take_drop_concat [OF assms(1,2)] by simp
qed

definition half_at :: "bytes \<Rightarrow> nat \<Rightarrow> u16" where
  "half_at b off = be16 (b ! off) (b ! (off + 1))"

lemma uint16_at_half: "off + 2 \<le> length b \<Longrightarrow> uint16_at b off = Ok (half_at b off)"
  by (simp add: half_at_def)

lemma half_at_put16 [simp]: "half_at (pre @ put16 v @ post) (length pre) = v"
  using be16_put16 [of v] by (simp add: half_at_def put16_def nth_append)

end
