(* ===== verification/Unixpack.thy ===== *)
theory Unixpack
  imports Go_Prelude
begin

text \<open>
  Package unixpack (src/unixpack/reader.go): the reader of System V pack(1)
  data. \<open>pack_reader\<close> is the struct \<open>reader\<close>; \<open>pack_NewReader\<close>,
  \<open>pack_decode\<close> and \<open>pack_Read\<close> are NewReader, decode and Read. Go's int is
  \<open>nat\<close>: no value here is ever negative and the invariant bounds them all far
  below 2^63.
\<close>

section \<open>Model\<close>

datatype pack_reason =
    PackShortHeader | PackBadMagic | InsaneLevels | CountsTruncated | BadSymbolTable
  | SymbolsTruncated | PrematureEOF | FileCorrupt

datatype pack_error = PackCorrupt pack_reason | PackIO io_error

definition htreeMaxLevel :: nat where
  "htreeMaxLevel = 24"

definition packHeaderLength :: nat where
  "packHeaderLength = 7"

definition pack_Magic :: bytes where
  "pack_Magic = [0x1f, 0x1e]"

definition IsPacked :: "bytes \<Rightarrow> bool" where
  "IsPacked b \<longleftrightarrow> length b \<ge> length pack_Magic \<and> b ! 0 = pack_Magic ! 0 \<and> b ! 1 = pack_Magic ! 1"

record pack_reader =
  fpIn :: src
  pack_err :: "pack_error option"
  treeLevels :: nat
  symbolsIn :: "nat list"
  inodesIn :: "nat list"
  symbol :: bytes
  symbolEOB :: nat
  tree :: "nat list"
  uncompressedSize :: nat
  bytesOut :: nat
  thisLevel :: nat
  thisCode :: nat
  thisByte :: byte
  bitsLeft :: nat

definition truncated :: "pack_reason \<Rightarrow> io_error \<Rightarrow> pack_error" where
  "truncated what err = (if err = EOF then PackCorrupt what else PackIO err)"

text \<open>The loop that reads the per-level symbol counts and totals them.\<close>

function read_counts :: "nat \<Rightarrow> nat \<Rightarrow> src \<Rightarrow> nat list \<Rightarrow> nat \<Rightarrow>
    (pack_error, src \<times> nat list \<times> nat) outcome" where
  "read_counts i deepest s cnts symbolSize =
     (if deepest < i then Ok (s, cnts, symbolSize)
      else
        and_then (wrap_err (truncated CountsTruncated) (read_byte s)) (\<lambda>(b, s').
        and_then (set_go cnts i (unat b)) (\<lambda>cnts'.
        read_counts (Suc i) deepest s' cnts' (symbolSize + unat b))))"
  by pat_completeness auto
termination
  by (relation "measure (\<lambda>(i, deepest, _). Suc deepest - i)") auto

text \<open>
  The inner loop of the symbol table: \<open>n\<close> more symbols of one level go to
  \<open>symbol[eob]\<close>, \<open>symbol[eob+1]\<close>, and so on.
\<close>

fun read_level :: "nat \<Rightarrow> src \<Rightarrow> bytes \<Rightarrow> nat \<Rightarrow> (pack_error, src \<times> bytes \<times> nat) outcome" where
  "read_level 0 s syms eob = Ok (s, syms, eob)"
| "read_level (Suc n) s syms eob =
     and_then (wrap_err (truncated SymbolsTruncated) (read_byte s)) (\<lambda>(b, s').
     and_then (set_go syms eob b) (\<lambda>syms'.
     read_level n s' syms' (Suc eob)))"

text \<open>The outer loop: \<open>tree[i]\<close> is the index of level \<open>i\<close>'s first symbol.\<close>

function read_symbols :: "nat \<Rightarrow> nat \<Rightarrow> nat list \<Rightarrow> src \<Rightarrow> nat list \<Rightarrow> bytes \<Rightarrow> nat \<Rightarrow>
    (pack_error, src \<times> nat list \<times> bytes \<times> nat) outcome" where
  "read_symbols i deepest cnts s tr syms eob =
     (if deepest < i then Ok (s, tr, syms, eob)
      else
        and_then (set_go tr i eob) (\<lambda>tr'.
        and_then (nth_go cnts i) (\<lambda>n.
        and_then (read_level n s syms eob) (\<lambda>(s', syms', eob').
        read_symbols (Suc i) deepest cnts s' tr' syms' eob'))))"
  by pat_completeness auto
termination
  by (relation "measure (\<lambda>(i, deepest, _). Suc deepest - i)") auto

text \<open>
  The loop \<open>for level := treeLevels - 1; level >= 0; level--\<close>, here with
  \<open>n\<close> levels to go.
\<close>

fun count_inodes :: "nat \<Rightarrow> nat list \<Rightarrow> nat list \<Rightarrow> nat list" where
  "count_inodes 0 cnts ins = ins"
| "count_inodes (Suc n) cnts ins =
     count_inodes n cnts (ins[n := (ins ! (n + 1) + cnts ! (n + 1)) div 2])"

definition pack_NewReader :: "src \<Rightarrow> (pack_error, pack_reader) outcome" where
  "pack_NewReader r =
     (let (hdr, e, s) = read_full packHeaderLength r in
      case e of
        Some err \<Rightarrow>
          if err = EOF \<or> err = UnexpectedEOF then Err (PackCorrupt PackShortHeader)
          else Err (PackIO err)
      | None \<Rightarrow>
        if \<not> IsPacked hdr then Err (PackCorrupt PackBadMagic)
        else
          let size = fold (\<lambda>i acc. acc * 256 + unat (hdr ! i)) [2, 3, 4, 5] 0;
              levels = unat (hdr ! 6)
          in if levels > htreeMaxLevel \<or> levels < 1 then Err (PackCorrupt InsaneLevels)
          else
            let deepest = levels - 1; zeros = replicate htreeMaxLevel 0 in
            and_then (read_counts 0 deepest s zeros 1) (\<lambda>(s, cnts, symbolSize).
            if symbolSize > 256 then Err (PackCorrupt BadSymbolTable)
            else
              let cnts = cnts[deepest := cnts ! deepest + 1] in
              and_then (read_symbols 0 deepest cnts s zeros (replicate (symbolSize + 1) 0) 0)
                (\<lambda>(s, tr, syms, eob).
              let cnts = cnts[deepest := cnts ! deepest + 1] in
              Ok \<lparr>fpIn = s, pack_err = None, treeLevels = deepest, symbolsIn = cnts,
                  inodesIn = count_inodes deepest cnts zeros, symbol = syms, symbolEOB = eob,
                  tree = tr, uncompressedSize = size, bytesOut = 0, thisLevel = 0,
                  thisCode = 0, thisByte = 0, bitsLeft = 0\<rparr>)))"

text \<open>
  The head of decode's loop: a new byte when none of \<open>thisByte\<close>'s bits is left,
  then the next bit of it, most significant first, into \<open>thisCode\<close>.
\<close>

definition pack_fetch :: "pack_reader \<Rightarrow> (pack_error, pack_reader) outcome" where
  "pack_fetch z =
     (if bitsLeft z = 0 then
        (case read_byte (fpIn z) of
           Ok (b, s) \<Rightarrow> Ok (z\<lparr>fpIn := s, thisByte := b, bitsLeft := 8\<rparr>)
         | Err e \<Rightarrow>
             if e = EOF then
               if bytesOut z \<noteq> uncompressedSize z then Err (PackCorrupt PrematureEOF)
               else Err (PackIO EOF)
             else Err (PackIO e)
         | Panic \<Rightarrow> Panic
         | Diverge \<Rightarrow> Diverge)
      else Ok z)"

definition pack_shift :: "pack_reader \<Rightarrow> pack_reader" where
  "pack_shift z =
     (let left = bitsLeft z - 1
      in z\<lparr>bitsLeft := left,
           thisCode := 2 * thisCode z + of_bool (bit (thisByte z) left)\<rparr>)"

definition pack_meas :: "pack_reader \<Rightarrow> nat" where
  "pack_meas z = 8 * length (pending (fpIn z)) + bitsLeft z"

lemma pack_fetch_shift_less:
  "pack_fetch z = Ok z1 \<Longrightarrow> pack_meas (pack_shift z1) < pack_meas z"
  by (auto simp: pack_fetch_def pack_shift_def pack_meas_def Let_def read_byte_def
      split: if_splits outcome.splits list.splits)

function pack_decode :: "pack_reader \<Rightarrow> (pack_error, byte \<times> pack_reader) outcome" where
  "pack_decode z =
     and_then (pack_fetch z) (\<lambda>z1.
     let z2 = pack_shift z1 in
     and_then (nth_go (inodesIn z2) (thisLevel z2)) (\<lambda>inodes.
     if thisCode z2 \<ge> inodes then
       let inLevelIndex = thisCode z2 - inodes in
       and_then (nth_go (symbolsIn z2) (thisLevel z2)) (\<lambda>symbols.
       if inLevelIndex > symbols then Err (PackCorrupt FileCorrupt)
       else
         and_then (nth_go (tree z2) (thisLevel z2)) (\<lambda>base.
         let thisSymbol = base + inLevelIndex in
         if thisSymbol = symbolEOB z2 \<and> bytesOut z2 = uncompressedSize z2 then Err (PackIO EOF)
         else
           let z3 = z2\<lparr>bytesOut := bytesOut z2 + 1, thisLevel := 0, thisCode := 0\<rparr> in
           and_then (nth_go (symbol z3) thisSymbol) (\<lambda>b. Ok (b, z3))))
     else
       let z3 = z2\<lparr>thisLevel := thisLevel z2 + 1\<rparr> in
       if thisLevel z3 > treeLevels z3 then Err (PackCorrupt FileCorrupt)
       else pack_decode z3))"
  by pat_completeness auto
termination
  by (relation "measure pack_meas")
     (auto simp: Let_def pack_meas_def dest!: pack_fetch_shift_less)

declare read_counts.simps [simp del] read_symbols.simps [simp del] pack_decode.simps [simp del]

text \<open>
  \<open>Read\<close> decodes until the buffer is full or an error sticks. What decode left
  in the reader besides the error is not observable once \<open>z.err\<close> is set.
\<close>

fun pack_read_loop :: "nat \<Rightarrow> pack_reader \<Rightarrow> (pack_error, bytes \<times> pack_reader) outcome" where
  "pack_read_loop 0 z = Ok ([], z)"
| "pack_read_loop (Suc n) z =
     (case pack_err z of
        Some e \<Rightarrow> Ok ([], z)
      | None \<Rightarrow>
          (case pack_decode z of
             Ok (b, z') \<Rightarrow> and_then (pack_read_loop n z') (\<lambda>(bs, z''). Ok (b # bs, z''))
           | Err e \<Rightarrow> Ok ([], z\<lparr>pack_err := Some e\<rparr>)
           | Panic \<Rightarrow> Panic
           | Diverge \<Rightarrow> Diverge))"

definition pack_Read :: "nat \<Rightarrow> pack_reader \<Rightarrow>
    (pack_error, bytes \<times> pack_error option \<times> pack_reader) outcome" where
  "pack_Read n z =
     and_then (pack_read_loop n z) (\<lambda>(bs, z').
       Ok (bs, if bs \<noteq> [] then None else pack_err z', z'))"

section \<open>The invariant of a reader\<close>

text \<open>
  The tables: level \<open>l\<close>'s symbols occupy \<open>symbol[tree[l] ..]\<close>, levels back to
  back, the last level's one longer than the table for the end-of-block symbol,
  and the internal nodes of a level are half of everything one level down. The
  position: how deep decode is and which internal node it is at.
\<close>

definition pack_tables :: "pack_reader \<Rightarrow> bool" where
  "pack_tables z \<longleftrightarrow>
     length (symbolsIn z) = 24 \<and> length (inodesIn z) = 24 \<and> length (tree z) = 24 \<and>
     treeLevels z < 24 \<and> length (symbol z) = symbolEOB z + 1 \<and>
     tree z ! 0 = 0 \<and>
     (\<forall>l < treeLevels z. tree z ! Suc l = tree z ! l + symbolsIn z ! l) \<and>
     tree z ! treeLevels z + symbolsIn z ! treeLevels z = symbolEOB z + 1 \<and>
     2 \<le> symbolsIn z ! treeLevels z \<and>
     inodesIn z ! treeLevels z = 0 \<and>
     (\<forall>l < treeLevels z. inodesIn z ! l = (inodesIn z ! Suc l + symbolsIn z ! Suc l) div 2)"

definition pack_position :: "pack_reader \<Rightarrow> bool" where
  "pack_position z \<longleftrightarrow> thisLevel z \<le> treeLevels z \<and> bitsLeft z \<le> 8 \<and>
     (case thisLevel z of 0 \<Rightarrow> thisCode z = 0 | Suc j \<Rightarrow> thisCode z < inodesIn z ! j)"

definition pack_inv :: "pack_reader \<Rightarrow> bool" where
  "pack_inv z \<longleftrightarrow> pack_tables z \<and> pack_position z"

subsection \<open>NewReader establishes it\<close>

lemma sum_from_Suc: "i \<le> d \<Longrightarrow> (\<Sum>k = i..d. f k) = (f i :: nat) + (\<Sum>k = Suc i..d. f k)"
  by (simp add: sum.atLeast_Suc_atMost)

lemma read_counts_Ok:
  assumes "read_counts i d s cnts n = Ok (s', cnts', n')" and "d < length cnts"
  shows "length cnts' = length cnts \<and> (\<forall>k. k < i \<or> d < k \<longrightarrow> cnts' ! k = cnts ! k) \<and>
    n' = n + (\<Sum>k = i..d. cnts' ! k)"
  using assms
proof (induction i d s cnts n arbitrary: s' cnts' n' rule: read_counts.induct)
  case (1 i d s cnts n)
  show ?case
  proof (cases "d < i")
    case True
    with "1.prems" show ?thesis by (simp add: read_counts.simps [of i])
  next
    case False
    with "1.prems" obtain b s1 where b: "read_byte s = Ok (b, s1)"
      and rest: "read_counts (Suc i) d s1 (cnts[i := unat b]) (n + unat b) = Ok (s', cnts', n')"
      by (subst (asm) read_counts.simps) (auto simp: go_outcome)
    from "1.IH" [OF False, of "(b, s1)" b s1 "cnts[i := unat b]"] b rest "1.prems" False
    have "length cnts' = length cnts \<and>
        (\<forall>k. k < Suc i \<or> d < k \<longrightarrow> cnts' ! k = cnts[i := unat b] ! k) \<and>
        n' = n + unat b + (\<Sum>k = Suc i..d. cnts' ! k)"
      by simp
    with False "1.prems"(2) show ?thesis
      by (auto simp: sum_from_Suc)
  qed
qed

lemma read_counts_returns: "d < length cnts \<Longrightarrow> returns (read_counts i d s cnts n)"
proof (induction i d s cnts n rule: read_counts.induct)
  case (1 i d s cnts n)
  then show ?case
    by (subst read_counts.simps) (auto simp: go_outcome set_go_def)
qed

lemma read_level_Ok:
  "read_level n s syms eob = Ok (s', syms', eob') \<Longrightarrow>
     length syms' = length syms \<and> eob' = eob + n \<and> (eob \<le> length syms \<longrightarrow> eob' \<le> length syms)"
proof (induction n arbitrary: s syms eob)
  case (Suc n)
  then show ?case by (fastforce simp: go_outcome)
qed simp

lemma read_level_returns: "eob + n \<le> length syms \<Longrightarrow> returns (read_level n s syms eob)"
  by (induction n arbitrary: s syms eob) (auto simp: go_outcome set_go_def)

lemma read_symbols_Ok:
  assumes "read_symbols i d cnts s tr syms eob = Ok (s', tr', syms', eob')"
    and "d < length tr" and "i \<le> Suc d"
  shows "length tr' = length tr \<and> length syms' = length syms \<and>
    eob' = eob + (\<Sum>k = i..d. cnts ! k) \<and> (\<forall>k < i. tr' ! k = tr ! k) \<and>
    (\<forall>k. i \<le> k \<and> k \<le> d \<longrightarrow> tr' ! k = eob + (\<Sum>j = i..<k. cnts ! j))"
  using assms
proof (induction i d cnts s tr syms eob rule: read_symbols.induct)
  case (1 i d cnts s tr syms eob)
  show ?case
  proof (cases "d < i")
    case True
    with "1.prems" show ?thesis by (simp add: read_symbols.simps [of i])
  next
    case False
    with "1.prems"(1) obtain s1 syms1 eob1 where
      lv: "read_level (cnts ! i) s syms eob = Ok (s1, syms1, eob1)" and len: "i < length cnts"
      and rest: "read_symbols (Suc i) d cnts s1 (tr[i := eob]) syms1 eob1 = Ok (s', tr', syms', eob')"
      by (subst (asm) read_symbols.simps) (auto simp: go_outcome)
    from "1.IH" [OF False, of "tr[i := eob]" "cnts ! i" "(s1, syms1, eob1)" s1 "(syms1, eob1)" syms1 eob1]
      lv len rest "1.prems" False read_level_Ok [OF lv]
    have IH: "length tr' = length tr" "length syms' = length syms"
        "eob' = eob + cnts ! i + (\<Sum>k = Suc i..d. cnts ! k)"
        "\<forall>k < Suc i. tr' ! k = tr[i := eob] ! k"
        "\<forall>k. Suc i \<le> k \<and> k \<le> d \<longrightarrow> tr' ! k = eob + cnts ! i + (\<Sum>j = Suc i..<k. cnts ! j)"
      by auto
    have "tr' ! k = eob + (\<Sum>j = i..<k. cnts ! j)" if "i \<le> k" "k \<le> d" for k
    proof (cases "k = i")
      case True
      with IH(4) False "1.prems"(2) show ?thesis by simp
    next
      case False
      with that IH(5) show ?thesis by (simp add: sum.atLeast_Suc_lessThan)
    qed
    with IH False "1.prems"(2) show ?thesis
      by (auto simp: sum_from_Suc)
  qed
qed

lemma read_symbols_returns:
  assumes "d < length tr" and "d < length cnts" and "i \<le> Suc d"
    and "eob + (\<Sum>k = i..d. cnts ! k) \<le> length syms"
  shows "returns (read_symbols i d cnts s tr syms eob)"
  using assms
proof (induction i d cnts s tr syms eob rule: read_symbols.induct)
  case (1 i d cnts s tr syms eob)
  have "returns (read_symbols (Suc i) d cnts s1 (tr[i := eob]) syms1 eob1)"
    if "\<not> d < i" and lv: "read_level (cnts ! i) s syms eob = Ok (s1, syms1, eob1)" for s1 syms1 eob1
    using "1.IH" [OF that(1), of "tr[i := eob]" "cnts ! i" "(s1, syms1, eob1)" s1 "(syms1, eob1)"]
      "1.prems" that read_level_Ok [OF lv] by (simp add: sum_from_Suc)
  with "1.prems" show ?case
    by (subst read_symbols.simps) (auto simp: go_outcome sum_from_Suc intro!: read_level_returns)
qed

lemma count_inodes_Ok:
  assumes "n < length ins"
  shows "length (count_inodes n cnts ins) = length ins \<and>
    (\<forall>k. n \<le> k \<longrightarrow> count_inodes n cnts ins ! k = ins ! k) \<and>
    (\<forall>k < n. count_inodes n cnts ins ! k =
       (count_inodes n cnts ins ! Suc k + cnts ! Suc k) div 2)"
  using assms
proof (induction n arbitrary: ins)
  case (Suc n)
  let ?ins = "ins[n := (ins ! (n + 1) + cnts ! (n + 1)) div 2]"
  from Suc.IH [of ?ins] Suc.prems show ?case
    by (auto simp: less_Suc_eq)
qed simp

lemma sum_bump_nth:
  assumes "d < length xs"
  shows "(\<Sum>k = 0..d. xs[d := xs ! d + c] ! k) = (\<Sum>k = 0..d. xs ! k) + (c :: nat)"
proof -
  have "(\<Sum>k = 0..d. xs[d := xs ! d + c] ! k) = (\<Sum>k \<in> {0..d}. xs ! k + (if k = d then c else 0))"
    by (rule sum.cong) (use assms in auto)
  also have "\<dots> = (\<Sum>k = 0..d. xs ! k) + c"
    by (simp add: sum.distrib)
  finally show ?thesis .
qed

lemma sum_upto_last: "(\<Sum>k = 0..(d :: nat). f k) = (\<Sum>k = 0..<d. f k) + (f d :: nat)"
  by (simp flip: atLeastLessThanSuc_atLeastAtMost)

text \<open>What a successful NewReader has read and built.\<close>

lemma pack_NewReader_Ok:
  assumes "pack_NewReader r = Ok z"
  obtains hdr s d s1 cnts n s2 tr syms eob where
    "read_full packHeaderLength r = (hdr, None, s)" and "IsPacked hdr"
    and "d + 1 = unat (hdr ! 6)" and "d < 24"
    and "read_counts 0 d s (replicate 24 0) 1 = Ok (s1, cnts, n)" and "n \<le> 256"
    and "read_symbols 0 d (cnts[d := cnts ! d + 1]) s1 (replicate 24 0) (replicate (n + 1) 0) 0
      = Ok (s2, tr, syms, eob)"
    and "z = \<lparr>fpIn = s2, pack_err = None, treeLevels = d, symbolsIn = cnts[d := cnts ! d + 2],
      inodesIn = count_inodes d (cnts[d := cnts ! d + 2]) (replicate 24 0), symbol = syms,
      symbolEOB = eob, tree = tr,
      uncompressedSize = fold (\<lambda>i acc. acc * 256 + unat (hdr ! i)) [2, 3, 4, 5] 0, bytesOut = 0,
      thisLevel = 0, thisCode = 0, thisByte = 0, bitsLeft = 0\<rparr>"
proof -
  obtain hdr e s where full: "read_full packHeaderLength r = (hdr, e, s)"
    by (cases "read_full packHeaderLength r") auto
  define d where "d = unat (hdr ! 6) - 1"
  from assms full have "e = None" "IsPacked hdr" and lv: "1 \<le> unat (hdr ! 6)" "unat (hdr ! 6) \<le> 24"
    by (auto simp: pack_NewReader_def htreeMaxLevel_def Let_def split: option.splits if_splits)
  with assms full obtain s1 cnts n s2 tr syms eob where
    c: "read_counts 0 d s (replicate 24 0) 1 = Ok (s1, cnts, n)" and n: "n \<le> 256"
    and y: "read_symbols 0 d (cnts[d := cnts ! d + 1]) s1 (replicate 24 0) (replicate (n + 1) 0) 0
      = Ok (s2, tr, syms, eob)"
    and z: "z = (let cnts = cnts[d := cnts ! d + 1]; cnts = cnts[d := cnts ! d + 1] in
      \<lparr>fpIn = s2, pack_err = None, treeLevels = d, symbolsIn = cnts,
       inodesIn = count_inodes d cnts (replicate 24 0), symbol = syms, symbolEOB = eob, tree = tr,
       uncompressedSize = fold (\<lambda>i acc. acc * 256 + unat (hdr ! i)) [2, 3, 4, 5] 0, bytesOut = 0,
       thisLevel = 0, thisCode = 0, thisByte = 0, bitsLeft = 0\<rparr>)"
    by (auto simp: pack_NewReader_def htreeMaxLevel_def Let_def go_outcome d_def
        simp del: fold_simps split: option.splits if_splits)
  from lv have "d < 24" "d + 1 = unat (hdr ! 6)" by (auto simp: d_def)
  moreover have "d < length cnts" using read_counts_Ok [OF c] \<open>d < 24\<close> by simp
  ultimately show ?thesis
    using that full \<open>e = None\<close> \<open>IsPacked hdr\<close> c n y z by (simp add: Let_def)
qed

lemma pack_NewReader_inv:
  assumes "pack_NewReader r = Ok z"
  shows "pack_inv z \<and> pack_err z = None"
proof -
  from assms obtain hdr :: bytes and s d s1 cnts n s2 tr syms eob where
    d: "d < 24" and c: "read_counts 0 d s (replicate 24 0) 1 = Ok (s1, cnts, n)"
    and y: "read_symbols 0 d (cnts[d := cnts ! d + 1]) s1 (replicate 24 0) (replicate (n + 1) 0) 0
      = Ok (s2, tr, syms, eob)"
    and z: "z = \<lparr>fpIn = s2, pack_err = None, treeLevels = d, symbolsIn = cnts[d := cnts ! d + 2],
      inodesIn = count_inodes d (cnts[d := cnts ! d + 2]) (replicate 24 0), symbol = syms,
      symbolEOB = eob, tree = tr,
      uncompressedSize = fold (\<lambda>i acc. acc * 256 + unat (hdr ! i)) [2, 3, 4, 5] 0, bytesOut = 0,
      thisLevel = 0, thisCode = 0, thisByte = 0, bitsLeft = 0\<rparr>"
    by (rule pack_NewReader_Ok) blast
  from read_counts_Ok [OF c] d have C: "length cnts = 24" "n = 1 + (\<Sum>k = 0..d. cnts ! k)"
    by auto
  from read_symbols_Ok [OF y] d C sum_bump_nth [of d cnts 1] have Y: "length tr = 24" "length syms = n + 1"
      "eob = (\<Sum>k = 0..d. cnts ! k) + 1"
      "\<And>k. k \<le> d \<Longrightarrow> tr ! k = (\<Sum>j = 0..<k. cnts ! j)"
    by auto
  from count_inodes_Ok [of d "replicate 24 0" "cnts[d := cnts ! d + 2]"] d C Y show ?thesis
    by (auto simp: z pack_inv_def pack_tables_def pack_position_def sum_upto_last)
qed

text \<open>
  Whatever bytes it is given, NewReader returns: it never indexes past a table.
\<close>

lemma pack_NewReader_returns: "returns (pack_NewReader r)"
proof -
  have "returns (read_symbols 0 d (cnts[d := Suc (cnts ! d)]) s1 (replicate 24 0) (replicate n 0 @ [0]) 0)"
    if "read_counts 0 d s (replicate 24 0) 1 = Ok (s1, cnts, n)" "d < 24" for d s s1 cnts n
    using that read_counts_Ok [OF that(1)] sum_bump_nth [of d cnts 1]
    by (intro read_symbols_returns) auto
  then show ?thesis
    by (auto simp: pack_NewReader_def htreeMaxLevel_def Let_def go_outcome replicate_app_Cons_same
        intro!: read_counts_returns split: option.splits prod.splits)
qed

subsection \<open>Decode keeps it\<close>

text \<open>What decode never changes: the tables, the stored length and the sticky error.\<close>

definition pack_frame :: "pack_reader \<Rightarrow> pack_reader \<Rightarrow> bool" where
  "pack_frame z z' \<longleftrightarrow>
     treeLevels z' = treeLevels z \<and> symbolsIn z' = symbolsIn z \<and> inodesIn z' = inodesIn z \<and>
     symbol z' = symbol z \<and> symbolEOB z' = symbolEOB z \<and> tree z' = tree z \<and>
     uncompressedSize z' = uncompressedSize z \<and> pack_err z' = pack_err z"

lemma pack_frame_tables: "pack_frame z z' \<Longrightarrow> pack_tables z' = pack_tables z"
  by (simp add: pack_frame_def pack_tables_def)

lemma pack_frame_trans: "pack_frame x y \<Longrightarrow> pack_frame y z \<Longrightarrow> pack_frame x z"
  by (simp add: pack_frame_def)

lemma tree_mono:
  assumes "pack_tables z" and "k \<le> l" and "l \<le> treeLevels z"
  shows "tree z ! k \<le> tree z ! l"
  using assms(2,3,1)
proof (induction l rule: dec_induct)
  case (step l)
  then show ?case by (auto simp: pack_tables_def)
qed simp

text \<open>
  The only index decode computes: a leaf of a level above the last may be one
  past the level's symbols, and at the last level the internal nodes one level
  up keep the code inside the level.
\<close>

lemma leaf_index:
  assumes "pack_tables z" and "l \<le> treeLevels z" and "i \<le> symbolsIn z ! l"
    and "l = treeLevels z \<Longrightarrow> i < symbolsIn z ! l"
  shows "tree z ! l + i < length (symbol z)"
proof (cases "l = treeLevels z")
  case True
  with assms show ?thesis by (auto simp: pack_tables_def)
next
  case False
  with assms have "tree z ! l + i \<le> tree z ! Suc l" by (auto simp: pack_tables_def)
  also have "\<dots> \<le> tree z ! treeLevels z"
    using assms False by (intro tree_mono) auto
  finally show ?thesis using assms(1) by (auto simp: pack_tables_def)
qed

lemma pack_fetch_Ok:
  assumes "pack_fetch z = Ok z1" and "pack_position z"
  shows "pack_frame z (pack_shift z1)" and "bytesOut (pack_shift z1) = bytesOut z"
    and "thisLevel (pack_shift z1) = thisLevel z" and "bitsLeft (pack_shift z1) \<le> 7"
    and "thisCode (pack_shift z1) \<le> 2 * thisCode z + 1"
  using assms
  by (auto simp: pack_fetch_def pack_shift_def pack_frame_def pack_position_def Let_def
      split: if_splits outcome.splits)

lemma pack_fetch_returns [simp]: "returns (pack_fetch z)"
  by (auto simp: pack_fetch_def read_byte_def split: list.splits)

lemma last_level_code:
  assumes "pack_inv z" and "thisLevel z = treeLevels z" and "c \<le> 2 * thisCode z + 1"
  shows "c < symbolsIn z ! treeLevels z"
proof (cases "treeLevels z")
  case 0
  with assms show ?thesis by (auto simp: pack_inv_def pack_tables_def pack_position_def)
next
  case (Suc j)
  with assms(1) have "inodesIn z ! j = symbolsIn z ! Suc j div 2"
    by (auto simp: pack_inv_def pack_tables_def)
  with assms Suc show ?thesis by (auto simp: pack_inv_def pack_position_def)
qed

text \<open>What one call of decode from \<open>z\<close> may do: return, and on success move on.\<close>

definition pack_progress :: "pack_reader \<Rightarrow> (pack_error, byte \<times> pack_reader) outcome \<Rightarrow> bool" where
  "pack_progress z r \<longleftrightarrow> returns r \<and>
    (\<forall>b z'. r = Ok (b, z') \<longrightarrow>
       pack_frame z z' \<and> pack_inv z' \<and> pack_meas z' < pack_meas z \<and>
       thisLevel z' = 0 \<and> thisCode z' = 0 \<and> bytesOut z' = bytesOut z + 1)"

lemma pack_progress_Err [simp]: "pack_progress z (Err e)"
  by (simp add: pack_progress_def)

lemma pack_progress_mono:
  "pack_progress y r \<Longrightarrow> pack_frame z y \<Longrightarrow> pack_meas y < pack_meas z \<Longrightarrow>
   bytesOut y = bytesOut z \<Longrightarrow> pack_progress z r"
  using pack_frame_trans by (fastforce simp: pack_progress_def)

text \<open>The branch of decode's loop that reaches a leaf.\<close>

lemma pack_leaf_progress:
  assumes "pack_tables z" and "pack_meas z < pack_meas y" and "bitsLeft z \<le> 8"
    and "pack_frame y z" and "bytesOut z = bytesOut y"
  shows "pack_progress y (Ok (b, z\<lparr>bytesOut := Suc (bytesOut y), thisLevel := 0, thisCode := 0\<rparr>))"
proof -
  let ?z = "z\<lparr>bytesOut := Suc (bytesOut y), thisLevel := 0, thisCode := 0\<rparr>"
  have frame: "pack_frame z ?z" by (simp add: pack_frame_def)
  then have "pack_tables ?z" using assms(1) pack_frame_tables by blast
  with assms frame pack_frame_trans [OF assms(4) frame] show ?thesis
    by (auto simp: pack_progress_def pack_inv_def pack_position_def pack_meas_def)
qed

lemma pack_decode_progress: "pack_inv z \<Longrightarrow> pack_progress z (pack_decode z)"
proof (induction z rule: pack_decode.induct)
  case (1 z)
  have tab: "pack_tables z" and pos: "pack_position z"
    using "1.prems" by (auto simp: pack_inv_def)
  show ?case
  proof (cases "pack_fetch z")
    case (Ok z1)
    define z2 where "z2 = pack_shift z1"
    note F = pack_fetch_Ok [OF Ok pos, folded z2_def]
    have less: "pack_meas z2 < pack_meas z"
      using pack_fetch_shift_less [OF Ok] by (simp add: z2_def)
    have lv: "thisLevel z \<le> treeLevels z" "thisLevel z < 24"
      using tab pos by (auto simp: pack_tables_def pack_position_def)
    have same [simp]: "inodesIn z2 = inodesIn z" "symbolsIn z2 = symbolsIn z" "tree z2 = tree z"
        "treeLevels z2 = treeLevels z" "symbol z2 = symbol z" "thisLevel z2 = thisLevel z"
        "length (inodesIn z) = 24" "length (symbolsIn z) = 24" "length (tree z) = 24"
      using F tab by (auto simp: pack_frame_def pack_tables_def)
    show ?thesis
    proof (cases "inodesIn z ! thisLevel z \<le> thisCode z2")
      case True
      have "tree z ! thisLevel z + (thisCode z2 - inodesIn z ! thisLevel z) < length (symbol z)"
        if "thisCode z2 - inodesIn z ! thisLevel z \<le> symbolsIn z ! thisLevel z"
        using leaf_index [OF tab lv(1) that] last_level_code [OF "1.prems" _ F(5)] by force
      with True Ok lv F less tab show ?thesis
        by (subst pack_decode.simps)
           (auto simp: z2_def [symmetric] Let_def pack_frame_tables intro!: pack_leaf_progress)
    next
      case False
      let ?z3 = "z2\<lparr>thisLevel := thisLevel z2 + 1\<rparr>"
      have frame: "pack_frame z ?z3" using F(1) by (simp add: pack_frame_def)
      have "pack_inv ?z3" if "thisLevel z < treeLevels z"
        using that False F(4) pack_frame_tables [OF frame] tab
        by (simp add: pack_inv_def pack_position_def)
      with "1.IH" [OF Ok z2_def _ _ refl, of "inodesIn z ! thisLevel z"] False lv
      have "pack_progress ?z3 (pack_decode ?z3)" if "thisLevel z < treeLevels z"
        using that by simp
      then have "pack_progress z (pack_decode ?z3)" if "thisLevel z < treeLevels z"
        using that frame less F(2) by (auto intro: pack_progress_mono simp: pack_meas_def)
      with False Ok lv show ?thesis
        by (subst pack_decode.simps) (simp add: z2_def [symmetric] Let_def)
    qed
  qed (use pack_fetch_returns [of z] in \<open>auto simp: pack_decode.simps [of z]\<close>)
qed

section \<open>Read as an io.Reader\<close>

text \<open>One byte of Read: the sticky error, or one decode.\<close>

definition pack_step :: "pack_reader \<Rightarrow> (pack_error, byte \<times> pack_reader) outcome" where
  "pack_step z = (case pack_err z of Some e \<Rightarrow> Err e | None \<Rightarrow> pack_decode z)"

lemma pack_step_None [simp]: "pack_err z = None \<Longrightarrow> pack_step z = pack_decode z"
  by (simp add: pack_step_def)

lemma pack_step_Some [simp]: "pack_err z = Some e \<Longrightarrow> pack_step z = Err e"
  by (simp add: pack_step_def)

interpretation pack_dec: byte_decoder pack_step pack_meas pack_inv
proof
  fix z b z'
  assume "pack_inv z"
  note P = pack_decode_progress [OF this, unfolded pack_progress_def]
  from P show "returns (pack_step z)"
    by (simp add: pack_step_def split: option.splits)
  assume "pack_step z = Ok (b, z')"
  with P show "pack_inv z'" "pack_meas z' < pack_meas z"
    by (auto simp: pack_step_def split: option.splits)
qed

abbreviation pack_stream :: "pack_reader \<Rightarrow> bytes" where
  "pack_stream \<equiv> stream_bytes pack_step pack_meas"

abbreviation pack_final :: "pack_reader \<Rightarrow> pack_error" where
  "pack_final \<equiv> stream_error pack_step pack_meas"

lemma pack_stuck: "pack_err z = Some e \<Longrightarrow> pack_stream z = [] \<and> pack_final z = e"
  using pack_dec.stream_Err [of z e] by simp

lemma pack_inv_err [simp]: "pack_inv (z\<lparr>pack_err := e\<rparr>) = pack_inv z"
  by (simp add: pack_inv_def pack_tables_def pack_position_def split: nat.split)

lemma pack_read_loop_stream:
  assumes "pack_inv z"
  shows "\<exists>bs z'. pack_read_loop n z = Ok (bs, z') \<and> pack_inv z' \<and> length bs \<le> n \<and>
    pack_stream z = bs @ pack_stream z' \<and> pack_final z' = pack_final z \<and>
    (length bs < n \<longrightarrow> pack_err z' \<noteq> None)"
  using assms
proof (induction n arbitrary: z)
  case (Suc n)
  show ?case
  proof (cases "pack_err z")
    case None
    from Suc.prems show ?thesis
    proof (cases rule: pack_dec.step_cases)
      case (byte b z1)
      from Suc.IH [OF byte(2)] obtain bs z' where
        "pack_read_loop n z1 = Ok (bs, z')" "pack_inv z'" "length bs \<le> n"
        "pack_stream z1 = bs @ pack_stream z'" "pack_final z' = pack_final z1"
        "length bs < n \<longrightarrow> pack_err z' \<noteq> None" by blast
      with pack_dec.stream_Ok [OF Suc.prems byte(1)] byte(1) None show ?thesis
        by simp
    next
      case (error e)
      with pack_dec.stream_Err [OF error] pack_stuck [of "z\<lparr>pack_err := Some e\<rparr>" e] None Suc.prems
      show ?thesis by simp
    qed
  qed (use Suc.prems in simp)
qed simp

interpretation pack_rd: go_reader pack_Read pack_stream pack_final pack_inv
proof (rule go_readerI)
  fix z n
  assume "pack_inv z"
  from pack_read_loop_stream [OF this, of n] obtain bs z' where
    "pack_read_loop n z = Ok (bs, z')" "pack_inv z'" "length bs \<le> n"
    "pack_stream z = bs @ pack_stream z'" "pack_final z' = pack_final z"
    "length bs < n \<longrightarrow> pack_err z' \<noteq> None" by blast
  then show "\<exists>b e z'. pack_Read n z = Ok (b, e, z') \<and> pack_inv z' \<and> length b \<le> n \<and>
      pack_stream z = b @ pack_stream z' \<and> pack_final z' = pack_final z \<and>
      (\<forall>err. e = Some err \<longrightarrow> err = pack_final z \<and> pack_stream z' = []) \<and>
      (0 < n \<and> e = None \<longrightarrow> b \<noteq> [])"
    using pack_stuck [of z'] by (auto simp: pack_Read_def)
qed

section \<open>Decoding is the inverse of canonical Huffman coding\<close>

text \<open>
  The bits a reader has still to consume, most significant bit of each byte
  first, and the \<open>n\<close> low bits of a number in that order.
\<close>

definition low_bits :: "nat \<Rightarrow> nat \<Rightarrow> bool list" where
  "low_bits n c = map (bit c) (rev [0..<n])"

definition byte_bits :: "byte \<Rightarrow> bool list" where
  "byte_bits b = map (bit b) (rev [0..<8])"

definition pack_bits :: "pack_reader \<Rightarrow> bool list" where
  "pack_bits z = map (bit (thisByte z)) (rev [0..<bitsLeft z]) @
     concat (map byte_bits (pending (fpIn z)))"

lemma low_bits_simps [simp]:
  "low_bits 0 c = []" "low_bits (Suc n) c = bit c n # low_bits n c"
  by (simp_all add: low_bits_def)

lemma div_pow2_Suc: "c div 2 ^ Suc n = c div 2 ^ n div (2 :: nat)"
  by (simp only: power_Suc2 div_mult2_eq)

lemma half_less: "even n \<Longrightarrow> a < n \<Longrightarrow> a div 2 < n div (2 :: nat)"
  by presburger

lemma shift_in_bit: "2 * (c div 2 ^ Suc n) + of_bool (bit c n) = c div (2 :: nat) ^ n"
proof -
  have "2 * (c div 2 ^ n div 2) + of_bool (odd (c div 2 ^ n)) = c div 2 ^ n"
    by (simp flip: mod_2_eq_odd)
  then show ?thesis by (simp only: div_pow2_Suc bit_iff_odd)
qed

lemma pack_bits_Cons:
  assumes "pack_bits z = x # xs"
  obtains z1 where "pack_fetch z = Ok z1"
    and "thisCode (pack_shift z1) = 2 * thisCode z + of_bool x" and "pack_bits (pack_shift z1) = xs"
proof (cases "bitsLeft z")
  case 0
  with assms obtain b bs where "pending (fpIn z) = b # bs"
    by (cases "pending (fpIn z)") (auto simp: pack_bits_def)
  with 0 assms show ?thesis
    by (intro that [of "z\<lparr>fpIn := (fpIn z)\<lparr>pending := bs\<rparr>, thisByte := b, bitsLeft := 8\<rparr>"])
       (auto simp: pack_fetch_def read_byte_def pack_shift_def pack_bits_def byte_bits_def
         upt_rec numeral_eq_Suc)
next
  case (Suc n)
  with assms show ?thesis
    by (intro that [of z]) (auto simp: pack_fetch_def pack_shift_def pack_bits_def Let_def)
qed

text \<open>
  A code table is decodable when every internal node has two children and at
  most two nodes hang off the root.
\<close>

definition pack_full :: "pack_reader \<Rightarrow> bool" where
  "pack_full z \<longleftrightarrow> inodesIn z ! 0 + symbolsIn z ! 0 \<le> 2 \<and>
     (\<forall>l < treeLevels z. even (inodesIn z ! Suc l + symbolsIn z ! Suc l))"

text \<open>The codeword of leaf \<open>i\<close> of level \<open>l\<close>: leaves come after the level's internal nodes.\<close>

definition pack_code :: "pack_reader \<Rightarrow> nat \<Rightarrow> nat \<Rightarrow> bool list" where
  "pack_code z l i = low_bits (Suc l) (inodesIn z ! l + i)"

lemma code_path:
  assumes "pack_tables z" and "pack_full z" and "l \<le> treeLevels z"
    and "c < inodesIn z ! l + symbolsIn z ! l"
  shows "j < l \<Longrightarrow> c div 2 ^ (l - j) < inodesIn z ! j" and "c div 2 ^ Suc l = 0"
proof -
  have step: "a div 2 < inodesIn z ! k" if "Suc k \<le> treeLevels z"
    "a < inodesIn z ! Suc k + symbolsIn z ! Suc k" for a k
  proof -
    have "even (inodesIn z ! Suc k + symbolsIn z ! Suc k)"
      and "inodesIn z ! k = (inodesIn z ! Suc k + symbolsIn z ! Suc k) div 2"
      using that assms(1,2) by (auto simp: pack_tables_def pack_full_def)
    with that(2) half_less show ?thesis by metis
  qed
  have path: "d \<le> l \<Longrightarrow> 0 < d \<Longrightarrow> c div 2 ^ d < inodesIn z ! (l - d)" for d
  proof (induction d)
    case (Suc d)
    have "c div 2 ^ d < inodesIn z ! (l - d) + symbolsIn z ! (l - d)"
      using Suc assms(4) by (cases "d = 0") (auto simp: trans_less_add1)
    then have "c div 2 ^ d div 2 < inodesIn z ! (l - Suc d)"
      using step [of "l - Suc d" "c div 2 ^ d"] Suc.prems assms(3) by (simp add: Suc_diff_Suc)
    then show ?case by (simp only: div_pow2_Suc)
  qed simp
  from path [of "l - j"] show "c div 2 ^ (l - j) < inodesIn z ! j" if "j < l"
    using that by simp
  have "c div 2 ^ l < inodesIn z ! 0 + symbolsIn z ! 0"
    using path [of l] assms(4) by (cases "l = 0") auto
  with assms(2) have "c div 2 ^ l < 2" by (simp add: pack_full_def)
  then show "c div 2 ^ Suc l = 0" by (simp only: div_pow2_Suc)
qed

text \<open>
  From an internal node on the path to a leaf, decode consumes the rest of the
  leaf's codeword. At the leaf, the end-of-block symbol ends the data when the
  stored length is reached, and every other symbol is handed out.
\<close>

lemma decode_codeword:
  assumes inv: "pack_inv z" and full: "pack_full z" and l: "l \<le> treeLevels z"
    and i: "i < symbolsIn z ! l"
    and lev: "thisLevel z + n = l" and code: "thisCode z = (inodesIn z ! l + i) div 2 ^ Suc n"
    and bits: "pack_bits z = low_bits (Suc n) (inodesIn z ! l + i) @ rest"
  shows "if tree z ! l + i = symbolEOB z \<and> bytesOut z = uncompressedSize z
    then pack_decode z = Err (PackIO EOF)
    else \<exists>z'. pack_decode z = Ok (symbol z ! (tree z ! l + i), z') \<and> pack_bits z' = rest"
  using inv full l i lev code bits
proof (induction n arbitrary: z)
  case 0
  let ?c = "inodesIn z ! l + i"
  have tab: "pack_tables z" and pos: "pack_position z" using "0.prems" by (auto simp: pack_inv_def)
  from "0.prems" obtain z1 where z1: "pack_fetch z = Ok z1"
    and c1: "thisCode (pack_shift z1) = ?c" and b1: "pack_bits (pack_shift z1) = rest"
    using shift_in_bit [of ?c 0] by (auto elim!: pack_bits_Cons)
  note F = pack_fetch_Ok [OF z1 pos]
  have "tree z ! l + i < length (symbol z)"
    using leaf_index [OF tab "0.prems"(3), of i] "0.prems"(4) by force
  with "0.prems" z1 c1 b1 F tab show ?case
    by (subst (1 2) pack_decode.simps)
       (auto simp: Let_def pack_frame_def pack_tables_def pack_bits_def)
next
  case (Suc n)
  let ?c = "inodesIn z ! l + i"
  have tab: "pack_tables z" and pos: "pack_position z" using Suc.prems by (auto simp: pack_inv_def)
  have "pack_bits z = bit ?c (Suc n) # low_bits (Suc n) ?c @ rest" using Suc.prems by simp
  then obtain z1 where z1: "pack_fetch z = Ok z1"
    and c1: "thisCode (pack_shift z1) = ?c div 2 ^ Suc n"
    and b1: "pack_bits (pack_shift z1) = low_bits (Suc n) ?c @ rest"
    using shift_in_bit [of ?c "Suc n"] Suc.prems(6) by (metis pack_bits_Cons)
  note F = pack_fetch_Ok [OF z1 pos]
  define z3 where "z3 = (pack_shift z1)\<lparr>thisLevel := Suc (thisLevel z)\<rparr>"
  have frame: "pack_frame z z3" using F by (simp add: z3_def pack_frame_def)
  have node: "?c div 2 ^ Suc n < inodesIn z ! thisLevel z"
    using code_path(1) [OF tab Suc.prems(2,3), of ?c "thisLevel z"] Suc.prems by auto
  have dec: "pack_decode z = pack_decode z3"
    using z1 c1 node F Suc.prems tab
    by (subst pack_decode.simps) (auto simp: Let_def z3_def pack_frame_def pack_tables_def)
  have same: "treeLevels z3 = treeLevels z" "inodesIn z3 = inodesIn z" "symbolsIn z3 = symbolsIn z"
      "tree z3 = tree z" "symbolEOB z3 = symbolEOB z" "uncompressedSize z3 = uncompressedSize z"
      "symbol z3 = symbol z" "bytesOut z3 = bytesOut z" "thisCode z3 = ?c div 2 ^ Suc n"
      "thisLevel z3 = Suc (thisLevel z)" "bitsLeft z3 \<le> 8" "pack_bits z3 = low_bits (Suc n) ?c @ rest"
    using frame F c1 b1 by (auto simp: pack_frame_def z3_def pack_bits_def)
  have "pack_inv z3"
    using pack_frame_tables [OF frame] tab node Suc.prems same
    by (auto simp: pack_inv_def pack_position_def)
  moreover have "pack_full z3" using Suc.prems(2) same by (simp add: pack_full_def)
  ultimately show ?case
    using Suc.IH [of z3] Suc.prems same dec by (simp split: if_splits)
qed

text \<open>
  A whole message: codewords of leaves other than the end-of-block symbol, as
  many as the stored length still asks for, then the end-of-block codeword.
\<close>

definition is_leaf :: "pack_reader \<Rightarrow> nat \<times> nat \<Rightarrow> bool" where
  "is_leaf z p \<longleftrightarrow> fst p \<le> treeLevels z \<and> snd p < symbolsIn z ! fst p"

definition leaf_symbol :: "pack_reader \<Rightarrow> nat \<times> nat \<Rightarrow> nat" where
  "leaf_symbol z p = tree z ! fst p + snd p"

lemma decode_leaf:
  assumes "pack_inv z" and "pack_full z" and "is_leaf z p" and "thisLevel z = 0"
    and "pack_bits z = pack_code z (fst p) (snd p) @ rest"
  shows "if leaf_symbol z p = symbolEOB z \<and> bytesOut z = uncompressedSize z
    then pack_decode z = Err (PackIO EOF)
    else \<exists>z'. pack_decode z = Ok (symbol z ! leaf_symbol z p, z') \<and> pack_bits z' = rest"
proof -
  obtain l i where p: "p = (l, i)" by (cases p)
  have "thisCode z = 0" using assms(1,4) by (simp add: pack_inv_def pack_position_def)
  moreover have "(inodesIn z ! l + i) div 2 ^ Suc l = 0"
    using assms(1,2,3) code_path(2) by (auto simp: p is_leaf_def pack_inv_def)
  ultimately show ?thesis
    using decode_codeword [of z l i l rest] assms by (simp add: p is_leaf_def leaf_symbol_def pack_code_def)
qed

lemma decode_message:
  assumes "pack_inv z" and "pack_full z" and "pack_err z = None" and "thisLevel z = 0"
    and "\<forall>p \<in> set ps. is_leaf z p"
    and "bytesOut z + length ps = uncompressedSize z"
    and "is_leaf z q" and "leaf_symbol z q = symbolEOB z"
    and "pack_bits z = concat (map (\<lambda>p. pack_code z (fst p) (snd p)) (ps @ [q])) @ pad"
  shows "pack_stream z = map (\<lambda>p. symbol z ! leaf_symbol z p) ps \<and> pack_final z = PackIO EOF"
  using assms
proof (induction ps arbitrary: z)
  case Nil
  then have "pack_decode z = Err (PackIO EOF)"
    using decode_leaf [of z q pad] by simp
  then show ?case using pack_dec.stream_Err [of z "PackIO EOF"] Nil.prems(3) by simp
next
  case (Cons p ps)
  let ?rest = "concat (map (\<lambda>p. pack_code z (fst p) (snd p)) (ps @ [q])) @ pad"
  obtain z' where dec: "pack_decode z = Ok (symbol z ! leaf_symbol z p, z')" and bits: "pack_bits z' = ?rest"
    using decode_leaf [of z p ?rest] Cons.prems by (auto split: if_splits)
  from pack_decode_progress [OF Cons.prems(1)] dec have pr: "pack_frame z z'" "pack_inv z'"
      "thisLevel z' = 0" "bytesOut z' = bytesOut z + 1"
    by (auto simp: pack_progress_def)
  then have same: "pack_full z' = pack_full z" "is_leaf z' = is_leaf z" "leaf_symbol z' = leaf_symbol z"
      "pack_code z' = pack_code z" "symbol z' = symbol z" "symbolEOB z' = symbolEOB z"
      "pack_err z' = pack_err z" "uncompressedSize z' = uncompressedSize z"
    by (auto simp: pack_frame_def pack_full_def is_leaf_def leaf_symbol_def pack_code_def fun_eq_iff)
  with Cons.IH [of z'] Cons.prems pr bits
  have "pack_stream z' = map (\<lambda>p. symbol z ! leaf_symbol z p) ps \<and> pack_final z' = PackIO EOF"
    by simp
  with pack_dec.stream_Ok [OF Cons.prems(1), of "symbol z ! leaf_symbol z p" z'] dec Cons.prems(3)
  show ?case by simp
qed

section \<open>Whole files\<close>

text \<open>The loops of NewReader, run on a well-formed header.\<close>

lemma read_counts_run:
  assumes "i + length cs = Suc d" and "d < length cnts" and "\<forall>c \<in> set cs. c < 256"
    and "pending s = map of_nat cs @ rest"
  shows "read_counts i d s cnts n = Ok (s\<lparr>pending := rest\<rparr>, blit i cs cnts, n + sum_list cs)"
  using assms
proof (induction cs arbitrary: i s cnts n)
  case Nil
  then show ?case by (simp add: read_counts.simps)
next
  case (Cons c cs)
  then have "read_byte s = Ok (of_nat c, s\<lparr>pending := map of_nat cs @ rest\<rparr>)" and "i \<le> d"
    and "unat (of_nat c :: byte) = c"
    by (auto simp: read_byte_def unat_of_nat)
  with Cons.IH [of "Suc i" "cnts[i := c]" "s\<lparr>pending := map of_nat cs @ rest\<rparr>" "n + c"] Cons.prems
  show ?case
    by (subst read_counts.simps) (simp add: blit_Cons add.assoc)
qed

lemma read_level_run:
  assumes "eob + length bs \<le> length syms" and "pending s = bs @ rest"
  shows "read_level (length bs) s syms eob =
    Ok (s\<lparr>pending := rest\<rparr>, blit eob bs syms, eob + length bs)"
  using assms
proof (induction bs arbitrary: s syms eob)
  case (Cons b bs)
  then have "read_byte s = Ok (b, s\<lparr>pending := bs @ rest\<rparr>)" by (simp add: read_byte_def)
  with Cons.IH [of "Suc eob" "syms[eob := b]" "s\<lparr>pending := bs @ rest\<rparr>"] Cons.prems
  show ?case by (simp add: blit_Cons)
qed simp

lemma blit_append:
  "i + length xs + length ys \<le> length zs \<Longrightarrow> blit (i + length xs) ys (blit i xs zs) = blit i (xs @ ys) zs"
  by (simp add: blit_def drop_append ac_simps)

lemma read_symbols_run:
  assumes "i + length cs = Suc d" and "take (length cs) (drop i cnts) = cs" and "d < length tr"
    and "d < length cnts" and "length bs = sum_list cs" and "eob + length bs \<le> length syms"
    and "pending s = bs @ rest"
  shows "\<exists>tr'. read_symbols i d cnts s tr syms eob =
    Ok (s\<lparr>pending := rest\<rparr>, tr', blit eob bs syms, eob + length bs)"
  using assms
proof (induction cs arbitrary: i s tr bs syms eob)
  case Nil
  then show ?case by (subst read_symbols.simps) simp
next
  case (Cons c cs)
  let ?bs1 = "take c bs" and ?bs2 = "drop c bs"
  have c: "cnts ! i = c" "take (length cs) (drop (Suc i) cnts) = cs"
    using Cons.prems(2) Cons.prems(1,4) by (auto simp: Cons_nth_drop_Suc [symmetric])
  have bs: "bs = ?bs1 @ ?bs2" "length ?bs1 = c" "length ?bs2 = sum_list cs"
    using Cons.prems(5) by auto
  have lv: "read_level c s syms eob = Ok (s\<lparr>pending := ?bs2 @ rest\<rparr>, blit eob ?bs1 syms, eob + c)"
    using read_level_run [of eob ?bs1 syms s "?bs2 @ rest"] Cons.prems bs by simp
  have "blit (eob + c) ?bs2 (blit eob ?bs1 syms) = blit eob bs syms"
    using blit_append [of eob ?bs1 ?bs2 syms] bs Cons.prems(6) by simp
  with Cons.IH [of "Suc i" "tr[i := eob]" ?bs2 "eob + c" "blit eob ?bs1 syms"
      "s\<lparr>pending := ?bs2 @ rest\<rparr>"] Cons.prems c bs lv
  show ?case by (subst read_symbols.simps) (simp add: add.assoc)
qed

text \<open>
  A code table in the terms of the format: \<open>cs\<close> the number of leaves of each
  level (the end-of-block symbol is the last leaf of the last level) and \<open>syms\<close>
  the transmitted symbols, level by level. \<open>tree_inodes\<close> counts the internal
  nodes beside the first of the given levels.
\<close>

fun tree_inodes :: "nat list \<Rightarrow> nat" where
  "tree_inodes (c # c' # cs) = (tree_inodes (c' # cs) + c') div 2"
| "tree_inodes _ = 0"

fun leaf_of :: "nat list \<Rightarrow> nat \<Rightarrow> nat \<times> nat" where
  "leaf_of [] k = (0, k)"
| "leaf_of (c # cs) k =
     (if k < c then (0, k) else let (l, i) = leaf_of cs (k - c) in (Suc l, i))"

definition huff_code :: "nat list \<Rightarrow> nat \<Rightarrow> bool list" where
  "huff_code cs k =
     (let (l, i) = leaf_of cs k in low_bits (Suc l) (tree_inodes (drop l cs) + i))"

definition code_table :: "nat list \<Rightarrow> bytes \<Rightarrow> bool" where
  "code_table cs syms \<longleftrightarrow>
     cs \<noteq> [] \<and> length cs \<le> 24 \<and> 2 \<le> last cs \<and> Suc (length syms) = sum_list cs \<and>
     length syms \<le> 256 \<and> tree_inodes cs + hd cs \<le> 2 \<and>
     (\<forall>l. Suc l < length cs \<longrightarrow> even (tree_inodes (drop (Suc l) cs) + cs ! Suc l))"

definition pack_header :: "nat list \<Rightarrow> bytes \<Rightarrow> nat \<Rightarrow> bytes" where
  "pack_header cs syms n =
     pack_Magic @ put32 (of_nat n) @ [of_nat (length cs)] @
     map of_nat (butlast cs @ [last cs - 2]) @ syms"

lemma leaf_of_bounds:
  assumes "leaf_of cs k = (l, i)" and "k < sum_list cs"
  shows "l < length cs \<and> i < cs ! l \<and> sum_list (take l cs) + i = k"
  using assms
proof (induction cs arbitrary: k l)
  case (Cons c cs)
  show ?case
  proof (cases "k < c")
    case False
    with Cons.prems obtain l' where "leaf_of cs (k - c) = (l', i)" "l = Suc l'"
      by (auto split: prod.splits)
    moreover have "k - c < sum_list cs" using Cons.prems False by auto
    ultimately show ?thesis using Cons.IH [of "k - c" l'] False by auto
  qed (use Cons.prems in auto)
qed simp

lemma stored_counts:
  fixes cs :: "nat list"
  assumes "cs \<noteq> []" and "2 \<le> last cs"
  defines "st \<equiv> butlast cs @ [last cs - 2]"
  shows "length st = length cs" and "sum_list st + 2 = sum_list cs"
    and "l < length cs \<Longrightarrow> st[length cs - 1 := st ! (length cs - 1) + 2] ! l = cs ! l"
    and "take (length cs) (st[length cs - 1 := st ! (length cs - 1) + 1]) = butlast cs @ [last cs - 1]"
proof -
  obtain xs x where "cs = xs @ [x]" using assms(1) by (metis append_butlast_last_id)
  with assms(2) show "length st = length cs" "sum_list st + 2 = sum_list cs"
    "l < length cs \<Longrightarrow> st[length cs - 1 := st ! (length cs - 1) + 2] ! l = cs ! l"
    "take (length cs) (st[length cs - 1 := st ! (length cs - 1) + 1]) = butlast cs @ [last cs - 1]"
    by (auto simp: st_def nth_append nth_list_update)
qed

text \<open>Reading a well-formed header: the seven fixed bytes, then the counts and the symbols.\<close>

lemma header_run:
  fixes n :: nat and cs :: "nat list"
  defines "hdr \<equiv> pack_Magic @ put32 (of_nat n) @ [of_nat (length cs)]"
  assumes "n < 2 ^ 32" and "length cs \<le> 24" and "pending r = hdr @ rest"
  shows "read_full packHeaderLength r = (hdr, None, r\<lparr>pending := rest\<rparr>)" and "IsPacked hdr"
    and "unat (hdr ! 6) = length cs"
    and "fold (\<lambda>i acc. acc * 256 + unat (hdr ! i)) [2, 3, 4, 5] 0 = n"
proof -
  show "read_full packHeaderLength r = (hdr, None, r\<lparr>pending := rest\<rparr>)"
    using assms(4) by (simp add: read_full_def packHeaderLength_def hdr_def pack_Magic_def Let_def)
  show "IsPacked hdr" by (simp add: IsPacked_def hdr_def pack_Magic_def)
  show "unat (hdr ! 6) = length cs"
    using assms(3) by (simp add: hdr_def pack_Magic_def nth_append unat_of_nat)
  have h: "hdr ! 2 = put32 (of_nat n) ! 0" "hdr ! 3 = put32 (of_nat n) ! 1"
      "hdr ! 4 = put32 (of_nat n) ! 2" "hdr ! 5 = put32 (of_nat n) ! 3"
    by (simp_all add: hdr_def pack_Magic_def put32_def)
  show "fold (\<lambda>i acc. acc * 256 + unat (hdr ! i)) [2, 3, 4, 5] 0 = n"
    using unat_put32_horner [of "of_nat n"] assms(2) by (simp add: h unat_of_nat)
qed

lemma tables_run:
  assumes cs: "cs \<noteq> []" "2 \<le> last cs" "length cs \<le> 24" "Suc (length syms) = sum_list cs"
      "length syms \<le> 256"
    and r: "pending r = map of_nat (butlast cs @ [last cs - 2]) @ syms @ body"
  defines "d \<equiv> length cs - 1"
    and "cn \<equiv> blit 0 (butlast cs @ [last cs - 2]) (replicate 24 0)"
  shows "read_counts 0 d r (replicate 24 0) 1 = Ok (r\<lparr>pending := syms @ body\<rparr>, cn, length syms)"
    and "\<exists>tr. read_symbols 0 d (cn[d := cn ! d + 1]) (r\<lparr>pending := syms @ body\<rparr>)
      (replicate 24 0) (replicate (length syms + 1) 0) 0 =
      Ok (r\<lparr>pending := body\<rparr>, tr, syms @ [0], length syms)"
    and "\<forall>l < length cs. cn[d := cn ! d + 2] ! l = cs ! l" and "d < 24" and "length cn = 24"
proof -
  define st where "st = butlast cs @ [last cs - 2]"
  note st = stored_counts [OF cs(1,2), folded st_def d_def]
  show d: "d < 24" using cs by (auto simp: d_def Suc_le_eq)
  have d': "Suc d = length cs" using cs(1) by (simp add: d_def)
  have "\<forall>c \<in> set st. c \<le> sum_list st" by (simp add: member_le_sum_list)
  with st(2) cs(4,5) have "\<forall>c \<in> set st. c < 256" by fastforce
  then show "read_counts 0 d r (replicate 24 0) 1 = Ok (r\<lparr>pending := syms @ body\<rparr>, cn, length syms)"
    using read_counts_run [of 0 st d "replicate 24 0" r "syms @ body" 1] st(1,2) d d' cs(4) r
    by (simp add: cn_def st_def [symmetric])
  show cn: "length cn = 24" using st(1) d d' by (simp add: cn_def st_def [symmetric])
  have cnd: "cn ! d = st ! d" using st(1) d d' by (simp add: cn_def st_def [symmetric] nth_blit)
  show "\<forall>l < length cs. cn[d := cn ! d + 2] ! l = cs ! l"
    using st(3) cnd st(1) d' by (simp add: cn_def st_def [symmetric] blit_0 list_update_append nth_append)
  have "take (Suc d) (cn[d := cn ! d + 1]) = butlast cs @ [last cs - 1]"
    using st(4) cnd st(1) d' by (simp add: cn_def st_def [symmetric] blit_0 list_update_append)
  moreover have "sum_list (butlast cs @ [last cs - 1]) = length syms"
    using cs sum_list_append [of "butlast cs" "[last cs]"] by simp
  moreover have "blit 0 syms (replicate (length syms + 1) 0) = syms @ [0]"
    by (simp only: blit_0 drop_replicate) simp
  ultimately show "\<exists>tr. read_symbols 0 d (cn[d := cn ! d + 1]) (r\<lparr>pending := syms @ body\<rparr>)
      (replicate 24 0) (replicate (length syms + 1) 0) 0 =
      Ok (r\<lparr>pending := body\<rparr>, tr, syms @ [0], length syms)"
    using read_symbols_run [of 0 "butlast cs @ [last cs - 1]" d "cn[d := cn ! d + 1]"
        "replicate 24 0" syms 0 "replicate (length syms + 1) 0" "r\<lparr>pending := syms @ body\<rparr>" body]
      cn d d' cs(1) by auto
qed

lemma pack_NewReader_OkI:
  assumes "read_full packHeaderLength r = (hdr, None, s)" and "IsPacked hdr"
    and "unat (hdr ! 6) = Suc d" and "d < 24" and "length cnts = 24"
    and "read_counts 0 d s (replicate 24 0) 1 = Ok (s1, cnts, n)" and "n \<le> 256"
    and "read_symbols 0 d (cnts[d := cnts ! d + 1]) s1 (replicate 24 0) (replicate (n + 1) 0) 0
      = Ok (s2, tr, syms, eob)"
  shows "pack_NewReader r =
    Ok \<lparr>fpIn = s2, pack_err = None, treeLevels = d, symbolsIn = cnts[d := cnts ! d + 2],
      inodesIn = count_inodes d (cnts[d := cnts ! d + 2]) (replicate 24 0), symbol = syms,
      symbolEOB = eob, tree = tr,
      uncompressedSize = fold (\<lambda>i acc. acc * 256 + unat (hdr ! i)) [2, 3, 4, 5] 0, bytesOut = 0,
      thisLevel = 0, thisCode = 0, thisByte = 0, bitsLeft = 0\<rparr>"
  using assms by (simp add: pack_NewReader_def htreeMaxLevel_def Let_def del: fold_simps)

lemma pack_NewReader_run:
  assumes tab: "code_table cs syms" and n: "n < 2 ^ 32"
    and r: "pending r = pack_header cs syms n @ body"
  shows "\<exists>z. pack_NewReader r = Ok z \<and> fpIn z = r\<lparr>pending := body\<rparr> \<and> treeLevels z = length cs - 1 \<and>
    (\<forall>l < length cs. symbolsIn z ! l = cs ! l) \<and> symbol z = syms @ [0] \<and>
    uncompressedSize z = n \<and> bytesOut z = 0 \<and> thisLevel z = 0 \<and> bitsLeft z = 0"
proof -
  let ?rest = "map of_nat (butlast cs @ [last cs - 2]) @ syms @ body"
  let ?r = "r\<lparr>pending := ?rest\<rparr>"
  have cs: "cs \<noteq> []" "2 \<le> last cs" "length cs \<le> 24" "Suc (length syms) = sum_list cs" "length syms \<le> 256"
    using tab by (auto simp: code_table_def)
  have "pending r = (pack_Magic @ put32 (of_nat n) @ [of_nat (length cs)]) @ ?rest"
    using r by (simp add: pack_header_def)
  note H = header_run [OF n cs(3) this]
  have "pending ?r = ?rest" by simp
  note T = tables_run [OF cs this]
  from T(2) obtain tr where tr: "read_symbols 0 (length cs - 1)
      ((blit 0 (butlast cs @ [last cs - 2]) (replicate 24 0))
        [length cs - 1 := blit 0 (butlast cs @ [last cs - 2]) (replicate 24 0) ! (length cs - 1) + 1])
      (?r\<lparr>pending := syms @ body\<rparr>) (replicate 24 0) (replicate (length syms + 1) 0) 0 =
      Ok (?r\<lparr>pending := body\<rparr>, tr, syms @ [0], length syms)"
    by blast
  have "unat ((pack_Magic @ put32 (of_nat n) @ [of_nat (length cs)]) ! 6) = Suc (length cs - 1)"
    using H(3) cs(1) by simp
  from pack_NewReader_OkI [OF H(1,2) this T(4,5,1) cs(5) tr] T(3) H(4) show ?thesis
    by simp
qed

text \<open>The reader's tables agree with the format's description of the code.\<close>

lemma tables_of_table:
  assumes "pack_tables z" and cs: "cs \<noteq> []" "treeLevels z = length cs - 1"
    and same: "\<forall>l < length cs. symbolsIn z ! l = cs ! l" and l: "l < length cs"
  shows "tree z ! l = sum_list (take l cs)" and "inodesIn z ! l = tree_inodes (drop l cs)"
proof -
  show "tree z ! l = sum_list (take l cs)" using l
  proof (induction l)
    case (Suc l)
    with assms show ?case by (simp add: pack_tables_def take_Suc_conv_app_nth less_diff_conv)
  qed (use assms in \<open>simp add: pack_tables_def\<close>)
  have "inodesIn z ! (length cs - 1 - k) = tree_inodes (drop (length cs - 1 - k) cs)"
    if "k < length cs" for k using that
  proof (induction k)
    case 0
    obtain xs x where "cs = xs @ [x]" using cs(1) by (metis append_butlast_last_id)
    with assms show ?case by (simp add: pack_tables_def)
  next
    case (Suc k)
    let ?l = "length cs - 1 - Suc k"
    have l: "Suc ?l = length cs - 1 - k" "Suc ?l < length cs" using Suc.prems by auto
    then have "drop ?l cs = cs ! ?l # cs ! Suc ?l # drop (Suc (Suc ?l)) cs"
      and "drop (Suc ?l) cs = cs ! Suc ?l # drop (Suc (Suc ?l)) cs"
      by (metis Cons_nth_drop_Suc Suc_lessD)+
    with Suc assms l show ?case by (simp add: pack_tables_def)
  qed
  from this [of "length cs - 1 - l"] l show "inodesIn z ! l = tree_inodes (drop l cs)"
    by simp
qed

lemma huff_leaf:
  assumes z: "pack_tables z" "cs \<noteq> []" "treeLevels z = length cs - 1"
      "\<forall>l < length cs. symbolsIn z ! l = cs ! l"
    and k: "k < sum_list cs"
  shows "is_leaf z (leaf_of cs k)" and "leaf_symbol z (leaf_of cs k) = k"
    and "pack_code z (fst (leaf_of cs k)) (snd (leaf_of cs k)) = huff_code cs k"
proof -
  obtain l i where li: "leaf_of cs k = (l, i)" by (cases "leaf_of cs k")
  note B = leaf_of_bounds [OF li k]
  note T = tables_of_table [OF z, of l]
  from B T z li show "is_leaf z (leaf_of cs k)" "leaf_symbol z (leaf_of cs k) = k"
    "pack_code z (fst (leaf_of cs k)) (snd (leaf_of cs k)) = huff_code cs k"
    by (auto simp: is_leaf_def leaf_symbol_def pack_code_def huff_code_def)
qed

text \<open>
  What NewReader makes of a well-formed file delivers the message and then end
  of file.
\<close>

lemma pack_stream_of_file:
  assumes tab: "code_table cs syms" and ks: "\<forall>k \<in> set ks. k < length syms"
    and n: "length ks < 2 ^ 32"
    and body: "concat (map byte_bits body) = concat (map (huff_code cs) (ks @ [length syms])) @ pad"
    and r: "pending r = pack_header cs syms (length ks) @ body"
  shows "\<exists>z. pack_NewReader r = Ok z \<and> pack_inv z \<and>
    pack_stream z = map (\<lambda>k. syms ! k) ks \<and> pack_final z = PackIO EOF"
proof -
  from pack_NewReader_run [OF tab n r] obtain z where z: "pack_NewReader r = Ok z"
      "fpIn z = r\<lparr>pending := body\<rparr>" "treeLevels z = length cs - 1"
      "\<forall>l < length cs. symbolsIn z ! l = cs ! l" "symbol z = syms @ [0]"
      "uncompressedSize z = length ks" "bytesOut z = 0" "thisLevel z = 0" "bitsLeft z = 0" by blast
  note inv = pack_NewReader_inv [OF z(1)]
  then have tables: "pack_tables z" by (simp add: pack_inv_def)
  have cs: "cs \<noteq> []" "Suc (length syms) = sum_list cs" using tab by (auto simp: code_table_def)
  note leaf = huff_leaf [OF tables cs(1) z(3,4)]
  have eob: "symbolEOB z = length syms" using tables z(5) by (simp add: pack_tables_def)
  have full: "pack_full z"
    using tab tables_of_table [OF tables cs(1) z(3,4)] z(3,4) cs(1)
    by (auto simp: pack_full_def code_table_def hd_conv_nth less_diff_conv)
  let ?ps = "map (leaf_of cs) ks" and ?q = "leaf_of cs (length syms)"
  have "map (\<lambda>p. pack_code z (fst p) (snd p)) (?ps @ [?q]) = map (huff_code cs) (ks @ [length syms])"
    using leaf(3) ks cs(2) by auto
  moreover have "pack_bits z = concat (map byte_bits body)"
    using z(2,9) by (simp add: pack_bits_def)
  ultimately have bits: "pack_bits z = concat (map (\<lambda>p. pack_code z (fst p) (snd p)) (?ps @ [?q])) @ pad"
    using body by (simp only:)
  have leaves: "\<forall>p \<in> set ?ps. is_leaf z p" "is_leaf z ?q" "leaf_symbol z ?q = symbolEOB z"
    using leaf(1,2) ks cs(2) eob by auto
  have "pack_stream z = map (\<lambda>p. symbol z ! leaf_symbol z p) ?ps \<and> pack_final z = PackIO EOF"
    using decode_message [OF _ full _ z(8) leaves(1) _ leaves(2,3) bits] inv z(6,7) by simp
  moreover have "map (\<lambda>p. symbol z ! leaf_symbol z p) ?ps = map (\<lambda>k. syms ! k) ks"
    using leaf(2) ks cs(2) z(5) by (auto simp: nth_append)
  ultimately show ?thesis using z(1) inv by auto
qed

section \<open>Properties\<close>

text \<open>
  C1: Unpacking inverts packing. For every decodable code table and every
  message over it, the file made of the pack(1) header, the symbol table, the
  canonical codewords of the message and of end-of-block (and any padding)
  is accepted by NewReader, and a client that reads it with any non-empty
  buffers gets exactly the message and then end of file.
\<close>

theorem unpack_inverts_pack:
  assumes "code_table cs syms" and "\<forall>k \<in> set ks. k < length syms" and "length ks < 2 ^ 32"
    and "concat (map byte_bits body) = concat (map (huff_code cs) (ks @ [length syms])) @ pad"
    and "\<forall>n \<in> set ns. 0 < n" and "length ks < length ns"
  shows "\<exists>z. pack_NewReader \<lparr>pending = pack_header cs syms (length ks) @ body, failure = None\<rparr> = Ok z \<and>
    drain pack_Read ns z = Ok (map (\<lambda>k. syms ! k) ks, Some (PackIO EOF))"
proof -
  let ?r = "\<lparr>pending = pack_header cs syms (length ks) @ body, failure = None\<rparr>"
  from pack_stream_of_file [OF assms(1-4), of ?r] obtain z where z: "pack_NewReader ?r = Ok z"
    "pack_inv z" "pack_stream z = map (\<lambda>k. syms ! k) ks" "pack_final z = PackIO EOF" by auto
  then show ?thesis
    using pack_rd.drain_content [OF z(2) assms(5)] assms(6) by auto
qed

text \<open>A table with one symbol beside end-of-block, and the message of three of it.\<close>

theorem unpack_inverts_pack_witness:
  "\<exists>z. pack_NewReader \<lparr>pending = pack_header [2] [0x61] 3 @ [0x10], failure = None\<rparr> = Ok z \<and>
    drain pack_Read [2, 1, 7, 7] z = Ok ([0x61, 0x61, 0x61], Some (PackIO EOF))"
proof -
  have table: "code_table [2] [0x61]"
    by (simp add: code_table_def)
  have "concat (map byte_bits [0x10]) =
      concat (map (huff_code [2]) ([0, 0, 0] @ [length [0x61 :: byte]])) @ replicate 4 False"
    by code_simp
  from unpack_inverts_pack [OF table _ _ this, of "[2, 1, 7, 7]"] show ?thesis
    by (simp add: numeral_3_eq_3)
qed

text \<open>
  C26: Hostile input cannot crash the unpacker. NewReader returns on every input,
  and on a reader it has made every Read, with any buffer, returns: no table is
  indexed out of range and no loop runs forever.
\<close>

theorem unpack_never_panics:
  "returns (pack_NewReader r) \<and>
   (\<forall>z. pack_NewReader r = Ok z \<longrightarrow> returns (drain pack_Read ns z))"
  using pack_NewReader_returns pack_NewReader_inv pack_rd.drain_returns by blast

text \<open>The implication is met: NewReader does make readers.\<close>

theorem unpack_never_panics_witness:
  "\<exists>z. pack_NewReader \<lparr>pending = [0x1f, 0x1e, 0, 0, 0, 3, 1, 0, 0x61, 0x10], failure = None\<rparr> = Ok z \<and>
    returns (drain pack_Read [4] z)"
proof -
  obtain z where "pack_NewReader \<lparr>pending = [0x1f, 0x1e, 0, 0, 0, 3, 1, 0, 0x61, 0x10], failure = None\<rparr> = Ok z"
    using pack_NewReader_run [of "[2]" "[0x61]" 3] by (force simp: code_table_def pack_header_def pack_Magic_def put32_def)
  then show ?thesis using unpack_never_panics [of _ "[4]"] by blast
qed

end
