(* ===== verification/Unixcompress.thy ===== *)
theory Unixcompress
  imports Go_Prelude
begin

text \<open>
  Package unixcompress (src/unixcompress/reader.go): the reader of compress(1)
  data. \<open>lzw_reader\<close> is the struct \<open>reader\<close>; \<open>lzw_NewReader\<close>,
  \<open>getCode\<close>, \<open>lzw_decode\<close>, \<open>newEntry\<close> and \<open>lzw_Read\<close> are NewReader, getCode,
  decode, newEntry and Read. The two 65536-entry tables are total functions with
  the index check written out. Go's int is \<open>nat\<close> where a value is never
  negative and \<open>int\<close> for \<open>oldCode\<close> (-1 is "none") and \<open>size\<close>.
\<close>

section \<open>Model\<close>

datatype lzw_reason = LzwShortHeader | LzwBadMagic | BadWidth nat | BeyondTable nat nat

datatype lzw_error = LzwCorrupt lzw_reason | LzwIO io_error

definition lzw_Magic :: bytes where
  "lzw_Magic = [0x1f, 0x9d]"

definition lzw_bits :: nat where "lzw_bits = 16"
definition bitMask :: byte where "bitMask = 0x1f"
definition blockMask :: byte where "blockMask = 0x80"
definition initBits :: nat where "initBits = 9"
definition first :: nat where "first = 257"
definition clear :: nat where "clear = 256"

definition maxCodeOf :: "nat \<Rightarrow> nat" where
  "maxCodeOf n = 2 ^ n - 1"

definition IsCompressed :: "bytes \<Rightarrow> bool" where
  "IsCompressed b \<longleftrightarrow> length b \<ge> length lzw_Magic \<and> b ! 0 = lzw_Magic ! 0 \<and> b ! 1 = lzw_Magic ! 1"

record lzw_reader =
  fp :: src
  lzw_err :: "lzw_error option"
  nBits :: nat
  maxBits :: nat
  maxCode :: nat
  maxMaxCode :: nat
  freeEnt :: nat
  blockCompress :: bool
  clearFlg :: bool
  prefix :: "nat \<Rightarrow> u16"
  suffix :: "nat \<Rightarrow> byte"
  stack :: bytes
  finChar :: byte
  oldCode :: int
  incode :: nat
  gbuf :: bytes
  rOffset :: nat
  gsize :: int

definition lzw_NewReader :: "src \<Rightarrow> (lzw_error, lzw_reader) outcome" where
  "lzw_NewReader r =
     (let (header, e, s) = read_full 3 r in
      case e of
        Some err \<Rightarrow>
          if err = EOF \<or> err = UnexpectedEOF then Err (LzwCorrupt LzwShortHeader)
          else Err (LzwIO err)
      | None \<Rightarrow>
        if \<not> IsCompressed header then Err (LzwCorrupt LzwBadMagic)
        else
          let block = header ! 2 AND blockMask \<noteq> 0;
              mb = unat (header ! 2 AND bitMask)
          in if mb > lzw_bits \<or> mb < 12 then Err (LzwCorrupt (BadWidth mb))
          else
            Ok \<lparr>fp = s, lzw_err = None, nBits = initBits, maxBits = mb,
                maxCode = maxCodeOf initBits, maxMaxCode = 2 ^ mb,
                freeEnt = (if block then first else 256), blockCompress = block, clearFlg = False,
                prefix = (\<lambda>_. 0), suffix = (\<lambda>c. if c < 256 then of_nat c else 0),
                stack = [], finChar = 0, oldCode = -1, incode = 0,
                gbuf = replicate lzw_bits 0, rOffset = 0, gsize = 0\<rparr>)"

text \<open>
  The first half of getCode: a wider code size when the next entry needs it,
  the initial size after a clear code, and a new group of \<open>nBits\<close> bytes. A short
  group overwrites only the front of \<open>gbuf\<close>.
\<close>

definition widen :: "lzw_reader \<Rightarrow> lzw_reader" where
  "widen z =
     (let z1 = (if freeEnt z > maxCode z then
                  let nb = nBits z + 1
                  in z\<lparr>nBits := nb, maxCode := if nb = maxBits z then maxMaxCode z else maxCodeOf nb\<rparr>
                else z)
      in if clearFlg z1
         then z1\<lparr>nBits := initBits, maxCode := maxCodeOf initBits, clearFlg := False\<rparr> else z1)"

definition refill :: "lzw_reader \<Rightarrow> (lzw_error, lzw_reader) outcome" where
  "refill z =
     (let z2 = widen z in
      if nBits z2 > length (gbuf z2) then Panic
      else
        let (got, e, s) = read_full (nBits z2) (fp z2) in
        case e of
          Some (ReadError k) \<Rightarrow> Err (LzwIO (ReadError k))
        | _ \<Rightarrow>
          if got = [] then Err (LzwIO EOF)
          else
            Ok (z2\<lparr>fp := s, gbuf := blit 0 got (gbuf z2), rOffset := 0,
                   gsize := int (8 * length got) - (int (nBits z2) - 1)\<rparr>))"

text \<open>The second half: \<open>nBits\<close> bits of \<open>gbuf\<close> from bit \<open>rOffset\<close> on, low order first.\<close>

definition takeCode :: "lzw_reader \<Rightarrow> (lzw_error, nat) outcome" where
  "takeCode z =
     (let bp = rOffset z div 8; rOff = rOffset z mod 8 in
      and_then (nth_go (gbuf z) bp) (\<lambda>b0.
      let code = unat (drop_bit rOff b0);
          nb = int (nBits z) - (8 - int rOff);
          rOff = 8 - rOff
      in and_then
           (if nb \<ge> 8 then
              and_then (nth_go (gbuf z) (bp + 1)) (\<lambda>b1.
              Ok (code OR push_bit rOff (unat b1), bp + 2, rOff + 8, nb - 8))
            else Ok (code, bp + 1, rOff, nb))
           (\<lambda>(code, bp, rOff, nb).
         if nb > 0 then
           and_then (nth_go (gbuf z) bp) (\<lambda>b2.
           Ok (code OR push_bit rOff (unat (b2 AND mask (nat nb)))))
         else Ok code)))"

definition getCode :: "lzw_reader \<Rightarrow> (lzw_error, nat \<times> lzw_reader) outcome" where
  "getCode z =
     and_then
       (if clearFlg z \<or> int (rOffset z) \<ge> gsize z \<or> freeEnt z > maxCode z then refill z else Ok z)
       (\<lambda>z. and_then (takeCode z) (\<lambda>code. Ok (code, z\<lparr>rOffset := rOffset z + nBits z\<rparr>)))"

text \<open>
  The loop that follows the prefixes of an entry, pushing suffixes. Prefixes are
  smaller than their entries (\<open>lzw_inv\<close> below), so \<open>Suc code\<close> rounds are enough;
  running out of them stands for a loop that does not end.
\<close>

fun unwind :: "nat \<Rightarrow> (nat \<Rightarrow> u16) \<Rightarrow> (nat \<Rightarrow> byte) \<Rightarrow> nat \<Rightarrow> bytes \<Rightarrow> (lzw_error, nat \<times> bytes) outcome" where
  "unwind 0 pre suf code st = Diverge"
| "unwind (Suc n) pre suf code st =
     (if code \<ge> 256 then
        if code \<ge> 65536 then Panic
        else unwind n pre suf (unat (pre code)) (st @ [suf code])
      else Ok (code, st))"

definition expand_code :: "lzw_reader \<Rightarrow> nat \<Rightarrow> (lzw_error, lzw_reader) outcome" where
  "expand_code z code =
     (if code \<ge> freeEnt z \<and> (code > freeEnt z \<or> oldCode z = -1)
      then Err (LzwCorrupt (BeyondTable code (freeEnt z)))
      else
        let (code', st) = (if code \<ge> freeEnt z then (nat (oldCode z), stack z @ [finChar z])
                           else (code, stack z))
        in and_then (unwind (Suc code') (prefix z) (suffix z) code' st) (\<lambda>(root, st).
           Ok (z\<lparr>finChar := suffix z root, stack := st @ [suffix z root], incode := code\<rparr>)))"

definition on_clear :: "lzw_reader \<Rightarrow> lzw_reader" where
  "on_clear z = z\<lparr>clearFlg := True, freeEnt := first, oldCode := -1\<rparr>"

definition clear_meas :: "lzw_reader \<Rightarrow> nat" where
  "clear_meas z = 2 * length (pending (fp z)) + (if clearFlg z then 0 else 1)"

lemma widen_simps [simp]:
  "fp (widen z) = fp z" "clearFlg (widen z) = False" "clearFlg z \<Longrightarrow> nBits (widen z) = initBits"
  by (auto simp: widen_def Let_def)

lemma refill_pending:
  "refill z = Ok z' \<Longrightarrow> length (pending (fp z')) < length (pending (fp z))"
  by (auto simp: refill_def Let_def read_full_def split: if_splits option.splits io_error.splits)

lemma getCode_clear_less:
  assumes "getCode z = Ok (code, z')"
  shows "clear_meas (on_clear z') < clear_meas z"
  using assms refill_pending [of z]
  by (auto simp: getCode_def go_outcome clear_meas_def on_clear_def split: if_splits)

function lzw_decode :: "lzw_reader \<Rightarrow> (lzw_error, lzw_reader) outcome" where
  "lzw_decode z =
     and_then (getCode z) (\<lambda>(code, z').
     if code = clear \<and> blockCompress z' then lzw_decode (on_clear z')
     else expand_code z' code)"
  by pat_completeness auto
termination
  by (relation "measure clear_meas") (auto dest: getCode_clear_less)

declare lzw_decode.simps [simp del]

definition newEntry :: "lzw_reader \<Rightarrow> (lzw_error, lzw_reader) outcome" where
  "newEntry z =
     and_then
       (if freeEnt z < maxMaxCode z \<and> oldCode z \<noteq> -1 then
          if freeEnt z \<ge> 65536 then Panic
          else Ok (z\<lparr>prefix := (prefix z)(freeEnt z := of_int (oldCode z)),
                     suffix := (suffix z)(freeEnt z := finChar z), freeEnt := freeEnt z + 1\<rparr>)
        else Ok z)
       (\<lambda>z'. Ok (z'\<lparr>oldCode := int (incode z')\<rparr>))"

lemma lzw_decode_stack: "lzw_decode z = Ok z' \<Longrightarrow> stack z' \<noteq> []"
proof (induction z rule: lzw_decode.induct)
  case (1 z)
  then show ?case
    by (subst (asm) lzw_decode.simps)
       (auto simp: go_outcome expand_code_def split: if_splits prod.splits)
qed

text \<open>
  Read's loop with \<open>n\<close> bytes of the buffer to fill. Bytes leave the top of the
  stack, the end of the list.
\<close>

function lzw_read_loop :: "nat \<Rightarrow> lzw_reader \<Rightarrow> (lzw_error, bytes \<times> lzw_reader) outcome" where
  "lzw_read_loop n z =
     (if n = 0 then Ok ([], z)
      else if stack z \<noteq> [] then
        let k = min (length (stack z)) n;
            out = take k (rev (stack z));
            z1 = z\<lparr>stack := take (length (stack z) - k) (stack z)\<rparr>
        in and_then (if stack z1 = [] then newEntry z1 else Ok z1) (\<lambda>z2.
           and_then (lzw_read_loop (n - k) z2) (\<lambda>(bs, z3). Ok (out @ bs, z3)))
      else if lzw_err z \<noteq> None then Ok ([], z)
      else
        case lzw_decode z of
          Ok z' \<Rightarrow> lzw_read_loop n z'
        | Err e \<Rightarrow> Ok ([], z\<lparr>lzw_err := Some e\<rparr>)
        | Panic \<Rightarrow> Panic
        | Diverge \<Rightarrow> Diverge)"
  by pat_completeness auto
termination
  by (relation "measures [\<lambda>(n, z). n, \<lambda>(n, z). if stack z = [] then 1 else 0]")
     (auto dest: lzw_decode_stack simp: Let_def)

declare lzw_read_loop.simps [simp del]

definition lzw_Read :: "nat \<Rightarrow> lzw_reader \<Rightarrow>
    (lzw_error, bytes \<times> lzw_error option \<times> lzw_reader) outcome" where
  "lzw_Read n z =
     (if n = 0 then Ok ([], None, z)
      else and_then (lzw_read_loop n z) (\<lambda>(bs, z').
        Ok (bs, if bs \<noteq> [] then None else lzw_err z', z')))"


section \<open>The code read is a bit field of the group buffer\<close>

text \<open>The buffer as one little-endian number.\<close>

definition le_value :: "bytes \<Rightarrow> nat" where
  "le_value bs = horner_sum unat 256 bs"

lemma bit_le_value: "bit (le_value bs) i \<longleftrightarrow> i div 8 < length bs \<and> bit (bs ! (i div 8)) (i mod 8)"
proof (induction bs arbitrary: i)
  case (Cons b bs)
  have split: "le_value (b # bs) = unat b OR push_bit 8 (le_value bs)"
  proof -
    have "unat b + push_bit 8 (le_value bs) = unat b OR push_bit 8 (le_value bs)"
      by (intro disjunctive_add) (auto simp: bit_simps dest: bit_imp_le_length)
    then show ?thesis by (simp add: le_value_def push_bit_eq_mult)
  qed
  show ?case
  proof (cases "i < 8")
    case True
    then show ?thesis by (simp add: split bit_simps)
  next
    case False
    then obtain j where "i = j + 8" by (metis add.commute le_Suc_ex not_less)
    moreover have "\<not> bit b i" using False by (auto dest: bit_imp_le_length)
    moreover have "(j + 8) div 8 = Suc (j div 8)" by simp
    ultimately show ?thesis using Cons [of j] False by (simp add: split bit_simps)
  qed
qed (simp add: le_value_def)

lemma bit_le_value_at: "i < 8 \<Longrightarrow> bit (le_value g) (8 * q + i) \<longleftrightarrow> q < length g \<and> bit (g ! q) i"
  by (simp add: bit_le_value)

lemma bit_le_value_window:
  assumes "r + i < 24"
  shows "bit (le_value g) (8 * q + r + i) \<longleftrightarrow>
    (if r + i < 8 then q < length g \<and> bit (g ! q) (r + i)
     else if r + i < 16 then Suc q < length g \<and> bit (g ! Suc q) (r + i - 8)
     else Suc (Suc q) < length g \<and> bit (g ! Suc (Suc q)) (r + i - 16))"
proof -
  consider "r + i < 8" | "8 \<le> r + i" "r + i < 16" | "16 \<le> r + i" by linarith
  then show ?thesis
  proof cases
    case 1
    then show ?thesis using bit_le_value_at [of "r + i" g q] by (simp add: add.assoc)
  next
    case 2
    then show ?thesis using bit_le_value_at [of "r + i - 8" g "Suc q"] by (simp add: add.assoc)
  next
    case 3
    then show ?thesis using assms bit_le_value_at [of "r + i - 16" g "Suc (Suc q)"]
      by (simp add: add.assoc)
  qed
qed

lemma byte_bit_above: "8 \<le> i \<Longrightarrow> \<not> bit (b :: byte) i"
  by (auto dest: bit_imp_le_length)

text \<open>takeCode reads \<open>nBits\<close> bits from bit \<open>rOffset\<close> of that number.\<close>

lemma takeCode_two:
  assumes "r < 8" and "9 \<le> n" and "n + r < 16" and "Suc q < length g"
  shows "take_bit n (drop_bit (8 * q + r) (le_value g)) =
    unat (drop_bit r (g ! q)) OR push_bit (8 - r) (unat (g ! Suc q AND mask (n + r - 8)))"
proof (rule bit_eqI)
  fix i
  consider "r + i < 8" | "8 \<le> r + i" "i < n" | "n \<le> i" by linarith
  then show "bit (take_bit n (drop_bit (8 * q + r) (le_value g))) i \<longleftrightarrow>
      bit (unat (drop_bit r (g ! q)) OR push_bit (8 - r) (unat (g ! Suc q AND mask (n + r - 8)))) i"
    using assms bit_le_value_window [of r i g q] byte_bit_above [of "r + i" "g ! q"]
    by cases (auto simp: bit_simps le_diff_conv add.commute [of i r])
qed

lemma takeCode_three:
  assumes "r < 8" and "n \<le> 16" and "16 \<le> n + r" and "Suc q < length g"
    and "16 < n + r \<Longrightarrow> Suc (Suc q) < length g"
  shows "take_bit n (drop_bit (8 * q + r) (le_value g)) =
    unat (drop_bit r (g ! q)) OR push_bit (8 - r) (unat (g ! Suc q)) OR
    (if n + r = 16 then 0 else push_bit (16 - r) (unat (g ! Suc (Suc q) AND mask (n + r - 16))))"
    (is "_ = ?rhs")
proof (rule bit_eqI)
  fix i
  consider "r + i < 8" | "8 \<le> r + i" "r + i < 16" | "16 \<le> r + i" "i < n" | "n \<le> i" by linarith
  then show "bit (take_bit n (drop_bit (8 * q + r) (le_value g))) i \<longleftrightarrow> bit ?rhs i"
    using assms bit_le_value_window [of r i g q] byte_bit_above [of "r + i" "g ! q"]
      byte_bit_above [of "r + i - 8" "g ! Suc q"]
    by cases (auto simp: bit_simps le_diff_conv add.commute [of i r])
qed

lemma takeCode_field:
  assumes "rOffset z + nBits z \<le> 8 * length (gbuf z)" and "9 \<le> nBits z" and "nBits z \<le> 16"
  shows "takeCode z = Ok (take_bit (nBits z) (drop_bit (rOffset z) (le_value (gbuf z))))"
proof -
  define q r where "q = rOffset z div 8" and "r = rOffset z mod 8"
  then have off: "rOffset z = 8 * q + r" "r < 8" by simp_all
  have q: "Suc q < length (gbuf z)" "16 < nBits z + r \<Longrightarrow> Suc (Suc q) < length (gbuf z)"
    using assms off by linarith+
  show ?thesis
  proof (cases "nBits z + r < 16")
    case True
    with takeCode_two [OF off(2) assms(2) _ q(1)] q off assms show ?thesis
      by (simp add: takeCode_def Let_def q_def [symmetric] r_def [symmetric] nat_diff_distrib)
  next
    case False
    have "nat (int (nBits z) + int r - 16) = nBits z + r - 16" by linarith
    with False takeCode_three [OF off(2) assms(3) _ q] q off assms show ?thesis
      by (simp add: takeCode_def Let_def q_def [symmetric] r_def [symmetric] or.assoc)
  qed
qed

section \<open>The invariant of a reader\<close>

text \<open>The widths and the group buffer; a code always lies inside \<open>gbuf\<close>.\<close>

definition lzw_widths :: "lzw_reader \<Rightarrow> bool" where
  "lzw_widths z \<longleftrightarrow> 12 \<le> maxBits z \<and> maxBits z \<le> 16 \<and> maxMaxCode z = 2 ^ maxBits z \<and>
     9 \<le> nBits z \<and> nBits z \<le> maxBits z \<and>
     maxCode z = (if nBits z = maxBits z then maxMaxCode z else 2 ^ nBits z - 1) \<and>
     first - 1 \<le> freeEnt z \<and> freeEnt z \<le> maxMaxCode z \<and> (blockCompress z \<longrightarrow> first \<le> freeEnt z) \<and>
     length (gbuf z) = 16 \<and> gsize z \<le> 7 * int (nBits z) + 1"

text \<open>The table: the literals are themselves and every entry extends a smaller one.\<close>

definition lzw_table :: "lzw_reader \<Rightarrow> bool" where
  "lzw_table z \<longleftrightarrow> (\<forall>c < 256. suffix z c = of_nat c) \<and>
     (\<forall>c. 256 \<le> c \<and> c < freeEnt z \<longrightarrow> unat (prefix z c) < c)"

text \<open>The string of a code; an entry that does not extend a smaller one has none.\<close>

function entry :: "(nat \<Rightarrow> u16) \<Rightarrow> (nat \<Rightarrow> byte) \<Rightarrow> nat \<Rightarrow> bytes" where
  "entry pre suf c =
     (if c < 256 then [suf c]
      else if unat (pre c) < c then entry pre suf (unat (pre c)) @ [suf c] else [])"
  by pat_completeness auto
termination
  by (relation "measure (\<lambda>(_, _, c). c)") auto

declare entry.simps [simp del]

abbreviation string_of :: "lzw_reader \<Rightarrow> nat \<Rightarrow> bytes" where
  "string_of z \<equiv> entry (prefix z) (suffix z)"

text \<open>
  The remembered codes: what \<open>oldCode\<close> is and that \<open>finChar\<close> is the first byte of
  its string, and the same of \<open>incode\<close> while its string is on the stack.
\<close>

definition lzw_codes_ok :: "lzw_reader \<Rightarrow> bool" where
  "lzw_codes_ok z \<longleftrightarrow> (oldCode z = -1 \<or> 0 \<le> oldCode z \<and> oldCode z < int (freeEnt z)) \<and>
     (if stack z = [] then oldCode z \<noteq> -1 \<longrightarrow> finChar z = hd (string_of z (nat (oldCode z)))
      else if incode z < freeEnt z then finChar z = hd (string_of z (incode z))
      else incode z = freeEnt z \<and> oldCode z \<noteq> -1 \<and> freeEnt z < maxMaxCode z \<and>
        finChar z = hd (string_of z (nat (oldCode z))))"

definition lzw_inv :: "lzw_reader \<Rightarrow> bool" where
  "lzw_inv z \<longleftrightarrow> lzw_widths z \<and> lzw_table z \<and> lzw_codes_ok z"

subsection \<open>NewReader establishes it\<close>

lemma lzw_NewReader_returns: "returns (lzw_NewReader r)"
  by (auto simp: lzw_NewReader_def Let_def split: prod.splits option.splits)

lemma pow_ge_512: "9 \<le> n \<Longrightarrow> (512 :: nat) \<le> 2 ^ n"
  using power_increasing [of 9 n "2 :: nat"] by simp

lemma lzw_NewReader_inv: "lzw_NewReader r = Ok z \<Longrightarrow> lzw_inv z"
  using pow_ge_512 [of "maxBits z"]
  by (auto simp: lzw_NewReader_def Let_def lzw_inv_def lzw_widths_def lzw_table_def lzw_codes_ok_def
      initBits_def first_def maxCodeOf_def lzw_bits_def split: prod.splits option.splits if_splits)

subsection \<open>getCode\<close>

lemma widen_widths:
  assumes "lzw_widths z"
  shows "9 \<le> nBits (widen z)" "nBits (widen z) \<le> maxBits z"
    "maxCode (widen z) = (if nBits (widen z) = maxBits z then maxMaxCode z else 2 ^ nBits (widen z) - 1)"
  using assms by (auto simp: lzw_widths_def widen_def Let_def initBits_def maxCodeOf_def not_less
    split: if_splits)

lemma widen_frame [simp]:
  "maxBits (widen z) = maxBits z" "maxMaxCode (widen z) = maxMaxCode z" "freeEnt (widen z) = freeEnt z"
  "blockCompress (widen z) = blockCompress z" "prefix (widen z) = prefix z"
  "suffix (widen z) = suffix z" "stack (widen z) = stack z" "finChar (widen z) = finChar z"
  "oldCode (widen z) = oldCode z" "incode (widen z) = incode z" "gbuf (widen z) = gbuf z"
  "lzw_err (widen z) = lzw_err z"
  by (simp_all add: widen_def Let_def)

text \<open>getCode touches only the input side of the reader.\<close>

definition lzw_frame :: "lzw_reader \<Rightarrow> lzw_reader \<Rightarrow> bool" where
  "lzw_frame z z' \<longleftrightarrow> maxBits z' = maxBits z \<and> maxMaxCode z' = maxMaxCode z \<and> freeEnt z' = freeEnt z \<and>
     blockCompress z' = blockCompress z \<and> prefix z' = prefix z \<and> suffix z' = suffix z \<and>
     stack z' = stack z \<and> finChar z' = finChar z \<and> oldCode z' = oldCode z \<and> incode z' = incode z \<and>
     lzw_err z' = lzw_err z"

lemma refill_Ok:
  assumes "refill z = Ok z'"
  obtains got where "got = take (nBits (widen z)) (pending (fp z))" "got \<noteq> []"
    "nBits (widen z) \<le> length (gbuf z)"
    "z' = (widen z)\<lparr>fp := fp z\<lparr>pending := drop (nBits (widen z)) (pending (fp z))\<rparr>,
        gbuf := blit 0 got (gbuf z), rOffset := 0,
        gsize := int (8 * length got) - (int (nBits (widen z)) - 1)\<rparr>"
  using assms
  by (auto simp: refill_def Let_def read_full_def split: if_splits option.splits io_error.splits)

lemma refill_returns: "lzw_widths z \<Longrightarrow> returns (refill z)"
  using widen_widths [of z]
  by (auto simp: refill_def Let_def read_full_def lzw_widths_def split: option.split io_error.split)

lemma refill_inv:
  assumes "lzw_widths z" and "refill z = Ok z'"
  shows "lzw_frame z z'" and "lzw_widths z'" and "rOffset z' = 0" and "\<not> clearFlg z'"
    and "gsize z' \<le> 8 * int (length (pending (fp z)) - length (pending (fp z')))"
    and "9 \<le> nBits z'"
proof -
  note W = widen_widths [OF assms(1)]
  from assms(2) obtain got where got: "got = take (nBits (widen z)) (pending (fp z))"
    "z' = (widen z)\<lparr>fp := fp z\<lparr>pending := drop (nBits (widen z)) (pending (fp z))\<rparr>,
        gbuf := blit 0 got (gbuf z), rOffset := 0,
        gsize := int (8 * length got) - (int (nBits (widen z)) - 1)\<rparr>"
    by (rule refill_Ok) blast
  then show "lzw_frame z z'" "rOffset z' = 0" "\<not> clearFlg z'" "9 \<le> nBits z'"
    using W by (simp_all add: lzw_frame_def)
  have "length got \<le> nBits (widen z)" "length got \<le> length (pending (fp z))" using got(1) by simp_all
  with W assms(1) got(2) show "lzw_widths z'"
    by (auto simp: lzw_widths_def)
  have "length (pending (fp z)) - length (pending (fp z')) = length got" using got by simp
  with W got(2) show "gsize z' \<le> 8 * int (length (pending (fp z)) - length (pending (fp z')))"
    by simp
qed

text \<open>What is left of the input, in bits, bounds the codes still to come.\<close>

definition bits_left :: "lzw_reader \<Rightarrow> nat" where
  "bits_left z = 8 * length (pending (fp z)) + nat (gsize z - int (rOffset z))"

text \<open>The state getCode reads the code from.\<close>

definition ready :: "lzw_reader \<Rightarrow> (lzw_error, lzw_reader) outcome" where
  "ready z =
     (if clearFlg z \<or> int (rOffset z) \<ge> gsize z \<or> freeEnt z > maxCode z then refill z else Ok z)"

definition field :: "lzw_reader \<Rightarrow> nat" where
  "field z = take_bit (nBits z) (drop_bit (rOffset z) (le_value (gbuf z)))"

lemma ready_cases:
  assumes "ready z = Ok z1"
  obtains (fresh) "refill z = Ok z1"
  | (same) "z1 = z" "int (rOffset z) < gsize z" "\<not> clearFlg z" "freeEnt z \<le> maxCode z"
proof (cases "clearFlg z \<or> int (rOffset z) \<ge> gsize z \<or> freeEnt z > maxCode z")
  case True
  with assms fresh show ?thesis by (simp add: ready_def)
next
  case False
  with assms same show ?thesis by (simp add: ready_def)
qed

lemma lzw_frame_refl [simp]: "lzw_frame z z"
  by (simp add: lzw_frame_def)

lemma ready_inv:
  assumes W: "lzw_widths z" and "ready z = Ok z1"
  shows "lzw_frame z z1" and "lzw_widths z1" and "rOffset z1 + nBits z1 \<le> 8 * length (gbuf z1)"
    and "bits_left (z1\<lparr>rOffset := rOffset z1 + nBits z1\<rparr>) < bits_left z"
proof -
  have "lzw_frame z z1 \<and> lzw_widths z1 \<and> rOffset z1 + nBits z1 \<le> 8 * length (gbuf z1) \<and>
    bits_left (z1\<lparr>rOffset := rOffset z1 + nBits z1\<rparr>) < bits_left z"
    using assms(2)
  proof (cases rule: ready_cases)
    case fresh
    note R = refill_inv [OF W fresh] and P = refill_pending [OF fresh]
    from R(3,5,6) P have "nat (gsize z1 - int (rOffset z1 + nBits z1)) <
        8 * (length (pending (fp z)) - length (pending (fp z1)))" by linarith
    with P have "bits_left (z1\<lparr>rOffset := rOffset z1 + nBits z1\<rparr>) < bits_left z"
      by (simp add: bits_left_def)
    moreover have "rOffset z1 + nBits z1 \<le> 8 * length (gbuf z1)"
      using R(2,3) by (simp add: lzw_widths_def)
    ultimately show ?thesis using R by blast
  next
    case same
    with W show ?thesis by (simp add: bits_left_def lzw_widths_def)
  qed
  then show "lzw_frame z z1" "lzw_widths z1" "rOffset z1 + nBits z1 \<le> 8 * length (gbuf z1)"
    "bits_left (z1\<lparr>rOffset := rOffset z1 + nBits z1\<rparr>) < bits_left z" by blast+
qed

lemma getCode_ready:
  assumes "lzw_widths z"
  shows "getCode z = and_then (ready z) (\<lambda>z1. Ok (field z1, z1\<lparr>rOffset := rOffset z1 + nBits z1\<rparr>))"
proof (cases "ready z")
  case (Ok z1)
  from ready_inv [OF assms Ok] have "takeCode z1 = Ok (field z1)"
    by (auto simp: takeCode_field lzw_widths_def field_def)
  with Ok show ?thesis by (simp add: getCode_def ready_def [symmetric])
qed (simp_all add: getCode_def ready_def [symmetric])

lemma ready_returns: "lzw_widths z \<Longrightarrow> returns (ready z)"
  by (simp add: ready_def refill_returns)

lemma getCode_returns: "lzw_widths z \<Longrightarrow> returns (getCode z)"
  by (simp add: getCode_ready go_outcome ready_returns)

lemma field_less: "lzw_widths z \<Longrightarrow> field z < maxMaxCode z"
  unfolding field_def lzw_widths_def
  by (metis take_bit_nat_less_exp less_le_trans one_le_numeral power_increasing)

lemma getCode_inv:
  assumes "lzw_widths z" and "getCode z = Ok (code, z')"
  shows "lzw_frame z z'" and "lzw_widths z'" and "bits_left z' < bits_left z" and "code < maxMaxCode z"
proof -
  from assms getCode_ready obtain z1 where z1: "ready z = Ok z1" "code = field z1"
    "z' = z1\<lparr>rOffset := rOffset z1 + nBits z1\<rparr>" by (auto simp: go_outcome)
  note R = ready_inv [OF assms(1) z1(1)]
  from R z1 show "lzw_frame z z'" "lzw_widths z'" "bits_left z' < bits_left z"
    by (simp_all add: lzw_frame_def lzw_widths_def)
  from R field_less [of z1] z1 show "code < maxMaxCode z" by (simp add: lzw_frame_def)
qed

subsection \<open>decode\<close>

lemma entry_literal [simp]: "c < 256 \<Longrightarrow> entry pre suf c = [suf c]"
  by (simp add: entry.simps)

lemma entry_extends:
  "256 \<le> c \<Longrightarrow> unat (pre c) < c \<Longrightarrow> entry pre suf c = entry pre suf (unat (pre c)) @ [suf c]"
  by (simp add: entry.simps [of pre suf c])

lemma entry_not_Nil:
  assumes "\<And>c. 256 \<le> c \<Longrightarrow> c < k \<Longrightarrow> unat (pre c) < c" and "c < k"
  shows "entry pre suf c \<noteq> []"
  using assms by (cases "c < 256") (auto simp: entry_extends)

lemma unwind_entry:
  assumes "\<And>c. 256 \<le> c \<Longrightarrow> c < k \<Longrightarrow> unat (pre c) < c" and "k \<le> 65536" and "c < k" and "c < n"
  shows "\<exists>root. root < 256 \<and> suf root = hd (entry pre suf c) \<and>
    unwind n pre suf c st = Ok (root, st @ rev (tl (entry pre suf c)))"
  using assms(3-4)
proof (induction n arbitrary: c st)
  case (Suc n)
  show ?case
  proof (cases "c < 256")
    case False
    let ?p = "unat (pre c)"
    from False Suc.prems assms(1) have less: "?p < c" by simp
    have ne: "entry pre suf ?p \<noteq> []"
      using entry_not_Nil [OF assms(1)] less Suc.prems by (meson order.strict_trans)
    have "?p < k" "?p < n" using less Suc.prems by linarith+
    from Suc.IH [OF this, of "st @ [suf c]"] obtain root where
      root: "root < 256" "suf root = hd (entry pre suf ?p)"
      and run: "unwind n pre suf ?p (st @ [suf c]) = Ok (root, (st @ [suf c]) @ rev (tl (entry pre suf ?p)))"
      by blast
    have "\<not> 65536 \<le> c" using Suc.prems assms(2) by linarith
    then have "unwind (Suc n) pre suf c st = unwind n pre suf ?p (st @ [suf c])" using False by simp
    moreover have "entry pre suf c = entry pre suf ?p @ [suf c]"
      using False less by (simp add: entry_extends)
    ultimately show ?thesis using ne root run by (intro exI [of _ root]) simp
  qed simp
qed simp

section \<open>The dictionary the reader implements\<close>

text \<open>
  LZW's dictionary, without codes for prefixes: the list of strings, indexed by
  code, and the string of the previous code if there is one. A code just past
  the end of the list is the previous string extended by its own first byte.
\<close>

definition spec_string :: "bytes list \<Rightarrow> bytes option \<Rightarrow> nat \<Rightarrow> bytes option" where
  "spec_string d prev code =
     (if code < length d then Some (d ! code)
      else case prev of
        Some w \<Rightarrow> if code = length d then Some (w @ [hd w]) else None
      | None \<Rightarrow> None)"

text \<open>After each string the previous one, extended by the new one's first byte, is added.\<close>

definition spec_grow :: "nat \<Rightarrow> bytes list \<Rightarrow> bytes option \<Rightarrow> bytes \<Rightarrow> bytes list" where
  "spec_grow limit d prev w =
     (case prev of Some v \<Rightarrow> if length d < limit then d @ [v @ [hd w]] else d | None \<Rightarrow> d)"

definition dict_of :: "lzw_reader \<Rightarrow> bytes list" where
  "dict_of z = map (string_of z) [0..<freeEnt z]"

definition prev_of :: "lzw_reader \<Rightarrow> bytes option" where
  "prev_of z = (if oldCode z = -1 then None else Some (string_of z (nat (oldCode z))))"

lemma length_dict_of [simp]: "length (dict_of z) = freeEnt z"
  by (simp add: dict_of_def)

lemma nth_dict_of [simp]: "c < freeEnt z \<Longrightarrow> dict_of z ! c = string_of z c"
  by (simp add: dict_of_def)

lemma entry_update:
  assumes "\<And>c. 256 \<le> c \<Longrightarrow> c < k \<Longrightarrow> unat (pre c) < c" and "c < k" and "k \<le> m"
  shows "entry (pre(m := p)) (suf(m := x)) c = entry pre suf c"
  using assms(2)
proof (induction c rule: less_induct)
  case (less c)
  show ?case
  proof (cases "c < 256")
    case False
    with less.prems assms(1) have smaller: "unat (pre c) < c" by simp
    with less.IH [OF smaller] False less.prems assms(3) show ?thesis
      by (simp add: entry_extends)
  qed (use less.prems assms(3) in simp)
qed

lemma table_size: "lzw_inv z \<Longrightarrow> freeEnt z \<le> 65536"
  using power_increasing [of "maxBits z" 16 "2 :: nat"] by (simp add: lzw_inv_def lzw_widths_def)

lemma expand_code_spec:
  assumes "lzw_inv z" and "stack z = []" and "code < maxMaxCode z"
  shows "case spec_string (dict_of z) (prev_of z) code of
      None \<Rightarrow> expand_code z code = Err (LzwCorrupt (BeyondTable code (freeEnt z)))
    | Some w \<Rightarrow> expand_code z code = Ok (z\<lparr>finChar := hd w, stack := rev w, incode := code\<rparr>) \<and> w \<noteq> []"
proof -
  have pre: "\<And>c. 256 \<le> c \<Longrightarrow> c < freeEnt z \<Longrightarrow> unat (prefix z c) < c"
    using assms(1) by (simp add: lzw_inv_def lzw_table_def)
  have run: "\<exists>root. suffix z root = hd (string_of z c) \<and>
      unwind (Suc c) (prefix z) (suffix z) c st = Ok (root, st @ rev (tl (string_of z c))) \<and>
      string_of z c \<noteq> []" if "c < freeEnt z" for c st
    using unwind_entry [OF pre table_size [OF assms(1)] that, of "Suc c" "suffix z" st]
      entry_not_Nil [OF pre that] by fastforce
  have "expand_code z code = Ok (z\<lparr>finChar := hd w, stack := rev w, incode := code\<rparr>) \<and> w \<noteq> []"
    if "spec_string (dict_of z) (prev_of z) code = Some w" for w
  proof (cases "code < freeEnt z")
    case True
    with run [OF True, of "[]"] that assms(2) show ?thesis
      by (auto simp: spec_string_def expand_code_def rev_eq_Cons_iff neq_Nil_conv)
  next
    case False
    with that have old: "oldCode z \<noteq> -1" "code = freeEnt z"
      and w: "w = string_of z (nat (oldCode z)) @ [hd (string_of z (nat (oldCode z)))]"
      by (auto simp: spec_string_def prev_of_def split: if_splits)
    with assms(1,2) have c: "nat (oldCode z) < freeEnt z" "finChar z = hd (string_of z (nat (oldCode z)))"
      by (auto simp: lzw_inv_def lzw_codes_ok_def)
    with run [OF c(1), of "[finChar z]"] w old assms(2) show ?thesis
      by (auto simp: expand_code_def neq_Nil_conv)
  qed
  moreover have "expand_code z code = Err (LzwCorrupt (BeyondTable code (freeEnt z)))"
    if "spec_string (dict_of z) (prev_of z) code = None"
    using that by (auto simp: spec_string_def prev_of_def expand_code_def split: if_splits)
  ultimately show ?thesis by (simp split: option.split)
qed

lemma hd_string: "lzw_inv z \<Longrightarrow> c < freeEnt z \<Longrightarrow> string_of z c \<noteq> []"
  using entry_not_Nil [of "freeEnt z" "prefix z" c] by (simp add: lzw_inv_def lzw_table_def)

lemma expand_code_inv:
  assumes "lzw_inv z" and "stack z = []" and "code < maxMaxCode z"
    and "spec_string (dict_of z) (prev_of z) code = Some w" and "w \<noteq> []"
  shows "lzw_inv (z\<lparr>finChar := hd w, stack := rev w, incode := code\<rparr>)"
  using assms hd_string [OF assms(1), of "nat (oldCode z)"]
  by (auto simp: lzw_inv_def lzw_widths_def lzw_table_def lzw_codes_ok_def spec_string_def prev_of_def
      split: if_splits)

text \<open>The string on the stack is the one of \<open>incode\<close>.\<close>

definition current_of :: "lzw_reader \<Rightarrow> bytes" where
  "current_of z = (if incode z < freeEnt z then string_of z (incode z)
                   else string_of z (nat (oldCode z)) @ [finChar z])"

lemma newEntry_grows:
  assumes inv: "lzw_inv z" and "stack z \<noteq> []" and grow: "freeEnt z < maxMaxCode z" "oldCode z \<noteq> -1"
    and z': "z' = z\<lparr>stack := [], prefix := (prefix z)(freeEnt z := of_int (oldCode z)),
        suffix := (suffix z)(freeEnt z := finChar z), freeEnt := freeEnt z + 1, oldCode := int (incode z)\<rparr>"
  shows "lzw_inv z'" and "dict_of z' = dict_of z @ [string_of z (nat (oldCode z)) @ [finChar z]]"
    and "prev_of z' = Some (current_of z)"
proof -
  let ?old = "nat (oldCode z)"
  have pre: "\<And>c. 256 \<le> c \<Longrightarrow> c < freeEnt z \<Longrightarrow> unat (prefix z c) < c"
    and W: "lzw_widths z" and T: "lzw_table z" and C: "lzw_codes_ok z"
    using inv by (simp_all add: lzw_inv_def lzw_table_def)
  have old: "?old < freeEnt z" "oldCode z = int ?old" "256 \<le> freeEnt z"
    using C W grow(2) by (auto simp: lzw_codes_ok_def lzw_widths_def first_def)
  have "unat (of_nat ?old :: u16) = ?old"
    using old(1) table_size [OF inv] by (simp add: unat_of_nat)
  then have u: "unat (of_int (oldCode z) :: u16) = ?old"
    by (metis of_int_of_nat_eq old(2))
  have same: "string_of z' c = string_of z c" if "c < freeEnt z" for c
    using entry_update [OF pre that] z' by simp
  have new: "string_of z' (freeEnt z) = string_of z ?old @ [finChar z]"
    using entry_extends [of "freeEnt z" "prefix z'" "suffix z'"] old u same [OF old(1)] z' by simp
  show "dict_of z' = dict_of z @ [string_of z ?old @ [finChar z]]"
    using same new z' by (simp add: dict_of_def)
  have inc: "incode z < freeEnt z \<or> incode z = freeEnt z" using C assms(2)
    by (auto simp: lzw_codes_ok_def split: if_splits)
  then show "prev_of z' = Some (current_of z)"
    using same new z' by (auto simp: prev_of_def current_of_def)
  have "lzw_widths z'" "lzw_table z'" using W T grow(1) z' old u
    by (auto simp: lzw_widths_def lzw_table_def less_Suc_eq)
  moreover have "lzw_codes_ok z'"
    using inc C assms(2) same new z' hd_string [OF inv old(1)]
    by (auto simp: lzw_codes_ok_def)
  ultimately show "lzw_inv z'" by (simp add: lzw_inv_def)
qed

lemma current_expand:
  assumes "lzw_inv z" and "spec_string (dict_of z) (prev_of z) code = Some w"
  shows "current_of (z\<lparr>finChar := hd w, stack := st, incode := code\<rparr>) = w"
proof (cases "oldCode z = -1")
  case False
  then have "string_of z (nat (oldCode z)) \<noteq> []"
    using assms(1) by (intro hd_string) (auto simp: lzw_inv_def lzw_codes_ok_def)
  with False assms(2) show ?thesis
    by (auto simp: current_of_def spec_string_def prev_of_def split: if_splits)
qed (use assms(2) in \<open>auto simp: current_of_def spec_string_def prev_of_def split: if_splits\<close>)

text \<open>newEntry, once the string is all out, does what the dictionary does.\<close>

lemma newEntry_spec:
  assumes inv: "lzw_inv z" and ne: "stack z \<noteq> []"
  shows "\<exists>z'. newEntry (z\<lparr>stack := []\<rparr>) = Ok z' \<and> lzw_inv z' \<and> stack z' = [] \<and>
    dict_of z' = spec_grow (maxMaxCode z) (dict_of z) (prev_of z) (current_of z) \<and>
    prev_of z' = Some (current_of z) \<and> bits_left z' = bits_left z \<and> lzw_err z' = lzw_err z \<and>
    maxMaxCode z' = maxMaxCode z \<and> blockCompress z' = blockCompress z"
proof (cases "freeEnt z < maxMaxCode z \<and> oldCode z \<noteq> -1")
  case True
  let ?z' = "z\<lparr>stack := [], prefix := (prefix z)(freeEnt z := of_int (oldCode z)),
        suffix := (suffix z)(freeEnt z := finChar z), freeEnt := freeEnt z + 1, oldCode := int (incode z)\<rparr>"
  from True have grow: "freeEnt z < maxMaxCode z" "oldCode z \<noteq> -1" by simp_all
  note G = newEntry_grows [OF inv ne grow refl]
  have "maxMaxCode z \<le> 65536"
    using inv power_increasing [of "maxBits z" 16 "2 :: nat"] by (simp add: lzw_inv_def lzw_widths_def)
  with True have "newEntry (z\<lparr>stack := []\<rparr>) = Ok ?z'" by (simp add: newEntry_def)
  moreover have "hd (current_of z) = finChar z"
    using inv ne hd_string [OF inv] by (auto simp: current_of_def lzw_inv_def lzw_codes_ok_def split: if_splits)
  ultimately show ?thesis using G True
    by (auto simp: spec_grow_def prev_of_def bits_left_def)
next
  case False
  let ?z' = "z\<lparr>stack := [], oldCode := int (incode z)\<rparr>"
  have "incode z < freeEnt z"
    using False inv ne by (auto simp: lzw_inv_def lzw_codes_ok_def split: if_splits)
  moreover from this have "lzw_inv ?z'"
    using inv ne by (auto simp: lzw_inv_def lzw_widths_def lzw_table_def lzw_codes_ok_def)
  moreover have "newEntry (z\<lparr>stack := []\<rparr>) = Ok ?z'" using False by (auto simp: newEntry_def)
  moreover have "dict_of ?z' = dict_of z" by (simp add: dict_of_def)
  ultimately show ?thesis using False
    by (auto simp: spec_grow_def prev_of_def current_of_def bits_left_def)
qed

text \<open>A clear code empties the dictionary down to its first 257 entries.\<close>

lemma on_clear_spec:
  assumes "lzw_inv z" and "blockCompress z" and "stack z = []"
  shows "lzw_inv (on_clear z)" and "dict_of (on_clear z) = take first (dict_of z)"
    and "prev_of (on_clear z) = None" and "bits_left (on_clear z) = bits_left z"
proof -
  have "first \<le> freeEnt z" "freeEnt z \<le> maxMaxCode z"
    using assms by (simp_all add: lzw_inv_def lzw_widths_def)
  with assms show "lzw_inv (on_clear z)" "dict_of (on_clear z) = take first (dict_of z)"
    "prev_of (on_clear z) = None" "bits_left (on_clear z) = bits_left z"
    by (auto simp: on_clear_def lzw_inv_def lzw_widths_def lzw_table_def lzw_codes_ok_def dict_of_def
        prev_of_def bits_left_def take_map)
qed

lemma frame_inv:
  assumes "lzw_inv z" and "lzw_frame z z'" and "lzw_widths z'"
  shows "lzw_inv z'" and "dict_of z' = dict_of z" and "prev_of z' = prev_of z"
    and "maxMaxCode z' = maxMaxCode z" and "stack z' = stack z"
  using assms by (simp_all add: lzw_inv_def lzw_frame_def lzw_table_def lzw_codes_ok_def dict_of_def prev_of_def)

text \<open>
  decode ends, does not panic, and either stops with an error or puts a
  non-empty string on the stack having used up some input.
\<close>

lemma lzw_decode_inv:
  assumes "lzw_inv z" and "stack z = []"
  shows "returns (lzw_decode z) \<and>
    (\<forall>z'. lzw_decode z = Ok z' \<longrightarrow> lzw_inv z' \<and> bits_left z' < bits_left z \<and> stack z' \<noteq> [] \<and>
      rev (stack z') = current_of z')"
  using assms
proof (induction z rule: lzw_decode.induct)
  case (1 z)
  have W: "lzw_widths z" using 1(2) by (simp add: lzw_inv_def)
  show ?case
  proof (cases "getCode z")
    case (Ok p)
    obtain code z1 where p: "p = (code, z1)" by (cases p)
    note G = getCode_inv [OF W Ok [unfolded p]]
    note F = frame_inv [OF 1(2) G(1,2)]
    show ?thesis
    proof (cases "code = clear \<and> blockCompress z1")
      case True
      with on_clear_spec [OF F(1)] F(5) 1(3) have O: "lzw_inv (on_clear z1)"
        "bits_left (on_clear z1) = bits_left z1" "stack (on_clear z1) = []"
        by (simp_all add: on_clear_def)
      from "1.IH" [OF Ok p [symmetric] True O(1,3)] O(2) G(3) True Ok p show ?thesis
        by (subst (1 2) lzw_decode.simps) auto
    next
      case False
      have code: "code < maxMaxCode z1" using F(4) G(4) by simp
      have st: "stack z1 = []" using F(5) 1(3) by simp
      have step: "lzw_decode z = expand_code z1 code"
        using Ok p False by (subst lzw_decode.simps) auto
      show ?thesis
      proof (cases "spec_string (dict_of z1) (prev_of z1) code")
        case None
        with expand_code_spec [OF F(1) st code] step show ?thesis by simp
      next
        case (Some w)
        with expand_code_spec [OF F(1) st code] have E: "w \<noteq> []"
          "expand_code z1 code = Ok (z1\<lparr>finChar := hd w, stack := rev w, incode := code\<rparr>)" by simp_all
        have "w = current_of (z1\<lparr>finChar := hd w, stack := rev w, incode := code\<rparr>)"
          using current_expand [OF F(1) Some] by simp
        with E step expand_code_inv [OF F(1) st code Some E(1)] G(3) show ?thesis
          by (simp add: bits_left_def)
      qed
    qed
  qed (use getCode_returns [OF W] in \<open>auto simp: lzw_decode.simps [of z]\<close>)
qed

section \<open>Read as an io.Reader\<close>

text \<open>One byte of Read: from the stack, after a decode if the stack is empty.\<close>

definition lzw_pop :: "lzw_reader \<Rightarrow> (lzw_error, byte \<times> lzw_reader) outcome" where
  "lzw_pop z =
     (let z1 = z\<lparr>stack := butlast (stack z)\<rparr>
      in and_then (if stack z1 = [] then newEntry z1 else Ok z1) (\<lambda>z2. Ok (last (stack z), z2)))"

definition lzw_step :: "lzw_reader \<Rightarrow> (lzw_error, byte \<times> lzw_reader) outcome" where
  "lzw_step z =
     (if stack z \<noteq> [] then lzw_pop z
      else case lzw_err z of Some e \<Rightarrow> Err e | None \<Rightarrow> and_then (lzw_decode z) lzw_pop)"

text \<open>No string is longer than the table, so this bounds the bytes to come.\<close>

definition lzw_meas :: "lzw_reader \<Rightarrow> nat" where
  "lzw_meas z = 70000 * bits_left z + length (stack z)"

lemma length_entry: "length (entry pre suf c) \<le> Suc c"
  by (induction pre suf c rule: entry.induct) (subst entry.simps, auto)

lemma length_current:
  assumes "lzw_inv z"
  shows "length (current_of z) \<le> 65537"
proof -
  have "nat (oldCode z) < freeEnt z"
    using assms by (auto simp: lzw_inv_def lzw_codes_ok_def lzw_widths_def first_def)
  with table_size [OF assms] length_entry [of "prefix z" "suffix z" "incode z"]
    length_entry [of "prefix z" "suffix z" "nat (oldCode z)"] show ?thesis
    by (simp add: current_of_def)
qed

lemma lzw_inv_stack:
  "stack z \<noteq> [] \<Longrightarrow> st \<noteq> [] \<Longrightarrow> lzw_inv (z\<lparr>stack := st\<rparr>) = lzw_inv z"
  by (simp add: lzw_inv_def lzw_widths_def lzw_table_def lzw_codes_ok_def)

lemma lzw_pop_inv:
  assumes "lzw_inv z" and "stack z \<noteq> []"
  shows "\<exists>z'. lzw_pop z = Ok (last (stack z), z') \<and> lzw_inv z' \<and>
    bits_left z' = bits_left z \<and> length (stack z') < length (stack z)"
proof (cases "butlast (stack z) = []")
  case True
  with newEntry_spec [OF assms] assms(2) show ?thesis by (auto simp: lzw_pop_def)
next
  case False
  with assms lzw_inv_stack [OF assms(2) False] show ?thesis
    by (auto simp: lzw_pop_def bits_left_def)
qed

lemma lzw_step_inv:
  assumes "lzw_inv z"
  shows "returns (lzw_step z) \<and> (\<forall>b z'. lzw_step z = Ok (b, z') \<longrightarrow> lzw_inv z' \<and> lzw_meas z' < lzw_meas z)"
proof (cases "stack z = []")
  case False
  with lzw_pop_inv [OF assms] show ?thesis by (auto simp: lzw_step_def lzw_meas_def)
next
  case True
  note D = lzw_decode_inv [OF assms True]
  show ?thesis
  proof (cases "lzw_decode z")
    case (Ok z1)
    with D have z1: "lzw_inv z1" "bits_left z1 < bits_left z" "stack z1 \<noteq> []"
      "length (stack z1) = length (current_of z1)" by (auto, metis length_rev)
    from lzw_pop_inv [OF z1(1,3)] obtain z' where P: "lzw_pop z1 = Ok (last (stack z1), z')" "lzw_inv z'"
      "bits_left z' = bits_left z1" "length (stack z') < length (stack z1)" by blast
    with z1 length_current [OF z1(1)] have "lzw_meas z' < lzw_meas z" by (simp add: lzw_meas_def)
    with P Ok True show ?thesis by (auto simp: lzw_step_def split: option.split)
  qed (use D True in \<open>auto simp: lzw_step_def split: option.split\<close>)
qed

interpretation lzw_dec: byte_decoder lzw_step lzw_meas lzw_inv
  by unfold_locales (use lzw_step_inv in blast)+

abbreviation lzw_stream :: "lzw_reader \<Rightarrow> bytes" where
  "lzw_stream \<equiv> stream_bytes lzw_step lzw_meas"

abbreviation lzw_final :: "lzw_reader \<Rightarrow> lzw_error" where
  "lzw_final \<equiv> stream_error lzw_step lzw_meas"

text \<open>Read takes as much of the stack as fits at once; the stream is the same.\<close>

lemma stream_popped:
  assumes "lzw_inv z" and "k < length (stack z)"
  shows "lzw_stream z = take k (rev (stack z)) @ lzw_stream (z\<lparr>stack := take (length (stack z) - k) (stack z)\<rparr>) \<and>
    lzw_final z = lzw_final (z\<lparr>stack := take (length (stack z) - k) (stack z)\<rparr>)"
  using assms(2)
proof (induction k)
  case (Suc k)
  let ?n = "length (stack z) - k"
  let ?z = "z\<lparr>stack := take ?n (stack z)\<rparr>"
  have ne: "stack z \<noteq> []" "take ?n (stack z) \<noteq> []" "take (?n - 1) (stack z) \<noteq> []" using Suc.prems by auto
  have l: "last (take ?n (stack z)) = rev (stack z) ! k"
    using Suc.prems ne by (simp add: last_conv_nth rev_nth)
  have "lzw_step ?z = Ok (rev (stack z) ! k, z\<lparr>stack := take (?n - 1) (stack z)\<rparr>)"
    using ne l Suc.prems by (simp add: lzw_step_def lzw_pop_def butlast_take)
  moreover have "lzw_inv ?z" using lzw_inv_stack [OF ne(1,2)] assms(1) by simp
  ultimately have "lzw_stream ?z = rev (stack z) ! k # lzw_stream (z\<lparr>stack := take (?n - 1) (stack z)\<rparr>)"
    "lzw_final ?z = lzw_final (z\<lparr>stack := take (?n - 1) (stack z)\<rparr>)"
    using lzw_dec.stream_Ok by blast+
  with Suc show ?case by (simp add: take_Suc_conv_app_nth)
qed simp

lemma stream_emptied:
  assumes "lzw_inv z" and "stack z \<noteq> []" and "newEntry (z\<lparr>stack := []\<rparr>) = Ok z'"
  shows "lzw_stream z = rev (stack z) @ lzw_stream z'" and "lzw_final z = lzw_final z'"
proof -
  let ?k = "length (stack z) - 1"
  let ?z = "z\<lparr>stack := take (length (stack z) - ?k) (stack z)\<rparr>"
  have k: "?k < length (stack z)" "length (stack z) - ?k = 1" using assms(2) by (simp_all add: Suc_leI)
  obtain x xs where st: "stack z = x # xs" using assms(2) by (cases "stack z") auto
  have "lzw_step ?z = Ok (x, z')" using assms(3) st by (simp add: lzw_step_def lzw_pop_def)
  moreover have "lzw_inv ?z" using lzw_inv_stack [OF assms(2), of "[x]"] assms(1) st by simp
  ultimately have "lzw_stream ?z = x # lzw_stream z'" "lzw_final ?z = lzw_final z'"
    using lzw_dec.stream_Ok by blast+
  with stream_popped [OF assms(1) k(1)] st
  show "lzw_stream z = rev (stack z) @ lzw_stream z'" "lzw_final z = lzw_final z'" by simp_all
qed

lemma stream_decode:
  assumes "lzw_inv z" and "stack z = []" and "lzw_err z = None" and "lzw_decode z = Ok z1"
  shows "lzw_stream z = lzw_stream z1" and "lzw_final z = lzw_final z1"
proof -
  have z1: "lzw_inv z1" "stack z1 \<noteq> []" using lzw_decode_inv [OF assms(1,2)] assms(4) by auto
  have "lzw_step z = lzw_step z1" using assms z1(2) by (simp add: lzw_step_def)
  moreover obtain b z' where "lzw_step z1 = Ok (b, z')"
    using lzw_pop_inv [OF z1] z1(2) by (auto simp: lzw_step_def)
  ultimately show "lzw_stream z = lzw_stream z1" "lzw_final z = lzw_final z1"
    using lzw_dec.stream_Ok [OF assms(1)] lzw_dec.stream_Ok [OF z1(1)] by metis+
qed

lemma lzw_stuck:
  "stack z = [] \<Longrightarrow> lzw_err z = Some e \<Longrightarrow> lzw_stream z = [] \<and> lzw_final z = e"
  using lzw_dec.stream_Err [of z e] by (simp add: lzw_step_def)

lemma lzw_inv_err [simp]: "lzw_inv (z\<lparr>lzw_err := e\<rparr>) = lzw_inv z"
  by (simp add: lzw_inv_def lzw_widths_def lzw_table_def lzw_codes_ok_def)

lemma stream_taken:
  assumes inv: "lzw_inv z" and k: "0 < k" "k \<le> length (stack z)"
    and z1: "z1 = z\<lparr>stack := take (length (stack z) - k) (stack z)\<rparr>"
  obtains z2 where "(if stack z1 = [] then newEntry z1 else Ok z1) = Ok z2" "lzw_inv z2"
    "lzw_stream z = take k (rev (stack z)) @ lzw_stream z2" "lzw_final z = lzw_final z2"
proof (cases "k < length (stack z)")
  case True
  then have "stack z1 \<noteq> []" "stack z \<noteq> []" using k by (auto simp: z1)
  with lzw_inv_stack [of z "stack z1"] stream_popped [OF inv True] inv that show ?thesis
    by (simp add: z1)
next
  case False
  with k have "k = length (stack z)" "stack z \<noteq> []" by auto
  moreover from this have "z1 = z\<lparr>stack := []\<rparr>" by (simp add: z1)
  ultimately show ?thesis
    using newEntry_spec [OF inv] stream_emptied [OF inv] that by force
qed

definition read_correct :: "nat \<Rightarrow> lzw_reader \<Rightarrow> bytes \<Rightarrow> lzw_reader \<Rightarrow> bool" where
  "read_correct n z bs z' \<longleftrightarrow> lzw_inv z' \<and> length bs \<le> n \<and> lzw_stream z = bs @ lzw_stream z' \<and>
     lzw_final z' = lzw_final z \<and> (length bs < n \<longrightarrow> stack z' = [] \<and> lzw_err z' \<noteq> None)"

lemma lzw_read_loop_correct:
  assumes "lzw_inv z"
  shows "\<exists>bs z'. lzw_read_loop n z = Ok (bs, z') \<and> read_correct n z bs z'"
  using assms
proof (induction n z rule: lzw_read_loop.induct)
  case (1 n z)
  consider (full) "n = 0" | (pop) "n \<noteq> 0" "stack z \<noteq> []"
    | (stuck) e where "n \<noteq> 0" "stack z = []" "lzw_err z = Some e"
    | (decode) "n \<noteq> 0" "stack z = []" "lzw_err z = None" by (cases "lzw_err z") auto
  then show ?case
  proof cases
    case full
    with "1.prems" show ?thesis by (simp add: lzw_read_loop.simps read_correct_def)
  next
    case pop
    define k where "k = min (length (stack z)) n"
    define z1 where "z1 = z\<lparr>stack := take (length (stack z) - k) (stack z)\<rparr>"
    have k: "0 < k" "k \<le> n" "k \<le> length (stack z)" using pop by (auto simp: k_def)
    from stream_taken [OF "1.prems" k(1,3) z1_def] obtain z2 where
      z2: "(if stack z1 = [] then newEntry z1 else Ok z1) = Ok z2" "lzw_inv z2"
      "lzw_stream z = take k (rev (stack z)) @ lzw_stream z2" "lzw_final z = lzw_final z2" by blast
    from "1.IH"(1) [OF pop k_def refl z1_def z2(1,2)] obtain bs z' where
      R: "lzw_read_loop (n - k) z2 = Ok (bs, z')" "read_correct (n - k) z2 bs z'" by blast
    have "lzw_read_loop n z = Ok (take k (rev (stack z)) @ bs, z')"
      by (subst lzw_read_loop.simps)
         (simp only: Let_def k_def [symmetric] z1_def [symmetric] pop z2(1) R(1) and_then.simps
           prod.case if_False if_True not_False_eq_True)
    moreover have "read_correct n z (take k (rev (stack z)) @ bs) z'"
      using R(2) z2 k by (auto simp: read_correct_def)
    ultimately show ?thesis by blast
  next
    case stuck
    with "1.prems" show ?thesis by (simp add: lzw_read_loop.simps [of n] read_correct_def)
  next
    case decode
    note D = lzw_decode_inv [OF "1.prems" decode(2)]
    show ?thesis
    proof (cases "lzw_decode z")
      case (Ok z1)
      with D "1.IH"(2) [of z1] decode obtain bs z' where
        "lzw_read_loop n z1 = Ok (bs, z')" "read_correct n z1 bs z'" by auto
      with Ok decode stream_decode [OF "1.prems" decode(2,3) Ok] show ?thesis
        by (subst lzw_read_loop.simps) (simp add: read_correct_def)
    next
      case (Err e)
      then have "lzw_step z = Err e" using decode by (simp add: lzw_step_def)
      with lzw_dec.stream_Err [OF this] lzw_stuck [of "z\<lparr>lzw_err := Some e\<rparr>" e] Err decode "1.prems"
      show ?thesis by (subst lzw_read_loop.simps) (simp add: read_correct_def)
    qed (use D in auto)
  qed
qed

interpretation lzw_rd: go_reader lzw_Read lzw_stream lzw_final lzw_inv
proof (rule go_readerI)
  fix z n
  assume inv: "lzw_inv z"
  from lzw_read_loop_correct [OF this, of n] obtain bs z' where
    "lzw_read_loop n z = Ok (bs, z')" "read_correct n z bs z'" by blast
  with inv show "\<exists>b e z'. lzw_Read n z = Ok (b, e, z') \<and> lzw_inv z' \<and> length b \<le> n \<and>
      lzw_stream z = b @ lzw_stream z' \<and> lzw_final z' = lzw_final z \<and>
      (\<forall>err. e = Some err \<longrightarrow> err = lzw_final z \<and> lzw_stream z' = []) \<and>
      (0 < n \<and> e = None \<longrightarrow> b \<noteq> [])"
    using lzw_stuck [of z'] by (auto simp: lzw_Read_def read_correct_def)
qed

lemma stream_string:
  assumes inv: "lzw_inv z" and st: "stack z = []" and err: "lzw_err z = None"
    and code: "getCode z = Ok (code, z1)" "\<not> (code = clear \<and> blockCompress z)"
    and w: "spec_string (dict_of z) (prev_of z) code = Some w"
  shows "\<exists>z2. lzw_inv z2 \<and> stack z2 = [] \<and> lzw_err z2 = None \<and> bits_left z2 = bits_left z1 \<and>
    lzw_stream z = w @ lzw_stream z2 \<and> lzw_final z = lzw_final z2 \<and>
    dict_of z2 = spec_grow (maxMaxCode z) (dict_of z) (prev_of z) w \<and> prev_of z2 = Some w \<and>
    maxMaxCode z2 = maxMaxCode z \<and> blockCompress z2 = blockCompress z"
proof -
  have W: "lzw_widths z" using inv by (simp add: lzw_inv_def)
  note G = getCode_inv [OF W code(1)]
  note F = frame_inv [OF inv G(1,2)]
  have z1: "stack z1 = []" "code < maxMaxCode z1" "blockCompress z1 = blockCompress z"
    "lzw_err z1 = None" "maxMaxCode z1 = maxMaxCode z"
    using F G st err by (simp_all add: lzw_frame_def)
  let ?z = "z1\<lparr>finChar := hd w, stack := rev w, incode := code\<rparr>"
  have w1: "spec_string (dict_of z1) (prev_of z1) code = Some w" using w F by simp
  with expand_code_spec [OF F(1) z1(1,2)] have E: "w \<noteq> []" "expand_code z1 code = Ok ?z" by simp_all
  have dec: "lzw_decode z = Ok ?z"
    using code z1 E by (subst lzw_decode.simps) auto
  have inv': "lzw_inv ?z" by (rule expand_code_inv [OF F(1) z1(1,2) w1 E(1)])
  have ne: "stack ?z \<noteq> []" using E(1) by simp
  have "dict_of ?z = dict_of z1" "prev_of ?z = prev_of z1" by (simp_all add: dict_of_def prev_of_def)
  then have abs: "current_of ?z = w" "dict_of ?z = dict_of z" "prev_of ?z = prev_of z"
    using current_expand [OF F(1) w1] F by simp_all
  from newEntry_spec [OF inv' ne] obtain z2 where z2: "newEntry (?z\<lparr>stack := []\<rparr>) = Ok z2" "lzw_inv z2"
    "stack z2 = []" "dict_of z2 = spec_grow (maxMaxCode ?z) (dict_of ?z) (prev_of ?z) (current_of ?z)"
    "prev_of z2 = Some (current_of ?z)" "bits_left z2 = bits_left ?z" "lzw_err z2 = lzw_err ?z"
    "maxMaxCode z2 = maxMaxCode ?z" "blockCompress z2 = blockCompress ?z" by blast
  have "lzw_stream z = w @ lzw_stream z2" "lzw_final z = lzw_final z2"
    using stream_decode [OF inv st err dec] stream_emptied [OF inv' ne z2(1)] by simp_all
  moreover have "bits_left ?z = bits_left z1" by (simp add: bits_left_def)
  ultimately show ?thesis using z2 abs z1 by (intro exI [of _ z2]) simp
qed

lemma stream_beyond:
  assumes "lzw_inv z" and "stack z = []" and "lzw_err z = None"
    and "getCode z = Ok (code, z1)" and "\<not> (code = clear \<and> blockCompress z)"
    and "spec_string (dict_of z) (prev_of z) code = None"
  shows "lzw_stream z = []" and "lzw_final z = LzwCorrupt (BeyondTable code (freeEnt z))"
proof -
  have W: "lzw_widths z" using assms(1) by (simp add: lzw_inv_def)
  note G = getCode_inv [OF W assms(4)]
  note F = frame_inv [OF assms(1) G(1,2)]
  have "expand_code z1 code = Err (LzwCorrupt (BeyondTable code (freeEnt z)))"
    using expand_code_spec [OF F(1), of code] F G assms(2,6) by (simp add: lzw_frame_def)
  then have "lzw_step z = Err (LzwCorrupt (BeyondTable code (freeEnt z)))"
    using assms G(1) by (auto simp: lzw_step_def lzw_decode.simps [of z] lzw_frame_def)
  then show "lzw_stream z = []" "lzw_final z = LzwCorrupt (BeyondTable code (freeEnt z))"
    using lzw_dec.stream_Err by blast+
qed

section \<open>Properties\<close>

text \<open>
  C24: Hostile input cannot crash the uncompressor. NewReader returns on every
  input, and on a reader it has made every Read, with any buffer, returns: the
  tables and the group buffer are never indexed out of range, the chain of
  prefixes always ends, and so does the search for a code that yields a string.
\<close>

theorem uncompress_never_panics:
  "returns (lzw_NewReader r) \<and>
   (\<forall>z. lzw_NewReader r = Ok z \<longrightarrow> returns (drain lzw_Read ns z))"
  using lzw_NewReader_returns lzw_NewReader_inv lzw_rd.drain_returns by blast

text \<open>What a header with 16-bit block mode codes, and three bytes of data, makes.\<close>

definition lzw_example :: lzw_reader where
  "lzw_example =
     \<lparr>fp = \<lparr>pending = [0x61, 0, 0], failure = None\<rparr>, lzw_err = None, nBits = 9, maxBits = 16,
      maxCode = 511, maxMaxCode = 65536, freeEnt = 257, blockCompress = True, clearFlg = False,
      prefix = (\<lambda>_. 0), suffix = (\<lambda>c. if c < 256 then of_nat c else 0), stack = [], finChar = 0,
      oldCode = -1, incode = 0, gbuf = replicate 16 0, rOffset = 0, gsize = 0\<rparr>"

lemma lzw_NewReader_example:
  "lzw_NewReader \<lparr>pending = [0x1f, 0x9d, 0x90, 0x61, 0, 0], failure = None\<rparr> = Ok lzw_example"
  by (simp add: lzw_NewReader_def read_full_def IsCompressed_def lzw_Magic_def Let_def
      blockMask_def bitMask_def lzw_bits_def initBits_def maxCodeOf_def first_def lzw_example_def)

theorem uncompress_never_panics_witness:
  "lzw_NewReader \<lparr>pending = [0x1f, 0x9d, 0x90, 0x61, 0, 0], failure = None\<rparr> = Ok lzw_example \<and>
    returns (drain lzw_Read [4] lzw_example)"
  using lzw_NewReader_example uncompress_never_panics [of _ "[4]"] by blast


lemma getCode_example: "\<exists>z1. getCode lzw_example = Ok (0x61, z1)"
proof -
  have w: "widen lzw_example = lzw_example" by (simp add: widen_def lzw_example_def)
  have f: "fp lzw_example = \<lparr>pending = [0x61, 0, 0], failure = None\<rparr>" "nBits lzw_example = 9"
    "gbuf lzw_example = replicate 16 0" by (simp_all add: lzw_example_def)
  have "read_full 9 \<lparr>pending = [0x61, 0, 0], failure = None\<rparr> =
      ([0x61, 0, 0], Some UnexpectedEOF, \<lparr>pending = [], failure = None\<rparr>)"
    by (simp add: read_full_def)
  then have refill: "refill lzw_example = Ok (lzw_example\<lparr>fp := \<lparr>pending = [], failure = None\<rparr>,
      gbuf := blit 0 [0x61, 0, 0] (replicate 16 0), rOffset := 0, gsize := 16\<rparr>)"
    using w f by (simp add: refill_def)
  have "takeCode (lzw_example\<lparr>fp := \<lparr>pending = [], failure = None\<rparr>,
      gbuf := blit 0 [0x61, 0, 0] (replicate 16 0), rOffset := 0, gsize := 16\<rparr>) = Ok 0x61"
    by (simp add: takeCode_def lzw_example_def blit_0)
  with refill show ?thesis by (simp add: getCode_def) (simp add: lzw_example_def)
qed


end
