(* ===== verification/Dvh.thy ===== *)
theory Dvh
  imports Go_Prelude
begin

text \<open>
  Package dvh (src/dvh/dvh.go): the SGI disk volume header. \<open>dvh_Parse\<close>,
  \<open>ChecksumOK\<close> and \<open>dvh_EFS\<close> are Parse and the methods of Header. Go's int32 is a
  32-bit word read with \<open>sint\<close>; names are byte lists.
\<close>

section \<open>Model\<close>

definition dvh_Magic :: u32 where "dvh_Magic = 0x0be5a941"

definition TypeEFS :: u32 where "TypeEFS = 7"

record bootFile =
  bf_Name :: bytes
  bf_LBN :: u32
  bf_Bytes :: u32

record partition =
  pt_Blocks :: u32
  pt_First :: u32
  pt_Type :: u32

record dvh_header =
  BootFiles :: "bootFile list"
  Partitions :: "partition list"
  csumOK :: bool

datatype dvh_error = ShortHeader nat | BadMagic u32

text \<open>\<open>bytes.IndexByte(name, 0)\<close> and the cut it leads to: the name up to its first NUL.\<close>

definition cut_nul :: "bytes \<Rightarrow> bytes" where
  "cut_nul name = takeWhile (\<lambda>b. b \<noteq> 0) name"

definition parse_bootFile :: "bytes \<Rightarrow> nat \<Rightarrow> bootFile list \<Rightarrow> (dvh_error, bootFile list) outcome" where
  "parse_bootFile b i fs =
     (let off = 72 + i * 16 in
      and_then (slice_go b off (off + 8)) (\<lambda>name8.
      let name = cut_nul name8 in
      if name = [] then Ok fs
      else
        and_then (uint32_at b (off + 8)) (\<lambda>lbn.
        and_then (uint32_at b (off + 12)) (\<lambda>n.
        Ok (fs @ [\<lparr>bf_Name = name, bf_LBN = lbn, bf_Bytes = n\<rparr>])))))"

definition parse_partition :: "bytes \<Rightarrow> nat \<Rightarrow> partition list \<Rightarrow> (dvh_error, partition list) outcome" where
  "parse_partition b i ps =
     (let off = 312 + i * 12 in
      and_then (uint32_at b off) (\<lambda>blocks.
      and_then (uint32_at b (off + 4)) (\<lambda>start.
      and_then (uint32_at b (off + 8)) (\<lambda>ty.
      Ok (ps @ [\<lparr>pt_Blocks = blocks, pt_First = start, pt_Type = ty\<rparr>])))))"

definition checksum :: "bytes \<Rightarrow> (dvh_error, u32) outcome" where
  "checksum b = for_each (\<lambda>i s. and_then (uint32_at b (4 * i)) (\<lambda>w. Ok (s + w))) [0..<128] 0"

definition dvh_Parse :: "bytes \<Rightarrow> (dvh_error, dvh_header) outcome" where
  "dvh_Parse b =
     (if length b < 512 then Err (ShortHeader (length b))
      else
        and_then (uint32_at b 0) (\<lambda>m.
        if m \<noteq> dvh_Magic then Err (BadMagic m)
        else
          and_then (for_each (parse_bootFile b) [0..<15] []) (\<lambda>fs.
          and_then (for_each (parse_partition b) [0..<16] []) (\<lambda>ps.
          and_then (checksum b) (\<lambda>s.
          Ok \<lparr>BootFiles = fs, Partitions = ps, csumOK = (s = 0)\<rparr>)))))"

definition ChecksumOK :: "dvh_header \<Rightarrow> bool" where
  "ChecksumOK h = csumOK h"

text \<open>\<open>None\<close> is the false of EFS's second result.\<close>

definition dvh_EFS :: "dvh_header \<Rightarrow> partition option" where
  "dvh_EFS h =
     (if sint (pt_Blocks (Partitions h ! 7)) > 0 then Some (Partitions h ! 7)
      else find (\<lambda>p. pt_Type p = TypeEFS \<and> sint (pt_Blocks p) > 0) (Partitions h))"

section \<open>Parse as a function of the bytes\<close>

definition bootFile_at :: "bytes \<Rightarrow> nat \<Rightarrow> bootFile list" where
  "bootFile_at b i =
     (let name = cut_nul (take 8 (drop (72 + i * 16) b))
      in if name = [] then []
         else [\<lparr>bf_Name = name, bf_LBN = word_at b (80 + i * 16), bf_Bytes = word_at b (84 + i * 16)\<rparr>])"

definition partition_at :: "bytes \<Rightarrow> nat \<Rightarrow> partition" where
  "partition_at b i =
     \<lparr>pt_Blocks = word_at b (312 + i * 12), pt_First = word_at b (316 + i * 12),
      pt_Type = word_at b (320 + i * 12)\<rparr>"

lemma parse_bootFile_Ok:
  "512 \<le> length b \<Longrightarrow> i < 15 \<Longrightarrow> parse_bootFile b i fs = Ok (fs @ bootFile_at b i)"
  by (simp add: parse_bootFile_def bootFile_at_def Let_def uint32_at_word del: uint32_at_Ok)

lemma parse_partition_Ok:
  "512 \<le> length b \<Longrightarrow> i < 16 \<Longrightarrow> parse_partition b i ps = Ok (ps @ [partition_at b i])"
  by (simp add: parse_partition_def partition_at_def Let_def uint32_at_word del: uint32_at_Ok)

lemma fold_add_sum_list: "fold (\<lambda>i s. s + f i) xs s = s + (sum_list (map f xs) :: u32)"
  by (induction xs arbitrary: s) (auto simp: ac_simps)

lemma checksum_Ok: "512 \<le> length b \<Longrightarrow> checksum b = Ok (\<Sum>i\<leftarrow>[0..<128]. word_at b (4 * i))"
  unfolding checksum_def
  by (subst for_each_fold [where g = "\<lambda>i s. s + word_at b (4 * i)"])
     (auto simp: uint32_at_word fold_add_sum_list simp del: uint32_at_Ok)

lemma dvh_Parse_eq:
  assumes "512 \<le> length b"
  shows "dvh_Parse b =
    (if word_at b 0 \<noteq> dvh_Magic then Err (BadMagic (word_at b 0))
     else Ok \<lparr>BootFiles = concat (map (bootFile_at b) [0..<15]),
              Partitions = map (partition_at b) [0..<16],
              csumOK = ((\<Sum>i\<leftarrow>[0..<128]. word_at b (4 * i)) = 0)\<rparr>)"
proof -
  have "for_each (parse_bootFile b) [0..<15] [] = Ok (concat (map (bootFile_at b) [0..<15]))"
    by (subst for_each_fold [where g = "\<lambda>i fs. fs @ bootFile_at b i"])
       (use assms in \<open>simp_all add: parse_bootFile_Ok fold_append_concat\<close>)
  moreover have "for_each (parse_partition b) [0..<16] [] = Ok (map (partition_at b) [0..<16])"
    by (subst for_each_fold [where g = "\<lambda>i ps. ps @ [partition_at b i]"])
       (use assms in \<open>simp_all add: parse_partition_Ok fold_snoc_map\<close>)
  ultimately show ?thesis using assms
    by (simp add: dvh_Parse_def uint32_at_word checksum_Ok del: uint32_at_Ok upt_rec_numeral)
qed

section \<open>The on-disk layout\<close>

definition enc_bootFile :: "bootFile \<Rightarrow> bytes" where
  "enc_bootFile f = bf_Name f @ replicate (8 - length (bf_Name f)) 0 @ put32 (bf_LBN f) @ put32 (bf_Bytes f)"

definition enc_partition :: "partition \<Rightarrow> bytes" where
  "enc_partition p = put32 (pt_Blocks p) @ put32 (pt_First p) @ put32 (pt_Type p)"

text \<open>
  A label: the magic, 68 bytes Parse does not look at, 15 directory slots (the
  unused ones zero), 16 partitions, and 8 bytes of checksum and padding.
\<close>

definition dvh_label :: "bytes \<Rightarrow> bootFile list \<Rightarrow> partition list \<Rightarrow> bytes \<Rightarrow> bytes" where
  "dvh_label mid fs ps post =
     put32 dvh_Magic @ mid @
     concat (map enc_bootFile fs @ replicate (15 - length fs) (replicate 16 0)) @
     concat (map enc_partition ps) @ post"

definition name_ok :: "bytes \<Rightarrow> bool" where
  "name_ok n \<longleftrightarrow> n \<noteq> [] \<and> length n \<le> 8 \<and> 0 \<notin> set n"

lemma length_enc_bootFile: "name_ok (bf_Name f) \<Longrightarrow> length (enc_bootFile f) = 16"
  by (simp add: enc_bootFile_def name_ok_def)

lemma length_enc_partition [simp]: "length (enc_partition p) = 12"
  by (simp add: enc_partition_def)

lemma cut_nul_padded: "0 \<notin> set n \<Longrightarrow> cut_nul (n @ replicate k 0) = n"
  by (auto simp: cut_nul_def takeWhile_append takeWhile_eq_all_conv)

text \<open>The slots, read back one at a time.\<close>

lemma bootFile_at_slot:
  assumes slots: "\<forall>x \<in> set xs. length x = 16" and i: "i < length xs" and pre: "length pre = 72"
  shows "bootFile_at (pre @ concat xs @ post) i =
    (let name = cut_nul (take 8 (xs ! i))
     in if name = [] then [] else [\<lparr>bf_Name = name, bf_LBN = word_at (xs ! i) 8, bf_Bytes = word_at (xs ! i) 12\<rparr>])"
proof -
  have idx: "72 + i * 16 = length pre + 16 * i" "80 + i * 16 = length pre + (16 * i + 8)"
    "84 + i * 16 = length pre + (16 * i + 12)" using pre by simp_all
  show ?thesis
    unfolding bootFile_at_def idx
    using slot_at [OF slots i, of 8 pre post] word_at_slot [OF slots i, of 8 pre post]
      word_at_slot [OF slots i, of 12 pre post] by (simp add: Let_def)
qed

lemma partition_at_slot:
  assumes i: "i < length ps" and pre: "length pre = 312"
  shows "partition_at (pre @ concat (map enc_partition ps) @ post) i = ps ! i"
proof -
  have slots: "\<forall>x \<in> set (map enc_partition ps). length x = 12" by auto
  have i': "i < length (map enc_partition ps)" using i by simp
  have idx: "312 + i * 12 = length pre + (12 * i + 0)" "316 + i * 12 = length pre + (12 * i + 4)"
    "320 + i * 12 = length pre + (12 * i + 8)" using pre by simp_all
  have "word_at (enc_partition p) 0 = pt_Blocks p" "word_at (enc_partition p) 4 = pt_First p"
    "word_at (enc_partition p) 8 = pt_Type p" for p
    using word_at_put32 [of "[]" "pt_Blocks p"] word_at_put32 [of "put32 (pt_Blocks p)" "pt_First p"]
      word_at_put32 [of "put32 (pt_Blocks p) @ put32 (pt_First p)" "pt_Type p" "[]"]
    by (simp_all add: enc_partition_def)
  then show ?thesis
    unfolding partition_at_def idx
    using word_at_slot [OF slots i', of 0 pre post] word_at_slot [OF slots i', of 4 pre post]
      word_at_slot [OF slots i', of 8 pre post] i by simp
qed

lemma bootFiles_of_label:
  assumes fs: "length fs \<le> 15" "\<forall>f \<in> set fs. name_ok (bf_Name f)" and pre: "length pre = 72"
  shows "concat (map (bootFile_at (pre @ concat (map enc_bootFile fs @
      replicate (15 - length fs) (replicate 16 0)) @ post)) [0..<15]) = fs"
proof -
  let ?xs = "map enc_bootFile fs @ replicate (15 - length fs) (replicate 16 0)"
  let ?at = "bootFile_at (pre @ concat ?xs @ post)"
  have slots: "\<forall>x \<in> set ?xs. length x = 16" "length ?xs = 15" using fs length_enc_bootFile by auto
  have used: "?at i = [fs ! i]" if "i < length fs" for i
  proof -
    let ?f = "fs ! i"
    have ok: "name_ok (bf_Name ?f)" using fs(2) that by simp
    then have "word_at (enc_bootFile ?f) 8 = bf_LBN ?f" "word_at (enc_bootFile ?f) 12 = bf_Bytes ?f"
      using word_at_put32 [of "bf_Name ?f @ replicate (8 - length (bf_Name ?f)) 0" "bf_LBN ?f"]
        word_at_put32 [of "bf_Name ?f @ replicate (8 - length (bf_Name ?f)) 0 @ put32 (bf_LBN ?f)" "bf_Bytes ?f" "[]"]
      by (simp_all add: enc_bootFile_def name_ok_def)
    moreover have "take 8 (enc_bootFile ?f) = bf_Name ?f @ replicate (8 - length (bf_Name ?f)) 0"
      using ok by (simp add: enc_bootFile_def name_ok_def)
    ultimately show ?thesis
      using bootFile_at_slot [OF slots(1) _ pre, of i post] that fs ok cut_nul_padded
      by (simp add: nth_append name_ok_def)
  qed
  have unused: "?at i = []" if "length fs \<le> i" "i < 15" for i
    using bootFile_at_slot [OF slots(1) _ pre, of i post] that slots(2)
    by (simp add: nth_append cut_nul_def)
  have "map ?at [0..<15] = map ?at [0..<length fs] @ map ?at [length fs..<15]"
    using fs(1) upt_add_eq_append [of 0 "length fs" "15 - length fs"] by (simp del: upt_rec_numeral)
  also have "map ?at [0..<length fs] = map (\<lambda>i. [fs ! i]) [0..<length fs]" using used by auto
  also have "map ?at [length fs..<15] = replicate (15 - length fs) []"
    using unused by (intro replicate_eqI) auto
  finally show ?thesis
    by (metis concat_append concat_map_singleton concat_replicate_trivial map_nth append_Nil2)
qed

lemma dvh_Parse_partitions: "dvh_Parse b = Ok h \<Longrightarrow> length (Partitions h) = 16"
proof (cases "512 \<le> length b")
  case True
  then show "dvh_Parse b = Ok h \<Longrightarrow> ?thesis"
    by (auto simp: dvh_Parse_eq simp del: upt_rec_numeral split: if_splits)
qed (simp add: dvh_Parse_def)

lemma dvh_Parse_label:
  assumes "length fs \<le> 15" and "\<forall>f \<in> set fs. name_ok (bf_Name f)" and "length ps = 16"
    and "length mid = 68" and "length post = 8"
  shows "\<exists>h. dvh_Parse (dvh_label mid fs ps post) = Ok h \<and> BootFiles h = fs \<and> Partitions h = ps \<and>
    ChecksumOK h = ((\<Sum>i\<leftarrow>[0..<128]. word_at (dvh_label mid fs ps post) (4 * i)) = 0)"
proof -
  let ?slots = "map enc_bootFile fs @ replicate (15 - length fs) (replicate 16 0)"
  let ?pre = "put32 dvh_Magic @ mid" and ?rest = "concat (map enc_partition ps) @ post"
  let ?b = "dvh_label mid fs ps post"
  have "\<forall>x \<in> set ?slots. length x = 16" "length ?slots = 15" using assms(1,2) length_enc_bootFile by auto
  then have lens: "length (concat ?slots) = 240" "length (concat (map enc_partition ps)) = 192"
    using length_concat_same [of ?slots 16] length_concat_same [of "map enc_partition ps" 12] assms(3) by auto
  have b: "?b = ?pre @ concat ?slots @ ?rest" "?b = (?pre @ concat ?slots) @ concat (map enc_partition ps) @ post"
    by (simp_all add: dvh_label_def)
  have len: "512 \<le> length ?b" using assms(4,5) lens by (simp add: dvh_label_def)
  have "word_at ?b 0 = dvh_Magic"
    using word_at_put32 [of "[]"] by (simp add: dvh_label_def)
  moreover have "concat (map (bootFile_at ?b) [0..<15]) = fs"
    using bootFiles_of_label [OF assms(1,2), of ?pre ?rest] assms(4) b(1) by simp
  moreover have "partition_at ?b i = ps ! i" if "i < 16" for i
    using partition_at_slot [of i ps "?pre @ concat ?slots" post] that assms(3,4) lens b(2) by simp
  then have "map (partition_at ?b) [0..<16] = ps"
    using assms(3) by (intro nth_equalityI) simp_all
  ultimately show ?thesis using dvh_Parse_eq [OF len]
    by (simp add: ChecksumOK_def del: upt_rec_numeral)
qed

section \<open>Properties\<close>

text \<open>
  C36: Parse reads back what a label holds. For at most 15 boot files with names
  of 1 to 8 non-NUL bytes and 16 partitions, Parse of the label laid out from
  them gives exactly those boot files, in order, and those partitions, and the
  checksum flag says whether the label's 128 big-endian words sum to zero
  modulo 2^32, whatever the bytes Parse does not look at.
\<close>

theorem dvh_roundtrip:
  assumes "length fs \<le> 15" and "\<forall>f \<in> set fs. name_ok (bf_Name f)" and "length ps = 16"
    and "length mid = 68" and "length post = 8"
  shows "\<exists>h. dvh_Parse (dvh_label mid fs ps post) = Ok h \<and> BootFiles h = fs \<and> Partitions h = ps \<and>
    ChecksumOK h = ((\<Sum>i\<leftarrow>[0..<128]. word_at (dvh_label mid fs ps post) (4 * i)) = 0)"
  using assms by (rule dvh_Parse_label)

definition example_label :: bytes where
  "example_label = dvh_label (replicate 68 0) [\<lparr>bf_Name = str ''sash'', bf_LBN = 2, bf_Bytes = 1000\<rparr>]
     (replicate 16 \<lparr>pt_Blocks = 5, pt_First = 8, pt_Type = 7\<rparr>) (replicate 8 0)"

theorem dvh_roundtrip_witness:
  "\<exists>h. dvh_Parse example_label = Ok h \<and>
     BootFiles h = [\<lparr>bf_Name = str ''sash'', bf_LBN = 2, bf_Bytes = 1000\<rparr>] \<and>
     Partitions h = replicate 16 \<lparr>pt_Blocks = 5, pt_First = 8, pt_Type = 7\<rparr>"
  using dvh_roundtrip [of "[\<lparr>bf_Name = str ''sash'', bf_LBN = 2, bf_Bytes = 1000\<rparr>]"
      "replicate 16 \<lparr>pt_Blocks = 5, pt_First = 8, pt_Type = 7\<rparr>" "replicate 68 0" "replicate 8 0"]
  by (auto simp: name_ok_def example_label_def simp del: upt_rec_numeral)

text \<open>
  EFS picks the partition the convention names. Of a parsed header it
  returns slot 7 when that is populated, else the first populated slot of type
  EFS, and nothing exactly when there is neither; what it returns has a
  positive size.
\<close>

theorem dvh_EFS_choice:
  assumes "dvh_Parse b = Ok h"
  shows "case dvh_EFS h of
      None \<Rightarrow> \<forall>i < 16. i = 7 \<or> pt_Type (Partitions h ! i) = TypeEFS \<longrightarrow> sint (pt_Blocks (Partitions h ! i)) \<le> 0
    | Some p \<Rightarrow> sint (pt_Blocks p) > 0 \<and>
        (p = Partitions h ! 7 \<or>
         sint (pt_Blocks (Partitions h ! 7)) \<le> 0 \<and>
         (\<exists>i < 16. p = Partitions h ! i \<and> pt_Type p = TypeEFS \<and>
           (\<forall>j < i. pt_Type (Partitions h ! j) \<noteq> TypeEFS \<or> sint (pt_Blocks (Partitions h ! j)) \<le> 0)))"
proof (cases "sint (pt_Blocks (Partitions h ! 7)) > 0")
  case False
  let ?P = "\<lambda>p. pt_Type p = TypeEFS \<and> sint (pt_Blocks p) > 0"
  have n: "length (Partitions h) = 16" by (rule dvh_Parse_partitions [OF assms])
  show ?thesis
  proof (cases "find ?P (Partitions h)")
    case None
    then have "\<not> ?P (Partitions h ! i)" if "i < 16" for i
      using that n by (simp add: find_None_iff)
    with None False show ?thesis by (auto simp: dvh_EFS_def not_less)
  next
    case (Some p)
    then obtain i where "i < 16" "p = Partitions h ! i" "?P p" "\<forall>j < i. \<not> ?P (Partitions h ! j)"
      using n by (auto simp: find_Some_iff)
    with Some False show ?thesis by (auto simp: dvh_EFS_def not_less)
  qed
qed (simp add: dvh_EFS_def)

theorem dvh_EFS_choice_witness:
  "\<exists>h. dvh_Parse example_label = Ok h \<and> dvh_EFS h = Some \<lparr>pt_Blocks = 5, pt_First = 8, pt_Type = 7\<rparr>"
proof -
  let ?p = "\<lparr>pt_Blocks = 5, pt_First = 8, pt_Type = 7\<rparr> :: partition"
  obtain h where h: "dvh_Parse example_label = Ok h" "Partitions h = replicate 16 ?p"
    using dvh_Parse_label [of "[\<lparr>bf_Name = str ''sash'', bf_LBN = 2, bf_Bytes = 1000\<rparr>]"
        "replicate 16 ?p" "replicate 68 0" "replicate 8 0"]
    by (auto simp: name_ok_def example_label_def simp del: upt_rec_numeral)
  have "dvh_EFS h = Some ?p"
  proof (cases "dvh_EFS h")
    case None
    with dvh_EFS_choice [OF h(1)] have "\<forall>i < 16. i = 7 \<longrightarrow> sint (pt_Blocks (Partitions h ! i)) \<le> 0" by simp
    then have "sint (pt_Blocks (Partitions h ! 7)) \<le> 0" by simp
    with h(2) show ?thesis by simp
  next
    case (Some p)
    with dvh_EFS_choice [OF h(1)] h(2) show ?thesis by auto
  qed
  with h(1) show ?thesis by blast
qed

end
