(* ===== verification/Go_Strings.thy ===== *)
theory Go_Strings
  imports Go_Prelude
begin

text \<open>
  What the program uses of Go's string packages, on byte lists: strings.Split
  and strings.Trim with a one-byte separator, utf8.ValidString, io/fs's
  ValidPath, path.Base, path.Clean, path.Join, path.Dir, path.IsAbs, and decimal
  numbers as strconv and the verb %d have them.
\<close>

section \<open>Splitting and trimming\<close>

text \<open>\<open>strings.Split(s, sep)\<close> for a one-byte \<open>sep\<close>.\<close>

fun split_on :: "byte \<Rightarrow> bytes \<Rightarrow> bytes list" where
  "split_on c [] = [[]]"
| "split_on c (x # xs) =
     (if x = c then [] # split_on c xs
      else (x # hd (split_on c xs)) # tl (split_on c xs))"

text \<open>\<open>strings.Join(parts, sep)\<close>.\<close>

fun join_with :: "bytes \<Rightarrow> bytes list \<Rightarrow> bytes" where
  "join_with sep [] = []"
| "join_with sep [p] = p"
| "join_with sep (p # q # ps) = p @ sep @ join_with sep (q # ps)"

text \<open>\<open>strings.Trim(s, cutset)\<close> for a cutset of one byte.\<close>

definition trim_byte :: "byte \<Rightarrow> bytes \<Rightarrow> bytes" where
  "trim_byte c s = rev (dropWhile (\<lambda>b. b = c) (rev (dropWhile (\<lambda>b. b = c) s)))"

definition slash :: byte where "slash = 0x2f"
definition dot :: byte where "dot = 0x2e"

lemma split_on_not_Nil [simp]: "split_on c s \<noteq> []"
  by (cases s) auto

lemma join_split: "join_with [c] (split_on c s) = s"
proof (induction s)
  case (Cons x xs)
  obtain p ps where "split_on c xs = p # ps" by (meson split_on_not_Nil neq_Nil_conv)
  with Cons show ?case by (cases ps) auto
qed simp

lemma split_join:
  assumes "ps \<noteq> []" and "\<forall>p \<in> set ps. c \<notin> set p"
  shows "split_on c (join_with [c] ps) = ps"
proof -
  have step: "c \<notin> set p \<Longrightarrow> split_on c (p @ c # s) = p # split_on c s"
    and stop: "c \<notin> set p \<Longrightarrow> split_on c p = [p]" for p s
    by (induction p) auto
  from assms show ?thesis
  proof (induction ps)
    case (Cons p ps)
    then show ?case by (cases ps) (auto simp: step stop)
  qed simp
qed

lemma split_on_parts: "p \<in> set (split_on c s) \<Longrightarrow> c \<notin> set p"
proof (induction s arbitrary: p)
  case (Cons x xs)
  then show ?case
    by (auto split: if_splits) (metis list.set_sel split_on_not_Nil)+
qed simp

lemma trim_byte_id:
  assumes "s \<noteq> []" and "hd s \<noteq> c" and "last s \<noteq> c"
  shows "trim_byte c s = s"
proof -
  have "dropWhile (\<lambda>b. b = c) s = s" using assms(1,2) by (cases s) auto
  moreover have "dropWhile (\<lambda>b. b = c) (rev s) = rev s"
    using assms(1,3) by (cases "rev s") (auto simp: last_rev hd_rev [symmetric])
  ultimately show ?thesis by (simp add: trim_byte_def)
qed

section \<open>UTF-8\<close>

text \<open>
  \<open>utf8.ValidString\<close>: the encodings RFC 3629 allows, so no overlong forms, no
  surrogates, nothing beyond U+10FFFF.
\<close>

definition cont :: "byte \<Rightarrow> bool" where
  "cont b \<longleftrightarrow> 0x80 \<le> b \<and> b \<le> 0xBF"

fun utf8_valid :: "bytes \<Rightarrow> bool" where
  "utf8_valid [] = True"
| "utf8_valid (a # s) =
     (if a < 0x80 then utf8_valid s
      else if 0xC2 \<le> a \<and> a \<le> 0xDF then
        (case s of b # s' \<Rightarrow> cont b \<and> utf8_valid s' | _ \<Rightarrow> False)
      else if 0xE0 \<le> a \<and> a \<le> 0xEF then
        (case s of b # c # s' \<Rightarrow>
           cont b \<and> cont c \<and> (a = 0xE0 \<longrightarrow> 0xA0 \<le> b) \<and> (a = 0xED \<longrightarrow> b \<le> 0x9F) \<and> utf8_valid s'
         | _ \<Rightarrow> False)
      else if 0xF0 \<le> a \<and> a \<le> 0xF4 then
        (case s of b # c # d # s' \<Rightarrow>
           cont b \<and> cont c \<and> cont d \<and> (a = 0xF0 \<longrightarrow> 0x90 \<le> b) \<and> (a = 0xF4 \<longrightarrow> b \<le> 0x8F) \<and>
           utf8_valid s'
         | _ \<Rightarrow> False)
      else False)"

section \<open>Paths\<close>

text \<open>
  \<open>fs.ValidPath\<close>: valid UTF-8, and either "." or slash-separated elements none
  of which is empty, "." or "..".
\<close>

definition ValidPath :: "bytes \<Rightarrow> bool" where
  "ValidPath name \<longleftrightarrow> utf8_valid name \<and>
     (name = [dot] \<or>
      (\<forall>e \<in> set (split_on slash name). e \<noteq> [] \<and> e \<noteq> [dot] \<and> e \<noteq> [dot, dot]))"

text \<open>\<open>path.Base\<close>.\<close>

definition path_Base :: "bytes \<Rightarrow> bytes" where
  "path_Base p =
     (if p = [] then [dot]
      else let q = rev (dropWhile (\<lambda>b. b = slash) (rev p));
               r = rev (takeWhile (\<lambda>b. b \<noteq> slash) (rev q))
           in if r = [] then [slash] else r)"

text \<open>
  \<open>path.Clean\<close>: elements that are empty or "." are dropped and ".." removes the
  element before it; at the root it is dropped, elsewhere kept in front.
\<close>

definition IsAbs :: "bytes \<Rightarrow> bool" where
  "IsAbs p \<longleftrightarrow> p \<noteq> [] \<and> hd p = slash"

definition clean_step :: "bool \<Rightarrow> bytes \<Rightarrow> bytes list \<Rightarrow> bytes list" where
  "clean_step rooted e out =
     (if e = [] \<or> e = [dot] then out
      else if e = [dot, dot] then
        if out \<noteq> [] \<and> List.last out \<noteq> [dot, dot] then butlast out
        else if rooted then out else out @ [e]
      else out @ [e])"

definition path_Clean :: "bytes \<Rightarrow> bytes" where
  "path_Clean p =
     (let parts = fold (clean_step (IsAbs p)) (split_on slash p) [];
          s = (if IsAbs p then [slash] else []) @ join_with [slash] parts
      in if s = [] then [dot] else s)"

text \<open>\<open>path.Join\<close>: the elements that are not empty, joined and cleaned.\<close>

definition path_Join :: "bytes list \<Rightarrow> bytes" where
  "path_Join es =
     (let es' = filter (\<lambda>e. e \<noteq> []) es in if es' = [] then [] else path_Clean (join_with [slash] es'))"

text \<open>\<open>path.Dir\<close>: what is in front of the last slash, cleaned.\<close>

definition path_Dir :: "bytes \<Rightarrow> bytes" where
  "path_Dir p = path_Clean (rev (dropWhile (\<lambda>b. b \<noteq> slash) (rev p)))"

text \<open>\<open>strings.TrimPrefix\<close> with a one-byte prefix.\<close>

definition trim_prefix :: "byte \<Rightarrow> bytes \<Rightarrow> bytes" where
  "trim_prefix c p = (if p \<noteq> [] \<and> hd p = c then tl p else p)"

subsection \<open>Cleaning paths that are clean\<close>

definition plain_part :: "bytes \<Rightarrow> bool" where
  "plain_part e \<longleftrightarrow> e \<noteq> [] \<and> e \<noteq> [dot] \<and> e \<noteq> [dot, dot] \<and> slash \<notin> set e"

lemma clean_plain:
  "\<forall>e \<in> set es. plain_part e \<Longrightarrow> fold (clean_step rooted) es out = out @ es"
  by (induction es arbitrary: out) (auto simp: clean_step_def plain_part_def)

lemma path_Clean_parts:
  assumes "ps \<noteq> []" and "\<forall>e \<in> set ps. plain_part e"
  shows "path_Clean (join_with [slash] ps) = join_with [slash] ps"
proof -
  obtain p qs where ps: "ps = p # qs" using assms(1) by (cases ps) auto
  then have p: "p \<noteq> []" "slash \<notin> set p" using assms(2) by (auto simp: plain_part_def)
  then have "hd p \<noteq> slash" by (cases p) auto
  then have rel: "\<not> IsAbs (join_with [slash] ps)" "join_with [slash] ps \<noteq> []"
    using ps p by (cases qs; auto simp: IsAbs_def)+
  have "split_on slash (join_with [slash] ps) = ps"
    using assms by (intro split_join) (auto simp: plain_part_def)
  with rel clean_plain [OF assms(2)] show ?thesis by (simp add: path_Clean_def)
qed

lemma join_with_append:
  "ps \<noteq> [] \<Longrightarrow> qs \<noteq> [] \<Longrightarrow> join_with [c] (ps @ qs) = join_with [c] ps @ c # join_with [c] qs"
proof (induction ps)
  case (Cons p ps)
  then show ?case by (cases ps; cases qs) auto
qed simp

text \<open>Joining a clean relative path and one element.\<close>

lemma path_Join_snoc:
  assumes "ps \<noteq> []" and "\<forall>e \<in> set ps. plain_part e" and "plain_part q"
  shows "path_Join [join_with [slash] ps, q] = join_with [slash] (ps @ [q])"
proof -
  have "join_with [slash] ps \<noteq> []"
    using assms(1,2) by (cases ps; cases "tl ps") (auto simp: plain_part_def)
  moreover have "q \<noteq> []" using assms(3) by (simp add: plain_part_def)
  ultimately show ?thesis
    using path_Clean_parts [of "ps @ [q]"] assms join_with_append [of ps "[q]" slash] by (simp add: path_Join_def)
qed

lemma ValidPath_parts:
  "ValidPath name \<Longrightarrow> name \<noteq> [dot] \<Longrightarrow> \<forall>e \<in> set (split_on slash name). plain_part e"
  using split_on_parts by (auto simp: ValidPath_def plain_part_def)

lemma join_parts_rel:
  assumes "ps \<noteq> []" and "\<forall>e \<in> set ps. plain_part e"
  shows "join_with [slash] ps \<noteq> []" and "\<not> IsAbs (join_with [slash] ps @ x)" and "join_with [slash] ps \<noteq> [dot]"
proof -
  obtain p qs where ps: "ps = p # qs" using assms(1) by (cases ps) auto
  then have p: "p \<noteq> []" "slash \<notin> set p" "p \<noteq> [dot]" using assms(2) by (auto simp: plain_part_def)
  obtain b q where b: "p = b # q" "b \<noteq> slash" using p by (cases p) auto
  with ps show "join_with [slash] ps \<noteq> []" "\<not> IsAbs (join_with [slash] ps @ x)" by (cases qs; simp add: IsAbs_def)+
  show "join_with [slash] ps \<noteq> [dot]" using ps p b by (cases qs) auto
qed

text \<open>The directory and the last element of a valid path.\<close>

lemma path_Dir_parts:
  assumes plain: "\<forall>e \<in> set (ps @ [b]). plain_part e" and split: "split_on slash name = ps @ [b]"
  shows "path_Base name = b" and "path_Dir name = (if ps = [] then [dot] else join_with [slash] ps)"
proof -
  from plain have b: "b \<noteq> []" "slash \<notin> set b" by (auto simp: plain_part_def)
  have name: "name = (if ps = [] then b else join_with [slash] ps @ slash # b)"
    using join_split [of slash name] split join_with_append [of ps "[b]" slash] by auto
  have lastb: "List.last b \<noteq> slash" using b by (metis last_in_set)
  have rb: "dropWhile (\<lambda>c. c = slash) (rev b @ x) = rev b @ x" for x
    using lastb b(1) by (cases b rule: rev_cases) auto
  have tw: "takeWhile (\<lambda>c. c \<noteq> slash) (rev b) = rev b" "takeWhile (\<lambda>c. c \<noteq> slash) (rev b @ slash # x) = rev b"
    "dropWhile (\<lambda>c. c \<noteq> slash) (rev b) = []" "dropWhile (\<lambda>c. c \<noteq> slash) (rev b @ slash # x) = slash # x" for x
    using b(2) takeWhile_append2 [of "rev b" "\<lambda>c. c \<noteq> slash" "slash # x"]
      dropWhile_append2 [of "rev b" "\<lambda>c. c \<noteq> slash" "slash # x"]
    by (auto simp: takeWhile_eq_all_conv dropWhile_eq_Nil_conv)
  show "path_Base name = b"
    using b(1) rb [of "[]"] by (simp add: name path_Base_def Let_def rb tw)
  show "path_Dir name = (if ps = [] then [dot] else join_with [slash] ps)"
  proof (cases "ps = []")
    case True
    then show ?thesis by (simp add: name tw path_Dir_def path_Clean_def IsAbs_def clean_step_def)
  next
    case False
    have "split_on slash (join_with [slash] (ps @ [[]])) = ps @ [[]]"
      using plain by (intro split_join) (auto simp: plain_part_def)
    moreover have "join_with [slash] (ps @ [[]]) = join_with [slash] ps @ [slash]"
      using join_with_append [of ps "[[]]" slash] False by simp
    ultimately have "path_Clean (join_with [slash] ps @ [slash]) = join_with [slash] ps"
      using clean_plain [of ps] plain join_parts_rel(1) [OF False] join_parts_rel(2) [OF False, of "[slash]"]
      by (simp add: path_Clean_def clean_step_def)
    with False name tw(4) show ?thesis by (simp add: path_Dir_def)
  qed
qed

lemma path_Dir_Base:
  assumes "ValidPath name" and "name \<noteq> [dot]" and "split_on slash name = ps @ [b]"
  shows "path_Base name = b" and "path_Dir name = (if ps = [] then [dot] else join_with [slash] ps)"
  using path_Dir_parts [of ps b name] ValidPath_parts [OF assms(1,2)] assms(3) by simp_all

section \<open>Decimal numbers\<close>

text \<open>The verb \<open>%d\<close>, and strconv.ParseUint and ParseInt in base 10 with 64 bits (Atoi is the latter).\<close>

fun dec :: "nat \<Rightarrow> bytes" where
  "dec n = (if n < 10 then [of_nat (48 + n)] else dec (n div 10) @ [of_nat (48 + n mod 10)])"

declare dec.simps [simp del]

definition itoa :: "int \<Rightarrow> bytes" where
  "itoa i = (if i < 0 then 0x2d # dec (nat (- i)) else dec (nat i))"

definition is_digit :: "byte \<Rightarrow> bool" where
  "is_digit b \<longleftrightarrow> 0x30 \<le> b \<and> b \<le> 0x39"

definition digits_value :: "bytes \<Rightarrow> nat" where
  "digits_value s = foldl (\<lambda>n b. n * 10 + (unat b - 48)) 0 s"

definition parse_digits :: "bytes \<Rightarrow> nat option" where
  "parse_digits s = (if s \<noteq> [] \<and> list_all is_digit s then Some (digits_value s) else None)"

definition ParseUint :: "bytes \<Rightarrow> nat option" where
  "ParseUint s = (case parse_digits s of None \<Rightarrow> None | Some n \<Rightarrow> if n < 2 ^ 64 then Some n else None)"

definition ParseInt :: "bytes \<Rightarrow> int option" where
  "ParseInt s =
     (let (neg, ds) = (case s of [] \<Rightarrow> (False, []) | b # bs \<Rightarrow>
            if b = 0x2d then (True, bs) else if b = 0x2b then (False, bs) else (False, s))
      in case parse_digits ds of
           None \<Rightarrow> None
         | Some n \<Rightarrow>
             if neg then if n \<le> 2 ^ 63 then Some (- int n) else None
             else if n < 2 ^ 63 then Some (int n) else None)"

lemma unat_digit: "n < 10 \<Longrightarrow> unat (of_nat (48 + n) :: byte) = 48 + n"
  by (simp add: unat_of_nat take_bit_eq_mod del: of_nat_add)

lemma is_digit_code: "n < 10 \<Longrightarrow> is_digit (of_nat (48 + n))"
  by (simp add: is_digit_def word_le_nat_alt unat_digit del: of_nat_add)

lemma dec_digits [simp]: "dec n \<noteq> [] \<and> list_all is_digit (dec n)"
proof (induction n rule: dec.induct)
  case (1 n)
  then show ?case
    by (subst dec.simps) (simp add: is_digit_code is_digit_code [of "n mod 10"] del: of_nat_add, subst dec.simps, simp add: is_digit_code del: of_nat_add)
qed

lemma dec_value [simp]: "digits_value (dec n) = n"
proof (induction n rule: dec.induct)
  case (1 n)
  then show ?case
    by (subst dec.simps) (simp add: digits_value_def unat_digit del: of_nat_add)
qed

lemma parse_dec [simp]: "parse_digits (dec n) = Some n"
  by (simp add: parse_digits_def)

lemma ParseUint_dec: "n < 2 ^ 64 \<Longrightarrow> ParseUint (dec n) = Some n"
  by (simp add: ParseUint_def)

lemma dec_first: "dec n = b # bs \<Longrightarrow> b \<noteq> 0x2d \<and> b \<noteq> 0x2b"
  using dec_digits [of n] by (auto simp: is_digit_def)

lemma ParseInt_itoa: "- (2 ^ 63) \<le> i \<Longrightarrow> i < 2 ^ 63 \<Longrightarrow> ParseInt (itoa i) = Some i"
  using parse_dec [of "nat i"]
  by (cases "dec (nat i)") (auto simp: ParseInt_def itoa_def dest: dec_first)

text \<open>strings.ToLower on ASCII.\<close>

definition lower_byte :: "byte \<Rightarrow> byte" where
  "lower_byte b = (if 0x41 \<le> b \<and> b \<le> 0x5a then b + 0x20 else b)"

definition ToLower :: "bytes \<Rightarrow> bytes" where
  "ToLower = map lower_byte"

text \<open>White space of ASCII, strings.TrimSpace, Contains, HasPrefix and HasSuffix.\<close>

definition is_space :: "byte \<Rightarrow> bool" where
  "is_space b \<longleftrightarrow> b \<in> {0x20, 0x09, 0x0a, 0x0b, 0x0c, 0x0d}"

definition trim_space :: "bytes \<Rightarrow> bytes" where
  "trim_space s = rev (dropWhile is_space (rev (dropWhile is_space s)))"

fun contains :: "bytes \<Rightarrow> bytes \<Rightarrow> bool" where
  "contains [] needle = (needle = [])"
| "contains (c # s) needle = (take (length needle) (c # s) = needle \<or> contains s needle)"

definition HasPrefix :: "bytes \<Rightarrow> bytes \<Rightarrow> bool" where
  "HasPrefix s p \<longleftrightarrow> take (length p) s = p"

definition HasSuffix :: "bytes \<Rightarrow> bytes \<Rightarrow> bool" where
  "HasSuffix s p \<longleftrightarrow> length p \<le> length s \<and> drop (length s - length p) s = p"

end
