(* ===== verification/Efs.thy ===== *)
theory Efs
  imports Go_Strings
begin

text \<open>
  Package efs, the filesystem proper (src/efs/efs.go, src/efs/inode.go): the
  superblock, inodes and their extent tables, reads through the extents,
  directory blocks and path lookup. The image is an io.ReaderAt, so it is a
  function of the offset and the length; what the code relies on is the locale
  \<open>image\<close> below. Signed on-disk integers are \<open>int\<close> (the sign-extended field) and
  int64 arithmetic is \<open>int\<close>: with a partition start of 32 bits every offset stays
  below 2^57.
\<close>

section \<open>The image\<close>

text \<open>\<open>ReadAt(p, off)\<close> with \<open>len(p) = n\<close>: the bytes read and the error.\<close>

type_synonym reader_at = "int \<Rightarrow> nat \<Rightarrow> bytes \<times> io_error option"

text \<open>
  The contract of io.ReaderAt: never more than asked for, and an error whenever
  less.
\<close>

locale image =
  fixes rd :: reader_at
  assumes rd_length: "length (fst (rd off n)) \<le> n"
    and rd_short: "length (fst (rd off n)) < n \<Longrightarrow> snd (rd off n) \<noteq> None"

text \<open>A reader over bytes that are all there, as bytes.Reader is.\<close>

locale solid_image = image +
  fixes content :: bytes
  assumes rd_inside: "0 \<le> off \<Longrightarrow> 0 < n \<Longrightarrow> nat off + n \<le> length content \<Longrightarrow>
    rd off n = (take n (drop (nat off) content), None)"
    and rd_outside: "0 \<le> off \<Longrightarrow> 0 < n \<Longrightarrow> length content < nat off + n \<Longrightarrow>
    rd off n = (take n (drop (nat off) content), Some EOF)"

text \<open>\<open>bytes.Reader.ReadAt\<close>.\<close>

definition bytes_ReadAt :: "bytes \<Rightarrow> reader_at" where
  "bytes_ReadAt b off n =
     (if off < 0 then ([], Some (ReadError 0))
      else if nat off \<ge> length b then ([], Some EOF)
      else let got = take n (drop (nat off) b)
           in (got, if length got < n then Some EOF else None))"

interpretation bytes_image: solid_image "bytes_ReadAt b" b
  by unfold_locales (auto simp: bytes_ReadAt_def Let_def split: if_splits)

section \<open>Model: superblock\<close>

datatype efs_error =
    Efs_IO io_error
  | SuperblockErr io_error
  | BadSuperMagic u32
  | ImplausibleGeometry int int int int
  | BeyondGroups u32 int
  | InodeErr u32 io_error
  | NegativeSize u32 int
  | ExtentCount u32 int
  | ExtentTableErr u32 io_error
  | ExtentTableShort u32 nat nat
  | NegativeOffset int
  | NotADirectory u32
  | NotASymlink u32
  | NotFound bytes bytes

definition SuperMagic :: u32 where "SuperMagic = 0x00072959"
definition SuperMagicGrown :: u32 where "SuperMagicGrown = 0x0007295a"
definition blockSize :: nat where "blockSize = 512"
definition inodesPerBB :: nat where "inodesPerBB = 4"

record efs_FS =
  image_r :: reader_at
  base :: int
  fs_size :: int
  firstCG :: int
  cgFSize :: int
  cgISize :: int
  ncg :: int

definition int32 :: "u32 \<Rightarrow> int" where "int32 w = sint w"
definition int16 :: "u16 \<Rightarrow> int" where "int16 w = sint w"

definition readBlock :: "efs_FS \<Rightarrow> int \<Rightarrow> (io_error, bytes) outcome" where
  "readBlock fs n =
     (let (got, e) = image_r fs ((base fs + n) * int blockSize) blockSize
      in case e of Some err \<Rightarrow> Err err | None \<Rightarrow> Ok (into_buf blockSize got))"

definition efs_Open :: "reader_at \<Rightarrow> int \<Rightarrow> (efs_error, efs_FS) outcome" where
  "efs_Open r baseBlock =
     (let fs = \<lparr>image_r = r, base = baseBlock, fs_size = 0, firstCG = 0, cgFSize = 0, cgISize = 0, ncg = 0\<rparr> in
      and_then (wrap_err SuperblockErr (readBlock fs 1)) (\<lambda>sb.
      and_then (uint32_at sb 28) (\<lambda>magic.
      if magic \<noteq> SuperMagic \<and> magic \<noteq> SuperMagicGrown then Err (BadSuperMagic magic)
      else
        and_then (uint32_at sb 0) (\<lambda>w0.
        and_then (uint32_at sb 4) (\<lambda>w4.
        and_then (uint32_at sb 8) (\<lambda>w8.
        and_then (uint16_at sb 12) (\<lambda>w12.
        and_then (uint16_at sb 18) (\<lambda>w18.
        let fs = fs\<lparr>fs_size := int32 w0, firstCG := int32 w4, cgFSize := int32 w8,
                    cgISize := int16 w12, ncg := int16 w18\<rparr>
        in if firstCG fs \<le> 0 \<or> cgFSize fs \<le> 0 \<or> cgISize fs \<le> 0 \<or> ncg fs \<le> 0
           then Err (ImplausibleGeometry (firstCG fs) (cgFSize fs) (cgISize fs) (ncg fs))
           else Ok fs))))))))"

section \<open>Model: inodes\<close>

definition RootIno :: u32 where "RootIno = 2"
definition inodeSize :: nat where "inodeSize = 128"
definition directExtents :: nat where "directExtents = 12"
definition dirblkMagic :: u16 where "dirblkMagic = 0xbeef"
definition fmtMask :: u16 where "fmtMask = 0xf000"
definition fmtRegular :: u16 where "fmtRegular = 0x8000"
definition fmtDir :: u16 where "fmtDir = 0x4000"
definition fmtSymlink :: u16 where "fmtSymlink = 0xa000"

record extent =
  ex_Block :: u32
  ex_Len :: u32
  ex_Offset :: u32

record inode =
  i_Num :: u32
  i_Mode :: u16
  i_Nlink :: int
  i_UID :: u16
  i_GID :: u16
  i_Size :: int
  i_Atime :: u32
  i_Mtime :: u32
  i_Ctime :: u32
  i_Gen :: int
  i_Extents :: "extent list"

definition IsRegular :: "inode \<Rightarrow> bool" where
  "IsRegular i \<longleftrightarrow> i_Mode i AND fmtMask = fmtRegular"

definition IsDir :: "inode \<Rightarrow> bool" where
  "IsDir i \<longleftrightarrow> i_Mode i AND fmtMask = fmtDir"

definition IsSymlink :: "inode \<Rightarrow> bool" where
  "IsSymlink i \<longleftrightarrow> i_Mode i AND fmtMask = fmtSymlink"

record dirEntry =
  de_Name :: bytes
  de_Ino :: u32

definition parseExtent :: "bytes \<Rightarrow> nat \<Rightarrow> ('e, extent) outcome" where
  "parseExtent b off =
     and_then (uint32_at b off) (\<lambda>w1.
     and_then (uint32_at b (off + 4)) (\<lambda>w2.
     Ok \<lparr>ex_Block = w1 AND 0xffffff, ex_Len = drop_bit 24 w2, ex_Offset = w2 AND 0xffffff\<rparr>))"

text \<open>\<open>n\<close> extents appended to \<open>es\<close> from the slots at \<open>off\<close>, \<open>off+8\<close>, ...\<close>

definition parse_extents :: "bytes \<Rightarrow> nat \<Rightarrow> nat \<Rightarrow> extent list \<Rightarrow> ('e, extent list) outcome" where
  "parse_extents b off n es =
     for_each (\<lambda>i es. and_then (parseExtent b (off + i * 8)) (\<lambda>e. Ok (es @ [e]))) [0..<n] es"

text \<open>
  The extent table: the blocks \<open>ie.Block + b\<close> in the order of the two loops,
  until \<open>numext\<close> extents are there.
\<close>

fun read_table :: "efs_FS \<Rightarrow> u32 \<Rightarrow> nat \<Rightarrow> u32 list \<Rightarrow> extent list \<Rightarrow> (efs_error, extent list) outcome" where
  "read_table fs ino numext [] es = Ok es"
| "read_table fs ino numext (blkno # blks) es =
     and_then (wrap_err (ExtentTableErr ino) (readBlock fs (uint blkno))) (\<lambda>blk.
     and_then (parse_extents blk 0 (min (blockSize div 8) (numext - length es)) es) (\<lambda>es'.
     if length es' \<ge> numext then Ok es' else read_table fs ino numext blks es'))"

definition table_blocks :: "extent list \<Rightarrow> u32 list" where
  "table_blocks indir = concat (map (\<lambda>ie. map (\<lambda>b. ex_Block ie + of_nat b) [0..<unat (ex_Len ie)]) indir)"

text \<open>The block an inode is read from.\<close>

definition inode_block :: "efs_FS \<Rightarrow> u32 \<Rightarrow> int" where
  "inode_block fs ino =
     (let inopcg = of_int (cgISize fs) * 4
      in firstCG fs + uint (ino div inopcg) * cgFSize fs + uint (ino mod inopcg div 4))"

text \<open>
  sort.Slice leaves the order of extents with equal offsets open; \<open>sort_key\<close> is
  one such order and nothing below depends on which.
\<close>

definition efs_Inode :: "efs_FS \<Rightarrow> u32 \<Rightarrow> (efs_error, inode) outcome" where
  "efs_Inode fs ino =
     (let inopcg = of_int (cgISize fs) * 4 in
      if inopcg = 0 then Panic
      else if ino div inopcg \<ge> of_int (ncg fs) then Err (BeyondGroups ino (ncg fs))
      else
        and_then (wrap_err (InodeErr ino) (readBlock fs (inode_block fs ino))) (\<lambda>blk.
        and_then (slice_go blk (unat (ino mod 4) * inodeSize) (unat (ino mod 4) * inodeSize + inodeSize)) (\<lambda>d.
        and_then (uint16_at d 0) (\<lambda>mode.
        and_then (uint16_at d 2) (\<lambda>nlink.
        and_then (uint16_at d 4) (\<lambda>uid.
        and_then (uint16_at d 6) (\<lambda>gid.
        and_then (uint32_at d 8) (\<lambda>sz.
        and_then (uint32_at d 12) (\<lambda>atime.
        and_then (uint32_at d 16) (\<lambda>mtime.
        and_then (uint32_at d 20) (\<lambda>ctime.
        and_then (uint32_at d 24) (\<lambda>gen.
        if int32 sz < 0 then Err (NegativeSize ino (int32 sz))
        else
          and_then (uint16_at d 28) (\<lambda>nx.
          if int16 nx < 0 then Err (ExtentCount ino (int16 nx))
          else
            let numext = nat (int16 nx) in
            and_then
              (if numext \<le> directExtents then parse_extents d 32 numext []
               else
                 and_then (parse_extents d 32 directExtents []) (\<lambda>direct.
                 let indir = takeWhile (\<lambda>e. ex_Len e \<noteq> 0) direct in
                 and_then (read_table fs ino numext (table_blocks indir) []) (\<lambda>es.
                 if length es < numext then Err (ExtentTableShort ino (length es) numext) else Ok es)))
              (\<lambda>es.
            Ok \<lparr>i_Num = ino, i_Mode = mode, i_Nlink = int16 nlink, i_UID = uid, i_GID = gid,
                i_Size = int32 sz, i_Atime = atime, i_Mtime = mtime, i_Ctime = ctime,
                i_Gen = int32 gen, i_Extents = sort_key ex_Offset es\<rparr>))))))))))))))"

section \<open>Model: reading a file\<close>

text \<open>
  The loop of ReadAt: \<open>acc\<close> is \<open>p[:done]\<close> and \<open>i\<close> the extent being read. The
  slice \<open>p[done:done+chunk]\<close> panics when \<open>chunk\<close> is negative, which only
  overlapping extents make it.
\<close>

function readat_loop :: "efs_FS \<Rightarrow> extent list \<Rightarrow> nat \<Rightarrow> nat \<Rightarrow> nat \<Rightarrow> bytes \<Rightarrow>
    (efs_error, bytes \<times> io_error option) outcome" where
  "readat_loop fs es off want i acc =
     (if want \<le> length acc then Ok (acc, None)
      else if i < length es \<and> ex_Len (es ! i) = 0 then readat_loop fs es off want (i + 1) acc
      else
        let pos = off + length acc in
        if i \<ge> length es \<or> pos < unat (ex_Offset (es ! i)) * blockSize then
          let chunk = (if i < length es
                       then min (want - length acc) (unat (ex_Offset (es ! i)) * blockSize - pos)
                       else want - length acc)
          in readat_loop fs es off want i (acc @ replicate chunk 0)
        else
          let e = es ! i;
              start = unat (ex_Offset e) * blockSize;
              stop = start + unat (ex_Len e) * blockSize;
              chunk = min (int (want - length acc)) (int stop - int pos)
          in if chunk < 0 then Panic
             else
               let (got, err) = image_r fs ((base fs + uint (ex_Block e)) * int blockSize + int pos - int start)
                                  (nat chunk)
               in if err \<noteq> None then Ok (acc @ got, err)
                  else if int (length got) \<noteq> chunk then Ok (acc @ got, Some UnexpectedEOF)
                  else readat_loop fs es off want (if int pos + chunk = int stop then i + 1 else i) (acc @ got))"
  by pat_completeness auto
termination
  by (relation "measure (\<lambda>(fs, es, off, want, i, acc). (want - length acc) + (length es - i))")
     (auto split: if_splits)

declare readat_loop.simps [simp del]

text \<open>ReadAt's \<open>sort.Search\<close> for the first extent that ends after \<open>off\<close>.\<close>

definition first_extent :: "inode \<Rightarrow> int \<Rightarrow> nat" where
  "first_extent ino off = sort_Search (length (i_Extents ino)) (\<lambda>k.
     let e = i_Extents ino ! k in int (unat (ex_Offset e) + unat (ex_Len e)) * int blockSize > off)"

text \<open>\<open>ReadAt\<close> with \<open>len(p) = n\<close>: the bytes put at the front of \<open>p\<close> and the error.\<close>

definition efs_ReadAt :: "efs_FS \<Rightarrow> inode \<Rightarrow> nat \<Rightarrow> int \<Rightarrow> (efs_error, bytes \<times> efs_error option) outcome" where
  "efs_ReadAt fs ino n off =
     (if off < 0 then Ok ([], Some (NegativeOffset off))
      else if off \<ge> i_Size ino then Ok ([], Some (Efs_IO EOF))
      else
        let want = min n (nat (i_Size ino - off)); i = first_extent ino off
        in and_then (readat_loop fs (i_Extents ino) (nat off) want i []) (\<lambda>(got, err).
           Ok (got, case err of
                      Some e \<Rightarrow> Some (Efs_IO e)
                    | None \<Rightarrow> if length got < n then Some (Efs_IO EOF) else None)))"

section \<open>Model: directories, links and paths\<close>

definition slot_entry :: "bytes \<Rightarrow> nat \<Rightarrow> dirEntry list \<Rightarrow> (efs_error, dirEntry list) outcome" where
  "slot_entry blk s out =
     and_then (nth_go blk (4 + s)) (\<lambda>b.
     let so = unat b * 2 in
     if so = 0 \<or> so + 5 > length blk then Ok out
     else
       and_then (nth_go blk (so + 4)) (\<lambda>nl.
       let nameLen = unat nl in
       if so + 5 + nameLen > length blk then Ok out
       else
         and_then (slice_go blk (so + 5) (so + 5 + nameLen)) (\<lambda>name.
         and_then (uint32_at blk so) (\<lambda>ino.
         Ok (out @ [\<lparr>de_Name = name, de_Ino = ino\<rparr>])))))"

definition block_entries :: "bytes \<Rightarrow> nat \<Rightarrow> dirEntry list \<Rightarrow> (efs_error, dirEntry list) outcome" where
  "block_entries data k out =
     (let start = k * blockSize;
          stop = (if start + blockSize > length data then length data else start + blockSize)
      in and_then (slice_go data start stop) (\<lambda>blk.
         if length blk < 4 then Ok out
         else
           and_then (uint16_at blk 0) (\<lambda>magic.
           if magic \<noteq> dirblkMagic then Ok out
           else
             and_then (nth_go blk 3) (\<lambda>slots.
             for_each (slot_entry blk) [0..<min (unat slots) (length blk - 4)] out))))"

text \<open>The bytes of a whole file, as ReadDir and Readlink fetch them: a short read is padded with zeros.\<close>

definition whole_file :: "efs_FS \<Rightarrow> inode \<Rightarrow> (efs_error, bytes) outcome" where
  "whole_file fs ino =
     (if i_Size ino < 0 then Err (NegativeSize (i_Num ino) (i_Size ino))
      else
        and_then (efs_ReadAt fs ino (nat (i_Size ino)) 0) (\<lambda>(got, err).
        case err of
          Some e \<Rightarrow> if e \<noteq> Efs_IO EOF then Err e else Ok (into_buf (nat (i_Size ino)) got)
        | None \<Rightarrow> Ok (into_buf (nat (i_Size ino)) got)))"

text \<open>How often \<open>for base := 0; base < n; base += blockSize\<close> runs.\<close>

definition blocks_in :: "nat \<Rightarrow> nat" where
  "blocks_in n = (n + blockSize - 1) div blockSize"

definition efs_ReadDir :: "efs_FS \<Rightarrow> inode \<Rightarrow> (efs_error, dirEntry list) outcome" where
  "efs_ReadDir fs ino =
     (if \<not> IsDir ino then Err (NotADirectory (i_Num ino))
      else
        and_then (whole_file fs ino) (\<lambda>data.
        for_each (block_entries data) [0..<blocks_in (length data)] []))"

definition efs_Readlink :: "efs_FS \<Rightarrow> inode \<Rightarrow> (efs_error, bytes) outcome" where
  "efs_Readlink fs ino =
     (if \<not> IsSymlink ino then Err (NotASymlink (i_Num ino)) else whole_file fs ino)"

text \<open>
  The loop of Lookup over the path's parts: \<open>next\<close> stays 0 when no entry has the
  name.
\<close>

fun lookup_parts :: "efs_FS \<Rightarrow> bytes \<Rightarrow> bytes list \<Rightarrow> inode \<Rightarrow> (efs_error, inode) outcome" where
  "lookup_parts fs path [] ino = Ok ino"
| "lookup_parts fs path (part # parts) ino =
     (if part = [] then lookup_parts fs path parts ino
      else
        and_then (efs_ReadDir fs ino) (\<lambda>ents.
        let next = (case find (\<lambda>e. de_Name e = part) ents of Some e \<Rightarrow> de_Ino e | None \<Rightarrow> 0) in
        if next = 0 then Err (NotFound path part)
        else and_then (efs_Inode fs next) (lookup_parts fs path parts)))"

definition efs_Lookup :: "efs_FS \<Rightarrow> bytes \<Rightarrow> (efs_error, inode) outcome" where
  "efs_Lookup fs path =
     and_then (efs_Inode fs RootIno) (lookup_parts fs path (split_on slash (trim_byte slash path)))"

section \<open>What a file holds\<close>

text \<open>
  The byte at position \<open>k\<close> of a file: of the extent that covers it, or zero in
  a hole. \<open>c\<close> is the image and \<open>b\<close> the partition's first block.
\<close>

definition ex_start :: "extent \<Rightarrow> nat" where
  "ex_start e = unat (ex_Offset e) * blockSize"

definition ex_end :: "extent \<Rightarrow> nat" where
  "ex_end e = ex_start e + unat (ex_Len e) * blockSize"

definition file_byte :: "bytes \<Rightarrow> int \<Rightarrow> extent list \<Rightarrow> nat \<Rightarrow> byte" where
  "file_byte c b es k =
     (case find (\<lambda>e. ex_start e \<le> k \<and> k < ex_end e) es of
        Some e \<Rightarrow> c ! (nat ((b + uint (ex_Block e)) * int blockSize) + (k - ex_start e))
      | None \<Rightarrow> 0)"

definition file_content :: "bytes \<Rightarrow> int \<Rightarrow> inode \<Rightarrow> bytes" where
  "file_content c b ino = map (file_byte c b (i_Extents ino)) [0..<nat (i_Size ino)]"

text \<open>Extents in order, without overlap, and inside the image.\<close>

definition extents_disjoint :: "extent list \<Rightarrow> bool" where
  "extents_disjoint es \<longleftrightarrow> sorted_wrt (\<lambda>e e'. ex_end e \<le> ex_start e') es"

definition extents_inside :: "bytes \<Rightarrow> int \<Rightarrow> extent list \<Rightarrow> bool" where
  "extents_inside c b es \<longleftrightarrow> (\<forall>e \<in> set es. 0 \<le> b + uint (ex_Block e) \<and>
     nat ((b + uint (ex_Block e)) * int blockSize) + unat (ex_Len e) * blockSize \<le> length c)"

lemma ex_end_start: "ex_Len e \<noteq> 0 \<Longrightarrow> ex_start e < ex_end e"
  by (simp add: ex_end_def blockSize_def unat_gt_0)

lemma ex_start_le_end: "ex_start e \<le> ex_end e"
  by (simp add: ex_end_def)

lemma extents_disjoint_less:
  "extents_disjoint es \<Longrightarrow> i < j \<Longrightarrow> j < length es \<Longrightarrow> ex_end (es ! i) \<le> ex_start (es ! j)"
  by (simp add: extents_disjoint_def sorted_wrt_iff_nth_less)

lemma find_covering:
  assumes "extents_disjoint es" and "i < length es" and "ex_start (es ! i) \<le> k" and "k < ex_end (es ! i)"
  shows "find (\<lambda>e. ex_start e \<le> k \<and> k < ex_end e) es = Some (es ! i)"
  unfolding find_Some_iff
proof (intro exI [of _ i] conjI allI impI)
  fix j
  assume "j < i"
  with extents_disjoint_less [OF assms(1) _ assms(2)] assms(3)
  show "\<not> (ex_start (es ! j) \<le> k \<and> k < ex_end (es ! j))" by fastforce
qed (use assms in auto)

text \<open>
  The position of the loop: the extents before \<open>i\<close> end at or before \<open>pos\<close>, the
  others, unless empty, after it.
\<close>

definition extents_at :: "extent list \<Rightarrow> nat \<Rightarrow> nat \<Rightarrow> bool" where
  "extents_at es i pos \<longleftrightarrow> (\<forall>j < i. j < length es \<and> ex_Len (es ! j) \<noteq> 0 \<longrightarrow> ex_end (es ! j) \<le> pos) \<and>
     (\<forall>j. i \<le> j \<and> j < length es \<and> ex_Len (es ! j) \<noteq> 0 \<longrightarrow> pos < ex_end (es ! j))"

lemma hole_bytes:
  assumes "extents_disjoint es" and "extents_at es i pos" and "pos \<le> k"
    and "i < length es \<Longrightarrow> k < ex_start (es ! i)"
  shows "file_byte c b es k = 0"
proof -
  have "\<not> (ex_start e \<le> k \<and> k < ex_end e)" if "e \<in> set es" for e
  proof -
    from that obtain j where j: "j < length es" "e = es ! j" by (metis in_set_conv_nth)
    show ?thesis
    proof (cases "j < i")
      case True
      with assms(2,3) j show ?thesis by (cases "ex_Len e = 0") (fastforce simp: extents_at_def ex_end_def)+
    next
      case False
      have "ex_start (es ! i) \<le> ex_start (es ! j)"
        using False j extents_disjoint_less [OF assms(1), of i j] ex_start_le_end [of "es ! i"]
        by (cases "i = j") auto
      with assms(4) j False show ?thesis by simp
    qed
  qed
  then have "find (\<lambda>e. ex_start e \<le> k \<and> k < ex_end e) es = None" by (simp add: find_None_iff)
  then show ?thesis by (simp add: file_byte_def)
qed

lemma extents_at_hole:
  assumes "extents_disjoint es" and "extents_at es i pos" and "pos \<le> pos'"
    and "i < length es \<Longrightarrow> pos' \<le> ex_start (es ! i)"
  shows "extents_at es i pos'"
  unfolding extents_at_def
proof (intro conjI allI impI)
  fix j assume "i \<le> j \<and> j < length es \<and> ex_Len (es ! j) \<noteq> 0"
  moreover from this have "ex_start (es ! i) \<le> ex_start (es ! j)"
    using extents_disjoint_less [OF assms(1), of i j] ex_start_le_end [of "es ! i"]
    by (cases "i = j") auto
  ultimately show "pos' < ex_end (es ! j)" using assms(4) ex_end_start [of "es ! j"] by simp
qed (use assms(2,3) in \<open>force simp: extents_at_def\<close>)

lemma extents_at_step:
  assumes "extents_disjoint es" and "extents_at es i pos" and "i < length es" and "pos \<le> pos'"
    and "pos' \<le> ex_end (es ! i)"
  shows "extents_at es (if pos' = ex_end (es ! i) then i + 1 else i) pos'"
  unfolding extents_at_def
proof (intro conjI allI impI)
  fix j assume j: "j < (if pos' = ex_end (es ! i) then i + 1 else i)" "j < length es \<and> ex_Len (es ! j) \<noteq> 0"
  show "ex_end (es ! j) \<le> pos'"
  proof (cases "j = i")
    case False
    with j have "j < i" by (auto split: if_splits)
    with j(2) assms(2) have "ex_end (es ! j) \<le> pos" by (simp add: extents_at_def)
    with assms(4) show ?thesis by simp
  qed (use j in \<open>auto split: if_splits\<close>)
next
  fix j assume j: "(if pos' = ex_end (es ! i) then i + 1 else i) \<le> j \<and> j < length es \<and> ex_Len (es ! j) \<noteq> 0"
  show "pos' < ex_end (es ! j)"
  proof (cases "i = j")
    case False
    with j have "ex_end (es ! i) \<le> ex_start (es ! j)"
      using extents_disjoint_less [OF assms(1), of i j] by (auto split: if_splits)
    with j ex_end_start [of "es ! j"] assms(5) show ?thesis by simp
  qed (use j assms(5) in \<open>auto split: if_splits\<close>)
qed

lemma extent_bytes:
  assumes "extents_disjoint es" and "extents_inside c b es" and i: "i < length es"
    and pos: "ex_start (es ! i) \<le> pos" "pos + n \<le> ex_end (es ! i)"
    and at: "phys = (b + uint (ex_Block (es ! i))) * int blockSize + int pos - int (ex_start (es ! i))"
  shows "0 \<le> phys" and "nat phys + n \<le> length c"
    and "take n (drop (nat phys) c) = map (file_byte c b es) [pos..<pos + n]"
proof -
  let ?e = "es ! i"
  have e: "0 \<le> b + uint (ex_Block ?e)"
    "nat ((b + uint (ex_Block ?e)) * int blockSize) + unat (ex_Len ?e) * blockSize \<le> length c"
    using assms(2) i by (auto simp: extents_inside_def)
  then have "0 \<le> (b + uint (ex_Block ?e)) * int blockSize" by simp
  then have phys: "nat phys = nat ((b + uint (ex_Block ?e)) * int blockSize) + (pos - ex_start ?e)" "0 \<le> phys"
    using at pos(1) by linarith+
  show "0 \<le> phys" by (rule phys(2))
  show le: "nat phys + n \<le> length c" using phys(1) e(2) pos by (simp add: ex_end_def)
  show "take n (drop (nat phys) c) = map (file_byte c b es) [pos..<pos + n]"
  proof (rule nth_equalityI)
    fix k assume "k < length (take n (drop (nat phys) c))"
    with le have k: "k < n" by simp
    with pos have "find (\<lambda>e. ex_start e \<le> pos + k \<and> pos + k < ex_end e) es = Some ?e"
      by (intro find_covering [OF assms(1) i]) simp_all
    with k pos phys(1) le show "take n (drop (nat phys) c) ! k = map (file_byte c b es) [pos..<pos + n] ! k"
      by (simp add: file_byte_def add.assoc)
  qed (use le in simp)
qed

text \<open>The four ways through the body of the loop.\<close>

lemma readat_stop: "want \<le> length acc \<Longrightarrow> readat_loop fs es off want i acc = Ok (acc, None)"
  by (simp add: readat_loop.simps)

lemma readat_empty:
  "length acc < want \<Longrightarrow> i < length es \<Longrightarrow> ex_Len (es ! i) = 0 \<Longrightarrow>
   readat_loop fs es off want i acc = readat_loop fs es off want (i + 1) acc"
  by (simp add: readat_loop.simps [of fs es off want i acc])

lemma readat_hole:
  assumes "length acc < want" and "i < length es \<Longrightarrow> ex_Len (es ! i) \<noteq> 0"
    and "i < length es \<Longrightarrow> off + length acc < ex_start (es ! i)"
  shows "readat_loop fs es off want i acc = readat_loop fs es off want i
    (acc @ replicate (if i < length es then min (want - length acc) (ex_start (es ! i) - (off + length acc))
                      else want - length acc) 0)"
  using assms by (subst readat_loop.simps) (auto simp: ex_start_def Let_def)

lemma readat_data:
  assumes "length acc < want" and "i < length es" and "ex_Len (es ! i) \<noteq> 0"
    and "ex_start (es ! i) \<le> off + length acc"
    and "chunk = min (int (want - length acc)) (int (ex_end (es ! i)) - int (off + length acc))"
  shows "readat_loop fs es off want i acc =
    (if chunk < 0 then Panic
     else let (got, err) = image_r fs ((base fs + uint (ex_Block (es ! i))) * int blockSize +
                             int (off + length acc) - int (ex_start (es ! i))) (nat chunk)
          in if err \<noteq> None then Ok (acc @ got, err)
             else if int (length got) \<noteq> chunk then Ok (acc @ got, Some UnexpectedEOF)
             else readat_loop fs es off want
                    (if int (off + length acc) + chunk = int (ex_end (es ! i)) then i + 1 else i) (acc @ got))"
proof -
  have c: "\<not> want \<le> length acc" "\<not> (i < length es \<and> ex_Len (es ! i) = 0)"
    "\<not> (length es \<le> i \<or> off + length acc < ex_start (es ! i))" using assms(1-4) by auto
  show ?thesis
    unfolding assms(5)
    by (subst readat_loop.simps)
       (simp only: Let_def ex_start_def [symmetric] ex_end_def [symmetric] c if_False)
qed

lemma extents_at_empty:
  "extents_at es i pos \<Longrightarrow> ex_Len (es ! i) = 0 \<Longrightarrow> extents_at es (i + 1) pos"
  by (auto simp: extents_at_def less_Suc_eq)

lemma map_upt_extend:
  assumes "acc = map f [off..<off + length acc]" and "xs = map f [off + length acc..<off + length acc + k]"
  shows "acc @ xs = map f [off..<off + length (acc @ xs)]"
proof -
  have "map f [off..<off + (length acc + k)] = map f [off..<off + length acc] @ xs"
    using upt_add_eq_append [of off "off + length acc" k] assms(2) by (simp add: add.assoc)
  then show ?thesis using assms by simp
qed

context solid_image
begin

text \<open>From a consistent position the loop reads exactly the file's bytes.\<close>

lemma readat_loop_content:
  assumes img: "image_r fs = rd" and dis: "extents_disjoint es"
    and ins: "extents_inside content (base fs) es"
    and "extents_at es i (off + length acc)" and "length acc \<le> want"
    and "acc = map (file_byte content (base fs) es) [off..<off + length acc]"
  shows "readat_loop fs es off want i acc = Ok (map (file_byte content (base fs) es) [off..<off + want], None)"
  using assms(4-6)
proof (induction "(want - length acc) + (length es - i)" arbitrary: i acc rule: less_induct)
  case less
  let ?pos = "off + length acc" and ?f = "file_byte content (base fs) es"
  note at = less.prems(1) and len = less.prems(2) and acc = less.prems(3)
  consider (stop) "want \<le> length acc" | (empty) "length acc < want" "i < length es" "ex_Len (es ! i) = 0"
    | (hole) "length acc < want" "i < length es \<longrightarrow> ex_Len (es ! i) \<noteq> 0 \<and> ?pos < ex_start (es ! i)"
    | (data) "length acc < want" "i < length es" "ex_Len (es ! i) \<noteq> 0" "ex_start (es ! i) \<le> ?pos"
    by linarith
  then show ?case
  proof cases
    case stop
    with len have "length acc = want" by simp
    with stop acc show ?thesis by (simp add: readat_stop)
  next
    case empty
    then have "readat_loop fs es off want (i + 1) acc = Ok (map ?f [off..<off + want], None)"
      using less.hyps [of acc "i + 1"] extents_at_empty [OF at empty(3)] len acc by simp
    with empty show ?thesis by (simp add: readat_empty)
  next
    case hole
    define k where "k = (if i < length es then min (want - length acc) (ex_start (es ! i) - ?pos)
                         else want - length acc)"
    have k: "0 < k" "length acc + k \<le> want" "i < length es \<Longrightarrow> ?pos + k \<le> ex_start (es ! i)"
      using hole by (auto simp: k_def)
    have "?f (?pos + m) = 0" if "m < k" for m
      by (intro hole_bytes [OF dis at]) (use that k(3) in auto)
    then have zeros: "replicate k 0 = map ?f [?pos..<?pos + k]" by (intro nth_equalityI) simp_all
    note acc' = map_upt_extend [OF acc zeros]
    have "extents_at es i (?pos + k)" by (intro extents_at_hole [OF dis at]) (use k(3) in auto)
    then have "readat_loop fs es off want i (acc @ replicate k 0) = Ok (map ?f [off..<off + want], None)"
      using less.hyps [OF _ _ _ acc', of i] k by (simp add: add.assoc)
    with readat_hole [of acc want i es off fs] hole show ?thesis by (simp add: k_def)
  next
    case data
    have after: "?pos < ex_end (es ! i)" using at data(2,3) by (auto simp: extents_at_def)
    define n where "n = min (want - length acc) (ex_end (es ! i) - ?pos)"
    have n: "0 < n" "length acc + n \<le> want" "?pos + n \<le> ex_end (es ! i)" using data after by (auto simp: n_def)
    have chunk: "min (int (want - length acc)) (int (ex_end (es ! i)) - int ?pos) = int n"
      using after data(1) by (auto simp: n_def min_def of_nat_diff)
    note E = extent_bytes [OF dis ins data(2,4) n(3) refl]
    have bytes: "rd ((base fs + uint (ex_Block (es ! i))) * int blockSize + int ?pos - int (ex_start (es ! i))) n =
        (map ?f [?pos..<?pos + n], None)"
      using rd_inside [OF E(1) n(1) E(2)] E(3) by simp
    let ?acc = "acc @ map ?f [?pos..<?pos + n]"
    define j where "j = (if ?pos + n = ex_end (es ! i) then i + 1 else i)"
    then have "i \<le> j" by simp
    note acc' = map_upt_extend [OF acc refl, of n]
    have "extents_at es j (?pos + n)"
      unfolding j_def by (intro extents_at_step [OF dis at data(2)]) (use n in auto)
    then have "readat_loop fs es off want j ?acc = Ok (map ?f [off..<off + want], None)"
      using less.hyps [OF _ _ _ acc', of j] n data(1) \<open>i \<le> j\<close> by (simp add: add.assoc)
    moreover have "(if int ?pos + int n = int (ex_end (es ! i)) then i + 1 else i) = j"
      unfolding j_def by (metis of_nat_add of_nat_eq_iff)
    ultimately show ?thesis
      using readat_data [OF data chunk [symmetric], of fs] bytes img by simp
  qed
qed

end

section \<open>ReadAt\<close>

lemma ex_end_int: "int (unat (ex_Offset e) + unat (ex_Len e)) * int blockSize = int (ex_end e)"
  by (simp add: ex_end_def ex_start_def algebra_simps)

lemma first_extent_at:
  assumes "extents_disjoint (i_Extents ino)" and "0 \<le> off"
  shows "extents_at (i_Extents ino) (first_extent ino off) (nat off)"
proof -
  let ?es = "i_Extents ino" and ?f = "\<lambda>k. int (ex_end (i_Extents ino ! k)) > off"
  have i: "first_extent ino off = sort_Search (length ?es) ?f"
    by (simp only: first_extent_def Let_def ex_end_int)
  have mono: "?f k" if "j \<le> k" "k < length ?es" "?f j" for j k
    using that extents_disjoint_less [OF assms(1), of j k] ex_start_le_end [of "?es ! k"]
    by (cases "j = k") auto
  have L: "\<forall>j < sort_Search (length ?es) ?f. \<not> ?f j"
    "\<forall>j. sort_Search (length ?es) ?f \<le> j \<and> j < length ?es \<longrightarrow> ?f j"
    using sort_Search_least [of "length ?es" ?f] mono by blast+
  have "ex_end (?es ! j) \<le> nat off" if "j < first_extent ino off" for j
    using L(1) that i by (simp add: le_nat_iff assms(2) not_less)
  moreover have "nat off < ex_end (?es ! j)" if "first_extent ino off \<le> j" "j < length ?es" for j
    using L(2) that i by (simp add: nat_less_iff assms(2))
  ultimately show ?thesis by (simp add: extents_at_def)
qed

lemma map_upt_slice:
  "off + want \<le> m \<Longrightarrow> map f [off..<off + want] = take want (drop off (map f [0..<m]))"
  by (intro nth_equalityI) simp_all

context solid_image
begin

text \<open>Reading to the end of the file or of the buffer, on extents in order and in the image.\<close>

lemma efs_ReadAt_content:
  assumes "image_r fs = rd" and "extents_disjoint (i_Extents ino)"
    and "extents_inside content (base fs) (i_Extents ino)" and "0 \<le> off"
  shows "efs_ReadAt fs ino n off =
    Ok (take n (drop (nat off) (file_content content (base fs) ino)),
        if off < i_Size ino \<and> off + int n \<le> i_Size ino then None else Some (Efs_IO EOF))"
proof (cases "off < i_Size ino")
  case False
  then have "nat (i_Size ino) \<le> nat off" using assms(4) by linarith
  with False assms(4) show ?thesis by (simp add: efs_ReadAt_def file_content_def)
next
  case True
  define want where "want = min n (nat (i_Size ino - off))"
  let ?f = "file_byte content (base fs) (i_Extents ino)"
  have "readat_loop fs (i_Extents ino) (nat off) want (first_extent ino off) [] =
      Ok (map ?f [nat off..<nat off + want], None)"
    using readat_loop_content [OF assms(1-3), of "first_extent ino off" "nat off" "[]" want]
      first_extent_at [OF assms(2,4)] by simp
  moreover have "map ?f [nat off..<nat off + want] = take n (drop (nat off) (file_content content (base fs) ino))"
  proof -
    have "nat off + want \<le> nat (i_Size ino)" using True assms(4) by (auto simp: want_def)
    then have "map ?f [nat off..<nat off + want] = take want (drop (nat off) (file_content content (base fs) ino))"
      by (simp add: map_upt_slice file_content_def)
    also have "\<dots> = take n (drop (nat off) (file_content content (base fs) ino))"
      using assms(4) by (auto simp: want_def file_content_def min_def nat_diff_distrib)
    finally show ?thesis .
  qed
  moreover have "length (take n (drop (nat off) (file_content content (base fs) ino))) < n \<longleftrightarrow>
      \<not> off + int n \<le> i_Size ino"
    using assms(4) True by (auto simp: file_content_def min_def)
  ultimately show ?thesis using True assms(4)
    by (simp add: efs_ReadAt_def want_def [symmetric] Let_def)
qed

end

text \<open>
  On extents without overlap no read panics, whatever the image returns: the
  chunk is never negative.
\<close>

lemma readat_loop_returns:
  assumes dis: "extents_disjoint es"
    and "extents_at es i (off + length acc)"
  shows "returns (readat_loop fs es off want i acc)"
  using assms(2)
proof (induction "(want - length acc) + (length es - i)" arbitrary: i acc rule: less_induct)
  case less
  let ?pos = "off + length acc"
  note at = less.prems
  consider (stop) "want \<le> length acc" | (empty) "length acc < want" "i < length es" "ex_Len (es ! i) = 0"
    | (hole) "length acc < want" "i < length es \<longrightarrow> ex_Len (es ! i) \<noteq> 0 \<and> ?pos < ex_start (es ! i)"
    | (data) "length acc < want" "i < length es" "ex_Len (es ! i) \<noteq> 0" "ex_start (es ! i) \<le> ?pos"
    by linarith
  then show ?case
  proof cases
    case stop
    then show ?thesis by (simp add: readat_stop)
  next
    case empty
    with less.hyps [of acc "i + 1"] extents_at_empty [OF at empty(3)] show ?thesis
      by (simp add: readat_empty)
  next
    case hole
    define k where "k = (if i < length es then min (want - length acc) (ex_start (es ! i) - ?pos)
                         else want - length acc)"
    have k: "0 < k" "length acc + k \<le> want" "i < length es \<Longrightarrow> ?pos + k \<le> ex_start (es ! i)"
      using hole by (auto simp: k_def)
    have "extents_at es i (?pos + k)" by (intro extents_at_hole [OF dis at]) (use k(3) in auto)
    then have "returns (readat_loop fs es off want i (acc @ replicate k 0))"
      using less.hyps [of "acc @ replicate k 0" i] k by (simp add: add.assoc)
    with readat_hole [of acc want i es off fs] hole show ?thesis by (simp add: k_def)
  next
    case data
    have after: "?pos < ex_end (es ! i)" using at data(2,3) by (auto simp: extents_at_def)
    define n where "n = min (want - length acc) (ex_end (es ! i) - ?pos)"
    have n: "0 < n" "length acc + n \<le> want" "?pos + n \<le> ex_end (es ! i)" using data after by (auto simp: n_def)
    have chunk: "min (int (want - length acc)) (int (ex_end (es ! i)) - int ?pos) = int n"
      using after data(1) by (auto simp: n_def min_def of_nat_diff)
    define j where "j = (if ?pos + n = ex_end (es ! i) then i + 1 else i)"
    have j: "i \<le> j" "(if int ?pos + int n = int (ex_end (es ! i)) then i + 1 else i) = j"
      unfolding j_def by simp (metis of_nat_add of_nat_eq_iff)
    have "extents_at es j (?pos + n)"
      unfolding j_def by (intro extents_at_step [OF dis at data(2)]) (use n in auto)
    then have "returns (readat_loop fs es off want j (acc @ got))" if "length got = n" for got
      using less.hyps [of "acc @ got" j] n data(1) j(1) that by (simp add: add.assoc)
    with readat_data [OF data chunk [symmetric], of fs] j(2) show ?thesis
      by (auto split: prod.split)
  qed
qed

lemma efs_ReadAt_returns:
  assumes "extents_disjoint (i_Extents ino)"
  shows "returns (efs_ReadAt fs ino n off)"
  using readat_loop_returns [OF assms, of "first_extent ino off" "nat off" "[]"] first_extent_at [OF assms, of off]
  by (auto simp: efs_ReadAt_def Let_def go_outcome)

section \<open>Directories\<close>

text \<open>A directory block and a directory, without the index checks, which never fail.\<close>

definition slot_at' :: "bytes \<Rightarrow> nat \<Rightarrow> dirEntry list" where
  "slot_at' blk s =
     (let so = unat (blk ! (4 + s)) * 2; nl = unat (blk ! (so + 4)) in
      if so = 0 \<or> so + 5 > length blk \<or> so + 5 + nl > length blk then []
      else [\<lparr>de_Name = take nl (drop (so + 5) blk), de_Ino = word_at blk so\<rparr>])"

definition entries_of :: "bytes \<Rightarrow> dirEntry list" where
  "entries_of blk =
     (if length blk < 4 \<or> half_at blk 0 \<noteq> dirblkMagic then []
      else concat (map (slot_at' blk) [0..<min (unat (blk ! 3)) (length blk - 4)]))"

lemma slot_entry_Ok: "4 + s < length blk \<Longrightarrow> slot_entry blk s out = Ok (out @ slot_at' blk s)"
  by (simp add: slot_entry_def slot_at'_def Let_def uint32_at_word del: uint32_at_Ok)

lemma block_entries_Ok:
  assumes "k * blockSize < length data"
  shows "block_entries data k out = Ok (out @ entries_of (take blockSize (drop (k * blockSize) data)))"
proof -
  define blk where "blk = take blockSize (drop (k * blockSize) data)"
  have sl: "slice_go data (k * blockSize) (if k * blockSize + blockSize > length data then length data
      else k * blockSize + blockSize) = Ok blk"
    using assms by (auto simp: slice_go_def blk_def)
  have fe: "for_each (slot_entry blk) [0..<min (unat (blk ! 3)) (length blk - 4)] out =
      (Ok (out @ concat (map (slot_at' blk) [0..<min (unat (blk ! 3)) (length blk - 4)]))
       :: (efs_error, dirEntry list) outcome)"
    by (subst for_each_fold [where g = "\<lambda>s out. out @ slot_at' blk s"])
       (auto simp: slot_entry_Ok fold_append_concat)
  show ?thesis
    unfolding block_entries_def Let_def blk_def [symmetric] sl
    by (simp add: fe entries_of_def uint16_at_half not_less del: uint16_at_Ok)
qed

lemma dir_loop_Ok:
  "for_each (block_entries data) [0..<blocks_in (length data)] [] =
     Ok (concat (map (\<lambda>k. entries_of (take blockSize (drop (k * blockSize) data)))
       [0..<blocks_in (length data)]))"
  by (subst for_each_fold [where g = "\<lambda>k out. out @ entries_of (take blockSize (drop (k * blockSize) data))"])
     (auto simp: block_entries_Ok fold_append_concat blockSize_def blocks_in_def)

lemma whole_file_returns: "extents_disjoint (i_Extents ino) \<Longrightarrow> returns (whole_file fs ino)"
  using efs_ReadAt_returns [of ino fs "nat (i_Size ino)" 0]
  by (auto simp: whole_file_def go_outcome split: option.split)

lemma efs_ReadDir_returns: "extents_disjoint (i_Extents ino) \<Longrightarrow> returns (efs_ReadDir fs ino)"
  using whole_file_returns [of ino fs] by (auto simp: efs_ReadDir_def go_outcome dir_loop_Ok)

context solid_image
begin

lemma whole_file_content:
  assumes "image_r fs = rd" and "extents_disjoint (i_Extents ino)"
    and "extents_inside content (base fs) (i_Extents ino)" and "0 \<le> i_Size ino"
  shows "whole_file fs ino = Ok (file_content content (base fs) ino)"
  using efs_ReadAt_content [OF assms(1-3), of 0 "nat (i_Size ino)"] assms(4)
  by (simp add: whole_file_def file_content_def)

lemma efs_ReadDir_content:
  assumes "image_r fs = rd" and "extents_disjoint (i_Extents ino)"
    and "extents_inside content (base fs) (i_Extents ino)" and "0 \<le> i_Size ino" and "IsDir ino"
    and "file_content content (base fs) ino = concat blks" and "\<forall>blk \<in> set blks. length blk = blockSize"
  shows "efs_ReadDir fs ino = Ok (concat (map entries_of blks))"
proof -
  have n: "blocks_in (length (concat blks)) = length blks"
    using length_concat_same [OF assms(7)] by (simp add: blockSize_def blocks_in_def)
  have "entries_of (take blockSize (drop (k * blockSize) (concat blks))) = entries_of (blks ! k)"
    if "k < length blks" for k
    using take_drop_concat [OF assms(7) that] by (simp add: mult.commute)
  then have "map (\<lambda>k. entries_of (take blockSize (drop (k * blockSize) (concat blks)))) [0..<length blks] =
      map entries_of blks"
    by (intro nth_equalityI) simp_all
  with n whole_file_content [OF assms(1-4)] assms(5,6) show ?thesis
    by (simp add: efs_ReadDir_def dir_loop_Ok)
qed

end

text \<open>
  The on-disk form: entries of even length one after the other behind the slot
  table, whose bytes are half their offsets.
\<close>

definition enc_entry :: "dirEntry \<Rightarrow> bytes" where
  "enc_entry e = put32 (de_Ino e) @ [of_nat (length (de_Name e))] @ de_Name e @
     replicate ((length (de_Name e) + 1) mod 2) 0"

definition entry_offset :: "dirEntry list \<Rightarrow> nat \<Rightarrow> nat" where
  "entry_offset es s = 4 + length es + length es mod 2 + length (concat (map enc_entry (take s es)))"

definition dir_block :: "dirEntry list \<Rightarrow> bytes" where
  "dir_block es =
     put16 dirblkMagic @ [0, of_nat (length es)] @ map (\<lambda>s. of_nat (entry_offset es s div 2)) [0..<length es] @
     replicate (length es mod 2) 0 @ concat (map enc_entry es) @
     replicate (blockSize - entry_offset es (length es)) 0"

definition dir_fits :: "dirEntry list \<Rightarrow> bool" where
  "dir_fits es \<longleftrightarrow> entry_offset es (length es) \<le> blockSize \<and> (\<forall>e \<in> set es. length (de_Name e) < 256)"

lemma even_length_enc_entry: "even (length (enc_entry e))"
  by (auto simp: enc_entry_def)

lemma even_entry_offset: "even (entry_offset es s)"
proof -
  have "even (length (concat (map enc_entry xs)))" for xs
    by (induction xs) (auto simp: even_length_enc_entry)
  then show ?thesis by (auto simp: entry_offset_def)
qed

lemma entry_offset_mono: "s < length es \<Longrightarrow> entry_offset es s + length (enc_entry (es ! s)) \<le> entry_offset es (length es)"
proof -
  assume "s < length es"
  then have "es = take s es @ es ! s # drop (Suc s) es" by (simp add: id_take_nth_drop)
  then have "concat (map enc_entry es) = concat (map enc_entry (take s es)) @ enc_entry (es ! s) @
      concat (map enc_entry (drop (Suc s) es))" by (metis concat.simps(2) concat_append list.simps(9) map_append)
  then show ?thesis by (simp add: entry_offset_def)
qed

lemma length_dir_block: "dir_fits es \<Longrightarrow> length (dir_block es) = blockSize"
  by (simp add: dir_block_def dir_fits_def entry_offset_def blockSize_def)

lemma drop_dir_block:
  assumes "s < length es"
  shows "\<exists>rest. drop (entry_offset es s) (dir_block es) = enc_entry (es ! s) @ rest"
proof -
  let ?hd = "put16 dirblkMagic @ [0, of_nat (length es)] @
      map (\<lambda>s. of_nat (entry_offset es s div 2)) [0..<length es] @ replicate (length es mod 2) 0"
  have "es = take s es @ es ! s # drop (Suc s) es" using assms by (simp add: id_take_nth_drop)
  then have split: "concat (map enc_entry es) = concat (map enc_entry (take s es)) @ enc_entry (es ! s) @
      concat (map enc_entry (drop (Suc s) es))" by (metis concat.simps(2) concat_append list.simps(9) map_append)
  have "dir_block es = (?hd @ concat (map enc_entry (take s es))) @ enc_entry (es ! s) @
      concat (map enc_entry (drop (Suc s) es)) @ replicate (blockSize - entry_offset es (length es)) 0"
    unfolding dir_block_def split by simp
  moreover have "length (?hd @ concat (map enc_entry (take s es))) = entry_offset es s"
    by (simp add: entry_offset_def)
  ultimately show ?thesis by (metis append_eq_conv_conj)
qed

lemma word_at_drop: "off + k + 4 \<le> length b \<Longrightarrow> word_at (drop off b) k = word_at b (off + k)"
  by (simp add: word_at_def add.assoc)

lemma slot_of_dir_block:
  assumes fits: "dir_fits es" and s: "s < length es"
  shows "slot_at' (dir_block es) s = [es ! s]"
proof -
  let ?blk = "dir_block es" and ?e = "es ! s" and ?so = "entry_offset es s"
  obtain rest where rest: "drop ?so ?blk = enc_entry ?e @ rest" using drop_dir_block [OF s] by blast
  have len: "length ?blk = 512" using length_dir_block [OF fits] by (simp add: blockSize_def)
  have "5 + length (de_Name ?e) \<le> length (enc_entry ?e)" by (simp add: enc_entry_def)
  then have bound: "?so + 5 + length (de_Name ?e) \<le> 512" and nl: "length (de_Name ?e) < 256"
    using entry_offset_mono [OF s] fits s by (auto simp: dir_fits_def blockSize_def)
  have "?blk ! (4 + s) = of_nat (?so div 2)"
    using s by (simp add: dir_block_def nth_append put16_def)
  then have so: "unat (?blk ! (4 + s)) * 2 = ?so"
    using bound even_entry_offset [of es s] by (simp add: unat_of_nat)
  have "?blk ! (?so + 4) = of_nat (length (de_Name ?e))"
    using rest bound len nth_drop [of ?so ?blk 4] by (simp add: enc_entry_def nth_append put32_def)
  then have nm: "unat (?blk ! (?so + 4)) = length (de_Name ?e)" using nl by (simp add: unat_of_nat)
  have "drop (?so + 5) ?blk = drop 5 (enc_entry ?e @ rest)" using rest by (metis drop_drop add.commute)
  then have name: "take (length (de_Name ?e)) (drop (?so + 5) ?blk) = de_Name ?e"
    by (simp add: enc_entry_def)
  have "word_at ?blk ?so = word_at (enc_entry ?e @ rest) 0"
    using word_at_drop [of ?so 0 ?blk] bound len rest by simp
  also have "\<dots> = de_Ino ?e" using word_at_put32 [of "[]" "de_Ino ?e"] by (simp add: enc_entry_def)
  finally have "word_at ?blk ?so = de_Ino ?e" .
  moreover have "?so \<noteq> 0" by (simp add: entry_offset_def)
  ultimately show ?thesis using so nm name bound len by (simp add: slot_at'_def Let_def)
qed

lemma entries_of_dir_block:
  assumes "dir_fits es"
  shows "entries_of (dir_block es) = es"
proof -
  have len: "length (dir_block es) = 512" using length_dir_block [OF assms] by (simp add: blockSize_def)
  have "length xs \<le> length (concat (map enc_entry xs))" for xs
    by (induction xs) (auto simp: enc_entry_def)
  from this [of es] have n: "2 * length es + 4 \<le> 512"
    using assms by (simp add: dir_fits_def entry_offset_def blockSize_def)
  have "dir_block es ! 3 = of_nat (length es)" by (simp add: dir_block_def put16_def nth_append)
  then have "unat (dir_block es ! 3) = length es" using n by (simp add: unat_of_nat)
  then have "entries_of (dir_block es) = concat (map (slot_at' (dir_block es)) [0..<length es])"
    using len n half_at_put16 [of "[]" dirblkMagic] by (simp add: entries_of_def dir_block_def)
  also have "map (slot_at' (dir_block es)) [0..<length es] = map (\<lambda>s. [es ! s]) [0..<length es]"
    using slot_of_dir_block [OF assms] by simp
  finally show ?thesis by (metis concat_map_singleton map_nth)
qed

section \<open>Inodes\<close>

text \<open>What Open checks of the geometry.\<close>

definition geometry_ok :: "efs_FS \<Rightarrow> bool" where
  "geometry_ok fs \<longleftrightarrow> 0 < firstCG fs \<and> 0 < cgFSize fs \<and> 0 < cgISize fs \<and> cgISize fs < 2 ^ 15 \<and>
     0 < ncg fs \<and> ncg fs < 2 ^ 15"

lemma sint16_bound: "sint (w :: u16) < 2 ^ 15"
  using sint_lt [of w] by simp

lemma readBlock_returns [simp]: "returns (readBlock fs n)"
  by (auto simp: readBlock_def split: prod.split option.split)

lemma readBlock_length: "readBlock fs n = Ok b \<Longrightarrow> length b = 512"
  by (auto simp: readBlock_def blockSize_def split: prod.splits option.splits)

lemma efs_Open_returns: "returns (efs_Open r b)"
  by (auto simp: efs_Open_def Let_def go_outcome uint16_at_def uint32_at_def dest!: readBlock_length)

lemma efs_Open_geometry:
  assumes "efs_Open r b = Ok fs"
  shows "geometry_ok fs \<and> image_r fs = r \<and> base fs = b"
  using assms sint16_bound
  by (auto simp: efs_Open_def Let_def go_outcome geometry_ok_def int16_def not_le split: if_splits)

lemma inopcg_nat:
  assumes "geometry_ok fs"
  shows "unat (of_int (cgISize fs) * 4 :: u32) = nat (cgISize fs) * 4"
proof -
  define n where "n = nat (cgISize fs)"
  then have n: "cgISize fs = int n" "n < 2 ^ 15" using assms by (auto simp: geometry_ok_def)
  then have "(of_int (cgISize fs) * 4 :: u32) = of_nat (n * 4)" by simp
  with n show ?thesis by (simp add: unat_of_nat n_def [symmetric] del: of_nat_mult)
qed

text \<open>It lies in the inode area of one of the filesystem's cylinder groups.\<close>

lemma inode_block_bounds:
  assumes "geometry_ok fs" and "\<not> ino div (of_int (cgISize fs) * 4) \<ge> of_int (ncg fs)"
  shows "\<exists>cg. 0 \<le> cg \<and> cg < ncg fs \<and> firstCG fs + cg * cgFSize fs \<le> inode_block fs ino \<and>
    inode_block fs ino < firstCG fs + cg * cgFSize fs + cgISize fs"
proof -
  let ?ipc = "of_int (cgISize fs) * 4 :: u32"
  have u: "uint ?ipc = cgISize fs * 4" "0 < cgISize fs"
    using inopcg_nat [OF assms(1)] assms(1) by (simp_all add: geometry_ok_def uint_nat)
  have "uint (of_int (ncg fs) :: u32) = ncg fs"
    using assms(1) by (simp add: geometry_ok_def uint_word_of_int)
  then have "uint (ino div ?ipc) < ncg fs"
    using assms(2) by (simp add: not_le word_less_def)
  moreover have "uint (ino mod ?ipc div 4) < cgISize fs"
  proof -
    have "m div 4 < c" if "m < c * 4" for m c :: int using that by linarith
    with u pos_mod_bound [of "uint ?ipc" "uint ino"] show ?thesis
      by (simp add: uint_div_distrib uint_mod_distrib)
  qed
  ultimately show ?thesis
    by (intro exI [of _ "uint (ino div ?ipc)"]) (simp add: inode_block_def Let_def)
qed

definition extent_at :: "bytes \<Rightarrow> nat \<Rightarrow> extent" where
  "extent_at b off =
     \<lparr>ex_Block = word_at b off AND 0xffffff, ex_Len = drop_bit 24 (word_at b (off + 4)),
      ex_Offset = word_at b (off + 4) AND 0xffffff\<rparr>"

lemma parseExtent_Ok: "off + 8 \<le> length b \<Longrightarrow> parseExtent b off = Ok (extent_at b off)"
  by (simp add: parseExtent_def extent_at_def uint32_at_word del: uint32_at_Ok)

lemma parse_extents_Ok:
  assumes "off + 8 * n \<le> length b"
  shows "parse_extents b off n es = Ok (es @ map (\<lambda>i. extent_at b (off + i * 8)) [0..<n])"
  unfolding parse_extents_def
  by (subst for_each_fold [where g = "\<lambda>i es. es @ [extent_at b (off + i * 8)]"])
     (use assms in \<open>auto simp: parseExtent_Ok fold_snoc_map\<close>)

lemma read_table_returns: "returns (read_table fs ino numext blks es)"
  by (induction fs ino numext blks es rule: read_table.induct)
     (auto simp: go_outcome parse_extents_Ok blockSize_def dest!: readBlock_length)

lemma efs_Inode_returns:
  assumes "geometry_ok fs"
  shows "returns (efs_Inode fs ino)"
proof -
  have "of_int (cgISize fs) * 4 \<noteq> (0 :: u32)"
    using inopcg_nat [OF assms] assms by (auto simp: geometry_ok_def)
  moreover have "unat (ino mod 4) < 4" by (simp add: unat_mod_distrib)
  ultimately show ?thesis
    by (auto simp: efs_Inode_def Let_def go_outcome inodeSize_def uint16_at_def uint32_at_def slice_go_def
        parse_extents_Ok directExtents_def read_table_returns dest!: readBlock_length)
qed

text \<open>The on-disk form of extents and of inodes whose extents are all in the inode.\<close>

definition enc_extent :: "extent \<Rightarrow> bytes" where
  "enc_extent e = put32 (ex_Block e) @ put32 (push_bit 24 (ex_Len e) OR ex_Offset e)"

definition extent_wf :: "extent \<Rightarrow> bool" where
  "extent_wf e \<longleftrightarrow> take_bit 24 (ex_Block e) = ex_Block e \<and> take_bit 8 (ex_Len e) = ex_Len e \<and>
     take_bit 24 (ex_Offset e) = ex_Offset e"

definition enc_inode :: "inode \<Rightarrow> bytes" where
  "enc_inode i =
     put16 (i_Mode i) @ put16 (of_int (i_Nlink i)) @ put16 (i_UID i) @ put16 (i_GID i) @
     put32 (of_int (i_Size i)) @ put32 (i_Atime i) @ put32 (i_Mtime i) @ put32 (i_Ctime i) @
     put32 (of_int (i_Gen i)) @ put16 (of_nat (length (i_Extents i))) @ [0, 0] @
     concat (map enc_extent (i_Extents i)) @ replicate (96 - 8 * length (i_Extents i)) 0"

definition inode_wf :: "inode \<Rightarrow> bool" where
  "inode_wf i \<longleftrightarrow> 0 \<le> i_Size i \<and> i_Size i < 2 ^ 31 \<and> - (2 ^ 15) \<le> i_Nlink i \<and> i_Nlink i < 2 ^ 15 \<and>
     - (2 ^ 31) \<le> i_Gen i \<and> i_Gen i < 2 ^ 31 \<and> length (i_Extents i) \<le> directExtents \<and>
     (\<forall>e \<in> set (i_Extents i). extent_wf e) \<and> sorted (map ex_Offset (i_Extents i))"

lemma fields_24_8:
  fixes l f :: u32
  assumes "take_bit 8 l = l" and "take_bit 24 f = f"
  shows "drop_bit 24 (push_bit 24 l OR f) = l" and "(push_bit 24 l OR f) AND 0xffffff = f"
proof -
  have l: "bit l n \<Longrightarrow> n < 8" and f: "bit f n \<Longrightarrow> n < 24" for n
    by (metis assms bit_take_bit_iff)+
  show "drop_bit 24 (push_bit 24 l OR f) = l"
    by (rule bit_word_eqI) (use l f in \<open>fastforce simp: bit_simps\<close>)
  have m: "(0xffffff :: u32) = mask 24" by (simp add: mask_eq_exp_minus_1)
  show "(push_bit 24 l OR f) AND 0xffffff = f"
    unfolding m by (rule bit_word_eqI) (use l f in \<open>fastforce simp: bit_simps\<close>)
qed

lemma extent_roundtrip:
  assumes "extent_wf e"
  shows "extent_at (pre @ enc_extent e @ post) (length pre) = e"
proof -
  have m: "(0xffffff :: u32) = mask 24" by (simp add: mask_eq_exp_minus_1)
  have "word_at (pre @ enc_extent e @ post) (length pre) = ex_Block e"
    using word_at_put32 [of pre "ex_Block e"] by (simp add: enc_extent_def)
  moreover have "word_at (pre @ enc_extent e @ post) (length pre + 4) = push_bit 24 (ex_Len e) OR ex_Offset e"
    using word_at_put32 [of "pre @ put32 (ex_Block e)"] by (simp add: enc_extent_def)
  ultimately show ?thesis
    using assms fields_24_8 [of "ex_Len e" "ex_Offset e"]
    by (simp add: extent_at_def extent_wf_def m take_bit_eq_mask [symmetric])
qed

lemma length_enc_extents: "length (concat (map enc_extent es)) = 8 * length es"
  by (induction es) (simp_all add: enc_extent_def)

lemma extents_roundtrip:
  assumes "\<forall>e \<in> set es. extent_wf e"
  shows "map (\<lambda>i. extent_at (pre @ concat (map enc_extent es) @ post) (length pre + i * 8)) [0..<length es] = es"
proof (rule nth_equalityI)
  fix i assume "i < length (map (\<lambda>i. extent_at (pre @ concat (map enc_extent es) @ post) (length pre + i * 8)) [0..<length es])"
  then have i: "i < length es" by simp
  have len: "length (pre @ concat (map enc_extent (take i es))) = length pre + i * 8"
    using i by (simp add: length_enc_extents)
  have "es = take i es @ es ! i # drop (Suc i) es" using i by (simp add: id_take_nth_drop)
  then have "pre @ concat (map enc_extent es) @ post = (pre @ concat (map enc_extent (take i es))) @
      enc_extent (es ! i) @ (concat (map enc_extent (drop (Suc i) es)) @ post)"
    by (metis append.assoc concat.simps(2) concat_append list.simps(9) map_append)
  then show "map (\<lambda>i. extent_at (pre @ concat (map enc_extent es) @ post) (length pre + i * 8)) [0..<length es] ! i = es ! i"
    using extent_roundtrip [of "es ! i" "pre @ concat (map enc_extent (take i es))"] len i assms by simp
qed simp

lemma length_enc_inode: "length (i_Extents i) \<le> directExtents \<Longrightarrow> length (enc_inode i) = 128"
  by (simp add: enc_inode_def length_enc_extents directExtents_def)

lemma enc_inode_fields:
  "half_at (enc_inode i) 0 = i_Mode i" "half_at (enc_inode i) 2 = of_int (i_Nlink i)"
  "half_at (enc_inode i) 4 = i_UID i" "half_at (enc_inode i) 6 = i_GID i"
  "word_at (enc_inode i) 8 = of_int (i_Size i)" "word_at (enc_inode i) 12 = i_Atime i"
  "word_at (enc_inode i) 16 = i_Mtime i" "word_at (enc_inode i) 20 = i_Ctime i"
  "word_at (enc_inode i) 24 = of_int (i_Gen i)" "half_at (enc_inode i) 28 = of_nat (length (i_Extents i))"
  unfolding enc_inode_def put16_def put32_def half_at_def word_at_def
  by (simp_all add: be16_bytes be32_put32)

lemma enc_inode_extents:
  assumes "inode_wf i"
  shows "map (\<lambda>k. extent_at (enc_inode i) (32 + k * 8)) [0..<length (i_Extents i)] = i_Extents i"
proof -
  let ?pre = "put16 (i_Mode i) @ put16 (of_int (i_Nlink i)) @ put16 (i_UID i) @ put16 (i_GID i) @
     put32 (of_int (i_Size i)) @ put32 (i_Atime i) @ put32 (i_Mtime i) @ put32 (i_Ctime i) @
     put32 (of_int (i_Gen i)) @ put16 (of_nat (length (i_Extents i))) @ [0, 0]"
  have "enc_inode i = ?pre @ concat (map enc_extent (i_Extents i)) @ replicate (96 - 8 * length (i_Extents i)) 0"
    by (simp add: enc_inode_def)
  moreover have "length ?pre = 32" by simp
  moreover have "\<forall>e \<in> set (i_Extents i). extent_wf e" using assms by (simp add: inode_wf_def)
  ultimately show ?thesis using extents_roundtrip by metis
qed

lemma sint_of_int32: "- (2 ^ 31) \<le> k \<Longrightarrow> k < 2 ^ 31 \<Longrightarrow> sint (of_int k :: u32) = k"
  by (simp add: sint_sbintrunc' signed_take_bit_int_eq_self)

lemma sint_of_int16: "- (2 ^ 15) \<le> k \<Longrightarrow> k < 2 ^ 15 \<Longrightarrow> sint (of_int k :: u16) = k"
  by (simp add: sint_sbintrunc' signed_take_bit_int_eq_self)

context solid_image
begin

lemma readBlock_content:
  assumes "image_r fs = rd" and "0 \<le> base fs + n" and "nat ((base fs + n) * 512) + 512 \<le> length content"
  shows "readBlock fs n = Ok (take 512 (drop (nat ((base fs + n) * 512)) content))"
  using rd_inside [of "(base fs + n) * 512" 512] assms
  by (simp add: readBlock_def blockSize_def)

lemma efs_Inode_content:
  assumes img: "image_r fs = rd" and geo: "geometry_ok fs"
    and grp: "\<not> ino div (of_int (cgISize fs) * 4) \<ge> of_int (ncg fs)"
    and at: "pos = nat ((base fs + inode_block fs ino) * 512)" "0 \<le> base fs + inode_block fs ino"
      "pos + 512 \<le> length content"
    and i: "inode_wf i" "i_Num i = ino"
    and d: "take 128 (drop (pos + unat (ino mod 4) * 128) content) = enc_inode i"
  shows "efs_Inode fs ino = Ok i"
proof -
  have ipc: "of_int (cgISize fs) * 4 \<noteq> (0 :: u32)"
    using inopcg_nat [OF geo] geo by (auto simp: geometry_ok_def)
  have m4: "unat (ino mod 4) < 4" by (simp add: unat_mod_distrib)
  have blk: "readBlock fs (inode_block fs ino) = Ok (take 512 (drop pos content))"
    using readBlock_content [OF img at(2)] at by simp
  have sl: "slice_go (take 512 (drop pos content)) (unat (ino mod 4) * 128) (unat (ino mod 4) * 128 + 128) = Ok (enc_inode i)"
  proof -
    have "take 128 (drop (unat (ino mod 4) * 128) (take 512 (drop pos content))) =
        take 128 (drop (pos + unat (ino mod 4) * 128) content)"
      using m4 by (simp add: drop_take add.commute min_absorb1)
    with d m4 at(3) show ?thesis by (simp add: slice_go_def)
  qed
  have wf: "0 \<le> i_Size i" "sint (of_int (i_Size i) :: u32) = i_Size i" "sint (of_int (i_Nlink i) :: u16) = i_Nlink i"
    "sint (of_int (i_Gen i) :: u32) = i_Gen i" "length (i_Extents i) \<le> 12"
    using i(1) by (auto simp: inode_wf_def directExtents_def intro!: sint_of_int32 sint_of_int16)
  have nx: "sint (of_nat (length (i_Extents i)) :: u16) = int (length (i_Extents i))"
    using wf(5) sint_of_int16 [of "int (length (i_Extents i))"] by simp
  have len: "length (enc_inode i) = 128" using length_enc_inode wf(5) by (simp add: directExtents_def)
  have es: "sort_key ex_Offset (i_Extents i) = i_Extents i"
    using i(1) by (simp add: inode_wf_def sort_key_id_if_sorted)
  show ?thesis
    unfolding efs_Inode_def Let_def
    using ipc grp i(2) wf(5) len not_less [of "i_Size i" 0, THEN iffD2, OF wf(1)]
    by (simp add: blk inodeSize_def sl uint16_at_half uint32_at_word
        enc_inode_fields int16_def int32_def wf nx directExtents_def parse_extents_Ok enc_inode_extents [OF i(1)] es
        del: uint16_at_Ok uint32_at_Ok)
qed

end

text \<open>What a successful Inode call guarantees of its result.\<close>

lemma efs_Inode_Ok:
  assumes "efs_Inode fs ino = Ok i"
  shows "\<not> ino div (of_int (cgISize fs) * 4) \<ge> of_int (ncg fs)" and "i_Num i = ino" and "0 \<le> i_Size i"
    and "sorted (map ex_Offset (i_Extents i))"
  using assms by (auto simp: efs_Inode_def Let_def go_outcome not_less split: if_splits)

section \<open>Paths\<close>

lemma lookup_parts_append:
  "lookup_parts fs path (ps @ qs) ino = and_then (lookup_parts fs path ps ino) (lookup_parts fs path qs)"
proof (induction ps arbitrary: ino)
  case (Cons p ps)
  show ?case
  proof (cases "efs_ReadDir fs ino")
    case (Ok ents)
    let ?next = "case find (\<lambda>e. de_Name e = p) ents of Some e \<Rightarrow> de_Ino e | None \<Rightarrow> 0"
    show ?thesis
      by (cases "efs_Inode fs ?next") (auto simp: Ok Cons Let_def)
  qed (simp_all add: Cons)
qed simp

text \<open>The path that reaches an inode does not matter to the walk, only to the error.\<close>

lemma lookup_parts_path: "lookup_parts fs path ps ino = Ok i \<longleftrightarrow> lookup_parts fs path' ps ino = Ok i"
  by (induction ps arbitrary: ino) (auto simp: go_outcome Let_def)

definition part_ok :: "bytes \<Rightarrow> bool" where
  "part_ok p \<longleftrightarrow> p \<noteq> [] \<and> slash \<notin> set p"

lemma hd_join: "part_ok p \<Longrightarrow> hd (join_with [slash] (p # ps)) = hd p"
  by (cases ps) (auto simp: part_ok_def)

lemma last_join: "ps \<noteq> [] \<Longrightarrow> \<forall>p \<in> set ps. part_ok p \<Longrightarrow> last (join_with [slash] ps) = last (last ps)"
proof (induction ps rule: induct_list012)
  case (3 p q ps)
  have "join_with [slash] (q # ps) \<noteq> []" using 3 by (cases ps) (auto simp: part_ok_def)
  with 3 show ?case by simp
qed auto

lemma efs_Lookup_parts:
  assumes "\<forall>p \<in> set ps. part_ok p"
  shows "efs_Lookup fs (join_with [slash] ps) =
    and_then (efs_Inode fs RootIno) (lookup_parts fs (join_with [slash] ps) ps)"
proof (cases ps)
  case Nil
  then show ?thesis
    by (cases "efs_Inode fs RootIno") (simp_all add: efs_Lookup_def trim_byte_def)
next
  case (Cons p qs)
  have "hd (join_with [slash] ps) \<noteq> slash" "join_with [slash] ps \<noteq> []"
    using assms Cons hd_join [of p qs] by (cases qs; cases p; auto simp: part_ok_def)+
  moreover have "last (join_with [slash] ps) \<noteq> slash"
    using last_join [OF _ assms] Cons assms by (metis last_in_set list.distinct(1) part_ok_def)
  ultimately have "trim_byte slash (join_with [slash] ps) = join_with [slash] ps"
    by (simp add: trim_byte_id)
  moreover have "split_on slash (join_with [slash] ps) = ps"
    using split_join [of ps slash] assms Cons by (simp add: part_ok_def)
  ultimately show ?thesis by (simp add: efs_Lookup_def)
qed

section \<open>Properties\<close>

text \<open>
  C7: ReadAt delivers the file. On an image held as bytes, for an inode whose
  extents do not overlap and lie inside the image, a read of \<open>n\<close> bytes at a
  non-negative offset returns exactly the bytes of the file there (those of the
  extent that covers each position, zero in the holes), cut at the file's size,
  with io.EOF exactly when fewer than \<open>n\<close> bytes are left or the offset is at or
  past the end.
\<close>

theorem efs_read_content:
  assumes "image_r fs = bytes_ReadAt img" and "extents_disjoint (i_Extents ino)"
    and "extents_inside img (base fs) (i_Extents ino)" and "0 \<le> off"
  shows "efs_ReadAt fs ino n off =
    Ok (take n (drop (nat off) (file_content img (base fs) ino)),
        if off < i_Size ino \<and> off + int n \<le> i_Size ino then None else Some (Efs_IO EOF))"
  using bytes_image.efs_ReadAt_content [OF assms] .

definition example_fs :: efs_FS where
  "example_fs = \<lparr>image_r = bytes_ReadAt (replicate 512 0 @ replicate 512 7), base = 0, fs_size = 2,
     firstCG = 1, cgFSize = 1, cgISize = 1, ncg = 1\<rparr>"

definition example_inode :: inode where
  "example_inode = \<lparr>i_Num = 2, i_Mode = 0x81a4, i_Nlink = 1, i_UID = 0, i_GID = 0, i_Size = 600, i_Atime = 0,
     i_Mtime = 0, i_Ctime = 0, i_Gen = 0,
     i_Extents = [\<lparr>ex_Block = 1, ex_Len = 1, ex_Offset = 1\<rparr>]\<rparr>"

theorem efs_read_content_witness:
  "efs_ReadAt example_fs example_inode 4 510 = Ok ([0, 0, 7, 7], None)"
proof -
  have d: "extents_disjoint (i_Extents example_inode)" by (simp add: extents_disjoint_def example_inode_def)
  have i: "extents_inside (replicate 512 0 @ replicate 512 7) (base example_fs) (i_Extents example_inode)"
    by (simp add: extents_inside_def example_inode_def example_fs_def blockSize_def)
  have c: "file_content (replicate 512 0 @ replicate 512 7) (base example_fs) example_inode =
      map (\<lambda>k. if 512 \<le> k then 7 else 0) [0..<600]"
    by (simp add: file_content_def file_byte_def example_inode_def example_fs_def ex_start_def ex_end_def
        blockSize_def nth_append del: upt_rec_numeral)
  have "take 4 (drop 510 (map (\<lambda>k. if 512 \<le> k then 7 else 0) [0..<600])) = [0, 0, 7, 7 :: byte]"
    by (simp add: drop_map take_map)
  with efs_read_content [OF _ d i, of 510 4] c show ?thesis
    by (simp add: example_fs_def example_inode_def)
qed

text \<open>
  C27: ReadDir lists what a directory holds. For a directory whose content is a
  sequence of directory blocks, each laid out from a list of entries that fits,
  ReadDir returns all the entries in order.
\<close>

theorem efs_dir_roundtrip:
  assumes "image_r fs = bytes_ReadAt img" and "extents_disjoint (i_Extents ino)"
    and "extents_inside img (base fs) (i_Extents ino)" and "0 \<le> i_Size ino" and "IsDir ino"
    and "file_content img (base fs) ino = concat (map dir_block ess)" and "\<forall>es \<in> set ess. dir_fits es"
  shows "efs_ReadDir fs ino = Ok (concat ess)"
proof -
  have "\<forall>blk \<in> set (map dir_block ess). length blk = blockSize" using assms(7) length_dir_block by auto
  moreover have "map entries_of (map dir_block ess) = ess"
    using assms(7) entries_of_dir_block by (induction ess) auto
  ultimately show ?thesis using bytes_image.efs_ReadDir_content [OF assms(1-6)] by simp
qed

definition example_dir :: inode where
  "example_dir = example_inode\<lparr>i_Mode := 0x41ed, i_Size := 512,
     i_Extents := [\<lparr>ex_Block = 1, ex_Len = 1, ex_Offset = 0\<rparr>]\<rparr>"

definition example_entries :: "dirEntry list" where
  "example_entries = [\<lparr>de_Name = str ''.'', de_Ino = 2\<rparr>, \<lparr>de_Name = str ''dist'', de_Ino = 5\<rparr>]"

theorem efs_dir_roundtrip_witness:
  "efs_ReadDir (example_fs\<lparr>image_r := bytes_ReadAt (replicate 512 0 @ dir_block example_entries)\<rparr>) example_dir =
     Ok example_entries"
proof -
  let ?img = "replicate 512 0 @ dir_block example_entries"
  let ?fs = "example_fs\<lparr>image_r := bytes_ReadAt ?img\<rparr>"
  have fits: "dir_fits example_entries"
    by (simp add: dir_fits_def entry_offset_def example_entries_def enc_entry_def blockSize_def)
  note len = length_dir_block [OF fits, unfolded blockSize_def]
  have d: "extents_disjoint (i_Extents example_dir)" by (simp add: extents_disjoint_def example_dir_def)
  have i: "extents_inside ?img (base ?fs) (i_Extents example_dir)"
    using len by (simp add: extents_inside_def example_dir_def example_fs_def blockSize_def)
  have c: "file_content ?img (base ?fs) example_dir = concat (map dir_block [example_entries])"
    using len by (intro nth_equalityI)
      (simp_all add: file_content_def file_byte_def example_dir_def example_fs_def ex_start_def ex_end_def
        blockSize_def nth_append del: upt_rec_numeral)
  have "efs_ReadDir ?fs example_dir = Ok (concat [example_entries])"
    by (rule efs_dir_roundtrip [OF _ d i _ _ c]) (use fits in \<open>simp_all add: example_dir_def IsDir_def fmtMask_def fmtDir_def\<close>)
  then show ?thesis by simp
qed




definition example_superblock :: bytes where
  "example_superblock = replicate 512 0 @ put32 100 @ put32 2 @ put32 50 @ put16 4 @ put16 0 @ put16 0 @ put16 1 @
     put32 0 @ put32 0 @ put32 SuperMagic @ replicate 480 0"


text \<open>
  Reading cannot crash on a failing image. For an inode whose extents do not
  overlap, ReadAt, ReadDir and Readlink return whatever the image returns, even
  short reads and errors.
\<close>

theorem efs_read_never_panics:
  assumes "extents_disjoint (i_Extents ino)"
  shows "returns (efs_ReadAt fs ino n off) \<and> returns (efs_ReadDir fs ino) \<and> returns (efs_Readlink fs ino)"
  using efs_ReadAt_returns [OF assms] efs_ReadDir_returns [OF assms] whole_file_returns [OF assms]
  by (simp add: efs_Readlink_def)

theorem efs_read_never_panics_witness:
  "returns (efs_ReadDir (example_fs\<lparr>image_r := (\<lambda>off n. ([], Some (ReadError 5)))\<rparr>) example_dir)"
proof -
  have "extents_disjoint (i_Extents example_dir)" by (simp add: extents_disjoint_def example_dir_def)
  from efs_read_never_panics [OF this] show ?thesis by blast
qed

definition overlapping :: inode where
  "overlapping = example_inode\<lparr>i_Size := 2048,
     i_Extents := [\<lparr>ex_Block = 0, ex_Len = 3, ex_Offset = 0\<rparr>, \<lparr>ex_Block = 0, ex_Len = 1, ex_Offset = 1\<rparr>]\<rparr>"

text \<open>
  C34: An inode with overlapping extents crashes ReadAt. The second extent below
  ends inside the first; when the loop reaches it the chunk is negative and
  slicing the buffer panics, although the inode passes every check of Inode.
\<close>

theorem efs_overlap_panics:
  "efs_ReadAt (example_fs\<lparr>image_r := bytes_ReadAt (replicate 2048 0)\<rparr>) overlapping 2048 0 = Panic"
proof -
  let ?fs = "example_fs\<lparr>image_r := bytes_ReadAt (replicate 2048 0)\<rparr>" and ?es = "i_Extents overlapping"
  have es: "length ?es = 2" "?es ! 0 = \<lparr>ex_Block = 0, ex_Len = 3, ex_Offset = 0\<rparr>"
    "?es ! Suc 0 = \<lparr>ex_Block = 0, ex_Len = 1, ex_Offset = 1\<rparr>" by (simp_all add: overlapping_def)
  have ends: "ex_start (?es ! 0) = 0" "ex_end (?es ! 0) = 1536" "ex_start (?es ! Suc 0) = 512" "ex_end (?es ! Suc 0) = 1024"
    by (simp_all add: es ex_start_def ex_end_def blockSize_def)
  have i: "first_extent overlapping 0 = 0"
    by (simp add: first_extent_def sort_Search_def es(1) search_between.simps [of 0] Let_def overlapping_def blockSize_def)
  have r: "bytes_ReadAt (replicate 2048 0) 0 1536 = (replicate 1536 0, None)"
    by (simp add: bytes_ReadAt_def)
  have "readat_loop ?fs ?es 0 2048 0 [] = readat_loop ?fs ?es 0 2048 (Suc 0) (replicate 1536 0)"
    using readat_data [of "[]" 2048 0 ?es 0 1536 ?fs] es ends r by (simp add: example_fs_def)
  also have "\<dots> = Panic"
    using readat_data [of "replicate 1536 0" 2048 "Suc 0" ?es 0 "-512" ?fs] es ends by simp
  finally show ?thesis using i by (simp add: efs_ReadAt_def) (simp add: overlapping_def)
qed

text \<open>
  Lookup walks the path one directory at a time. For parts that are not
  empty and hold no slash, looking up \<open>ps/p\<close> gives the inode \<open>i\<close> exactly when
  looking up \<open>ps\<close> gives a directory whose first entry named \<open>p\<close> has a non-zero
  inode number and that number's inode is \<open>i\<close>.
\<close>

theorem efs_lookup_step:
  assumes "\<forall>q \<in> set (ps @ [p]). part_ok q"
  shows "efs_Lookup fs (join_with [slash] (ps @ [p])) = Ok i \<longleftrightarrow>
    (\<exists>d ents e. efs_Lookup fs (join_with [slash] ps) = Ok d \<and> efs_ReadDir fs d = Ok ents \<and>
      find (\<lambda>e. de_Name e = p) ents = Some e \<and> de_Ino e \<noteq> 0 \<and> efs_Inode fs (de_Ino e) = Ok i)"
proof -
  let ?path = "join_with [slash] (ps @ [p])" and ?dir = "join_with [slash] ps"
  have ne: "p \<noteq> []" using assms by (simp add: part_ok_def)
  have "lookup_parts fs ?path [p] d = Ok i \<longleftrightarrow> (\<exists>ents e. efs_ReadDir fs d = Ok ents \<and>
      find (\<lambda>e. de_Name e = p) ents = Some e \<and> de_Ino e \<noteq> 0 \<and> efs_Inode fs (de_Ino e) = Ok i)" for d
    using ne by (auto simp: go_outcome Let_def split: option.splits)
  moreover have "efs_Lookup fs ?path = Ok i \<longleftrightarrow>
      (\<exists>d. efs_Lookup fs ?dir = Ok d \<and> lookup_parts fs ?path [p] d = Ok i)"
    using efs_Lookup_parts [OF assms, of fs] efs_Lookup_parts [of ps fs] assms lookup_parts_path [of fs ?path ps _ _ ?dir]
    by (auto simp: go_outcome lookup_parts_append)
  ultimately show ?thesis by blast
qed

theorem efs_lookup_step_witness:
  "efs_Lookup example_fs (join_with [slash] ([] @ [str ''dist''])) = Ok example_inode \<longleftrightarrow>
    (\<exists>d ents e. efs_Lookup example_fs (join_with [slash] []) = Ok d \<and> efs_ReadDir example_fs d = Ok ents \<and>
      find (\<lambda>e. de_Name e = str ''dist'') ents = Some e \<and> de_Ino e \<noteq> 0 \<and>
      efs_Inode example_fs (de_Ino e) = Ok example_inode)"
  using efs_lookup_step [of "[]" "str ''dist''" example_fs example_inode]
  by (simp add: part_ok_def slash_def)

end
