(* ===== verification/Efs_View.thy ===== *)
theory Efs_View
  imports Efs "HOL-Library.List_Lexorder" "HOL-Library.Multiset"
begin

text \<open>
  Package efs, the io/fs view (src/efs/fsys.go): name resolution, Open, Stat,
  ReadDir, ReadLink, the mode bits, an opened file as an io.Reader and an opened
  directory as a pager. A \<open>PathError\<close> keeps the operation and the cause; the path
  only labels the message.
\<close>

section \<open>Model\<close>

datatype fs_cause = ErrInvalid | ErrNotExist | Cause efs_error

datatype fs_error = PathError bytes fs_cause | RawError efs_error

record efs_Stat =
  st_UID :: u16
  st_GID :: u16
  st_Nlink :: int
  st_Mode :: u16

record fsInfo =
  fi_name :: bytes
  fi_ino :: inode

definition view_resolve :: "efs_FS \<Rightarrow> bytes \<Rightarrow> bytes \<Rightarrow> (fs_error, inode) outcome" where
  "view_resolve v op name =
     (if \<not> ValidPath name then Err (PathError op ErrInvalid)
      else if name = [dot] then wrap_err (\<lambda>e. PathError op (Cause e)) (efs_Inode v RootIno)
      else
        wrap_err (\<lambda>e. case e of
            NotFound path part \<Rightarrow> PathError op ErrNotExist
          | _ \<Rightarrow> PathError op (Cause e)) (efs_Lookup v name))"

text \<open>The children of a directory; sort.Slice's order of equal names is not used.\<close>

definition view_dirEntries :: "efs_FS \<Rightarrow> inode \<Rightarrow> (fs_error, fsInfo list) outcome" where
  "view_dirEntries v ino =
     and_then (wrap_err (\<lambda>e. PathError (str ''readdir'') (Cause e)) (efs_ReadDir v ino)) (\<lambda>raw.
     and_then
       (for_each (\<lambda>e out.
          if de_Name e = [dot] \<or> de_Name e = [dot, dot] then Ok out
          else
            and_then (wrap_err (\<lambda>e. PathError (str ''readdir'') (Cause e)) (efs_Inode v (de_Ino e))) (\<lambda>child.
            Ok (out @ [\<lparr>fi_name = de_Name e, fi_ino = child\<rparr>]))) raw [])
       (\<lambda>out. Ok (sort_key fi_name out)))"

record fsFile =
  ff_fs :: efs_FS
  ff_ino :: inode
  ff_info :: fsInfo
  ff_off :: int

record fsDir =
  fd_info :: fsInfo
  fd_ents :: "fsInfo list"
  fd_off :: nat

datatype fs_File = DirFile fsDir | RegFile fsFile

definition view_Open :: "efs_FS \<Rightarrow> bytes \<Rightarrow> (fs_error, fs_File) outcome" where
  "view_Open v name =
     and_then (view_resolve v (str ''open'') name) (\<lambda>ino.
     let info = \<lparr>fi_name = path_Base name, fi_ino = ino\<rparr> in
     if IsDir ino then
       and_then (view_dirEntries v ino) (\<lambda>ents.
       Ok (DirFile \<lparr>fd_info = info, fd_ents = ents, fd_off = 0\<rparr>))
     else Ok (RegFile \<lparr>ff_fs = v, ff_ino = ino, ff_info = info, ff_off = 0\<rparr>))"

definition view_Stat :: "efs_FS \<Rightarrow> bytes \<Rightarrow> (fs_error, fsInfo) outcome" where
  "view_Stat v name =
     and_then (view_resolve v (str ''stat'') name) (\<lambda>ino.
     Ok \<lparr>fi_name = path_Base name, fi_ino = ino\<rparr>)"

definition view_Lstat :: "efs_FS \<Rightarrow> bytes \<Rightarrow> (fs_error, fsInfo) outcome" where
  "view_Lstat v name = view_Stat v name"

definition view_ReadDir :: "efs_FS \<Rightarrow> bytes \<Rightarrow> (fs_error, fsInfo list) outcome" where
  "view_ReadDir v name =
     and_then (view_resolve v (str ''readdir'') name) (\<lambda>ino.
     if \<not> IsDir ino then Err (PathError (str ''readdir'') ErrInvalid) else view_dirEntries v ino)"

definition view_ReadLink :: "efs_FS \<Rightarrow> bytes \<Rightarrow> (fs_error, bytes) outcome" where
  "view_ReadLink v name =
     and_then (view_resolve v (str ''readlink'') name) (\<lambda>ino.
     if \<not> IsSymlink ino then Err (PathError (str ''readlink'') ErrInvalid)
     else wrap_err RawError (efs_Readlink v ino))"

text \<open>\<open>fs.FileMode\<close> bits and the mode of an entry.\<close>

definition ModeDir :: u32 where "ModeDir = 0x80000000"
definition ModeSymlink :: u32 where "ModeSymlink = 0x08000000"
definition ModeIrregular :: u32 where "ModeIrregular = 0x00080000"

definition fi_Mode :: "fsInfo \<Rightarrow> u32" where
  "fi_Mode i =
     (let m = ucast (i_Mode (fi_ino i) AND 0x1ff)
      in if IsDir (fi_ino i) then m OR ModeDir
         else if IsSymlink (fi_ino i) then m OR ModeSymlink
         else if \<not> IsRegular (fi_ino i) then m OR ModeIrregular
         else m)"

definition fi_Size :: "fsInfo \<Rightarrow> int" where
  "fi_Size i = i_Size (fi_ino i)"

definition fi_Sys :: "fsInfo \<Rightarrow> efs_Stat" where
  "fi_Sys i = \<lparr>st_UID = i_UID (fi_ino i), st_GID = i_GID (fi_ino i), st_Nlink = i_Nlink (fi_ino i),
     st_Mode = i_Mode (fi_ino i)\<rparr>"

definition fsFile_Read :: "nat \<Rightarrow> fsFile \<Rightarrow> (efs_error, bytes \<times> efs_error option \<times> fsFile) outcome" where
  "fsFile_Read n f =
     and_then (efs_ReadAt (ff_fs f) (ff_ino f) n (ff_off f)) (\<lambda>(got, err).
     Ok (got, err, f\<lparr>ff_off := ff_off f + int (length got)\<rparr>))"

definition fsFile_ReadAt :: "fsFile \<Rightarrow> nat \<Rightarrow> int \<Rightarrow> (efs_error, bytes \<times> efs_error option) outcome" where
  "fsFile_ReadAt f n off = efs_ReadAt (ff_fs f) (ff_ino f) n off"

text \<open>\<open>ReadDir(count)\<close> of an opened directory: entries, error, new state.\<close>

definition fsDir_ReadDir :: "int \<Rightarrow> fsDir \<Rightarrow>
    (fs_error, fsInfo list \<times> io_error option \<times> fsDir) outcome" where
  "fsDir_ReadDir cnt d =
     (if fd_off d > length (fd_ents d) then Panic
      else
        let rest = drop (fd_off d) (fd_ents d) in
        if cnt \<le> 0 then Ok (rest, None, d\<lparr>fd_off := length (fd_ents d)\<rparr>)
        else if rest = [] then Ok ([], Some EOF, d)
        else
          let k = (if cnt > int (length rest) then length rest else nat cnt)
          in Ok (take k rest, None, d\<lparr>fd_off := fd_off d + k\<rparr>))"

section \<open>An opened file as an io.Reader\<close>

definition file_ok :: "bytes \<Rightarrow> fsFile \<Rightarrow> bool" where
  "file_ok img f \<longleftrightarrow> image_r (ff_fs f) = bytes_ReadAt img \<and> extents_disjoint (i_Extents (ff_ino f)) \<and>
     extents_inside img (base (ff_fs f)) (i_Extents (ff_ino f)) \<and> 0 \<le> ff_off f"

abbreviation file_rest :: "bytes \<Rightarrow> fsFile \<Rightarrow> bytes" where
  "file_rest img f \<equiv> drop (nat (ff_off f)) (file_content img (base (ff_fs f)) (ff_ino f))"

interpretation fsFile_rd: go_reader fsFile_Read "file_rest img" "\<lambda>_. Efs_IO EOF" "file_ok img" for img
proof (rule go_readerI)
  fix f n
  assume ok: "file_ok img f"
  let ?c = "file_content img (base (ff_fs f)) (ff_ino f)" and ?off = "ff_off f" and ?size = "i_Size (ff_ino f)"
  have off: "0 \<le> ?off" and len: "length ?c = nat ?size"
    using ok by (simp_all add: file_ok_def file_content_def)
  have r: "efs_ReadAt (ff_fs f) (ff_ino f) n ?off = Ok (take n (drop (nat ?off) ?c),
      if ?off < ?size \<and> ?off + int n \<le> ?size then None else Some (Efs_IO EOF))"
    using ok by (intro bytes_image.efs_ReadAt_content) (simp_all add: file_ok_def)
  define got where "got = take n (drop (nat ?off) ?c)"
  have nxt: "nat (?off + int (length got)) = nat ?off + length got" using off by simp
  have rest: "drop (nat ?off) ?c = got @ drop (nat ?off + length got) ?c"
    by (metis add.commute append_take_drop_id drop_drop got_def length_take append_eq_conv_conj)
  have finish: "drop (nat ?off + length got) ?c = []" if "\<not> (?off < ?size \<and> ?off + int n \<le> ?size)"
    using that len off by (auto simp: got_def)
  have progress: "got \<noteq> []" if "0 < n" "?off < ?size"
    using that len off by (auto simp: got_def)
  let ?e = "if ?off < ?size \<and> ?off + int n \<le> ?size then None else Some (Efs_IO EOF)"
  let ?f = "f\<lparr>ff_off := ?off + int (length got)\<rparr>"
  have run: "fsFile_Read n f = Ok (got, ?e, ?f)" by (simp only: fsFile_Read_def r got_def and_then.simps prod.case)
  have rest': "file_rest img ?f = drop (nat ?off + length got) ?c" by (simp add: nxt)
  have "file_ok img ?f" using ok off by (simp add: file_ok_def)
  moreover have "length got \<le> n" by (simp add: got_def)
  moreover have "file_rest img f = got @ file_rest img ?f" unfolding rest' by (rule rest)
  moreover have "err = Efs_IO EOF \<and> file_rest img ?f = []" if "?e = Some err" for err
    using that finish unfolding rest' by (auto split: if_splits)
  moreover have "got \<noteq> []" if "0 < n \<and> ?e = None" using that progress by (auto split: if_splits)
  ultimately show "\<exists>b e f'. fsFile_Read n f = Ok (b, e, f') \<and> file_ok img f' \<and> length b \<le> n \<and>
      file_rest img f = b @ file_rest img f' \<and> Efs_IO EOF = Efs_IO EOF \<and>
      (\<forall>err. e = Some err \<longrightarrow> err = Efs_IO EOF \<and> file_rest img f' = []) \<and> (0 < n \<and> e = None \<longrightarrow> b \<noteq> [])"
    using run by blast
qed

section \<open>An opened directory\<close>

text \<open>A client that asks for pages of the given sizes until end of file.\<close>

fun read_pages :: "int list \<Rightarrow> fsDir \<Rightarrow> (fs_error, fsInfo list \<times> io_error option) outcome" where
  "read_pages [] d = Ok ([], None)"
| "read_pages (c # cs) d =
     and_then (fsDir_ReadDir c d) (\<lambda>(es, e, d').
     case e of
       Some err \<Rightarrow> Ok (es, Some err)
     | None \<Rightarrow> and_then (read_pages cs d') (\<lambda>(es', e'). Ok (es @ es', e')))"

lemma read_pages_rest:
  assumes "fd_off d \<le> length (fd_ents d)" and "\<forall>c \<in> set cs. 0 < c"
    and "length (fd_ents d) - fd_off d < length cs"
  shows "read_pages cs d = Ok (drop (fd_off d) (fd_ents d), Some EOF)"
  using assms
proof (induction cs arbitrary: d)
  case (Cons c cs)
  let ?rest = "drop (fd_off d) (fd_ents d)"
  show ?case
  proof (cases "?rest = []")
    case True
    with Cons.prems show ?thesis by (simp add: fsDir_ReadDir_def not_less)
  next
    case False
    define k where "k = (if c > int (length ?rest) then length ?rest else nat c)"
    let ?d = "d\<lparr>fd_off := fd_off d + k\<rparr>"
    have k: "0 < k" "k \<le> length ?rest" using False Cons.prems by (auto simp: k_def)
    have "fsDir_ReadDir c d = Ok (take k ?rest, None, ?d)"
      unfolding fsDir_ReadDir_def Let_def k_def [symmetric] using False Cons.prems k by simp
    moreover have "read_pages cs ?d = Ok (drop k ?rest, Some EOF)"
      using Cons.IH [of ?d] Cons.prems k by (simp add: add.commute)
    ultimately show ?thesis using append_take_drop_id [of k ?rest] by simp
  qed
qed simp

text \<open>The listing that is paged.\<close>

definition listed :: "dirEntry list \<Rightarrow> dirEntry list" where
  "listed raw = filter (\<lambda>e. de_Name e \<noteq> [dot] \<and> de_Name e \<noteq> [dot, dot]) raw"

lemma dirEntries_loop:
  assumes "for_each (\<lambda>e out.
          if de_Name e = [dot] \<or> de_Name e = [dot, dot] then Ok out
          else
            and_then (wrap_err (\<lambda>e. PathError (str ''readdir'') (Cause e)) (efs_Inode v (de_Ino e))) (\<lambda>child.
            Ok (out @ [\<lparr>fi_name = de_Name e, fi_ino = child\<rparr>]))) raw out = Ok out'"
  shows "\<exists>is. out' = out @ is \<and>
    list_all2 (\<lambda>e i. fi_name i = de_Name e \<and> efs_Inode v (de_Ino e) = Ok (fi_ino i)) (listed raw) is"
  using assms
proof (induction raw arbitrary: out)
  case (Cons e raw)
  show ?case
  proof (cases "de_Name e = [dot] \<or> de_Name e = [dot, dot]")
    case True
    with Cons.prems have "\<exists>is. out' = out @ is \<and>
      list_all2 (\<lambda>e i. fi_name i = de_Name e \<and> efs_Inode v (de_Ino e) = Ok (fi_ino i)) (listed raw) is"
      by (intro Cons.IH) auto
    with True show ?thesis by (auto simp: listed_def)
  next
    case False
    with Cons.prems obtain child where child: "efs_Inode v (de_Ino e) = Ok child"
      by (auto simp: go_outcome)
    with Cons.prems False have "\<exists>is. out' = (out @ [\<lparr>fi_name = de_Name e, fi_ino = child\<rparr>]) @ is \<and>
      list_all2 (\<lambda>e i. fi_name i = de_Name e \<and> efs_Inode v (de_Ino e) = Ok (fi_ino i)) (listed raw) is"
      by (intro Cons.IH) auto
    then obtain "is" where "out' = out @ \<lparr>fi_name = de_Name e, fi_ino = child\<rparr> # is"
      "list_all2 (\<lambda>e i. fi_name i = de_Name e \<and> efs_Inode v (de_Ino e) = Ok (fi_ino i)) (listed raw) is" by auto
    with child False show ?thesis
      by (intro exI [of _ "\<lparr>fi_name = de_Name e, fi_ino = child\<rparr> # is"]) (auto simp: listed_def)
  qed
qed (simp add: listed_def)

section \<open>Properties\<close>

text \<open>
  An opened file reads as the file. On an image held as bytes and an inode
  with sound extents, reading an opened file with any non-empty buffers until an
  error gives the file's content from the current position and then io.EOF.
\<close>

theorem fsFile_reads_content:
  assumes "file_ok img f" and "\<forall>n \<in> set ns. 0 < n" and "length (file_rest img f) < length ns"
  shows "drain fsFile_Read ns f = Ok (file_rest img f, Some (Efs_IO EOF))"
  using fsFile_rd.drain_content [OF assms] .

definition example_open :: fsFile where
  "example_open = \<lparr>ff_fs = example_fs, ff_ino = example_inode,
     ff_info = \<lparr>fi_name = str ''f'', fi_ino = example_inode\<rparr>, ff_off = 598\<rparr>"

theorem fsFile_reads_content_witness:
  "drain fsFile_Read [1, 9, 9] example_open = Ok ([7, 7], Some (Efs_IO EOF))"
proof -
  let ?img = "replicate 512 0 @ replicate 512 7"
  have ok: "file_ok ?img example_open"
    by (simp add: file_ok_def example_open_def example_fs_def example_inode_def extents_disjoint_def
        extents_inside_def blockSize_def)
  have "file_rest ?img example_open = [7, 7]"
    by (simp add: example_open_def file_content_def file_byte_def example_fs_def example_inode_def ex_start_def
        ex_end_def blockSize_def drop_map nth_append)
  with fsFile_reads_content [OF ok, of "[1, 9, 9]"] show ?thesis by simp
qed

text \<open>
  Paging through an opened directory lists it exactly once. Pages of any
  positive sizes, asked for until end of file, give the entries not yet listed,
  in order.
\<close>

theorem fsDir_pages:
  assumes "fd_off d \<le> length (fd_ents d)" and "\<forall>c \<in> set cs. 0 < c"
    and "length (fd_ents d) - fd_off d < length cs"
  shows "read_pages cs d = Ok (drop (fd_off d) (fd_ents d), Some EOF)"
  using assms by (rule read_pages_rest)

theorem fsDir_pages_witness:
  "read_pages [1, 5, 5] \<lparr>fd_info = \<lparr>fi_name = [], fi_ino = example_dir\<rparr>,
     fd_ents = replicate 2 \<lparr>fi_name = [], fi_ino = example_inode\<rparr>, fd_off = 0\<rparr> =
   Ok (replicate 2 \<lparr>fi_name = [], fi_ino = example_inode\<rparr>, Some EOF)"
  by (subst fsDir_pages) simp_all

text \<open>
  A directory listing is complete and sorted. When the view lists a
  directory, the result is sorted by name, and it holds, each with its own
  inode, exactly the entries of the directory other than "." and "..".
\<close>

theorem view_listing:
  assumes "view_dirEntries v ino = Ok out"
  shows "sorted (map fi_name out) \<and> (\<exists>raw is. efs_ReadDir v ino = Ok raw \<and> mset out = mset is \<and>
    list_all2 (\<lambda>e i. fi_name i = de_Name e \<and> efs_Inode v (de_Ino e) = Ok (fi_ino i)) (listed raw) is)"
proof -
  from assms obtain raw ents where r: "efs_ReadDir v ino = Ok raw" "out = sort_key fi_name ents"
    "for_each (\<lambda>e out.
          if de_Name e = [dot] \<or> de_Name e = [dot, dot] then Ok out
          else
            and_then (wrap_err (\<lambda>e. PathError (str ''readdir'') (Cause e)) (efs_Inode v (de_Ino e))) (\<lambda>child.
            Ok (out @ [\<lparr>fi_name = de_Name e, fi_ino = child\<rparr>]))) raw [] = Ok ents"
    by (auto simp: view_dirEntries_def go_outcome)
  from dirEntries_loop [OF r(3)] r show ?thesis by auto
qed

definition view_img :: bytes where
  "view_img = (replicate 768 0 @ enc_inode example_inode @ replicate 128 0) @ dir_block [\<lparr>de_Name = str ''f'', de_Ino = 2\<rparr>]"

definition view_fs :: efs_FS where
  "view_fs = example_fs\<lparr>image_r := bytes_ReadAt view_img\<rparr>"

definition view_dir :: inode where
  "view_dir = example_dir\<lparr>i_Extents := [\<lparr>ex_Block = 2, ex_Len = 1, ex_Offset = 0\<rparr>]\<rparr>"

lemma view_img_parts:
  "length view_img = 1536" "take 128 (drop 768 view_img) = enc_inode example_inode"
  "drop 1024 view_img = dir_block [\<lparr>de_Name = str ''f'', de_Ino = 2\<rparr>]" "dir_fits [\<lparr>de_Name = str ''f'', de_Ino = 2\<rparr>]"
proof -
  have len: "length (enc_inode example_inode) = 128"
    by (simp add: length_enc_inode example_inode_def directExtents_def)
  show fits: "dir_fits [\<lparr>de_Name = str ''f'', de_Ino = 2\<rparr>]"
    by (simp add: dir_fits_def entry_offset_def enc_entry_def blockSize_def)
  show "length view_img = 1536" "take 128 (drop 768 view_img) = enc_inode example_inode"
    "drop 1024 view_img = dir_block [\<lparr>de_Name = str ''f'', de_Ino = 2\<rparr>]"
    using len length_dir_block [OF fits] by (simp_all add: view_img_def blockSize_def)
qed

lemma view_dirEntries_example: "view_dirEntries view_fs view_dir = Ok [\<lparr>fi_name = str ''f'', fi_ino = example_inode\<rparr>]"
proof -
  have img: "image_r view_fs = bytes_ReadAt view_img" and b: "base view_fs = 0" "inode_block view_fs 2 = 1"
    by (simp_all add: view_fs_def example_fs_def inode_block_def)
  have c: "file_content view_img (base view_fs) view_dir = concat [dir_block [\<lparr>de_Name = str ''f'', de_Ino = 2\<rparr>]]"
    unfolding view_img_parts(3) [symmetric]
    by (intro nth_equalityI) (simp_all add: file_content_def file_byte_def view_dir_def example_dir_def b
        ex_start_def ex_end_def blockSize_def view_img_parts(1) del: upt_rec_numeral)
  have "efs_ReadDir view_fs view_dir = Ok (concat (map entries_of [dir_block [\<lparr>de_Name = str ''f'', de_Ino = 2\<rparr>]]))"
    by (rule bytes_image.efs_ReadDir_content [OF img _ _ _ _ c])
       (use view_img_parts length_dir_block in \<open>simp_all add: view_dir_def example_dir_def extents_disjoint_def
         extents_inside_def b blockSize_def IsDir_def fmtMask_def fmtDir_def\<close>)
  moreover have "efs_Inode view_fs 2 = Ok example_inode"
    by (rule bytes_image.efs_Inode_content [OF img _ _ refl])
       (use view_img_parts(1,2) in \<open>simp_all add: inode_block_def view_fs_def example_fs_def geometry_ok_def inode_wf_def
         example_inode_def directExtents_def extent_wf_def\<close>)
  ultimately show ?thesis
    using entries_of_dir_block [OF view_img_parts(4)] by (simp add: view_dirEntries_def dot_def)
qed

theorem view_listing_witness:
  "\<exists>raw is. efs_ReadDir view_fs view_dir = Ok raw \<and>
    mset [\<lparr>fi_name = str ''f'', fi_ino = example_inode\<rparr>] = mset is \<and>
    list_all2 (\<lambda>e i. fi_name i = de_Name e \<and> efs_Inode view_fs (de_Ino e) = Ok (fi_ino i)) (listed raw) is"
  using view_listing [OF view_dirEntries_example] by blast


end
