(* ===== verification/Xdr.thy ===== *)
theory Xdr
  imports Go_Prelude "HOL-Library.State_Monad"
begin

text \<open>
  XDR (src/nfs/xdr.go). \<open>xdrReader\<close> is the struct of that name and its methods are
  state-monad computations over it; \<open>xdrWriter\<close> is its byte slice, so a writing
  method maps the bytes written so far to the bytes with one more value. The
  locale \<open>xdr_codec\<close> is what encoder and decoder promise each other; it is
  interpreted on every pair of methods, and \<open>xdr_pair\<close> composes two of them.
\<close>

section \<open>Model: reader\<close>

record xdrReader =
  xr_b :: bytes
  xr_off :: nat
  xr_err :: bool

type_synonym 'a xdr = "(xdrReader, 'a) state"

definition x_uint32 :: "u32 xdr" where
  "x_uint32 = State (\<lambda>r.
     if xr_off r + 4 > length (xr_b r) then (0, r\<lparr>xr_err := True\<rparr>)
     else (word_at (xr_b r) (xr_off r), r\<lparr>xr_off := xr_off r + 4\<rparr>))"

definition x_uint64 :: "u64 xdr" where
  "x_uint64 = do {
     hi \<leftarrow> x_uint32;
     lo \<leftarrow> x_uint32;
     State_Monad.return (get64 hi lo)
   }"

definition x_bool :: "bool xdr" where
  "x_bool = do {
     v \<leftarrow> x_uint32;
     State_Monad.return (v \<noteq> 0)
   }"

definition x_bytes :: "nat \<Rightarrow> bytes xdr" where
  "x_bytes n = State (\<lambda>r.
     if xr_off r + n > length (xr_b r) then ([], r\<lparr>xr_err := True\<rparr>)
     else (take n (drop (xr_off r) (xr_b r)), r\<lparr>xr_off := xr_off r + n\<rparr>))"

text \<open>\<open>(n + 3) &^ 3\<close>: the length rounded up to whole words.\<close>

definition padded :: "nat \<Rightarrow> nat" where
  "padded n = (n + 3) div 4 * 4"

definition x_opaque :: "nat \<Rightarrow> bytes xdr" where
  "x_opaque mx = do {
     n \<leftarrow> x_uint32;
     State (\<lambda>r.
       if xr_err r \<or> n > of_nat mx \<or> xr_off r + unat n > length (xr_b r) then ([], r\<lparr>xr_err := True\<rparr>)
       else
         let v = take (unat n) (drop (xr_off r) (xr_b r));
             off' = xr_off r + padded (unat n)
         in (v, r\<lparr>xr_off := off', xr_err := (off' > length (xr_b r))\<rparr>))
   }"

definition x_str :: "bytes xdr" where
  "x_str = State (\<lambda>r. run_state (x_opaque (length (xr_b r))) r)"

text \<open>\<open>r.err\<close> as the handlers look at it.\<close>

definition x_err :: "bool xdr" where
  "x_err = State (\<lambda>r. (xr_err r, r))"

definition x_fail :: "unit xdr" where
  "x_fail = State (\<lambda>r. ((), r\<lparr>xr_err := True\<rparr>))"

section \<open>Model: writer\<close>

type_synonym xdrWriter = "bytes \<Rightarrow> bytes"

definition w_uint32 :: "u32 \<Rightarrow> xdrWriter" where
  "w_uint32 v w = w @ put32 v"

definition w_uint64 :: "u64 \<Rightarrow> xdrWriter" where
  "w_uint64 v w = w @ put64 v"

definition w_bool :: "bool \<Rightarrow> xdrWriter" where
  "w_bool v w = (if v then w_uint32 1 w else w_uint32 0 w)"

definition w_fixed :: "bytes \<Rightarrow> xdrWriter" where
  "w_fixed p w = w @ p"

text \<open>The padding loop of opaque runs until the whole buffer is aligned.\<close>

definition w_opaque :: "bytes \<Rightarrow> xdrWriter" where
  "w_opaque p w =
     (let b = w_uint32 (of_nat (length p)) w @ p
      in b @ replicate ((4 - length b mod 4) mod 4) 0)"

text \<open>One write after the other, starting from an empty writer.\<close>

definition w_seq :: "xdrWriter list \<Rightarrow> xdrWriter" where
  "w_seq fs w = fold (\<lambda>f. f) fs w"

definition w_new :: "xdrWriter list \<Rightarrow> bytes" where
  "w_new fs = w_seq fs []"

section \<open>The contract between encoder and decoder\<close>

text \<open>A reader that has \<open>bs\<close> still to read and has not failed.\<close>

definition at_input :: "xdrReader \<Rightarrow> bytes \<Rightarrow> bool" where
  "at_input r bs \<longleftrightarrow> \<not> xr_err r \<and> xr_off r \<le> length (xr_b r) \<and> drop (xr_off r) (xr_b r) = bs"

locale xdr_codec =
  fixes enc :: "'a \<Rightarrow> xdrWriter" and dec :: "'a xdr" and ok :: "'a \<Rightarrow> bool"
  assumes decodes: "ok v \<Longrightarrow> at_input r (enc v [] @ rest) \<Longrightarrow>
      \<exists>r'. run_state dec r = (v, r') \<and> at_input r' rest"
    and appends: "ok v \<Longrightarrow> 4 dvd length w \<Longrightarrow> enc v w = w @ enc v []"
    and aligned: "ok v \<Longrightarrow> 4 dvd length (enc v [])"
begin

lemma enc_aligned: "ok v \<Longrightarrow> 4 dvd length w \<Longrightarrow> 4 dvd length (enc v w)"
  by (subst appends) (use aligned in auto)

end

text \<open>Two values, one after the other.\<close>

locale xdr_pair = a: xdr_codec enca deca oka + b: xdr_codec encb decb okb
  for enca :: "'a \<Rightarrow> xdrWriter" and deca oka and encb :: "'b \<Rightarrow> xdrWriter" and decb okb
begin

lemma pair_appends:
  assumes "oka x" and "okb y" and "4 dvd length w"
  shows "encb y (enca x w) = w @ enca x [] @ encb y []"
  using a.appends [OF assms(1,3)] b.appends [OF assms(2), of "w @ enca x []"] a.aligned [OF assms(1)] assms(3)
  by simp

end

sublocale xdr_pair \<subseteq> pair: xdr_codec "\<lambda>(x, y) w. encb y (enca x w)"
  "do { x \<leftarrow> deca; y \<leftarrow> decb; State_Monad.return (x, y) }" "\<lambda>(x, y). oka x \<and> okb y"
proof
  fix v r rest
  assume ok: "case v of (x, y) \<Rightarrow> oka x \<and> okb y"
    and at: "at_input r ((case v of (x, y) \<Rightarrow> \<lambda>w. encb y (enca x w)) [] @ rest)"
  obtain x y where v: "v = (x, y)" by (cases v)
  have "at_input r (enca x [] @ encb y [] @ rest)"
    using at ok v pair_appends [of x y "[]"] by simp
  with a.decodes ok v obtain r1 where r1: "run_state deca r = (x, r1)" "at_input r1 (encb y [] @ rest)" by blast
  with b.decodes ok v obtain r2 where "run_state decb r1 = (y, r2)" "at_input r2 rest" by blast
  with r1 v show "\<exists>r'. run_state (do { x \<leftarrow> deca; y \<leftarrow> decb; State_Monad.return (x, y) }) r = (v, r') \<and> at_input r' rest"
    by simp
next
  fix v :: "'a \<times> 'b" and w :: bytes
  assume ok: "case v of (x, y) \<Rightarrow> oka x \<and> okb y" and al: "4 dvd length w"
  then show "(case v of (x, y) \<Rightarrow> \<lambda>w. encb y (enca x w)) w = w @ (case v of (x, y) \<Rightarrow> \<lambda>w. encb y (enca x w)) []"
    using pair_appends [of "fst v" "snd v" w] pair_appends [of "fst v" "snd v" "[]"] by (auto split: prod.splits)
next
  fix v :: "'a \<times> 'b"
  assume "case v of (x, y) \<Rightarrow> oka x \<and> okb y"
  then show "4 dvd length ((case v of (x, y) \<Rightarrow> \<lambda>w. encb y (enca x w)) [])"
    using pair_appends [of "fst v" "snd v" "[]"] a.aligned [of "fst v"] b.aligned [of "snd v"] by (auto split: prod.splits)
qed

section \<open>The methods keep the contract\<close>

lemma at_input_length: "at_input r bs \<Longrightarrow> xr_off r + length bs = length (xr_b r)"
  by (auto simp: at_input_def)

lemma at_input_uint32:
  assumes "at_input r (put32 v @ rest)"
  shows "run_state x_uint32 r = (v, r\<lparr>xr_off := xr_off r + 4\<rparr>)" and "at_input (r\<lparr>xr_off := xr_off r + 4\<rparr>) rest"
proof -
  have len: "xr_off r + 4 \<le> length (xr_b r)" and d: "drop (xr_off r) (xr_b r) = put32 v @ rest"
    using assms at_input_length [OF assms] by (simp_all add: at_input_def)
  have "word_at (xr_b r) (xr_off r) = word_at (drop (xr_off r) (xr_b r)) 0"
    using len by (simp add: word_at_def)
  also have "\<dots> = v" unfolding d using word_at_put32 [of "[]" v rest] by simp
  finally show "run_state x_uint32 r = (v, r\<lparr>xr_off := xr_off r + 4\<rparr>)"
    using len by (simp add: x_uint32_def)
  have "drop (xr_off r + 4) (xr_b r) = drop 4 (put32 v @ rest)" using d by (metis add.commute drop_drop)
  then show "at_input (r\<lparr>xr_off := xr_off r + 4\<rparr>) rest" using assms len by (simp add: at_input_def)
qed

interpretation xdr_u32: xdr_codec w_uint32 x_uint32 "\<lambda>_. True"
  by unfold_locales (use at_input_uint32 in \<open>fastforce simp: w_uint32_def\<close>)+

interpretation xdr_u64: xdr_codec w_uint64 x_uint64 "\<lambda>_. True"
proof
  fix v r rest
  assume "at_input r (w_uint64 v [] @ rest)"
  then have "at_input r (put32 (ucast (drop_bit 32 v)) @ put32 (ucast v) @ rest)"
    by (simp add: w_uint64_def put64_def)
  note hi = at_input_uint32 [OF this]
  note lo = at_input_uint32 [OF hi(2)]
  from hi(1) lo show "\<exists>r'. run_state x_uint64 r = (v, r') \<and> at_input r' rest"
    by (auto simp: x_uint64_def get64_split)
qed (simp_all add: w_uint64_def)

interpretation xdr_boolean: xdr_codec w_bool x_bool "\<lambda>_. True"
proof
  fix v r rest
  assume "at_input r (w_bool v [] @ rest)"
  then have "at_input r (put32 (if v then 1 else 0) @ rest)" by (simp add: w_bool_def w_uint32_def split: if_splits)
  from at_input_uint32 [OF this] show "\<exists>r'. run_state x_bool r = (v, r') \<and> at_input r' rest"
    by (auto simp: x_bool_def)
qed (simp_all add: w_bool_def w_uint32_def)

lemma at_input_bytes:
  assumes "at_input r (p @ rest)"
  shows "run_state (x_bytes (length p)) r = (p, r\<lparr>xr_off := xr_off r + length p\<rparr>)"
    and "at_input (r\<lparr>xr_off := xr_off r + length p\<rparr>) rest"
proof -
  have len: "xr_off r + length p \<le> length (xr_b r)" and d: "drop (xr_off r) (xr_b r) = p @ rest"
    using assms at_input_length [OF assms] by (simp_all add: at_input_def)
  have "drop (xr_off r + length p) (xr_b r) = rest" using d by (metis add.commute append_eq_conv_conj drop_drop)
  with len assms show "at_input (r\<lparr>xr_off := xr_off r + length p\<rparr>) rest" by (simp add: at_input_def)
  from len d show "run_state (x_bytes (length p)) r = (p, r\<lparr>xr_off := xr_off r + length p\<rparr>)"
    by (simp add: x_bytes_def)
qed

interpretation xdr_fixed: xdr_codec w_fixed "x_bytes n" "\<lambda>p. length p = n \<and> 4 dvd n" for n
  by unfold_locales (use at_input_bytes in \<open>fastforce simp: w_fixed_def\<close>)+

lemma padded_ge: "n \<le> padded n"
  unfolding padded_def by linarith

lemma padded_4: "4 dvd padded n" "padded n - n = (4 - n mod 4) mod 4"
proof -
  show "4 dvd padded n" by (simp add: padded_def)
  define q r where "q = n div 4" and "r = n mod 4"
  then have n: "n = 4 * q + r" "r < 4" by simp_all
  then consider "r = 0" | "r = 1" | "r = 2" | "r = 3" by linarith
  moreover have m: "n mod 4 = r" by (simp add: r_def)
  ultimately show "padded n - n = (4 - n mod 4) mod 4"
    unfolding m by cases (simp_all add: n(1) padded_def)
qed

lemma w_opaque_eq:
  assumes "4 dvd length w"
  shows "w_opaque p w = w @ put32 (of_nat (length p)) @ p @ replicate (padded (length p) - length p) 0"
proof -
  from assms obtain k where "length w = 4 * k" by blast
  then have "length (w_uint32 (of_nat (length p)) w @ p) mod 4 = length p mod 4"
    by (simp add: w_uint32_def)
  then show ?thesis by (simp add: w_opaque_def Let_def w_uint32_def padded_4(2))
qed

lemma at_input_opaque:
  assumes "at_input r (w_opaque p [] @ rest)" and "length p \<le> mx" and "mx < 2 ^ 32"
  shows "\<exists>r'. run_state (x_opaque mx) r = (p, r') \<and> at_input r' rest"
proof -
  let ?pad = "replicate (padded (length p) - length p) (0 :: byte)"
  have at: "at_input r (put32 (of_nat (length p)) @ (p @ ?pad) @ rest)"
    using assms(1) by (simp add: w_opaque_eq)
  note n = at_input_uint32 [OF at]
  let ?r = "r\<lparr>xr_off := xr_off r + 4\<rparr>"
  have un: "unat (of_nat (length p) :: u32) = length p" "unat (of_nat mx :: u32) = mx"
    using assms(2,3) by (simp_all add: unat_of_nat)
  note b = at_input_bytes [OF n(2)]
  have len: "length (p @ ?pad) = padded (length p)" using padded_ge by simp
  have d: "drop (xr_off ?r) (xr_b ?r) = p @ ?pad @ rest" "xr_off ?r + padded (length p) \<le> length (xr_b ?r)"
    "xr_off ?r + length p \<le> length (xr_b ?r)"
    using n(2) b(2) len padded_ge [of "length p"] by (auto simp: at_input_def)
  have "run_state (x_opaque mx) r = (p, ?r\<lparr>xr_off := xr_off ?r + padded (length p)\<rparr>)"
    using n d un assms(2) by (simp add: x_opaque_def Let_def at_input_def word_less_nat_alt not_less)
  moreover have "at_input (?r\<lparr>xr_off := xr_off ?r + padded (length p)\<rparr>) rest" using b(2) len by simp
  ultimately show ?thesis by blast
qed

interpretation xdr_opaque: xdr_codec w_opaque "x_opaque mx" "\<lambda>p. length p \<le> mx \<and> mx < 2 ^ 32" for mx
proof
  fix v r rest
  assume "length v \<le> mx \<and> mx < 2 ^ 32" "at_input r (w_opaque v [] @ rest)"
  then show "\<exists>r'. run_state (x_opaque mx) r = (v, r') \<and> at_input r' rest" using at_input_opaque by blast
qed (use padded_4(1) padded_ge in \<open>simp_all add: w_opaque_eq\<close>)

lemma at_input_str:
  assumes "at_input r (w_opaque p [] @ rest)" and "length (xr_b r) < 2 ^ 32"
  shows "\<exists>r'. run_state x_str r = (p, r') \<and> at_input r' rest"
proof -
  have "length p \<le> length (xr_b r)"
    using at_input_length [OF assms(1)] by (simp add: w_opaque_eq)
  from at_input_opaque [OF assms(1) this assms(2)] show ?thesis by (simp add: x_str_def)
qed

text \<open>Directory operations name an object by a handle and a string.\<close>

interpretation xdr_dirop: xdr_pair w_fixed "x_bytes 32" "\<lambda>p. length p = 32 \<and> 4 dvd (32 :: nat)"
  w_opaque "x_opaque mx" "\<lambda>p. length p \<le> mx \<and> mx < 2 ^ 32" for mx ..

section \<open>Errors stick\<close>

definition sticky :: "'a xdr \<Rightarrow> bool" where
  "sticky m \<longleftrightarrow> (\<forall>r. xr_err r \<longrightarrow> xr_err (snd (run_state m r)))"

lemma stickyD: "sticky m \<Longrightarrow> run_state m r = (v, r') \<Longrightarrow> xr_err r \<Longrightarrow> xr_err r'"
  by (metis snd_conv sticky_def)

lemma sticky_bind [intro]:
  assumes "sticky m" and "\<And>x. sticky (f x)"
  shows "sticky (State_Monad.bind m f)"
  unfolding sticky_def
proof (intro allI impI)
  fix r :: xdrReader
  assume "xr_err r"
  obtain x r1 where "run_state m r = (x, r1)" by (cases "run_state m r")
  with assms \<open>xr_err r\<close> show "xr_err (snd (run_state (State_Monad.bind m f) r))"
    by (auto simp: sticky_def dest: stickyD)
qed

lemma sticky_methods [intro, simp]:
  "sticky (State_Monad.return x)" "sticky x_uint32" "sticky (x_bytes n)" "sticky x_err" "sticky x_fail"
  by (simp_all add: sticky_def x_uint32_def x_bytes_def x_err_def x_fail_def)

lemma sticky_opaque [intro, simp]: "sticky (x_opaque mx)"
  unfolding x_opaque_def by (rule sticky_bind, simp) (simp add: sticky_def)

lemma sticky_str [intro, simp]: "sticky x_str"
  using sticky_opaque by (simp add: sticky_def x_str_def)

lemma sticky_derived [intro, simp]: "sticky x_uint64" "sticky x_bool"
  unfolding x_uint64_def x_bool_def by (intro sticky_bind; simp)+

section \<open>Properties\<close>

text \<open>
  What opaque writes, opaque reads. A byte string of at most the limit,
  written by opaque after any aligned prefix, is read back from there exactly,
  without an error, leaving the reader at what follows; the encoding is a whole
  number of words.
\<close>

theorem xdr_opaque_roundtrip:
  assumes "4 dvd length w" and "length p \<le> mx" and "mx < 2 ^ 32"
  shows "4 dvd length (w_opaque p w) \<and>
    (\<exists>r'. run_state (x_opaque mx) \<lparr>xr_b = w_opaque p w @ rest, xr_off = length w, xr_err = False\<rparr> = (p, r') \<and>
      at_input r' rest)"
proof -
  have "w_opaque p w = w @ w_opaque p []" by (rule xdr_opaque.appends) (use assms in auto)
  then have "at_input \<lparr>xr_b = w_opaque p w @ rest, xr_off = length w, xr_err = False\<rparr> (w_opaque p [] @ rest)"
    by (simp add: at_input_def)
  with xdr_opaque.decodes xdr_opaque.enc_aligned assms show ?thesis by blast
qed

theorem xdr_opaque_roundtrip_witness:
  "\<exists>r'. run_state (x_opaque 64) \<lparr>xr_b = w_opaque [1, 2, 3] [] @ [9], xr_off = 0, xr_err = False\<rparr> = ([1, 2, 3], r') \<and>
    at_input r' [9]"
  using xdr_opaque_roundtrip [of "[]" "[1, 2, 3]" 64 "[9]"] by simp


end
