(* ===== verification/Rpc.thy ===== *)
theory Rpc
  imports Xdr
begin

text \<open>
  ONC-RPC (src/nfs/rpc.go): record marking on TCP, the duplicate request cache on
  UDP, and dispatch. The server's table is a parameter here and is built in
  theory Nfs_Server; \<open>'s\<close> is the state of the exported filesystem, which handlers
  pass on. A caller's address is its string form; logging is left out.
\<close>

section \<open>Model: constants and tables\<close>

definition callMsg :: u32 where "callMsg = 0"
definition replyMsg :: u32 where "replyMsg = 1"
definition msgAccepted :: u32 where "msgAccepted = 0"
definition msgDenied :: u32 where "msgDenied = 1"
definition success :: u32 where "success = 0"
definition progUnavail :: u32 where "progUnavail = 1"
definition progMismatch :: u32 where "progMismatch = 2"
definition procUnavail :: u32 where "procUnavail = 3"
definition garbageArgs :: u32 where "garbageArgs = 4"
definition rpcMismatch :: u32 where "rpcMismatch = 0"
definition progPortmap :: u32 where "progPortmap = 100000"
definition progNFS :: u32 where "progNFS = 100003"
definition progMount :: u32 where "progMount = 100005"

text \<open>A handler decodes a call's arguments and returns the reply body and the new state.\<close>

type_synonym 's handlerFunc = "'s \<Rightarrow> (bytes \<times> 's) xdr"

record 's rpcTable =
  procs :: "u32 \<times> u32 \<times> u32 \<Rightarrow> 's handlerFunc option"
  versions :: "u32 \<Rightarrow> (u32 \<times> u32) option"

text \<open>The local function \<open>add\<close> of \<open>table\<close>.\<close>

definition add_program :: "u32 \<times> u32 \<times> (u32 \<Rightarrow> 's handlerFunc option) \<Rightarrow> 's rpcTable \<Rightarrow> 's rpcTable" where
  "add_program e t =
     (let (prog, vers, hs) = e;
          (lo, hi) = (case versions t prog of Some r \<Rightarrow> r | None \<Rightarrow> (vers, vers))
      in \<lparr>procs = (\<lambda>(p, v, c). if p = prog \<and> v = vers \<and> hs c \<noteq> None then hs c else procs t (p, v, c)),
          versions = (versions t)(prog := Some (min lo vers, max hi vers))\<rparr>)"

definition null_proc :: "'s handlerFunc" where
  "null_proc s = State_Monad.return ([], s)"

section \<open>Model: dispatch\<close>

definition replyAccepted :: "u32 \<Rightarrow> u32 \<Rightarrow> bytes \<Rightarrow> bytes" where
  "replyAccepted xid acceptStat body =
     w_new [w_uint32 xid, w_uint32 replyMsg, w_uint32 msgAccepted, w_uint32 0, w_uint32 0,
            w_uint32 acceptStat, w_fixed body]"

definition replyDenied :: "u32 \<Rightarrow> bytes" where
  "replyDenied xid =
     w_new [w_uint32 xid, w_uint32 replyMsg, w_uint32 msgDenied, w_uint32 rpcMismatch, w_uint32 2, w_uint32 2]"

definition skipOpaque :: "unit xdr" where
  "skipOpaque = do {
     n \<leftarrow> x_uint32;
     State (\<lambda>r.
       if n > of_nat (length (xr_b r)) then ((), r\<lparr>xr_err := True\<rparr>)
       else
         let off' = xr_off r + padded (unat n)
         in ((), r\<lparr>xr_off := off', xr_err := (xr_err r \<or> off' > length (xr_b r))\<rparr>))
   }"

text \<open>Program, version and procedure, then credential and verifier.\<close>

definition call_header :: "(u32 \<times> u32 \<times> u32) xdr" where
  "call_header = do {
     prog \<leftarrow> x_uint32;
     vers \<leftarrow> x_uint32;
     pr \<leftarrow> x_uint32;
     _ \<leftarrow> x_uint32;
     _ \<leftarrow> skipOpaque;
     _ \<leftarrow> x_uint32;
     _ \<leftarrow> skipOpaque;
     State_Monad.return (prog, vers, pr)
   }"

text \<open>\<open>None\<close> is dispatch's nil: no reply.\<close>

definition dispatch :: "'s rpcTable \<Rightarrow> 's \<Rightarrow> bytes \<Rightarrow> bytes option \<times> 's" where
  "dispatch t s pkt =
     (let (xid, r1) = run_state x_uint32 \<lparr>xr_b = pkt, xr_off = 0, xr_err = False\<rparr>;
          (mtype, r2) = run_state x_uint32 r1
      in if mtype \<noteq> callMsg \<or> xr_err r2 then (None, s)
         else
           let (rpcvers, r3) = run_state x_uint32 r2 in
           if rpcvers \<noteq> 2 then (Some (replyDenied xid), s)
           else
             let ((prog, vers, pr), r4) = run_state call_header r3 in
             if xr_err r4 then (Some (replyAccepted xid garbageArgs []), s)
             else
               case versions t prog of
                 None \<Rightarrow> (Some (replyAccepted xid progUnavail []), s)
               | Some (lo, hi) \<Rightarrow>
                   if procs t (prog, vers, 0) = None
                   then (Some (replyAccepted xid progMismatch (w_new [w_uint32 lo, w_uint32 hi])), s)
                   else
                     case procs t (prog, vers, pr) of
                       None \<Rightarrow> (Some (replyAccepted xid procUnavail []), s)
                     | Some h \<Rightarrow>
                         let ((body, s'), r5) = run_state (h s) r4 in
                         if xr_err r5 then (Some (replyAccepted xid garbageArgs []), s')
                         else (Some (replyAccepted xid success body), s'))"

section \<open>Model: the duplicate request cache\<close>

record drcEntry =
  d_addr :: bytes
  d_call :: bytes
  d_reply :: "bytes option"

record drc =
  d_ent :: "drcEntry list"
  d_next :: nat

definition drc_new :: drc where
  "drc_new = \<lparr>d_ent = replicate 64 \<lparr>d_addr = [], d_call = [], d_reply = None\<rparr>, d_next = 0\<rparr>"

definition nonIdempotent :: "bytes \<Rightarrow> bool" where
  "nonIdempotent pkt =
     (if length pkt < 24 \<or> word_at pkt 12 \<noteq> progNFS then False
      else
        let pr = word_at pkt 20 in
        if word_at pkt 16 = 2 then pr = 2 \<or> pr \<ge> 9 \<and> pr \<le> 15
        else if word_at pkt 16 = 3 then pr = 2 \<or> pr \<ge> 8 \<and> pr \<le> 15
        else False)"

definition drc_lookup :: "drc \<Rightarrow> bytes \<Rightarrow> bytes \<Rightarrow> bytes option option" where
  "drc_lookup d a call =
     (if \<not> nonIdempotent call then None
      else map_option d_reply (find (\<lambda>e. d_addr e = a \<and> d_call e = call) (d_ent d)))"

definition drc_store :: "bytes \<Rightarrow> bytes \<Rightarrow> bytes option \<Rightarrow> drc \<Rightarrow> drc" where
  "drc_store a call reply d =
     (if \<not> nonIdempotent call then d
      else \<lparr>d_ent = (d_ent d)[d_next d := \<lparr>d_addr = a, d_call = call, d_reply = reply\<rparr>],
            d_next = (d_next d + 1) mod length (d_ent d)\<rparr>)"

text \<open>The body of ServeUDP's loop for a datagram of an allowed client.\<close>

definition serve_datagram :: "'s rpcTable \<Rightarrow> bytes \<times> bytes \<Rightarrow> drc \<times> 's \<Rightarrow> bytes option \<times> drc \<times> 's" where
  "serve_datagram t pkt st =
     (let (addr, call) = pkt; (d, s) = st in
      case drc_lookup d addr call of
        Some reply \<Rightarrow> (reply, d, s)
      | None \<Rightarrow> let (reply, s') = dispatch t s call in (reply, drc_store addr call reply d, s'))"

section \<open>Model: record marking\<close>

definition maxRecord :: nat where "maxRecord = 2 ^ 20"

datatype record_error = RecordIO io_error | RecordTooLarge

function readRecord_from :: "bytes \<Rightarrow> src \<Rightarrow> (record_error, bytes \<times> src) outcome" where
  "readRecord_from acc s =
     (let (hdr, e, s1) = read_full 4 s in
      if e \<noteq> None
      then Err (RecordIO (if acc \<noteq> [] \<and> e = Some EOF then UnexpectedEOF else the e))
      else
        let h = word_at hdr 0; n = unat (h AND 0x7fffffff) in
        if length acc + n > maxRecord then Err RecordTooLarge
        else
          let (frag, e2, s2) = read_full n s1 in
          if e2 \<noteq> None then Err (RecordIO UnexpectedEOF)
          else if h AND 0x80000000 \<noteq> 0 then Ok (acc @ frag, s2)
          else readRecord_from (acc @ frag) s2)"
  by pat_completeness auto
termination
  by (relation "measure (\<lambda>(acc, s). length (pending s))")
     (auto simp: read_full_def Let_def split: if_splits)

declare readRecord_from.simps [simp del]

definition readRecord :: "src \<Rightarrow> (record_error, bytes \<times> src) outcome" where
  "readRecord s = readRecord_from [] s"

definition recordMark :: "bytes \<Rightarrow> bytes" where
  "recordMark msg = put32 (0x80000000 OR of_nat (length msg)) @ msg"

lemma readRecord_from_shorter:
  "readRecord_from acc s = Ok (call, s') \<Longrightarrow> length (pending s') < length (pending s)"
proof (induction acc s rule: readRecord_from.induct)
  case (1 acc s)
  obtain hdr e s1 where h: "read_full 4 s = (hdr, e, s1)" by (cases "read_full 4 s") auto
  let ?h = "word_at hdr 0"
  let ?n = "unat (?h AND 0x7fffffff)"
  obtain frag e2 s2 where f: "read_full ?n s1 = (frag, e2, s2)" by (cases "read_full ?n s1") auto
  from "1.prems" h f have ok: "e = None" "\<not> length acc + ?n > maxRecord" "e2 = None"
    by (auto simp: readRecord_from.simps [of acc s] Let_def split: if_splits)
  with h f have less: "length (pending s2) < length (pending s)"
    by (auto simp: read_full_def Let_def split: if_splits)
  show ?case
  proof (cases "?h AND 0x80000000 = 0")
    case True
    with "1.prems" h f ok have "readRecord_from (acc @ frag) s2 = Ok (call, s')"
      by (simp add: readRecord_from.simps [of acc s] Let_def)
    with "1.IH" [OF h [symmetric] refl refl _ refl refl _ f [symmetric] refl refl] ok True less show ?thesis
      by simp
  next
    case False
    with "1.prems" h f ok less show ?thesis by (simp add: readRecord_from.simps [of acc s] Let_def)
  qed
qed

text \<open>
  serveConn: calls are read and answered until the input or the connection
  fails. \<open>wok out\<close> says whether the next write succeeds after \<open>out\<close> was written.
\<close>

function serveConn :: "'s rpcTable \<Rightarrow> (bytes list \<Rightarrow> bool) \<Rightarrow> src \<Rightarrow> bytes list \<Rightarrow> 's \<Rightarrow>
    (unit, bytes list \<times> 's) outcome" where
  "serveConn t wok c out s =
     (case readRecord c of
        Err e \<Rightarrow> Ok (out, s)
      | Ok p \<Rightarrow>
          let (reply, s') = dispatch t s (fst p) in
          (case reply of
             None \<Rightarrow> serveConn t wok (snd p) out s'
           | Some msg \<Rightarrow>
               if wok out then serveConn t wok (snd p) (out @ [recordMark msg]) s' else Ok (out, s'))
      | Panic \<Rightarrow> Panic
      | Diverge \<Rightarrow> Diverge)"
  by pat_completeness auto
termination
  by (relation "measure (\<lambda>(t, wok, c, out, s). length (pending c))")
     (auto simp: readRecord_def dest: readRecord_from_shorter)

declare serveConn.simps [simp del]

section \<open>Record marking\<close>

text \<open>A message as the fragments a client may send it in.\<close>

definition frag_header :: "bool \<Rightarrow> nat \<Rightarrow> u32" where
  "frag_header final n = (if final then 0x80000000 else 0) OR of_nat n"

definition fragment :: "bool \<Rightarrow> bytes \<Rightarrow> bytes" where
  "fragment final p = put32 (frag_header final (length p)) @ p"

fun fragments :: "bytes list \<Rightarrow> bytes" where
  "fragments [] = []"
| "fragments [p] = fragment True p"
| "fragments (p # q # ps) = fragment False p @ fragments (q # ps)"

lemma recordMark_fragment: "recordMark msg = fragments [msg]"
  by (simp add: recordMark_def fragment_def frag_header_def)

lemma frag_header_bits:
  assumes "n < 2 ^ 31"
  shows "unat (frag_header final n AND 0x7fffffff) = n" and "frag_header final n AND 0x80000000 \<noteq> 0 \<longleftrightarrow> final"
proof -
  let ?n = "of_nat n :: u32"
  have low: "\<not> bit ?n k" if "31 \<le> k" for k
  proof -
    have "n div 2 ^ k = 0" using assms that power_increasing [of 31 k "2 :: nat"] by (simp add: div_eq_0_iff)
    then have "\<not> bit n k" by (simp add: bit_iff_odd)
    then show ?thesis by (simp add: bit_simps)
  qed
  have m: "(0x7fffffff :: u32) = mask 31" by (simp add: mask_eq_exp_minus_1)
  have "bit (2 ^ 31 :: u32) k \<longleftrightarrow> k = 31" for k by (subst bit_exp_iff) auto
  moreover have "(2 ^ 31 :: u32) = 0x80000000" by simp
  ultimately have top: "bit (0x80000000 :: u32) k \<longleftrightarrow> k = 31" for k by simp
  have bits: "bit (frag_header final n) k \<longleftrightarrow> final \<and> k = 31 \<or> bit ?n k" for k
    by (cases final) (simp_all only: frag_header_def bit_or_iff if_True if_False top simp_thms bit_0_eq bot_apply bot_bool_def)
  have "frag_header final n AND 0x7fffffff = ?n"
    unfolding m using low not_le by (intro bit_word_eqI) (auto simp: bit_and_iff bit_mask_iff bits)
  then show "unat (frag_header final n AND 0x7fffffff) = n" using assms by (simp add: unat_of_nat)
  have "frag_header final n AND 0x80000000 = (if final then 0x80000000 else 0)"
    using low by (intro bit_word_eqI) (auto simp only: bit_and_iff bits top if_True if_False bit_0_eq bot_apply bot_bool_def split: if_splits)
  then show "frag_header final n AND 0x80000000 \<noteq> 0 \<longleftrightarrow> final" by simp
qed

lemma read_full_prefix:
  "pending s = p @ rest \<Longrightarrow> read_full (length p) s = (p, None, s\<lparr>pending := rest\<rparr>)"
  by (simp add: read_full_def Let_def)

lemma readRecord_fragment:
  assumes "pending s = fragment final p @ rest" and "length acc + length p \<le> maxRecord"
  shows "readRecord_from acc s =
    (if final then Ok (acc @ p, s\<lparr>pending := rest\<rparr>) else readRecord_from (acc @ p) (s\<lparr>pending := rest\<rparr>))"
proof -
  let ?h = "frag_header final (length p)"
  have n: "length p < 2 ^ 31" using assms(2) by (simp add: maxRecord_def)
  have "read_full 4 s = (put32 ?h, None, s\<lparr>pending := p @ rest\<rparr>)"
    using read_full_prefix [of s "put32 ?h" "p @ rest"] assms(1) by (simp add: fragment_def)
  moreover have "word_at (put32 ?h) 0 = ?h" using word_at_put32 [of "[]" ?h "[]"] by simp
  moreover have "read_full (length p) (s\<lparr>pending := p @ rest\<rparr>) = (p, None, s\<lparr>pending := rest\<rparr>)"
    using read_full_prefix [of "s\<lparr>pending := p @ rest\<rparr>" p rest] by simp
  ultimately show ?thesis
    using frag_header_bits [OF n, of final] assms(2) by (subst readRecord_from.simps) (simp add: Let_def)
qed

lemma readRecord_fragments:
  assumes "ps \<noteq> []" and "length acc + length (concat ps) \<le> maxRecord" and "pending s = fragments ps @ rest"
  shows "readRecord_from acc s = Ok (acc @ concat ps, s\<lparr>pending := rest\<rparr>)"
  using assms
proof (induction ps arbitrary: acc s rule: fragments.induct)
  case (2 p)
  then show ?case using readRecord_fragment [of s True p rest acc] by simp
next
  case (3 p q ps)
  then have "readRecord_from acc s = readRecord_from (acc @ p) (s\<lparr>pending := fragments (q # ps) @ rest\<rparr>)"
    using readRecord_fragment [of s False p "fragments (q # ps) @ rest" acc] by simp
  with 3 show ?case by simp
qed simp

lemma readRecord_from_bounded:
  "length acc \<le> maxRecord \<Longrightarrow> returns (readRecord_from acc s) \<and>
     (\<forall>call s'. readRecord_from acc s = Ok (call, s') \<longrightarrow> length call \<le> maxRecord)"
proof (induction acc s rule: readRecord_from.induct)
  case (1 acc s)
  obtain hdr e s1 where h: "read_full 4 s = (hdr, e, s1)" by (cases "read_full 4 s") auto
  let ?h = "word_at hdr 0"
  let ?n = "unat (?h AND 0x7fffffff)"
  obtain frag e2 s2 where f: "read_full ?n s1 = (frag, e2, s2)" by (cases "read_full ?n s1") auto
  then have len: "length frag \<le> ?n" by (auto simp: read_full_def Let_def)
  show ?case
  proof (cases "e = None \<and> length acc + ?n \<le> maxRecord \<and> e2 = None \<and> ?h AND 0x80000000 = 0")
    case True
    then have "readRecord_from acc s = readRecord_from (acc @ frag) s2"
      using h f by (simp add: readRecord_from.simps [of acc s] Let_def)
    moreover have "length (acc @ frag) \<le> maxRecord" using True len by simp
    ultimately show ?thesis
      using "1.IH" [OF h [symmetric] refl refl _ refl refl _ f [symmetric] refl refl] True by simp
  next
    case False
    with h f len show ?thesis by (subst (1 2) readRecord_from.simps) (auto simp: Let_def)
  qed
qed

text \<open>Calls answered one after the other, with the replies there are.\<close>

fun run_calls :: "'s rpcTable \<Rightarrow> 's \<Rightarrow> bytes list \<Rightarrow> bytes list \<times> 's" where
  "run_calls t s [] = ([], s)"
| "run_calls t s (c # cs) =
     (let (r, s1) = dispatch t s c; (rs, s2) = run_calls t s1 cs
      in ((case r of None \<Rightarrow> rs | Some m \<Rightarrow> m # rs), s2))"

lemma serveConn_step:
  assumes "length c \<le> maxRecord" and "pending src = recordMark c @ rest"
  shows "serveConn t (\<lambda>_. True) src out s =
    (let (r, s1) = dispatch t s c
     in serveConn t (\<lambda>_. True) (src\<lparr>pending := rest\<rparr>) (case r of None \<Rightarrow> out | Some m \<Rightarrow> out @ [recordMark m]) s1)"
proof -
  have "readRecord src = Ok (c, src\<lparr>pending := rest\<rparr>)"
    using readRecord_fragments [of "[c]" "[]" src rest] assms by (simp add: readRecord_def recordMark_fragment)
  then show ?thesis by (subst serveConn.simps) (simp add: Let_def split: prod.split option.split)
qed

lemma serveConn_calls:
  assumes "\<forall>c \<in> set cs. length c \<le> maxRecord" and "pending src = concat (map recordMark cs)" and "failure src = None"
  shows "serveConn t (\<lambda>_. True) src out s =
    (let (rs, s') = run_calls t s cs in Ok (out @ map recordMark rs, s'))"
  using assms
proof (induction cs arbitrary: src out s)
  case Nil
  then have "readRecord src = Err (RecordIO EOF)"
    by (simp add: readRecord_def readRecord_from.simps read_full_def end_error_def)
  then show ?case by (subst serveConn.simps) simp
next
  case (Cons c cs)
  then have "pending src = recordMark c @ concat (map recordMark cs)" by simp
  from serveConn_step [OF _ this, of t out s] Cons.prems
    Cons.IH [of "src\<lparr>pending := concat (map recordMark cs)\<rparr>"]
  show ?case by (auto simp: Let_def split: prod.split option.split)
qed

section \<open>The duplicate request cache\<close>

text \<open>64 slots, and no two of them answer the same call of the same caller.\<close>

definition drc_ok :: "drc \<Rightarrow> bool" where
  "drc_ok d \<longleftrightarrow> length (d_ent d) = 64 \<and> d_next d < 64 \<and>
     (\<forall>i < 64. \<forall>j < 64. i \<noteq> j \<and> d_addr (d_ent d ! i) = d_addr (d_ent d ! j) \<and>
        d_call (d_ent d ! i) = d_call (d_ent d ! j) \<longrightarrow> d_call (d_ent d ! i) = [])"

lemma drc_new_ok: "drc_ok drc_new"
  by (simp add: drc_ok_def drc_new_def)

lemma nonIdempotent_not_Nil: "nonIdempotent call \<Longrightarrow> call \<noteq> []"
  by (auto simp: nonIdempotent_def)

lemma drc_lookup_slot:
  assumes "drc_ok d" and "nonIdempotent call" and "p < 64" and "d_addr (d_ent d ! p) = a" and "d_call (d_ent d ! p) = call"
  shows "drc_lookup d a call = Some (d_reply (d_ent d ! p))"
proof -
  have "find (\<lambda>e. d_addr e = a \<and> d_call e = call) (d_ent d) = Some (d_ent d ! p)"
    unfolding find_Some_iff
  proof (intro exI [of _ p] conjI allI impI)
    fix j assume "j < p"
    then have "j < 64" "j \<noteq> p" using assms(3) by simp_all
    then show "\<not> (d_addr (d_ent d ! j) = a \<and> d_call (d_ent d ! j) = call)"
      using assms nonIdempotent_not_Nil by (metis drc_ok_def)
  qed (use assms in \<open>auto simp: drc_ok_def\<close>)
  with assms(2) show ?thesis by (simp add: drc_lookup_def)
qed

lemma drc_store_ok:
  assumes "drc_ok d" and "drc_lookup d a call = None"
  shows "drc_ok (drc_store a call reply d)"
proof (cases "nonIdempotent call")
  case True
  let ?e = "\<lparr>d_addr = a, d_call = call, d_reply = reply\<rparr>" and ?n = "d_next d"
  have len: "length (d_ent d) = 64" and n: "?n < 64" using assms(1) by (simp_all add: drc_ok_def)
  have other: "\<not> (d_addr (d_ent d ! j) = a \<and> d_call (d_ent d ! j) = call)" if "j < 64" for j
    using assms(2) True that len by (auto simp: drc_lookup_def find_None_iff in_set_conv_nth)
  have "d_call ((d_ent d)[?n := ?e] ! i) = []"
    if "i < 64" "j < 64" "i \<noteq> j" "d_addr ((d_ent d)[?n := ?e] ! i) = d_addr ((d_ent d)[?n := ?e] ! j)"
      "d_call ((d_ent d)[?n := ?e] ! i) = d_call ((d_ent d)[?n := ?e] ! j)" for i j
  proof (cases "i = ?n \<or> j = ?n")
    case True
    with that other [of i] other [of j] len n show ?thesis by (auto simp: nth_list_update)
  next
    case False
    with that have "d_addr (d_ent d ! i) = d_addr (d_ent d ! j)" "d_call (d_ent d ! i) = d_call (d_ent d ! j)"
      by auto
    with assms(1) that(1-3) False show ?thesis by (auto simp: drc_ok_def)
  qed
  with len n True show ?thesis by (auto simp: drc_ok_def drc_store_def)
qed (use assms in \<open>simp add: drc_store_def\<close>)

text \<open>The entry of slot \<open>p\<close> outlives \<open>n\<close> more stores.\<close>

definition keeps :: "drc \<Rightarrow> nat \<Rightarrow> drcEntry \<Rightarrow> nat \<Rightarrow> bool" where
  "keeps d p e n \<longleftrightarrow> drc_ok d \<and> p < 64 \<and> d_ent d ! p = e \<and> (\<forall>m < n. (d_next d + m) mod 64 \<noteq> p)"

lemma keeps_fresh:
  assumes "drc_ok d" and "nonIdempotent call" and "drc_lookup d a call = None"
  shows "keeps (drc_store a call reply d) (d_next d) \<lparr>d_addr = a, d_call = call, d_reply = reply\<rparr> 63"
proof -
  have n: "d_next d < 64" "length (d_ent d) = 64" using assms(1) by (simp_all add: drc_ok_def)
  have "((d_next d + 1) mod 64 + m) mod 64 \<noteq> d_next d" if "m < 63" for m
  proof (cases "d_next d + 1 + m < 64")
    case True
    then show ?thesis by simp
  next
    case False
    then have "(d_next d + 1 + m) mod 64 = d_next d + 1 + m - 64" using n(1) that by (simp add: mod_if)
    with False that n(1) show ?thesis by (simp add: mod_add_left_eq)
  qed
  with n drc_store_ok [OF assms(1,3)] assms(2) show ?thesis by (simp add: keeps_def drc_store_def)
qed

lemma keeps_store:
  assumes "keeps d p e (Suc n)" and "drc_lookup d a call = None"
  shows "keeps (drc_store a call reply d) p e n"
proof -
  have d: "drc_ok d" "p < 64" "d_ent d ! p = e" "\<And>m. m < Suc n \<Longrightarrow> (d_next d + m) mod 64 \<noteq> p"
    using assms(1) by (auto simp: keeps_def)
  have len: "d_next d < 64" "length (d_ent d) = 64" using d(1) by (simp_all add: drc_ok_def)
  have "d_next d \<noteq> p" using d(4) [of 0] len by simp
  moreover have "((d_next d + 1) mod 64 + m) mod 64 \<noteq> p" if "m < n" for m
    using d(4) [of "Suc m"] that by (simp add: mod_add_left_eq)
  ultimately show ?thesis
    using d drc_store_ok [OF d(1) assms(2)] len by (auto simp: keeps_def drc_store_def)
qed

lemma keeps_mono: "keeps d p e n \<Longrightarrow> m \<le> n \<Longrightarrow> keeps d p e m"
  by (auto simp: keeps_def)

definition serve_state :: "'s rpcTable \<Rightarrow> bytes \<times> bytes \<Rightarrow> drc \<times> 's \<Rightarrow> drc \<times> 's" where
  "serve_state t pkt st = snd (serve_datagram t pkt st)"

lemma keeps_serve:
  assumes "keeps d p e n" and "nonIdempotent (snd pkt) \<longrightarrow> n = Suc m" and "\<not> nonIdempotent (snd pkt) \<longrightarrow> n = m"
  shows "keeps (fst (serve_state t pkt (d, s))) p e m"
proof -
  obtain a call where pkt: "pkt = (a, call)" by (cases pkt)
  show ?thesis
  proof (cases "drc_lookup d a call")
    case (Some r)
    with assms pkt keeps_mono [OF assms(1), of m] show ?thesis
      by (cases "nonIdempotent call") (auto simp: serve_state_def serve_datagram_def)
  next
    case None
    obtain r s' where "dispatch t s call = (r, s')" by (cases "dispatch t s call")
    then have "fst (serve_state t pkt (d, s)) = drc_store a call r d"
      using None pkt by (simp add: serve_state_def serve_datagram_def)
    with assms None pkt keeps_store [of d p e m a call r] show ?thesis
      by (cases "nonIdempotent call") (auto simp: drc_store_def)
  qed
qed

lemma keeps_serve_all:
  assumes "keeps d p e (n + length (filter (\<lambda>q. nonIdempotent (snd q)) ps))"
  shows "keeps (fst (fold (serve_state t) ps (d, s))) p e n"
  using assms
proof (induction ps arbitrary: d s)
  case (Cons q ps)
  have "keeps (fst (serve_state t q (d, s))) p e (n + length (filter (\<lambda>q. nonIdempotent (snd q)) ps))"
    by (rule keeps_serve [OF Cons.prems]) auto
  with Cons.IH [of "fst (serve_state t q (d, s))" "snd (serve_state t q (d, s))"] show ?case by simp
qed simp

section \<open>Replies\<close>

lemma replyAccepted_eq:
  "replyAccepted xid st body =
     put32 xid @ put32 replyMsg @ put32 msgAccepted @ put32 0 @ put32 0 @ put32 st @ body"
  by (simp add: replyAccepted_def w_new_def w_seq_def w_uint32_def w_fixed_def)

lemma replyDenied_eq:
  "replyDenied xid =
     put32 xid @ put32 replyMsg @ put32 msgDenied @ put32 rpcMismatch @ put32 2 @ put32 2"
  by (simp add: replyDenied_def w_new_def w_seq_def w_uint32_def)

lemma put32_word_at: "4 \<le> length b \<Longrightarrow> put32 (word_at b 0) = take 4 b"
  by (cases b; cases "tl b"; cases "tl (tl b)"; cases "tl (tl (tl b))")
     (auto simp: word_at_def put32_be32)

lemma call_prefix:
  assumes "8 \<le> length pkt"
  shows "run_state x_uint32 \<lparr>xr_b = pkt, xr_off = 0, xr_err = False\<rparr> =
      (word_at pkt 0, \<lparr>xr_b = pkt, xr_off = 4, xr_err = False\<rparr>)"
    and "run_state x_uint32 \<lparr>xr_b = pkt, xr_off = 4, xr_err = False\<rparr> =
      (word_at pkt 4, \<lparr>xr_b = pkt, xr_off = 8, xr_err = False\<rparr>)"
  using assms by (simp_all add: x_uint32_def)

lemma dispatch_short: "length pkt < 8 \<Longrightarrow> dispatch t s pkt = (None, s)"
  by (simp add: dispatch_def x_uint32_def)

text \<open>Every reply is an accepted or a denied one for the call's xid.\<close>

lemma dispatch_reply:
  assumes "8 \<le> length pkt"
  shows "if word_at pkt 4 \<noteq> callMsg then dispatch t s pkt = (None, s)
    else \<exists>s'. dispatch t s pkt = (Some (replyDenied (word_at pkt 0)), s') \<or>
      (\<exists>st body. dispatch t s pkt = (Some (replyAccepted (word_at pkt 0) st body), s'))"
  using call_prefix [OF assms]
  by (auto simp: dispatch_def Let_def split: prod.splits option.splits)

section \<open>Properties\<close>

text \<open>
  C32: Record marking survives any fragmentation. However a client splits a call
  of at most 1 MiB into fragments, readRecord returns the call and leaves the
  stream right behind it.
\<close>

theorem readRecord_reassembles:
  assumes "ps \<noteq> []" and "length (concat ps) \<le> maxRecord"
  shows "readRecord \<lparr>pending = fragments ps @ rest, failure = f\<rparr> = Ok (concat ps, \<lparr>pending = rest, failure = f\<rparr>)"
  using readRecord_fragments [of ps "[]" "\<lparr>pending = fragments ps @ rest, failure = f\<rparr>" rest] assms
  by (simp add: readRecord_def)

theorem readRecord_reassembles_witness:
  "readRecord \<lparr>pending = fragments [[1, 2], [], [3]] @ [9], failure = None\<rparr> = Ok ([1, 2, 3], \<lparr>pending = [9], failure = None\<rparr>)"
  using readRecord_reassembles [of "[[1, 2], [], [3]]" "[9]" None] by (simp add: maxRecord_def)

text \<open>
  A hostile stream costs at most 1 MiB per call. On every stream readRecord
  returns, and no record it returns is longer than maxRecord.
\<close>

theorem readRecord_bounded:
  "returns (readRecord s) \<and> (\<forall>call s'. readRecord s = Ok (call, s') \<longrightarrow> length call \<le> maxRecord)"
  using readRecord_from_bounded [of "[]" s] by (simp add: readRecord_def)

theorem readRecord_bounded_witness:
  "readRecord \<lparr>pending = recordMark [7], failure = None\<rparr> = Ok ([7], \<lparr>pending = [], failure = None\<rparr>) \<and>
   length [7 :: byte] \<le> maxRecord"
proof -
  have "readRecord \<lparr>pending = recordMark [7], failure = None\<rparr> = Ok ([7], \<lparr>pending = [], failure = None\<rparr>)"
    using readRecord_fragments [of "[[7]]" "[]" "\<lparr>pending = recordMark [7], failure = None\<rparr>" "[]"]
    by (simp add: readRecord_def recordMark_fragment maxRecord_def)
  with readRecord_bounded show ?thesis by blast
qed

text \<open>
  Pipelined calls are answered in order. On a connection that carries a
  sequence of framed calls and then ends, serveConn writes the framed replies of
  dispatching them one after the other, each on the state the one before left.
\<close>

theorem serveConn_pipelines:
  assumes "\<forall>c \<in> set cs. length c \<le> maxRecord" and "run_calls t s cs = (rs, s')"
  shows "serveConn t (\<lambda>_. True) \<lparr>pending = concat (map recordMark cs), failure = None\<rparr> [] s =
    Ok (map recordMark rs, s')"
  using serveConn_calls [OF assms(1), of "\<lparr>pending = concat (map recordMark cs), failure = None\<rparr>" t "[]" s] assms(2)
  by simp

theorem serveConn_pipelines_witness:
  "serveConn \<lparr>procs = (\<lambda>_. None), versions = (\<lambda>_. None)\<rparr> (\<lambda>_. True)
     \<lparr>pending = concat (map recordMark [put32 7 @ put32 0 @ put32 3, [1]]), failure = None\<rparr> [] () =
   Ok ([recordMark (replyDenied 7)], ())"
proof -
  let ?t = "\<lparr>procs = (\<lambda>_. None), versions = (\<lambda>_. None)\<rparr> :: unit rpcTable"
  let ?c = "put32 7 @ put32 0 @ put32 3"
  have w: "word_at ?c 0 = 7" "word_at ?c 4 = 0" "word_at ?c 8 = 3"
    using word_at_put32 [of "[]" 7 "put32 0 @ put32 3"] word_at_put32 [of "put32 7" 0 "put32 3"]
      word_at_put32 [of "put32 7 @ put32 0" 3 "[]"] by simp_all
  then have "dispatch ?t () ?c = (Some (replyDenied 7), ())"
    by (simp add: dispatch_def x_uint32_def callMsg_def)
  then have "run_calls ?t () [?c, [1]] = ([replyDenied 7], ())" by (simp add: dispatch_short)
  from serveConn_pipelines [OF _ this] show ?thesis by (simp add: maxRecord_def)
qed

text \<open>
  C10: A retransmitted change is not made twice. A SETATTR, CREATE, REMOVE, RENAME
  or other non-idempotent call that was executed is answered, when the same
  caller sends it again, with the reply it got and without touching the
  filesystem, as long as fewer than 64 non-idempotent datagrams came between.
\<close>

theorem drc_at_most_once:
  assumes "drc_ok d" and "nonIdempotent call" and "drc_lookup d a call = None"
    and "serve_datagram t (a, call) (d, s) = (reply, st)"
    and "length (filter (\<lambda>q. nonIdempotent (snd q)) ps) < 64"
    and "fold (serve_state t) ps st = (d', s')"
  shows "serve_datagram t (a, call) (d', s') = (reply, d', s')"
proof -
  let ?n = "length (filter (\<lambda>q. nonIdempotent (snd q)) ps)"
  let ?e = "\<lparr>d_addr = a, d_call = call, d_reply = reply\<rparr>"
  from assms(3,4) obtain s1 where st: "st = (drc_store a call reply d, s1)"
    by (auto simp: serve_datagram_def split: prod.splits)
  have "keeps (drc_store a call reply d) (d_next d) ?e (63 - ?n + ?n)"
    using keeps_fresh [OF assms(1-3), of reply] assms(5) by simp
  from keeps_serve_all [OF this, of t s1] assms(6) st have "keeps d' (d_next d) ?e (63 - ?n)" by simp
  then have "drc_lookup d' a call = Some reply"
    using drc_lookup_slot [of d' call "d_next d" a] assms(2) by (auto simp: keeps_def)
  then show ?thesis by (simp add: serve_datagram_def)
qed

text \<open>A REMOVE, its retransmission, and a call of another client in between.\<close>

theorem drc_at_most_once_witness:
  "\<exists>t :: nat rpcTable. \<exists>call reply d' s'.
     serve_datagram t ([1], call) (drc_new, 0) = (reply, drc_store [1] call reply drc_new, 0) \<and>
     serve_datagram t ([1], call) (d', s') = (reply, d', s')"
proof -
  let ?t = "\<lparr>procs = (\<lambda>_. None), versions = (\<lambda>_. None)\<rparr> :: nat rpcTable"
  let ?call = "put32 7 @ put32 1 @ put32 2 @ put32 progNFS @ put32 2 @ put32 10"
  have w: "word_at ?call 4 = 1" "word_at ?call 12 = progNFS" "word_at ?call 16 = 2" "word_at ?call 20 = 10"
    using word_at_put32 [of "put32 7" 1 "put32 2 @ put32 progNFS @ put32 2 @ put32 10"]
      word_at_put32 [of "put32 7 @ put32 1 @ put32 2" progNFS "put32 2 @ put32 10"]
      word_at_put32 [of "put32 7 @ put32 1 @ put32 2 @ put32 progNFS" 2 "put32 10"]
      word_at_put32 [of "put32 7 @ put32 1 @ put32 2 @ put32 progNFS @ put32 2" 10 "[]"] by simp_all
  then have ni: "nonIdempotent ?call" by (simp add: nonIdempotent_def)
  have new: "drc_lookup drc_new [1] ?call = None"
    by (simp add: drc_lookup_def drc_new_def find_None_iff)
  have "dispatch ?t 0 ?call = (None, 0)"
    using dispatch_reply [of ?call ?t 0] w(1) by (simp add: callMsg_def)
  then have first: "serve_datagram ?t ([1], ?call) (drc_new, 0) = (None, drc_store [1] ?call None drc_new, 0)"
    using new by (simp add: serve_datagram_def)
  obtain d' s' where "fold (serve_state ?t) [([2], ?call)] (drc_store [1] ?call None drc_new, 0) = (d', s')"
    by (cases "fold (serve_state ?t) [([2], ?call)] (drc_store [1] ?call None drc_new, 0)")
  moreover have "length (filter (\<lambda>q. nonIdempotent (snd q)) [([2 :: byte], ?call)]) < 64" by simp
  ultimately show ?thesis using drc_at_most_once [OF drc_new_ok ni new first] first by blast
qed

text \<open>
  Every call is answered under its own transaction id. A message of fewer
  than 8 bytes, or not of type CALL, gets no reply and changes nothing; every
  other message gets a reply that begins with the message's own xid and is
  marked as a reply.
\<close>

theorem dispatch_answers:
  "if length pkt < 8 \<or> word_at pkt 4 \<noteq> callMsg then dispatch t s pkt = (None, s)
   else \<exists>reply s'. dispatch t s pkt = (Some reply, s') \<and> take 4 reply = take 4 pkt \<and> word_at reply 4 = replyMsg \<and>
     24 \<le> length reply"
proof (cases "length pkt < 8")
  case False
  have "take 4 (put32 (word_at pkt 0) @ put32 replyMsg @ rest) = take 4 pkt"
    "word_at (put32 (word_at pkt 0) @ put32 replyMsg @ rest) 4 = replyMsg" for rest
    using put32_word_at [of pkt] False word_at_put32 [of "put32 (word_at pkt 0)" replyMsg rest] by simp_all
  then have "take 4 r = take 4 pkt \<and> word_at r 4 = replyMsg \<and> 24 \<le> length r"
    if "r = replyDenied (word_at pkt 0) \<or> (\<exists>st body. r = replyAccepted (word_at pkt 0) st body)" for r
    using that False by (auto simp only: replyAccepted_eq replyDenied_eq append.assoc) simp_all
  with dispatch_reply [of pkt t s] False show ?thesis by (auto split: if_splits)
qed (simp add: dispatch_short)

theorem dispatch_answers_witness:
  "\<exists>reply s'. dispatch \<lparr>procs = (\<lambda>_. None), versions = (\<lambda>_. None)\<rparr> () (put32 7 @ put32 0) = (Some reply, s') \<and>
     take 4 reply = put32 7"
proof -
  let ?pkt = "put32 7 @ put32 0"
  have "word_at ?pkt 4 = callMsg" using word_at_put32 [of "put32 7" 0 "[]"] by (simp add: callMsg_def)
  then show ?thesis
    using dispatch_answers [of ?pkt "\<lparr>procs = (\<lambda>_. None), versions = (\<lambda>_. None)\<rparr>" "()"] by auto
qed

end
