(* ===== verification/Nfs_Base.thy ===== *)
theory Nfs_Base
  imports Rpc
begin

text \<open>
  What the NFS programs share (src/nfs/nfs.go and the first part of
  src/nfs/nfs2.go): errors and their status codes, nodes and attributes, the
  interfaces FS, HandleFS, WriteFS, SpaceFS and Exporter as records of
  functions over the filesystem's state \<open>'s\<close>, the server, filehandles. A Node is
  what its methods return together with the FS's own data \<open>'k\<close>. The clock that
  time.Now reads is a field of the server.
\<close>

section \<open>Model: errors and status codes\<close>

datatype nfs_err =
    ErrNotFound | ErrNotDir | ErrStale | ErrIO | ErrBadHandle | ErrExist | ErrIsDir | ErrNotEmpty
  | ErrInval | ErrAccess | ErrPerm | ErrNoSpace | ErrQuota | ErrNameTooLong | ErrFBig | ErrXDev
  | ErrROFS | ErrNotSupp | ErrOther nat

definition nfsOK :: u32 where "nfsOK = 0"
definition nfsErrPerm :: u32 where "nfsErrPerm = 1"
definition nfsErrNoent :: u32 where "nfsErrNoent = 2"
definition nfsErrIO :: u32 where "nfsErrIO = 5"
definition nfsErrNotdir :: u32 where "nfsErrNotdir = 20"
definition nfsErrROFS :: u32 where "nfsErrROFS = 30"
definition nfsErrStale :: u32 where "nfsErrStale = 70"

definition statuses :: "(nfs_err \<times> u32) list" where
  "statuses =
     [(ErrPerm, nfsErrPerm), (ErrNotFound, nfsErrNoent), (ErrIO, nfsErrIO), (ErrAccess, 13), (ErrExist, 17),
      (ErrXDev, 18), (ErrNotDir, nfsErrNotdir), (ErrIsDir, 21), (ErrInval, 22), (ErrFBig, 27), (ErrNoSpace, 28),
      (ErrROFS, nfsErrROFS), (ErrNameTooLong, 63), (ErrNotEmpty, 66), (ErrQuota, 69), (ErrStale, nfsErrStale),
      (ErrBadHandle, 10001), (ErrNotSupp, 10004)]"

definition statusFor :: "nfs_err option \<Rightarrow> u32" where
  "statusFor err =
     (case err of
        None \<Rightarrow> nfsOK
      | Some e \<Rightarrow> (case map_of statuses e of Some c \<Rightarrow> c | None \<Rightarrow> nfsErrIO))"

definition status2For :: "nfs_err option \<Rightarrow> u32" where
  "status2For err =
     (if err = Some ErrBadHandle then nfsErrStale
      else if err = Some ErrNotSupp then nfsErrIO
      else statusFor err)"

section \<open>Model: nodes and attributes\<close>

record gotime =
  t_Unix :: int
  t_Nanosecond :: nat

record Attr =
  a_Mode :: u32
  a_Nlink :: u32
  a_Size :: u64
  a_Used :: u64
  a_Fileid :: u64
  a_Atime :: gotime
  a_Mtime :: gotime
  a_Ctime :: gotime

text \<open>\<open>n_Attr\<close> is the Attr method of an AttrNode.\<close>

record 'k Node =
  n_ID :: u64
  n_Mode :: u32
  n_Size :: int
  n_Mtime :: u32
  n_Attr :: "Attr option"
  n_data :: 'k

definition attrOf :: "'k Node \<Rightarrow> Attr" where
  "attrOf n =
     (case n_Attr n of
        Some a \<Rightarrow> a
      | None \<Rightarrow>
          let size = of_int (max (n_Size n) 0); mt = \<lparr>t_Unix = uint (n_Mtime n), t_Nanosecond = 0\<rparr>
          in \<lparr>a_Mode = n_Mode n, a_Nlink = 1, a_Size = size, a_Used = (size + 511) AND NOT 511, a_Fileid = n_ID n,
              a_Atime = mt, a_Mtime = mt, a_Ctime = mt\<rparr>)"

record 'k DirEntry =
  e_Name :: bytes
  e_Node :: "'k Node"
  e_Cookie :: u32

record SetAttr =
  sa_Mode :: "u32 option"
  sa_Size :: "u64 option"
  sa_Atime :: "gotime option"
  sa_Mtime :: "gotime option"

datatype CreateHow = Unchecked | Guarded | Exclusive

record Space =
  sp_Total :: u64
  sp_Free :: u64
  sp_Avail :: u64
  sp_Files :: u64
  sp_FreeFiles :: u64
  sp_AvailFiles :: u64

section \<open>Model: the interfaces of a filesystem\<close>

record ('k, 's) WriteFS =
  wfs_SetAttr :: "'k Node \<Rightarrow> SetAttr \<Rightarrow> 's \<Rightarrow> nfs_err option \<times> 's"
  wfs_WriteAt :: "'k Node \<Rightarrow> bytes \<Rightarrow> int \<Rightarrow> 's \<Rightarrow> nfs_err option \<times> 's"
  wfs_Create :: "'k Node \<Rightarrow> bytes \<Rightarrow> CreateHow \<Rightarrow> SetAttr \<Rightarrow> bytes \<Rightarrow> 's \<Rightarrow> (nfs_err + 'k Node) \<times> 's"
  wfs_Mkdir :: "'k Node \<Rightarrow> bytes \<Rightarrow> SetAttr \<Rightarrow> 's \<Rightarrow> (nfs_err + 'k Node) \<times> 's"
  wfs_Symlink :: "'k Node \<Rightarrow> bytes \<Rightarrow> bytes \<Rightarrow> SetAttr \<Rightarrow> 's \<Rightarrow> (nfs_err + 'k Node) \<times> 's"
  wfs_Remove :: "'k Node \<Rightarrow> bytes \<Rightarrow> 's \<Rightarrow> nfs_err option \<times> 's"
  wfs_Rmdir :: "'k Node \<Rightarrow> bytes \<Rightarrow> 's \<Rightarrow> nfs_err option \<times> 's"
  wfs_Rename :: "'k Node \<Rightarrow> bytes \<Rightarrow> 'k Node \<Rightarrow> bytes \<Rightarrow> 's \<Rightarrow> nfs_err option \<times> 's"

record ('k, 's) HandleFS =
  hfs_Handle :: "'k Node \<Rightarrow> bytes"
  hfs_NodeByHandle :: "bytes \<Rightarrow> 's \<Rightarrow> nfs_err + 'k Node"

text \<open>\<open>fs_ReadAt n count off\<close> gives the bytes read and the error.\<close>

record ('k, 's) FS =
  fs_MountRoot :: "bytes \<Rightarrow> 's \<Rightarrow> nfs_err + 'k Node"
  fs_NodeByID :: "u64 \<Rightarrow> 's \<Rightarrow> nfs_err + 'k Node"
  fs_Lookup :: "'k Node \<Rightarrow> bytes \<Rightarrow> 's \<Rightarrow> nfs_err + 'k Node"
  fs_ReadDir :: "'k Node \<Rightarrow> 's \<Rightarrow> nfs_err + 'k DirEntry list"
  fs_ReadAt :: "'k Node \<Rightarrow> nat \<Rightarrow> int \<Rightarrow> 's \<Rightarrow> bytes \<times> nfs_err option"
  fs_Readlink :: "'k Node \<Rightarrow> 's \<Rightarrow> nfs_err + bytes"
  fs_HandleFS :: "('k, 's) HandleFS option"
  fs_WriteFS :: "('k, 's) WriteFS option"
  fs_Space :: "('s \<Rightarrow> nfs_err + Space) option"
  fs_Exports :: "('s \<Rightarrow> bytes list) option"

record Ports =
  p_Portmap :: u32
  p_Mount :: u32
  p_NFS :: u32

record ('k, 's) Server =
  sv_FS :: "('k, 's) FS"
  sv_ports :: "(Ports \<times> Ports) option"
  sv_Verifier :: bytes
  sv_now :: gotime

definition SetPorts :: "Ports \<Rightarrow> Ports \<Rightarrow> ('k, 's) Server \<Rightarrow> ('k, 's) Server" where
  "SetPorts udp tcp sv = sv\<lparr>sv_ports := Some (udp, tcp)\<rparr>"

section \<open>Model: filehandles\<close>

definition fhSize :: nat where "fhSize = 32"

definition encodeFH :: "u64 \<Rightarrow> bytes" where
  "encodeFH i = [1] @ put64 i @ replicate (fhSize - 9) 0"

definition decodeFH :: "bytes \<Rightarrow> u64 option" where
  "decodeFH fh =
     (if length fh \<noteq> fhSize \<or> fh ! 0 \<noteq> 1 then None else Some (get64 (word_at fh 1) (word_at fh 5)))"

definition resolve :: "('k, 's) Server \<Rightarrow> bytes \<Rightarrow> 's \<Rightarrow> nfs_err + 'k Node" where
  "resolve sv fh s =
     (case fs_HandleFS (sv_FS sv) of
        Some h \<Rightarrow> hfs_NodeByHandle h fh s
      | None \<Rightarrow>
          (case decodeFH fh of
             None \<Rightarrow> Inl ErrBadHandle
           | Some i \<Rightarrow> fs_NodeByID (sv_FS sv) i s))"

definition handle :: "('k, 's) Server \<Rightarrow> 'k Node \<Rightarrow> bytes" where
  "handle sv n =
     (case fs_HandleFS (sv_FS sv) of Some h \<Rightarrow> hfs_Handle h n | None \<Rightarrow> encodeFH (n_ID n))"

definition nfNON :: u32 where "nfNON = 0"
definition nfREG :: u32 where "nfREG = 1"
definition nfDIR :: u32 where "nfDIR = 2"
definition nfLNK :: u32 where "nfLNK = 5"

definition ftype :: "u32 \<Rightarrow> u32" where
  "ftype mode =
     (let t = mode AND 0xf000
      in if t = 0x4000 then nfDIR else if t = 0xa000 then nfLNK else if t = 0x8000 then nfREG else nfNON)"

definition space :: "('k, 's) Server \<Rightarrow> 's \<Rightarrow> nfs_err + Space" where
  "space sv s =
     (case fs_Space (sv_FS sv) of
        Some f \<Rightarrow> f s
      | None \<Rightarrow> Inr \<lparr>sp_Total = 0, sp_Free = 0, sp_Avail = 0, sp_Files = 0, sp_FreeFiles = 0, sp_AvailFiles = 0\<rparr>)"

section \<open>Model: directory cookies\<close>

definition readdirStart :: "'k DirEntry list \<Rightarrow> u64 \<Rightarrow> nat" where
  "readdirStart ents cookie =
     (if ents \<noteq> [] \<and> e_Cookie (hd ents) \<noteq> 0
      then length (takeWhile (\<lambda>e. \<not> ucast (e_Cookie e) > cookie) ents)
      else min (unat cookie) (length ents))"

definition entryCookie :: "'k DirEntry list \<Rightarrow> nat \<Rightarrow> u64" where
  "entryCookie ents i =
     (if e_Cookie (ents ! i) \<noteq> 0 then ucast (e_Cookie (ents ! i)) else of_nat (i + 1))"

section \<open>Filehandles round-trip\<close>

lemma length_encodeFH [simp]: "length (encodeFH i) = 32"
  by (simp add: encodeFH_def fhSize_def)

lemma decode_encode_FH [simp]: "decodeFH (encodeFH i) = Some i"
proof -
  have "word_at (encodeFH i) 1 = ucast (drop_bit 32 i)" "word_at (encodeFH i) 5 = ucast i"
    using word_at_put32 [of "[1]" "ucast (drop_bit 32 i)" "put32 (ucast i) @ replicate (fhSize - 9) 0"]
      word_at_put32 [of "[1] @ put32 (ucast (drop_bit 32 i))" "ucast i" "replicate (fhSize - 9) 0"]
    by (simp_all add: encodeFH_def put64_def)
  then show ?thesis by (simp add: decodeFH_def get64_split fhSize_def) (simp add: encodeFH_def)
qed

lemma handle_resolves:
  "fs_HandleFS (sv_FS sv) = None \<Longrightarrow> resolve sv (handle sv n) s = fs_NodeByID (sv_FS sv) (n_ID n) s"
  by (simp add: resolve_def handle_def)

section \<open>Status codes\<close>

lemma statusFor_OK: "statusFor err = nfsOK \<longleftrightarrow> err = None"
proof (cases err)
  case (Some e)
  then show ?thesis by (cases e) (simp_all add: statusFor_def statuses_def nfsOK_def nfsErrPerm_def nfsErrNoent_def
      nfsErrIO_def nfsErrNotdir_def nfsErrROFS_def nfsErrStale_def)
qed (simp add: statusFor_def)

lemma status2For_OK: "status2For err = nfsOK \<longleftrightarrow> err = None"
  using statusFor_OK [of err] by (auto simp: status2For_def nfsOK_def nfsErrIO_def nfsErrStale_def)

end
