(* ===== verification/Portmap_Mount.thy ===== *)
theory Portmap_Mount
  imports Nfs_Base
begin

text \<open>
  The portmap and MOUNT programs (src/nfs/portmap.go, src/nfs/mount.go): the
  registrations, GETPORT and DUMP; MNT, UMNT and EXPORT.
\<close>

section \<open>Model: portmap\<close>

definition ipprotoTCP :: u32 where "ipprotoTCP = 6"
definition ipprotoUDP :: u32 where "ipprotoUDP = 17"

record mapping =
  m_prog :: u32
  m_vers :: u32
  m_prot :: u32
  m_port :: u32

definition mappings :: "('k, 's) Server \<Rightarrow> mapping list" where
  "mappings sv =
     (case sv_ports sv of
        None \<Rightarrow> []
      | Some (udp, tcp) \<Rightarrow>
          concat (map (\<lambda>(prot, ports).
            filter (\<lambda>m. m_port m \<noteq> 0)
              [\<lparr>m_prog = progPortmap, m_vers = 2, m_prot = prot, m_port = p_Portmap ports\<rparr>,
               \<lparr>m_prog = progMount, m_vers = 1, m_prot = prot, m_port = p_Mount ports\<rparr>,
               \<lparr>m_prog = progMount, m_vers = 3, m_prot = prot, m_port = p_Mount ports\<rparr>,
               \<lparr>m_prog = progNFS, m_vers = 2, m_prot = prot, m_port = p_NFS ports\<rparr>,
               \<lparr>m_prog = progNFS, m_vers = 3, m_prot = prot, m_port = p_NFS ports\<rparr>])
            [(ipprotoUDP, udp), (ipprotoTCP, tcp)]))"

definition pmapGetport :: "('k, 's) Server \<Rightarrow> 's handlerFunc" where
  "pmapGetport sv s = do {
     prog \<leftarrow> x_uint32;
     vers \<leftarrow> x_uint32;
     prot \<leftarrow> x_uint32;
     _ \<leftarrow> x_uint32;
     let port = (case find (\<lambda>m. m_prog m = prog \<and> m_vers m = vers \<and> m_prot m = prot) (mappings sv) of
                   Some m \<Rightarrow> m_port m | None \<Rightarrow> 0);
     State_Monad.return (w_new [w_uint32 port], s)
   }"

definition pmapDump :: "('k, 's) Server \<Rightarrow> 's handlerFunc" where
  "pmapDump sv s =
     State_Monad.return
       (w_new (concat (map (\<lambda>m. [w_bool True, w_uint32 (m_prog m), w_uint32 (m_vers m), w_uint32 (m_prot m),
                                w_uint32 (m_port m)]) (mappings sv)) @ [w_bool False]), s)"

definition portmapProcs :: "('k, 's) Server \<Rightarrow> u32 \<Rightarrow> 's handlerFunc option" where
  "portmapProcs sv pr =
     (if pr = 0 then Some null_proc
      else if pr = 3 then Some (pmapGetport sv)
      else if pr = 4 then Some (pmapDump sv)
      else None)"

section \<open>Model: MOUNT\<close>

definition mountMnt :: "('k, 's) Server \<Rightarrow> u32 \<Rightarrow> 's handlerFunc" where
  "mountMnt sv vers s = do {
     path \<leftarrow> x_str;
     bad \<leftarrow> x_err;
     State_Monad.return
       (if bad then ([], s)
        else
          let root = (case fs_MountRoot (sv_FS sv) path s of
                        Inl e \<Rightarrow> Inl e
                      | Inr n \<Rightarrow> if ftype (n_Mode n) \<noteq> nfDIR then Inl ErrNotDir else Inr n)
          in case root of
               Inl e \<Rightarrow> (w_new [w_uint32 (statusFor (Some e))], s)
             | Inr n \<Rightarrow>
                 if vers = 1 then (w_new [w_uint32 nfsOK, w_fixed (handle sv n)], s)
                 else (w_new [w_uint32 nfsOK, w_opaque (handle sv n), w_uint32 1, w_uint32 1], s))
   }"

definition mountUmnt :: "'s handlerFunc" where
  "mountUmnt s = do {
     _ \<leftarrow> x_str;
     State_Monad.return ([], s)
   }"

definition mountExport :: "('k, 's) Server \<Rightarrow> 's handlerFunc" where
  "mountExport sv s =
     (let exports = (case fs_Exports (sv_FS sv) of Some f \<Rightarrow> f s | None \<Rightarrow> [str ''/''])
      in State_Monad.return
           (w_new (concat (map (\<lambda>p. [w_bool True, w_opaque p, w_bool False]) exports) @ [w_bool False]), s))"

definition mountProcs :: "('k, 's) Server \<Rightarrow> u32 \<Rightarrow> u32 \<Rightarrow> 's handlerFunc option" where
  "mountProcs sv vers pr =
     (if pr = 0 then Some null_proc
      else if pr = 1 then Some (mountMnt sv vers)
      else if pr = 3 then Some mountUmnt
      else if pr = 4 then Some null_proc
      else if pr = 5 then Some (mountExport sv)
      else None)"

section \<open>Registrations\<close>

definition registrations :: "u32 \<Rightarrow> Ports \<Rightarrow> mapping list" where
  "registrations prot ports =
     [\<lparr>m_prog = progPortmap, m_vers = 2, m_prot = prot, m_port = p_Portmap ports\<rparr>,
      \<lparr>m_prog = progMount, m_vers = 1, m_prot = prot, m_port = p_Mount ports\<rparr>,
      \<lparr>m_prog = progMount, m_vers = 3, m_prot = prot, m_port = p_Mount ports\<rparr>,
      \<lparr>m_prog = progNFS, m_vers = 2, m_prot = prot, m_port = p_NFS ports\<rparr>,
      \<lparr>m_prog = progNFS, m_vers = 3, m_prot = prot, m_port = p_NFS ports\<rparr>]"

lemma mappings_Some:
  "sv_ports sv = Some (udp, tcp) \<Longrightarrow>
   mappings sv = filter (\<lambda>m. m_port m \<noteq> 0) (registrations ipprotoUDP udp @ registrations ipprotoTCP tcp)"
  unfolding mappings_def registrations_def [symmetric] by simp

text \<open>A program, version and transport is registered at most once.\<close>

lemma registrations_distinct:
  "distinct (map (\<lambda>m. (m_prog m, m_vers m, m_prot m)) (registrations ipprotoUDP udp @ registrations ipprotoTCP tcp))"
  by (simp add: registrations_def progPortmap_def progMount_def progNFS_def ipprotoUDP_def ipprotoTCP_def)

lemma mappings_unique:
  assumes "m \<in> set (mappings sv)" and "m' \<in> set (mappings sv)"
    and "m_prog m = m_prog m'" and "m_vers m = m_vers m'" and "m_prot m = m_prot m'"
  shows "m = m'"
proof (cases "sv_ports sv")
  case (Some p)
  obtain udp tcp where "p = (udp, tcp)" by (cases p)
  with assms Some have "m \<in> set (registrations ipprotoUDP udp @ registrations ipprotoTCP tcp)"
    "m' \<in> set (registrations ipprotoUDP udp @ registrations ipprotoTCP tcp)" by (auto simp: mappings_Some)
  with registrations_distinct [of udp tcp] assms(3-5) show ?thesis
    unfolding distinct_map inj_on_def by blast
qed (use assms in \<open>simp add: mappings_def\<close>)

lemma at_input_3:
  assumes "at_input r (put32 a @ put32 b @ put32 c @ put32 d @ rest)"
  obtains r1 r2 r3 r4 where "run_state x_uint32 r = (a, r1)" "run_state x_uint32 r1 = (b, r2)"
    "run_state x_uint32 r2 = (c, r3)" "run_state x_uint32 r3 = (d, r4)" "at_input r4 rest"
  using at_input_uint32 [OF assms] at_input_uint32 [OF at_input_uint32(2) [OF assms]]
    at_input_uint32 [OF at_input_uint32(2) [OF at_input_uint32(2) [OF assms]]]
    at_input_uint32 [OF at_input_uint32(2) [OF at_input_uint32(2) [OF at_input_uint32(2) [OF assms]]]] by blast

section \<open>Properties\<close>

text \<open>
  GETPORT answers what is registered. For well-formed arguments the reply is
  one word: the port registered for exactly that program, version and transport,
  or 0 when there is none.
\<close>

theorem pmapGetport_registered:
  assumes "at_input r (put32 prog @ put32 vers @ put32 prot @ put32 port @ rest)"
  shows "\<exists>p r'. run_state (pmapGetport sv s) r = ((put32 p, s), r') \<and> \<not> xr_err r' \<and>
    (\<forall>q. q \<noteq> 0 \<longrightarrow> (p = q \<longleftrightarrow> \<lparr>m_prog = prog, m_vers = vers, m_prot = prot, m_port = q\<rparr> \<in> set (mappings sv)))"
proof -
  let ?P = "\<lambda>m. m_prog m = prog \<and> m_vers m = vers \<and> m_prot m = prot"
  define p where "p = (case find ?P (mappings sv) of Some m \<Rightarrow> m_port m | None \<Rightarrow> 0)"
  obtain r1 r2 r3 r4 where "run_state x_uint32 r = (prog, r1)" "run_state x_uint32 r1 = (vers, r2)"
    "run_state x_uint32 r2 = (prot, r3)" "run_state x_uint32 r3 = (port, r4)" "at_input r4 rest"
    by (rule at_input_3 [OF assms])
  then have "run_state (pmapGetport sv s) r = ((put32 p, s), r4)" "\<not> xr_err r4"
    by (simp_all add: pmapGetport_def Let_def w_new_def w_seq_def w_uint32_def p_def at_input_def)
  moreover have "p = q \<longleftrightarrow> \<lparr>m_prog = prog, m_vers = vers, m_prot = prot, m_port = q\<rparr> \<in> set (mappings sv)"
    if "q \<noteq> 0" for q
  proof (cases "find ?P (mappings sv)")
    case None
    then have "p = 0" by (simp add: p_def)
    moreover have "\<lparr>m_prog = prog, m_vers = vers, m_prot = prot, m_port = q\<rparr> \<notin> set (mappings sv)"
      using None unfolding find_None_iff by (metis mapping.select_convs(1-3))
    ultimately show ?thesis using that by simp
  next
    case (Some m)
    then have m: "m \<in> set (mappings sv)" "?P m" by (auto simp: find_Some_iff)
    then have "m = \<lparr>m_prog = prog, m_vers = vers, m_prot = prot, m_port = m_port m\<rparr>"
      by (intro mapping.equality) simp_all
    moreover have "p = m_port m" using Some by (simp add: p_def)
    moreover have "m_port m = q" if "\<lparr>m_prog = prog, m_vers = vers, m_prot = prot, m_port = q\<rparr> \<in> set (mappings sv)"
      using mappings_unique [OF that m(1)] m(2) by (metis mapping.select_convs)
    ultimately show ?thesis using m(1) by metis
  qed
  ultimately show ?thesis by blast
qed

definition example_server :: "(unit, unit) Server" where
  "example_server =
     \<lparr>sv_FS = \<lparr>fs_MountRoot = (\<lambda>_ _. Inl ErrNotFound), fs_NodeByID = (\<lambda>_ _. Inl ErrStale),
               fs_Lookup = (\<lambda>_ _ _. Inl ErrNotFound), fs_ReadDir = (\<lambda>_ _. Inl ErrNotDir),
               fs_ReadAt = (\<lambda>_ _ _ _. ([], Some ErrIO)), fs_Readlink = (\<lambda>_ _. Inl ErrInval),
               fs_HandleFS = None, fs_WriteFS = None, fs_Space = None, fs_Exports = None\<rparr>,
      sv_ports = Some (\<lparr>p_Portmap = 111, p_Mount = 635, p_NFS = 2049\<rparr>, \<lparr>p_Portmap = 111, p_Mount = 635, p_NFS = 2049\<rparr>),
      sv_Verifier = replicate 8 0, sv_now = \<lparr>t_Unix = 0, t_Nanosecond = 0\<rparr>\<rparr>"

theorem pmapGetport_registered_witness:
  "\<exists>r'. run_state (pmapGetport example_server ())
     \<lparr>xr_b = put32 progNFS @ put32 2 @ put32 17 @ put32 0, xr_off = 0, xr_err = False\<rparr> = ((put32 2049, ()), r')"
proof -
  let ?r = "\<lparr>xr_b = put32 progNFS @ put32 2 @ put32 17 @ put32 0, xr_off = 0, xr_err = False\<rparr>"
  have at: "at_input ?r (put32 progNFS @ put32 2 @ put32 17 @ put32 0 @ [])" by (simp add: at_input_def)
  have "\<lparr>m_prog = progNFS, m_vers = 2, m_prot = 17, m_port = 2049\<rparr> \<in> set (mappings example_server)"
    by (simp add: mappings_def example_server_def ipprotoUDP_def)
  moreover obtain p r' where "run_state (pmapGetport example_server ()) ?r = ((put32 p, ()), r')"
    "\<forall>q. q \<noteq> 0 \<longrightarrow> (p = q \<longleftrightarrow> \<lparr>m_prog = progNFS, m_vers = 2, m_prot = 17, m_port = q\<rparr> \<in> set (mappings example_server))"
    using pmapGetport_registered [OF at, of example_server "()"] by blast
  moreover have "(2049 :: u32) \<noteq> 0" by simp
  ultimately have "p = 2049" by blast
  then show ?thesis using \<open>run_state (pmapGetport example_server ()) ?r = ((put32 p, ()), r')\<close> by blast
qed

end
