(* ===== verification/Nfs2.thy ===== *)
theory Nfs2
  imports Portmap_Mount
begin

text \<open>
  NFS version 2 (src/nfs/nfs2.go): every procedure's handler, with the arguments
  decoded in the order the code reads them and the checks of \<open>r.err\<close> where it has
  them. A handler that changes the export returns the new state.
\<close>

section \<open>Model: replies\<close>

definition clamp32 :: "u64 \<Rightarrow> u32" where
  "clamp32 v = ucast (min v 0xffffffff)"

definition writeTime2 :: "gotime \<Rightarrow> xdrWriter" where
  "writeTime2 t = w_seq [w_uint32 (of_int (t_Unix t)), w_uint32 (of_nat (t_Nanosecond t div 1000))]"

definition writeFattr :: "'k Node \<Rightarrow> xdrWriter" where
  "writeFattr n =
     (let a = attrOf n
      in w_seq [w_uint32 (ftype (a_Mode a)), w_uint32 (a_Mode a), w_uint32 (a_Nlink a), w_uint32 0, w_uint32 0,
                w_uint32 (clamp32 (a_Size a)), w_uint32 512, w_uint32 0, w_uint32 (clamp32 (a_Used a div 512)),
                w_uint32 1, w_uint32 (ucast (a_Fileid a)),
                writeTime2 (a_Atime a), writeTime2 (a_Mtime a), writeTime2 (a_Ctime a)])"

text \<open>\<open>node\<close>: the node, or the status to report.\<close>

definition node2 :: "('k, 's) Server \<Rightarrow> bytes \<Rightarrow> 's \<Rightarrow> u32 + 'k Node" where
  "node2 sv fh s =
     (case resolve sv fh s of Inl e \<Rightarrow> Inl (status2For (Some e)) | Inr n \<Rightarrow> Inr n)"

definition attrstat :: "('k, 's) Server \<Rightarrow> bytes \<Rightarrow> nfs_err option \<Rightarrow> 's \<Rightarrow> bytes" where
  "attrstat sv fh err s =
     (if err \<noteq> None then w_new [w_uint32 (status2For err)]
      else case node2 sv fh s of
             Inl st \<Rightarrow> w_new [w_uint32 st]
           | Inr n \<Rightarrow> w_new [w_uint32 nfsOK, writeFattr n])"

section \<open>Model: procedures that read\<close>

definition nfsGetattr :: "('k, 's) Server \<Rightarrow> 's handlerFunc" where
  "nfsGetattr sv s = do {
     fh \<leftarrow> x_bytes fhSize;
     State_Monad.return (attrstat sv fh None s, s)
   }"

definition nfsLookup :: "('k, 's) Server \<Rightarrow> 's handlerFunc" where
  "nfsLookup sv s = do {
     fh \<leftarrow> x_bytes fhSize;
     name \<leftarrow> x_str;
     State_Monad.return
       (case node2 sv fh s of
          Inl st \<Rightarrow> w_new [w_uint32 st]
        | Inr dir \<Rightarrow>
            (case fs_Lookup (sv_FS sv) dir name s of
               Inl e \<Rightarrow> w_new [w_uint32 (status2For (Some e))]
             | Inr child \<Rightarrow> w_new [w_uint32 nfsOK, w_fixed (handle sv child), writeFattr child]), s)
   }"

definition nfsReadlink :: "('k, 's) Server \<Rightarrow> 's handlerFunc" where
  "nfsReadlink sv s = do {
     fh \<leftarrow> x_bytes fhSize;
     State_Monad.return
       (case node2 sv fh s of
          Inl st \<Rightarrow> w_new [w_uint32 st]
        | Inr n \<Rightarrow>
            (case fs_Readlink (sv_FS sv) n s of
               Inl e \<Rightarrow> w_new [w_uint32 (status2For (Some e))]
             | Inr target \<Rightarrow> w_new [w_uint32 nfsOK, w_opaque target]), s)
   }"

definition maxRead :: u32 where "maxRead = 8192"

definition nfsRead :: "('k, 's) Server \<Rightarrow> 's handlerFunc" where
  "nfsRead sv s = do {
     fh \<leftarrow> x_bytes fhSize;
     offset \<leftarrow> x_uint32;
     cnt \<leftarrow> x_uint32;
     _ \<leftarrow> x_uint32;
     State_Monad.return
       (case node2 sv fh s of
          Inl st \<Rightarrow> w_new [w_uint32 st]
        | Inr n \<Rightarrow>
            let cnt = (if cnt > maxRead then maxRead else cnt);
                (got, err) = fs_ReadAt (sv_FS sv) n (unat cnt) (uint offset) s
            in if err \<noteq> None \<and> got = [] then w_new [w_uint32 (status2For err)]
               else w_new [w_uint32 nfsOK, writeFattr n, w_opaque got], s)
   }"

text \<open>The loop of READDIR: the entries written and the index it stopped at.\<close>

function readdir2_loop :: "'k DirEntry list \<Rightarrow> nat \<Rightarrow> nat \<Rightarrow> int \<Rightarrow> xdrWriter list \<times> nat" where
  "readdir2_loop ents start i budget =
     (if i < length ents then
        let e = ents ! i;
            entrySize = int (4 + 4 + 4 + padded (length (e_Name e)) + 4)
        in if budget - entrySize < 0 \<and> i > start then ([], i)
           else
             let (ws, j) = readdir2_loop ents start (i + 1) (budget - entrySize)
             in ([w_uint32 1, w_uint32 (ucast (a_Fileid (attrOf (e_Node e)))), w_opaque (e_Name e),
                  w_uint32 (ucast (entryCookie ents i))] @ ws, j)
      else ([], i))"
  by pat_completeness auto
termination
  by (relation "measure (\<lambda>(ents, start, i, budget). length ents - i)") auto

declare readdir2_loop.simps [simp del]

definition nfsReaddir :: "('k, 's) Server \<Rightarrow> 's handlerFunc" where
  "nfsReaddir sv s = do {
     fh \<leftarrow> x_bytes fhSize;
     cookie \<leftarrow> x_uint32;
     cnt \<leftarrow> x_uint32;
     State_Monad.return
       (case node2 sv fh s of
          Inl st \<Rightarrow> w_new [w_uint32 st]
        | Inr dir \<Rightarrow>
            (case fs_ReadDir (sv_FS sv) dir s of
               Inl e \<Rightarrow> w_new [w_uint32 (status2For (Some e))]
             | Inr ents \<Rightarrow>
                 let start = readdirStart ents (ucast cookie);
                     (ws, i) = readdir2_loop ents start start (uint cnt)
                 in w_new ([w_uint32 nfsOK] @ ws @ [w_uint32 0, w_bool (i \<ge> length ents)])), s)
   }"

definition nfsStatfs :: "('k, 's) Server \<Rightarrow> 's handlerFunc" where
  "nfsStatfs sv s = do {
     fh \<leftarrow> x_bytes fhSize;
     State_Monad.return
       (case node2 sv fh s of
          Inl st \<Rightarrow> w_new [w_uint32 st]
        | Inr n \<Rightarrow>
            (case space sv s of
               Inl e \<Rightarrow> w_new [w_uint32 (status2For (Some e))]
             | Inr sp \<Rightarrow>
                 let bsize = (if sp_Total sp \<noteq> 0 then 4096 else 512)
                 in w_new [w_uint32 nfsOK, w_uint32 maxRead, w_uint32 (ucast bsize),
                           w_uint32 (clamp32 (sp_Total sp div bsize)), w_uint32 (clamp32 (sp_Free sp div bsize)),
                           w_uint32 (clamp32 (sp_Avail sp div bsize))]), s)
   }"

section \<open>Model: procedures that write\<close>

definition nfsROFS :: "'s handlerFunc" where
  "nfsROFS s = State_Monad.return (w_new [w_uint32 nfsErrROFS], s)"

definition nfsLink :: "'s handlerFunc" where
  "nfsLink s = State_Monad.return (w_new [w_uint32 nfsErrPerm], s)"

definition readTime2 :: "gotime \<Rightarrow> gotime option xdr" where
  "readTime2 now = do {
     sec \<leftarrow> x_uint32;
     usec \<leftarrow> x_uint32;
     State_Monad.return
       (if sec = 0xffffffff then None
        else if usec = 1000000 then Some now
        else Some \<lparr>t_Unix = uint sec + uint usec div 1000000, t_Nanosecond = unat usec mod 1000000 * 1000\<rparr>)
   }"

definition readSattr2 :: "gotime \<Rightarrow> SetAttr xdr" where
  "readSattr2 now = do {
     m \<leftarrow> x_uint32;
     _ \<leftarrow> x_uint32;
     _ \<leftarrow> x_uint32;
     sz \<leftarrow> x_uint32;
     atime \<leftarrow> readTime2 now;
     mtime \<leftarrow> readTime2 now;
     State_Monad.return
       \<lparr>sa_Mode = (if m \<noteq> 0xffffffff then Some (m AND 0xfff) else None),
        sa_Size = (if sz \<noteq> 0xffffffff then Some (ucast sz) else None), sa_Atime = atime, sa_Mtime = mtime\<rparr>
   }"

text \<open>\<open>dirop\<close>: after a failed decode it returns a nil node and no error.\<close>

definition dirop :: "('k, 's) Server \<Rightarrow> 's \<Rightarrow> ((nfs_err + 'k Node) option \<times> bytes) xdr" where
  "dirop sv s = do {
     fh \<leftarrow> x_bytes fhSize;
     name \<leftarrow> x_str;
     bad \<leftarrow> x_err;
     State_Monad.return
       (if bad then (None, [])
        else
          (Some (case resolve sv fh s of
                   Inl e \<Rightarrow> Inl e
                 | Inr dir \<Rightarrow> if ftype (n_Mode dir) \<noteq> nfDIR then Inl ErrNotDir else Inr dir), name))
   }"

definition nfsSetattr :: "('k, 's) Server \<Rightarrow> ('k, 's) WriteFS \<Rightarrow> 's handlerFunc" where
  "nfsSetattr sv wfs s = do {
     fh \<leftarrow> x_bytes fhSize;
     a \<leftarrow> readSattr2 (sv_now sv);
     bad \<leftarrow> x_err;
     State_Monad.return
       (if bad then ([], s)
        else
          let (err, s') = (case resolve sv fh s of Inl e \<Rightarrow> (Some e, s) | Inr n \<Rightarrow> wfs_SetAttr wfs n a s)
          in (attrstat sv fh err s', s'))
   }"

definition writeTo :: "('k, 's) WriteFS \<Rightarrow> 'k Node \<Rightarrow> bytes \<Rightarrow> u64 \<Rightarrow> 's \<Rightarrow> nfs_err option \<times> 's" where
  "writeTo wfs n data offset s =
     (if ftype (n_Mode n) = nfDIR then (Some ErrIsDir, s)
      else if ftype (n_Mode n) \<noteq> nfREG then (Some ErrInval, s)
      else if offset > 0x7fffffffffffffff - of_nat (length data) then (Some ErrFBig, s)
      else wfs_WriteAt wfs n data (uint offset) s)"

definition nfsWrite :: "('k, 's) Server \<Rightarrow> ('k, 's) WriteFS \<Rightarrow> 's handlerFunc" where
  "nfsWrite sv wfs s = do {
     fh \<leftarrow> x_bytes fhSize;
     _ \<leftarrow> x_uint32;
     offset \<leftarrow> x_uint32;
     _ \<leftarrow> x_uint32;
     data \<leftarrow> x_opaque maxRecord;
     bad \<leftarrow> x_err;
     State_Monad.return
       (if bad then ([], s)
        else
          let (err, s') = (case resolve sv fh s of Inl e \<Rightarrow> (Some e, s) | Inr n \<Rightarrow> writeTo wfs n data (ucast offset) s)
          in (attrstat sv fh err s', s'))
   }"

definition nfsCreate :: "('k, 's) Server \<Rightarrow> ('k, 's) WriteFS \<Rightarrow> bool \<Rightarrow> 's handlerFunc" where
  "nfsCreate sv wfs mkdir s = do {
     (dir, name) \<leftarrow> dirop sv s;
     a \<leftarrow> readSattr2 (sv_now sv);
     bad \<leftarrow> x_err;
     State_Monad.return
       (if bad then ([], s)
        else
          let (n, s') = (case dir of
                           Some (Inr d) \<Rightarrow>
                             if mkdir then wfs_Mkdir wfs d name a s
                             else wfs_Create wfs d name Unchecked a (replicate 8 0) s
                         | Some (Inl e) \<Rightarrow> (Inl e, s)
                         | None \<Rightarrow> (Inl ErrIO, s))
          in (case n of
                Inl e \<Rightarrow> w_new [w_uint32 (status2For (Some e))]
              | Inr n \<Rightarrow>
                  (case resolve sv (handle sv n) s' of
                     Inl e \<Rightarrow> w_new [w_uint32 (status2For (Some e))]
                   | Inr n' \<Rightarrow> w_new [w_uint32 nfsOK, w_fixed (handle sv n), writeFattr n']), s'))
   }"

definition nfsRemove :: "('k, 's) Server \<Rightarrow> ('k, 's) WriteFS \<Rightarrow> bool \<Rightarrow> 's handlerFunc" where
  "nfsRemove sv wfs rmdir s = do {
     (dir, name) \<leftarrow> dirop sv s;
     bad \<leftarrow> x_err;
     State_Monad.return
       (if bad then ([], s)
        else
          let (err, s') = (case dir of
                             Some (Inr d) \<Rightarrow> if rmdir then wfs_Rmdir wfs d name s else wfs_Remove wfs d name s
                           | Some (Inl e) \<Rightarrow> (Some e, s)
                           | None \<Rightarrow> (Some ErrIO, s))
          in (w_new [w_uint32 (status2For err)], s'))
   }"

definition nfsRename :: "('k, 's) Server \<Rightarrow> ('k, 's) WriteFS \<Rightarrow> 's handlerFunc" where
  "nfsRename sv wfs s = do {
     (from, fromName) \<leftarrow> dirop sv s;
     (to, toName) \<leftarrow> dirop sv s;
     bad \<leftarrow> x_err;
     State_Monad.return
       (if bad then ([], s)
        else
          let (err, s') = (case (from, to) of
                             (Some (Inr f), Some (Inr t)) \<Rightarrow> wfs_Rename wfs f fromName t toName s
                           | (Some (Inl e), _) \<Rightarrow> (Some e, s)
                           | (_, Some (Inl e)) \<Rightarrow> (Some e, s)
                           | _ \<Rightarrow> (Some ErrIO, s))
          in (w_new [w_uint32 (status2For err)], s'))
   }"

definition nfsSymlink :: "('k, 's) Server \<Rightarrow> ('k, 's) WriteFS \<Rightarrow> 's handlerFunc" where
  "nfsSymlink sv wfs s = do {
     (dir, name) \<leftarrow> dirop sv s;
     target \<leftarrow> x_str;
     a \<leftarrow> readSattr2 (sv_now sv);
     bad \<leftarrow> x_err;
     State_Monad.return
       (if bad then ([], s)
        else
          let (err, s') = (case dir of
                             Some (Inr d) \<Rightarrow>
                               (case wfs_Symlink wfs d name target a s of
                                  (Inl e, s') \<Rightarrow> (Some e, s') | (Inr n, s') \<Rightarrow> (None, s'))
                           | Some (Inl e) \<Rightarrow> (Some e, s)
                           | None \<Rightarrow> (Some ErrIO, s))
          in (w_new [w_uint32 (status2For err)], s'))
   }"

definition nfs2Procs :: "('k, 's) Server \<Rightarrow> u32 \<Rightarrow> 's handlerFunc option" where
  "nfs2Procs sv pr =
     map_of
       ([(0, null_proc), (1, nfsGetattr sv), (3, null_proc), (4, nfsLookup sv), (5, nfsReadlink sv), (6, nfsRead sv),
         (7, null_proc), (16, nfsReaddir sv), (17, nfsStatfs sv)] @
        (case fs_WriteFS (sv_FS sv) of
           None \<Rightarrow> map (\<lambda>p. (p, nfsROFS)) [2, 8, 9, 10, 11, 12, 13, 14, 15]
         | Some wfs \<Rightarrow>
             [(2, nfsSetattr sv wfs), (8, nfsWrite sv wfs), (9, nfsCreate sv wfs False), (10, nfsRemove sv wfs False),
              (11, nfsRename sv wfs), (12, nfsLink), (13, nfsSymlink sv wfs), (14, nfsCreate sv wfs True),
              (15, nfsRemove sv wfs True)])) pr"

end
