(* ===== verification/Nfs3.thy ===== *)
theory Nfs3
  imports Nfs2
begin

text \<open>
  NFS version 3 (src/nfs/nfs3.go): every procedure's handler. An absent node or
  attribute block (Go's nil) is \<open>None\<close>; a resolve that fails yields no node. The
  closures \<open>fits\<close> of READDIR and READDIRPLUS, which count down budgets they capture,
  take and return the budget explicitly.
\<close>

section \<open>Model: constants and the table of refusals\<close>

definition nfs3ErrInval :: u32 where "nfs3ErrInval = 22"
definition nfs3ErrIsdir :: u32 where "nfs3ErrIsdir = 21"
definition nfs3ErrBadHandle :: u32 where "nfs3ErrBadHandle = 10001"
definition nfs3ErrNotSync :: u32 where "nfs3ErrNotSync = 10002"
definition nfs3ErrNotSupp :: u32 where "nfs3ErrNotSupp = 10004"
definition nfs3ErrTooSmall :: u32 where "nfs3ErrTooSmall = 10005"

definition maxRead3 :: u32 where "maxRead3 = 32768"

definition access3Read :: u32 where "access3Read = 0x01"
definition access3Lookup :: u32 where "access3Lookup = 0x02"
definition access3Modify :: u32 where "access3Modify = 0x04"
definition access3Extend :: u32 where "access3Extend = 0x08"
definition access3Delete :: u32 where "access3Delete = 0x10"
definition access3Execute :: u32 where "access3Execute = 0x20"

definition refuse3 :: "u32 \<Rightarrow> nat \<Rightarrow> 's handlerFunc" where
  "refuse3 status blanks s = State_Monad.return (w_new (w_uint32 status # replicate blanks (w_bool False)), s)"

definition rofs3 :: "nat \<Rightarrow> 's handlerFunc" where
  "rofs3 blanks = refuse3 nfsErrROFS blanks"

definition notsupp3 :: "nat \<Rightarrow> 's handlerFunc" where
  "notsupp3 blanks = refuse3 nfs3ErrNotSupp blanks"

section \<open>Model: handles and attributes\<close>

definition readFH3 :: "bytes xdr" where
  "readFH3 = x_opaque 64"

definition node3 :: "('k, 's) Server \<Rightarrow> bytes \<Rightarrow> 's \<Rightarrow> u32 + 'k Node" where
  "node3 sv fh s = (case resolve sv fh s of Inl e \<Rightarrow> Inl (statusFor (Some e)) | Inr n \<Rightarrow> Inr n)"

definition writeTime3 :: "gotime \<Rightarrow> xdrWriter" where
  "writeTime3 t = w_seq [w_uint32 (of_int (t_Unix t)), w_uint32 (of_nat (t_Nanosecond t))]"

definition writeFattr3 :: "'k Node \<Rightarrow> xdrWriter" where
  "writeFattr3 n =
     (let a = attrOf n
      in w_seq [w_uint32 (ftype (a_Mode a)), w_uint32 (a_Mode a AND 0xfff), w_uint32 (a_Nlink a), w_uint32 0, w_uint32 0,
                w_uint64 (a_Size a), w_uint64 (a_Used a), w_uint32 0, w_uint32 0, w_uint64 1, w_uint64 (a_Fileid a),
                writeTime3 (a_Atime a), writeTime3 (a_Mtime a), writeTime3 (a_Ctime a)])"

definition writePostOp :: "'k Node option \<Rightarrow> xdrWriter" where
  "writePostOp no = (case no of None \<Rightarrow> w_bool False | Some n \<Rightarrow> w_seq [w_bool True, writeFattr3 n])"

text \<open>A failure reply with its post_op_attr.\<close>

definition fail3 :: "u32 \<Rightarrow> 'k Node option \<Rightarrow> bytes" where
  "fail3 st no = w_new [w_uint32 st, writePostOp no]"

section \<open>Model: procedures that read\<close>

definition nfs3Getattr :: "('k, 's) Server \<Rightarrow> 's handlerFunc" where
  "nfs3Getattr sv s = do {
     fh \<leftarrow> readFH3;
     State_Monad.return
       (case node3 sv fh s of
          Inl st \<Rightarrow> w_new [w_uint32 st]
        | Inr n \<Rightarrow> w_new [w_uint32 nfsOK, writeFattr3 n], s)
   }"

definition nfs3Lookup :: "('k, 's) Server \<Rightarrow> 's handlerFunc" where
  "nfs3Lookup sv s = do {
     fh \<leftarrow> readFH3;
     name \<leftarrow> x_str;
     State_Monad.return
       (case node3 sv fh s of
          Inl st \<Rightarrow> fail3 st (None :: 'k Node option)
        | Inr dir \<Rightarrow>
            if ftype (n_Mode dir) \<noteq> nfDIR then fail3 nfsErrNotdir (Some dir)
            else
              (case fs_Lookup (sv_FS sv) dir name s of
                 Inl e \<Rightarrow> fail3 (statusFor (Some e)) (Some dir)
               | Inr child \<Rightarrow>
                   w_new [w_uint32 nfsOK, w_opaque (handle sv child), writePostOp (Some child), writePostOp (Some dir)]), s)
   }"

definition nfs3Access :: "('k, 's) Server \<Rightarrow> 's handlerFunc" where
  "nfs3Access sv s = do {
     fh \<leftarrow> readFH3;
     want \<leftarrow> x_uint32;
     State_Monad.return
       (case node3 sv fh s of
          Inl st \<Rightarrow> fail3 st (None :: 'k Node option)
        | Inr n \<Rightarrow>
            let writable = (fs_WriteFS (sv_FS sv) \<noteq> None);
                allow =
                  (if ftype (n_Mode n) = nfDIR then
                     access3Read OR access3Lookup OR
                       (if writable then access3Modify OR access3Extend OR access3Delete else 0)
                   else if ftype (n_Mode n) = nfREG then
                     access3Read OR (if n_Mode n AND 0x49 \<noteq> 0 then access3Execute else 0) OR
                       (if writable then access3Modify OR access3Extend else 0)
                   else access3Read)
            in w_new [w_uint32 nfsOK, writePostOp (Some n), w_uint32 (want AND allow)], s)
   }"

definition nfs3Readlink :: "('k, 's) Server \<Rightarrow> 's handlerFunc" where
  "nfs3Readlink sv s = do {
     fh \<leftarrow> readFH3;
     State_Monad.return
       (case node3 sv fh s of
          Inl st \<Rightarrow> fail3 st (None :: 'k Node option)
        | Inr n \<Rightarrow>
            if ftype (n_Mode n) \<noteq> nfLNK then fail3 nfs3ErrInval (Some n)
            else
              (case fs_Readlink (sv_FS sv) n s of
                 Inl e \<Rightarrow> fail3 (statusFor (Some e)) (Some n)
               | Inr target \<Rightarrow> w_new [w_uint32 nfsOK, writePostOp (Some n), w_opaque target]), s)
   }"

definition read3_ok :: "'k Node \<Rightarrow> u64 \<Rightarrow> u64 \<Rightarrow> bytes \<Rightarrow> bytes" where
  "read3_ok n offset sz data =
     w_new [w_uint32 nfsOK, writePostOp (Some n), w_uint32 (of_nat (length data)),
            w_bool (offset + of_nat (length data) \<ge> sz), w_opaque data]"

definition nfs3Read :: "('k, 's) Server \<Rightarrow> 's handlerFunc" where
  "nfs3Read sv s = do {
     fh \<leftarrow> readFH3;
     offset \<leftarrow> x_uint64;
     cnt \<leftarrow> x_uint32;
     State_Monad.return
       (case node3 sv fh s of
          Inl st \<Rightarrow> fail3 st (None :: 'k Node option)
        | Inr n \<Rightarrow>
            if ftype (n_Mode n) = nfDIR then fail3 nfs3ErrIsdir (Some n)
            else if ftype (n_Mode n) \<noteq> nfREG then fail3 nfs3ErrInval (Some n)
            else
              let sz = of_int (max (n_Size n) 0) :: u64
              in if offset < sz then
                   let (got, err) = fs_ReadAt (sv_FS sv) n (unat (min cnt maxRead3)) (sint offset) s
                   in if err \<noteq> None \<and> got = [] then fail3 (statusFor err) (Some n)
                      else read3_ok n offset sz got
                 else read3_ok n offset sz [], s)
   }"

section \<open>Model: directory listings\<close>

definition xdrStrLen :: "bytes \<Rightarrow> nat" where
  "xdrStrLen nm = 4 + padded (length nm)"

definition readdirFixed :: nat where "readdirFixed = 4 + 4 + 84 + 8 + 4 + 4"

text \<open>The method readdirStart: the directory and its entries, or the failure reply.\<close>

definition readdirStart3 :: "('k, 's) Server \<Rightarrow> bytes \<Rightarrow> 's \<Rightarrow> bytes + ('k Node \<times> 'k DirEntry list)" where
  "readdirStart3 sv fh s =
     (case node3 sv fh s of
        Inl st \<Rightarrow> Inl (fail3 st (None :: 'k Node option))
      | Inr dir \<Rightarrow>
          if ftype (n_Mode dir) \<noteq> nfDIR then Inl (fail3 nfsErrNotdir (Some dir))
          else
            (case fs_ReadDir (sv_FS sv) dir s of
               Inl e \<Rightarrow> Inl (fail3 (statusFor (Some e)) (Some dir))
             | Inr ents \<Rightarrow> Inr (dir, ents)))"

text \<open>
  The loop of readdirEntries from index \<open>i\<close>: \<open>fits\<close> takes the budget \<open>b\<close> and gives
  what is left of it, or \<open>None\<close>. The result is what was written and the index
  reached; \<open>None\<close> when the first entry does not fit.
\<close>

function readdir_loop ::
  "('b \<Rightarrow> 'k DirEntry \<Rightarrow> 'b option) \<Rightarrow> ('k DirEntry \<Rightarrow> u64 \<Rightarrow> xdrWriter) \<Rightarrow> 'k DirEntry list \<Rightarrow> nat \<Rightarrow> nat \<Rightarrow> 'b \<Rightarrow>
    bytes \<Rightarrow> (bytes \<times> nat) option" where
  "readdir_loop fits emit ents start i b w =
     (if i < length ents then
        case fits b (ents ! i) of
          None \<Rightarrow> if i = start then None else Some (w, i)
        | Some b' \<Rightarrow>
            readdir_loop fits emit ents start (i + 1) b' (emit (ents ! i) (entryCookie ents i) (w_bool True w))
      else Some (w, i))"
  by pat_completeness auto
termination
  by (relation "measure (\<lambda>(fits, emit, ents, start, i, b, w). length ents - i)") auto

declare readdir_loop.simps [simp del]

definition readdirEntries ::
  "'k DirEntry list \<Rightarrow> u64 \<Rightarrow> ('b \<Rightarrow> 'k DirEntry \<Rightarrow> 'b option) \<Rightarrow> ('k DirEntry \<Rightarrow> u64 \<Rightarrow> xdrWriter) \<Rightarrow> 'b \<Rightarrow> bytes \<Rightarrow>
    bytes option" where
  "readdirEntries ents cookie fits emit b w =
     (let start = readdirStart ents cookie
      in case readdir_loop fits emit ents start start b w of
           None \<Rightarrow> None
         | Some (w', i) \<Rightarrow> Some (w_bool (i \<ge> length ents) (w_bool False w')))"

definition zeroVerf :: bytes where "zeroVerf = replicate 8 0"

definition fits_readdir :: "int \<Rightarrow> 'k DirEntry \<Rightarrow> int option" where
  "fits_readdir budget e =
     (let n = int (4 + 8 + xdrStrLen (e_Name e) + 8) in if n > budget then None else Some (budget - n))"

definition emit_readdir :: "'k DirEntry \<Rightarrow> u64 \<Rightarrow> xdrWriter" where
  "emit_readdir e c = w_seq [w_uint64 (a_Fileid (attrOf (e_Node e))), w_opaque (e_Name e), w_uint64 c]"

text \<open>The end READDIR and READDIRPLUS share.\<close>

definition readdir_reply :: "'k Node \<Rightarrow> bytes option \<Rightarrow> bytes" where
  "readdir_reply dir body =
     (case body of
        None \<Rightarrow> fail3 nfs3ErrTooSmall (Some dir)
      | Some b \<Rightarrow> w_new [w_uint32 nfsOK, writePostOp (Some dir), w_fixed zeroVerf, w_fixed b])"

definition nfs3Readdir :: "('k, 's) Server \<Rightarrow> 's handlerFunc" where
  "nfs3Readdir sv s = do {
     fh \<leftarrow> readFH3;
     cookie \<leftarrow> x_uint64;
     _ \<leftarrow> x_bytes 8;
     cnt \<leftarrow> x_uint32;
     State_Monad.return
       (case readdirStart3 sv fh s of
          Inl w \<Rightarrow> w
        | Inr (dir, ents) \<Rightarrow>
            readdir_reply dir
              (readdirEntries ents cookie fits_readdir emit_readdir (uint cnt - int readdirFixed) []), s)
   }"

definition fits_readdirplus :: "int \<times> int \<Rightarrow> 'k DirEntry \<Rightarrow> (int \<times> int) option" where
  "fits_readdirplus budgets e =
     (case budgets of
        (dirBudget, maxBudget) \<Rightarrow>
          let d = int (8 + xdrStrLen (e_Name e) + 8);
              m = 4 + d + 4 + 84 + 4 + 4 + int fhSize
          in if d > dirBudget \<or> m > maxBudget then None else Some (dirBudget - d, maxBudget - m))"

definition emit_readdirplus :: "('k, 's) Server \<Rightarrow> 'k DirEntry \<Rightarrow> u64 \<Rightarrow> xdrWriter" where
  "emit_readdirplus sv e c =
     w_seq [w_uint64 (a_Fileid (attrOf (e_Node e))), w_opaque (e_Name e), w_uint64 c, writePostOp (Some (e_Node e)),
            w_bool True, w_opaque (handle sv (e_Node e))]"

definition nfs3Readdirplus :: "('k, 's) Server \<Rightarrow> 's handlerFunc" where
  "nfs3Readdirplus sv s = do {
     fh \<leftarrow> readFH3;
     cookie \<leftarrow> x_uint64;
     _ \<leftarrow> x_bytes 8;
     dircount \<leftarrow> x_uint32;
     maxcount \<leftarrow> x_uint32;
     State_Monad.return
       (case readdirStart3 sv fh s of
          Inl w \<Rightarrow> w
        | Inr (dir, ents) \<Rightarrow>
            readdir_reply dir
              (readdirEntries ents cookie fits_readdirplus (emit_readdirplus sv)
                (uint dircount, uint maxcount - int readdirFixed) []), s)
   }"

section \<open>Model: filesystem information\<close>

definition nfs3Fsstat :: "('k, 's) Server \<Rightarrow> 's handlerFunc" where
  "nfs3Fsstat sv s = do {
     fh \<leftarrow> readFH3;
     State_Monad.return
       (case node3 sv fh s of
          Inl st \<Rightarrow> fail3 st (None :: 'k Node option)
        | Inr n \<Rightarrow>
            (case space sv s of
               Inl e \<Rightarrow> fail3 (statusFor (Some e)) (Some n)
             | Inr sp \<Rightarrow>
                 w_new ([w_uint32 nfsOK, writePostOp (Some n)] @
                   map w_uint64 [sp_Total sp, sp_Free sp, sp_Avail sp, sp_Files sp, sp_FreeFiles sp, sp_AvailFiles sp] @
                   [w_uint32 0])), s)
   }"

definition fsf3Symlink :: u32 where "fsf3Symlink = 0x02"
definition fsf3Homogeneous :: u32 where "fsf3Homogeneous = 0x08"
definition fsf3CanSetTime :: u32 where "fsf3CanSetTime = 0x10"

definition nfs3Fsinfo :: "('k, 's) Server \<Rightarrow> 's handlerFunc" where
  "nfs3Fsinfo sv s = do {
     fh \<leftarrow> readFH3;
     State_Monad.return
       (case node3 sv fh s of
          Inl st \<Rightarrow> fail3 st (None :: 'k Node option)
        | Inr n \<Rightarrow>
            w_new ([w_uint32 nfsOK, writePostOp (Some n), w_uint32 maxRead3, w_uint32 maxRead3, w_uint32 4096,
                    w_uint32 maxRead3, w_uint32 maxRead3, w_uint32 4096, w_uint32 8192, w_uint64 0x7fffffffffffffff] @
              (if fs_WriteFS (sv_FS sv) \<noteq> None
               then [w_uint32 0, w_uint32 1, w_uint32 (fsf3Symlink OR fsf3Homogeneous OR fsf3CanSetTime)]
               else [w_uint32 1, w_uint32 0, w_uint32 (fsf3Symlink OR fsf3Homogeneous)])), s)
   }"

definition nfs3Pathconf :: "('k, 's) Server \<Rightarrow> 's handlerFunc" where
  "nfs3Pathconf sv s = do {
     fh \<leftarrow> readFH3;
     State_Monad.return
       (case node3 sv fh s of
          Inl st \<Rightarrow> fail3 st (None :: 'k Node option)
        | Inr n \<Rightarrow>
            w_new [w_uint32 nfsOK, writePostOp (Some n), w_uint32 1, w_uint32 255, w_bool True, w_bool True, w_bool False,
                   w_bool True], s)
   }"

section \<open>Model: weak cache consistency and arguments\<close>

definition writePreOp :: "Attr option \<Rightarrow> xdrWriter" where
  "writePreOp ao =
     (case ao of
        None \<Rightarrow> w_bool False
      | Some a \<Rightarrow> w_seq [w_bool True, w_uint64 (a_Size a), writeTime3 (a_Mtime a), writeTime3 (a_Ctime a)])"

record wcc =
  wcc_fh :: "bytes option"
  wcc_pre :: "Attr option"

definition no_wcc :: wcc where
  "no_wcc = \<lparr>wcc_fh = None, wcc_pre = None\<rparr>"

definition wccOf :: "bytes \<Rightarrow> 'k Node option \<Rightarrow> wcc" where
  "wccOf fh no = (case no of None \<Rightarrow> no_wcc | Some n \<Rightarrow> \<lparr>wcc_fh = Some fh, wcc_pre = Some (attrOf n)\<rparr>)"

text \<open>The node a resolve yields, if any.\<close>

definition node_of :: "nfs_err + 'k Node \<Rightarrow> 'k Node option" where
  "node_of r = (case r of Inl e \<Rightarrow> None | Inr n \<Rightarrow> Some n)"

definition writeWcc :: "('k, 's) Server \<Rightarrow> 's \<Rightarrow> wcc \<Rightarrow> xdrWriter" where
  "writeWcc sv s c =
     w_seq [writePreOp (wcc_pre c),
            case wcc_fh c of
              None \<Rightarrow> writePostOp (None :: 'k Node option)
            | Some fh \<Rightarrow> writePostOp (node_of (resolve sv fh s))]"

definition unixTime :: "u32 \<Rightarrow> u32 \<Rightarrow> gotime" where
  "unixTime sec nsec =
     \<lparr>t_Unix = uint sec + uint nsec div 1000000000, t_Nanosecond = unat nsec mod 1000000000\<rparr>"

definition readSetTime3 :: "gotime \<Rightarrow> gotime option xdr" where
  "readSetTime3 now = do {
     k \<leftarrow> x_uint32;
     if k = 0 then State_Monad.return None
     else if k = 1 then State_Monad.return (Some now)
     else if k = 2 then do {
       sec \<leftarrow> x_uint32;
       nsec \<leftarrow> x_uint32;
       State_Monad.return (Some (unixTime sec nsec))
     }
     else do {
       _ \<leftarrow> x_fail;
       State_Monad.return None
     }
   }"

text \<open>A field that a leading bool announces.\<close>

definition x_optional :: "'a xdr \<Rightarrow> 'a option xdr" where
  "x_optional m = do {
     p \<leftarrow> x_bool;
     if p then do { v \<leftarrow> m; State_Monad.return (Some v) } else State_Monad.return None
   }"

definition readSattr3 :: "gotime \<Rightarrow> SetAttr xdr" where
  "readSattr3 now = do {
     m \<leftarrow> x_optional x_uint32;
     _ \<leftarrow> x_optional x_uint32;
     _ \<leftarrow> x_optional x_uint32;
     sz \<leftarrow> x_optional x_uint64;
     atime \<leftarrow> readSetTime3 now;
     mtime \<leftarrow> readSetTime3 now;
     State_Monad.return
       \<lparr>sa_Mode = map_option (\<lambda>v. v AND 0xfff) m, sa_Size = sz, sa_Atime = atime, sa_Mtime = mtime\<rparr>
   }"

text \<open>\<open>dirop3\<close>: after a failed decode it returns a nil node and no error.\<close>

definition dirop3 :: "('k, 's) Server \<Rightarrow> 's \<Rightarrow> ((nfs_err + 'k Node) option \<times> bytes \<times> wcc) xdr" where
  "dirop3 sv s = do {
     fh \<leftarrow> readFH3;
     name \<leftarrow> x_str;
     bad \<leftarrow> x_err;
     State_Monad.return
       (if bad then (None, [], no_wcc)
        else
          (Some (case resolve sv fh s of
                   Inl e \<Rightarrow> Inl e
                 | Inr dir \<Rightarrow> if ftype (n_Mode dir) \<noteq> nfDIR then Inl ErrNotDir else Inr dir),
           name, wccOf fh (node_of (resolve sv fh s))))
   }"

section \<open>Model: procedures that write\<close>

definition nfs3Setattr :: "('k, 's) Server \<Rightarrow> ('k, 's) WriteFS \<Rightarrow> 's handlerFunc" where
  "nfs3Setattr sv wfs s = do {
     fh \<leftarrow> readFH3;
     a \<leftarrow> readSattr3 (sv_now sv);
     guard \<leftarrow> x_optional (do { sec \<leftarrow> x_uint32; nsec \<leftarrow> x_uint32; State_Monad.return (unixTime sec nsec) });
     bad \<leftarrow> x_err;
     State_Monad.return
       (if bad then ([], s)
        else
          let c = wccOf fh (node_of (resolve sv fh s));
              (st, s') =
                (case resolve sv fh s of
                   Inl e \<Rightarrow> (statusFor (Some e), s)
                 | Inr n \<Rightarrow>
                     if guard \<noteq> None \<and> guard \<noteq> map_option a_Ctime (wcc_pre c) then (nfs3ErrNotSync, s)
                     else case wfs_SetAttr wfs n a s of (err, s') \<Rightarrow> (statusFor err, s'))
          in (w_new [w_uint32 st, writeWcc sv s' c], s'))
   }"

definition fileSync :: u32 where "fileSync = 2"

definition nfs3Write :: "('k, 's) Server \<Rightarrow> ('k, 's) WriteFS \<Rightarrow> 's handlerFunc" where
  "nfs3Write sv wfs s = do {
     fh \<leftarrow> readFH3;
     offset \<leftarrow> x_uint64;
     cnt \<leftarrow> x_uint32;
     _ \<leftarrow> x_uint32;
     data \<leftarrow> x_opaque maxRecord;
     bad \<leftarrow> x_err;
     State_Monad.return
       (if bad then ([], s)
        else
          let data = take (min (unat cnt) (length data)) data;
              c = wccOf fh (node_of (resolve sv fh s));
              (err, s') = (case resolve sv fh s of Inl e \<Rightarrow> (Some e, s) | Inr n \<Rightarrow> writeTo wfs n data offset s)
          in (w_new ([w_uint32 (statusFor err), writeWcc sv s' c] @
                (if err \<noteq> None then []
                 else [w_uint32 (of_nat (length data)), w_uint32 fileSync, w_fixed (sv_Verifier sv)])), s'))
   }"

definition nfs3Commit :: "('k, 's) Server \<Rightarrow> 's handlerFunc" where
  "nfs3Commit sv s = do {
     fh \<leftarrow> readFH3;
     _ \<leftarrow> x_uint64;
     _ \<leftarrow> x_uint32;
     bad \<leftarrow> x_err;
     State_Monad.return
       (if bad then ([], s)
        else
          (case resolve sv fh s of
             Inl e \<Rightarrow> w_new [w_uint32 (statusFor (Some e)), writePreOp None, writePostOp (None :: 'k Node option)]
           | Inr n \<Rightarrow> w_new [w_uint32 nfsOK, writePreOp None, writePostOp (Some n), w_fixed (sv_Verifier sv)], s))
   }"

definition newNode :: "('k, 's) Server \<Rightarrow> 's \<Rightarrow> 'k Node \<Rightarrow> wcc \<Rightarrow> bytes" where
  "newNode sv s n dir =
     (let fh = handle sv n
      in w_new ([w_uint32 nfsOK] @
           (case resolve sv fh s of
              Inl e \<Rightarrow> [w_bool False, writePostOp (None :: 'k Node option)]
            | Inr n' \<Rightarrow> [w_bool True, w_opaque fh, writePostOp (Some n')]) @
           [writeWcc sv s dir]))"

definition made :: "('k, 's) Server \<Rightarrow> 's \<Rightarrow> nfs_err + 'k Node \<Rightarrow> wcc \<Rightarrow> bytes" where
  "made sv s r dir =
     (case r of
        Inl e \<Rightarrow> w_new [w_uint32 (statusFor (Some e)), writeWcc sv s dir]
      | Inr n \<Rightarrow> newNode sv s n dir)"

text \<open>
  What CREATE, MKDIR, SYMLINK, REMOVE, RMDIR and RENAME do with the result of
  \<open>dirop3\<close>: call the filesystem on a directory, pass an error on.
\<close>

definition on_dir ::
  "(nfs_err + 'k Node) option \<Rightarrow> ('k Node \<Rightarrow> 's \<Rightarrow> (nfs_err + 'k Node) \<times> 's) \<Rightarrow> 's \<Rightarrow> (nfs_err + 'k Node) \<times> 's" where
  "on_dir dir f s =
     (case dir of Some (Inr d) \<Rightarrow> f d s | Some (Inl e) \<Rightarrow> (Inl e, s) | None \<Rightarrow> (Inl ErrIO, s))"

definition nfs3Create :: "('k, 's) Server \<Rightarrow> ('k, 's) WriteFS \<Rightarrow> 's handlerFunc" where
  "nfs3Create sv wfs s = do {
     (dir, name, c) \<leftarrow> dirop3 sv s;
     h \<leftarrow> x_uint32;
     (how, a, verf) \<leftarrow>
       (if h = 0 \<or> h = 1 then do {
          a \<leftarrow> readSattr3 (sv_now sv);
          State_Monad.return (if h = 0 then Unchecked else Guarded, a, replicate 8 0)
        }
        else if h = 2 then do {
          verf \<leftarrow> x_bytes 8;
          State_Monad.return (Exclusive, \<lparr>sa_Mode = None, sa_Size = None, sa_Atime = None, sa_Mtime = None\<rparr>, verf)
        }
        else do {
          _ \<leftarrow> x_fail;
          State_Monad.return
            (Unchecked, \<lparr>sa_Mode = None, sa_Size = None, sa_Atime = None, sa_Mtime = None\<rparr>, replicate 8 0)
        });
     bad \<leftarrow> x_err;
     State_Monad.return
       (if bad then ([], s)
        else
          let (r, s') = on_dir dir (\<lambda>d. wfs_Create wfs d name how a verf) s
          in (made sv s' r c, s'))
   }"

definition nfs3Mkdir :: "('k, 's) Server \<Rightarrow> ('k, 's) WriteFS \<Rightarrow> 's handlerFunc" where
  "nfs3Mkdir sv wfs s = do {
     (dir, name, c) \<leftarrow> dirop3 sv s;
     a \<leftarrow> readSattr3 (sv_now sv);
     bad \<leftarrow> x_err;
     State_Monad.return
       (if bad then ([], s)
        else
          let (r, s') = on_dir dir (\<lambda>d. wfs_Mkdir wfs d name a) s
          in (made sv s' r c, s'))
   }"

definition nfs3Symlink :: "('k, 's) Server \<Rightarrow> ('k, 's) WriteFS \<Rightarrow> 's handlerFunc" where
  "nfs3Symlink sv wfs s = do {
     (dir, name, c) \<leftarrow> dirop3 sv s;
     a \<leftarrow> readSattr3 (sv_now sv);
     target \<leftarrow> x_str;
     bad \<leftarrow> x_err;
     State_Monad.return
       (if bad then ([], s)
        else
          let (r, s') = on_dir dir (\<lambda>d. wfs_Symlink wfs d name target a) s
          in (made sv s' r c, s'))
   }"

definition nfs3Remove :: "('k, 's) Server \<Rightarrow> ('k, 's) WriteFS \<Rightarrow> bool \<Rightarrow> 's handlerFunc" where
  "nfs3Remove sv wfs rmdir s = do {
     (dir, name, c) \<leftarrow> dirop3 sv s;
     bad \<leftarrow> x_err;
     State_Monad.return
       (if bad then ([], s)
        else
          let (err, s') =
                (case dir of
                   Some (Inr d) \<Rightarrow> if rmdir then wfs_Rmdir wfs d name s else wfs_Remove wfs d name s
                 | Some (Inl e) \<Rightarrow> (Some e, s)
                 | None \<Rightarrow> (Some ErrIO, s))
          in (w_new [w_uint32 (statusFor err), writeWcc sv s' c], s'))
   }"

definition nfs3Rename :: "('k, 's) Server \<Rightarrow> ('k, 's) WriteFS \<Rightarrow> 's handlerFunc" where
  "nfs3Rename sv wfs s = do {
     (from, fromName, fc) \<leftarrow> dirop3 sv s;
     (to, toName, tc) \<leftarrow> dirop3 sv s;
     bad \<leftarrow> x_err;
     State_Monad.return
       (if bad then ([], s)
        else
          let (err, s') =
                (case (from, to) of
                   (Some (Inr f), Some (Inr t)) \<Rightarrow> wfs_Rename wfs f fromName t toName s
                 | (Some (Inl e), _) \<Rightarrow> (Some e, s)
                 | (_, Some (Inl e)) \<Rightarrow> (Some e, s)
                 | _ \<Rightarrow> (Some ErrIO, s))
          in (w_new [w_uint32 (statusFor err), writeWcc sv s' fc, writeWcc sv s' tc], s'))
   }"

section \<open>Model: the procedure table\<close>

definition nfs3Procs :: "('k, 's) Server \<Rightarrow> u32 \<Rightarrow> 's handlerFunc option" where
  "nfs3Procs sv pr =
     map_of
       ((case fs_WriteFS (sv_FS sv) of
           None \<Rightarrow> []
         | Some wfs \<Rightarrow>
             [(2, nfs3Setattr sv wfs), (7, nfs3Write sv wfs), (8, nfs3Create sv wfs), (9, nfs3Mkdir sv wfs),
              (10, nfs3Symlink sv wfs), (11, notsupp3 2), (12, nfs3Remove sv wfs False), (13, nfs3Remove sv wfs True),
              (14, nfs3Rename sv wfs), (15, notsupp3 3), (21, nfs3Commit sv)]) @
        [(0, null_proc), (1, nfs3Getattr sv), (2, rofs3 2), (3, nfs3Lookup sv), (4, nfs3Access sv), (5, nfs3Readlink sv),
         (6, nfs3Read sv), (7, rofs3 2), (8, rofs3 2), (9, rofs3 2), (10, rofs3 2), (11, rofs3 2), (12, rofs3 2),
         (13, rofs3 2), (14, rofs3 4), (15, rofs3 3), (16, nfs3Readdir sv), (17, nfs3Readdirplus sv),
         (18, nfs3Fsstat sv), (19, nfs3Fsinfo sv), (20, nfs3Pathconf sv), (21, rofs3 2)]) pr"

end
