(* ===== verification/Nfs_Server.thy ===== *)
theory Nfs_Server
  imports Nfs3
begin

text \<open>
  The server's table of programs (\<open>table\<close> of src/nfs/rpc.go) and what holds of all
  its procedures at once. The locale \<open>rpc_program\<close> is the contract between
  dispatch and a program: a call whose arguments do not decode changes nothing.
  It is interpreted on the procedure tables of portmap, MOUNT and both versions
  of NFS.
\<close>

section \<open>Model: the table\<close>

definition with_verifier :: "('k, 's) Server \<Rightarrow> ('k, 's) Server" where
  "with_verifier sv =
     (if sv_Verifier sv = replicate 8 0
      then sv\<lparr>sv_Verifier := put64 (of_int (t_Unix (sv_now sv) * 1000000000 + int (t_Nanosecond (sv_now sv))))\<rparr>
      else sv)"

definition programs :: "('k, 's) Server \<Rightarrow> (u32 \<times> u32 \<times> (u32 \<Rightarrow> 's handlerFunc option)) list" where
  "programs sv =
     [(progPortmap, 2, portmapProcs sv), (progMount, 1, mountProcs sv 1), (progMount, 3, mountProcs sv 3),
      (progNFS, 2, nfs2Procs sv), (progNFS, 3, nfs3Procs sv)]"

definition server_table :: "('k, 's) Server \<Rightarrow> 's rpcTable" where
  "server_table sv =
     fold add_program (programs (with_verifier sv)) \<lparr>procs = (\<lambda>_. None), versions = (\<lambda>_. None)\<rparr>"

section \<open>Computations that keep the filesystem's state\<close>

text \<open>\<open>quiet s m\<close>: whatever is read, the state stays \<open>s\<close>. \<open>undone s m\<close>: it does when the read fails.\<close>

definition quiet :: "'s \<Rightarrow> (bytes \<times> 's) xdr \<Rightarrow> bool" where
  "quiet s m \<longleftrightarrow> (\<forall>r. snd (fst (run_state m r)) = s)"

definition undone :: "'s \<Rightarrow> (bytes \<times> 's) xdr \<Rightarrow> bool" where
  "undone s m \<longleftrightarrow> (\<forall>r. xr_err (snd (run_state m r)) \<longrightarrow> snd (fst (run_state m r)) = s)"

named_theorems keep_state

lemma quiet_return [keep_state]: "snd p = s \<Longrightarrow> quiet s (State_Monad.return p)"
  by (simp add: quiet_def)

lemma quiet_bind [keep_state]: "(\<And>x. quiet s (f x)) \<Longrightarrow> quiet s (State_Monad.bind m f)"
  by (auto simp: quiet_def split: prod.split)

lemma undone_bind [keep_state]: "(\<And>x. undone s (f x)) \<Longrightarrow> undone s (State_Monad.bind m f)"
  by (auto simp: undone_def split: prod.split)

lemma undone_prod [keep_state]: "(\<And>x y. undone s (f x y)) \<Longrightarrow> undone s (case p of (x, y) \<Rightarrow> f x y)"
  by (cases p) simp

lemma quiet_undone: "quiet s m \<Longrightarrow> undone s m"
  by (simp add: quiet_def undone_def)

text \<open>The check of \<open>r.err\<close> at the end of a handler.\<close>

lemma undone_checked [keep_state]:
  "undone s (State_Monad.bind x_err (\<lambda>bad. State_Monad.return (if bad then (b, s) else p)))"
  by (simp add: undone_def x_err_def)

section \<open>The contract of a program\<close>

locale rpc_program =
  fixes hs :: "u32 \<Rightarrow> 's handlerFunc option"
  assumes null_served: "hs 0 = Some null_proc"
    and garbage_undone: "hs c = Some h \<Longrightarrow> undone s (h s)"

text \<open>Tables built from such programs.\<close>

definition good_table :: "'s rpcTable \<Rightarrow> bool" where
  "good_table t \<longleftrightarrow>
     (\<forall>k h s. procs t k = Some h \<longrightarrow> undone s (h s)) \<and>
     (\<forall>p v. procs t (p, v, 0) \<noteq> None \<longrightarrow> (\<exists>lo hi. versions t p = Some (lo, hi) \<and> lo \<le> v \<and> v \<le> hi))"

lemma good_empty: "good_table \<lparr>procs = (\<lambda>_. None), versions = (\<lambda>_. None)\<rparr>"
  by (simp add: good_table_def)

context rpc_program
begin

lemma procs_add:
  "procs (add_program (p, v, hs) t) k = Some h \<Longrightarrow> (\<exists>c. k = (p, v, c) \<and> hs c = Some h) \<or> procs t k = Some h"
  by (auto simp: add_program_def Let_def split: prod.splits if_splits)

lemma versions_add:
  "versions (add_program (p, v, hs) t) p' =
     (if p' = p then (case versions t p of None \<Rightarrow> Some (v, v) | Some (lo, hi) \<Rightarrow> Some (min lo v, max hi v))
      else versions t p')"
  by (auto simp: add_program_def Let_def split: prod.splits option.splits)

lemma good_add:
  assumes "good_table t"
  shows "good_table (add_program (p, v, hs) t)"
  unfolding good_table_def
proof (intro conjI allI impI)
  fix k h s
  assume "procs (add_program (p, v, hs) t) k = Some h"
  then consider c where "hs c = Some h" | "procs t k = Some h" using procs_add by blast
  then show "undone s (h s)"
  proof cases
    case 2
    with assms show ?thesis unfolding good_table_def by blast
  qed (rule garbage_undone)
next
  fix p' v'
  assume "procs (add_program (p, v, hs) t) (p', v', 0) \<noteq> None"
  then obtain h where "procs (add_program (p, v, hs) t) (p', v', 0) = Some h" by blast
  from procs_add [OF this] consider "p' = p" "v' = v" | "procs t (p', v', 0) \<noteq> None" by blast
  then show "\<exists>lo hi. versions (add_program (p, v, hs) t) p' = Some (lo, hi) \<and> lo \<le> v' \<and> v' \<le> hi"
  proof cases
    case 1
    then show ?thesis by (auto simp: versions_add split: option.splits)
  next
    case 2
    with assms obtain lo hi where "versions t p' = Some (lo, hi)" "lo \<le> v'" "v' \<le> hi"
      unfolding good_table_def by blast
    then show ?thesis by (auto simp: versions_add min_le_iff_disj le_max_iff_disj)
  qed
qed

end

section \<open>The programs keep the contract\<close>

lemma quiet_null [keep_state]: "quiet s (null_proc s)"
  by (simp add: null_proc_def quiet_return)

lemma quiet_portmap: "portmapProcs sv c = Some h \<Longrightarrow> quiet s (h s)"
  by (auto simp: portmapProcs_def pmapGetport_def pmapDump_def Let_def split: if_splits intro!: keep_state)

lemma quiet_mount: "mountProcs sv v c = Some h \<Longrightarrow> quiet s (h s)"
  by (auto simp: mountProcs_def mountMnt_def mountUmnt_def mountExport_def Let_def
      split: if_splits sum.splits intro!: keep_state)

interpretation portmap_program: rpc_program "portmapProcs sv" for sv
  by unfold_locales (simp add: portmapProcs_def, erule quiet_undone [OF quiet_portmap])

interpretation mount_program: rpc_program "mountProcs sv v" for sv v
  by unfold_locales (simp add: mountProcs_def, erule quiet_undone [OF quiet_mount])

lemma quiet_nfs2_reads [keep_state]:
  "quiet s (nfsGetattr sv s)" "quiet s (nfsLookup sv s)" "quiet s (nfsReadlink sv s)" "quiet s (nfsRead sv s)"
  "quiet s (nfsReaddir sv s)" "quiet s (nfsStatfs sv s)" "quiet s (nfsROFS s)" "quiet s (nfsLink s)"
  by (simp_all add: nfsGetattr_def nfsLookup_def nfsReadlink_def nfsRead_def nfsReaddir_def nfsStatfs_def nfsROFS_def
      nfsLink_def keep_state)

lemma undone_nfs2_writes [keep_state]:
  "undone s (nfsSetattr sv wfs s)" "undone s (nfsWrite sv wfs s)" "undone s (nfsCreate sv wfs md s)"
  "undone s (nfsRemove sv wfs rd s)" "undone s (nfsRename sv wfs s)" "undone s (nfsSymlink sv wfs s)"
  by (simp_all add: nfsSetattr_def nfsWrite_def nfsCreate_def nfsRemove_def nfsRename_def nfsSymlink_def keep_state
      split: prod.split)

lemma quiet_nfs3_reads [keep_state]:
  "quiet s (nfs3Getattr sv s)" "quiet s (nfs3Lookup sv s)" "quiet s (nfs3Access sv s)" "quiet s (nfs3Readlink sv s)"
  "quiet s (nfs3Read sv s)" "quiet s (nfs3Readdir sv s)" "quiet s (nfs3Readdirplus sv s)" "quiet s (nfs3Fsstat sv s)"
  "quiet s (nfs3Fsinfo sv s)" "quiet s (nfs3Pathconf sv s)" "quiet s (refuse3 st n s)"
  by (simp_all add: nfs3Getattr_def nfs3Lookup_def nfs3Access_def nfs3Readlink_def nfs3Read_def nfs3Readdir_def
      nfs3Readdirplus_def nfs3Fsstat_def nfs3Fsinfo_def nfs3Pathconf_def refuse3_def keep_state)

lemma quiet_commit [keep_state]: "quiet s (nfs3Commit sv s)"
  unfolding nfs3Commit_def by (intro keep_state) simp

lemma undone_nfs3_writes [keep_state]:
  "undone s (nfs3Setattr sv wfs s)" "undone s (nfs3Write sv wfs s)" "undone s (nfs3Create sv wfs s)"
  "undone s (nfs3Mkdir sv wfs s)" "undone s (nfs3Symlink sv wfs s)" "undone s (nfs3Remove sv wfs rd s)"
  "undone s (nfs3Rename sv wfs s)"
  by (simp_all add: nfs3Setattr_def nfs3Write_def nfs3Create_def nfs3Mkdir_def nfs3Symlink_def nfs3Remove_def
      nfs3Rename_def keep_state split: prod.split)

interpretation nfs2_program: rpc_program "nfs2Procs sv" for sv
proof
  fix c h s
  assume "nfs2Procs sv c = Some h"
  then show "undone s (h s)"
    by (auto simp: nfs2Procs_def split: if_splits option.splits intro: keep_state quiet_undone)
qed (simp add: nfs2Procs_def)

interpretation nfs3_program: rpc_program "nfs3Procs sv" for sv
proof
  fix c h s
  assume "nfs3Procs sv c = Some h"
  then show "undone s (h s)"
    by (auto simp: nfs3Procs_def rofs3_def notsupp3_def split: if_splits option.splits intro: keep_state quiet_undone)
qed (simp add: nfs3Procs_def split: option.split)

section \<open>The server's table\<close>

lemma good_server_table: "good_table (server_table sv)"
  unfolding server_table_def programs_def
  by (simp add: portmap_program.good_add mount_program.good_add nfs2_program.good_add nfs3_program.good_add good_empty)

lemma procs_server_table:
  "procs (server_table sv) (p, v, c) =
     (if p = progPortmap \<and> v = 2 then portmapProcs (with_verifier sv) c
      else if p = progMount \<and> (v = 1 \<or> v = 3) then mountProcs (with_verifier sv) v c
      else if p = progNFS \<and> v = 2 then nfs2Procs (with_verifier sv) c
      else if p = progNFS \<and> v = 3 then nfs3Procs (with_verifier sv) c
      else None)"
  by (simp add: server_table_def programs_def add_program_def Let_def progPortmap_def progMount_def progNFS_def
      split: prod.split)

lemma versions_server_table:
  "versions (server_table sv) p =
     (if p = progPortmap then Some (2, 2) else if p = progMount then Some (1, 3)
      else if p = progNFS then Some (2, 3) else None)"
  by (simp add: server_table_def programs_def add_program_def Let_def progPortmap_def progMount_def progNFS_def)

text \<open>
  Whatever dispatch does to the state a handler of the table did, on arguments
  that it decoded.
\<close>

lemma dispatch_state:
  assumes "dispatch t s pkt = (reply, s')"
  shows "s' = s \<or> (\<exists>k h r. procs t k = Some h \<and> s' = snd (fst (run_state (h s) r)) \<and>
    (xr_err (snd (run_state (h s) r)) \<or> (\<exists>body. reply = Some (replyAccepted (word_at pkt 0) success body))))"
proof (cases "8 \<le> length pkt")
  case True
  from assms call_prefix [OF True] show ?thesis
    by (auto simp: dispatch_def Let_def split: prod.splits option.splits if_splits) (metis fst_conv snd_conv)+
qed (use assms in \<open>simp add: dispatch_short\<close>)

lemma word_at_accepted: "word_at (replyAccepted xid st body) 20 = st"
  using word_at_put32 [of "put32 xid @ put32 replyMsg @ put32 msgAccepted @ put32 0 @ put32 0" st body]
  by (simp add: replyAccepted_eq)

lemma dispatch_good_table:
  assumes "good_table t" and "dispatch t s pkt = (reply, s')"
    and "\<forall>b. reply = Some b \<longrightarrow> word_at b 20 \<noteq> success"
  shows "s' = s"
  using dispatch_state [OF assms(2)]
proof (elim disjE exE conjE)
  fix k h r
  assume "procs t k = Some h" "s' = snd (fst (run_state (h s) r))" "xr_err (snd (run_state (h s) r))"
  with assms(1) show "s' = s" unfolding good_table_def undone_def by blast
qed (use assms(3) word_at_accepted in auto)

section \<open>A read-only export\<close>

lemma with_verifier_FS [simp]: "sv_FS (with_verifier sv) = sv_FS sv"
  by (simp add: with_verifier_def)

lemma quiet_readonly:
  assumes "fs_WriteFS (sv_FS sv) = None" and "procs (server_table sv) k = Some h"
  shows "quiet s (h s)"
proof -
  obtain p v c where k: "k = (p, v, c)" by (cases k)
  let ?sv = "with_verifier sv"
  have "nfs2Procs ?sv c = Some h \<Longrightarrow> quiet s (h s)"
    using assms(1) by (auto simp: nfs2Procs_def split: if_splits intro: keep_state)
  moreover have "nfs3Procs ?sv c = Some h \<Longrightarrow> quiet s (h s)"
    using assms(1) by (auto simp: nfs3Procs_def rofs3_def split: if_splits intro: keep_state)
  ultimately show ?thesis
    using assms(2) quiet_portmap quiet_mount unfolding k procs_server_table by (metis option.distinct(1))
qed

text \<open>The procedures that change an export, by version.\<close>

definition changes_export :: "u32 \<Rightarrow> u32 \<Rightarrow> bool" where
  "changes_export vers pr \<longleftrightarrow>
     vers = 2 \<and> pr \<in> {2, 8, 9, 10, 11, 12, 13, 14, 15} \<or>
     vers = 3 \<and> pr \<in> {2, 7, 8, 9, 10, 11, 12, 13, 14, 15, 21}"

lemma rofs_body: "word_at (w_new (w_uint32 st # fs)) 0 = st" if "\<forall>f \<in> set fs. f = w_bool False"
proof -
  have "w_seq fs w = w @ concat (map (\<lambda>_. put32 0) fs)" for w
    using that by (induction fs arbitrary: w) (auto simp: w_seq_def w_bool_def w_uint32_def)
  then obtain rest where "w_new (w_uint32 st # fs) = put32 st @ rest"
    by (auto simp: w_new_def w_seq_def w_uint32_def)
  then show ?thesis using word_at_put32 [of "[]" st rest] by simp
qed

lemma refused_readonly:
  assumes "fs_WriteFS (sv_FS sv) = None" and "changes_export vers pr"
  shows "\<exists>h. procs (server_table sv) (progNFS, vers, pr) = Some h \<and>
    (\<forall>s r. \<exists>body. run_state (h s) r = ((body, s), r) \<and> word_at body 0 = nfsErrROFS)"
proof -
  have "\<exists>body. run_state (nfsROFS s) r = ((body, s), r) \<and> word_at body 0 = nfsErrROFS"
    "\<exists>body. run_state (rofs3 n s) r = ((body, s), r) \<and> word_at body 0 = nfsErrROFS" for s :: 'b and r n
    by (simp_all add: nfsROFS_def rofs3_def refuse3_def rofs_body)
  with assms show ?thesis
    by (auto simp: changes_export_def procs_server_table nfs2Procs_def nfs3Procs_def progPortmap_def progMount_def
        progNFS_def)
qed

section \<open>Calls as clients send them\<close>

text \<open>A call with credential and verifier of flavour AUTH_NONE or AUTH_UNIX, both within RFC limits.\<close>

definition rpc_call :: "u32 \<Rightarrow> u32 \<Rightarrow> u32 \<Rightarrow> u32 \<Rightarrow> u32 \<times> bytes \<Rightarrow> u32 \<times> bytes \<Rightarrow> bytes \<Rightarrow> bytes" where
  "rpc_call xid prog vers pr cred verf args =
     w_new [w_uint32 xid, w_uint32 callMsg, w_uint32 2, w_uint32 prog, w_uint32 vers, w_uint32 pr,
            w_uint32 (fst cred), w_opaque (snd cred), w_uint32 (fst verf), w_opaque (snd verf), w_fixed args]"

lemma at_input_skipOpaque:
  assumes "at_input r (w_opaque p [] @ rest)" and "length (xr_b r) < 2 ^ 32"
  shows "\<exists>r'. run_state skipOpaque r = ((), r') \<and> at_input r' rest \<and> xr_b r' = xr_b r"
proof -
  let ?pad = "replicate (padded (length p) - length p) (0 :: byte)"
  have at: "at_input r (put32 (of_nat (length p)) @ (p @ ?pad) @ rest)" using assms(1) by (simp add: w_opaque_eq)
  note n = at_input_uint32 [OF at]
  let ?r = "r\<lparr>xr_off := xr_off r + 4\<rparr>"
  note b = at_input_bytes [OF n(2)]
  have len: "length (p @ ?pad) = padded (length p)" using padded_ge by simp
  have "length p \<le> length (xr_b r)" "padded (length p) + xr_off ?r \<le> length (xr_b r)"
    using at_input_length [OF at] len padded_ge [of "length p"] by simp_all
  moreover have "unat (of_nat (length p) :: u32) = length p" "unat (of_nat (length (xr_b r)) :: u32) = length (xr_b r)"
    using calculation(1) assms(2) by (simp_all add: unat_of_nat)
  ultimately have "run_state skipOpaque r = ((), ?r\<lparr>xr_off := xr_off ?r + padded (length p)\<rparr>)"
    using n at by (simp add: skipOpaque_def Let_def at_input_def word_less_nat_alt not_less)
  with b(2) len show ?thesis by simp
qed

lemma rpc_call_eq:
  "rpc_call xid prog vers pr cred verf args =
     put32 xid @ put32 callMsg @ put32 2 @ put32 prog @ put32 vers @ put32 pr @ put32 (fst cred) @ w_opaque (snd cred) [] @
     put32 (fst verf) @ w_opaque (snd verf) [] @ args"
proof -
  have "w_opaque p w = w @ w_opaque p []" if "w \<noteq> []" "4 dvd length w" for p w
    using w_opaque_eq [OF that(2)] w_opaque_eq [of "[]"] by simp
  moreover have "4 dvd length (w_opaque p [])" for p
    using padded_4(1) padded_ge by (simp add: w_opaque_eq)
  moreover have "put32 v \<noteq> []" for v
    by (simp add: put32_def)
  ultimately show ?thesis by (simp add: rpc_call_def w_new_def w_seq_def w_uint32_def w_fixed_def)
qed

lemma rpc_call_header:
  assumes "length (rpc_call xid prog vers pr cred verf args) < 2 ^ 32"
  shows "\<exists>r. run_state call_header
      \<lparr>xr_b = rpc_call xid prog vers pr cred verf args, xr_off = 12, xr_err = False\<rparr> = ((prog, vers, pr), r) \<and>
    at_input r args"
proof -
  let ?r = "\<lparr>xr_b = rpc_call xid prog vers pr cred verf args, xr_off = 12, xr_err = False\<rparr>"
  let ?tail = "put32 (fst verf) @ w_opaque (snd verf) [] @ args"
  have "at_input ?r (put32 prog @ put32 vers @ put32 pr @ put32 (fst cred) @ w_opaque (snd cred) [] @ ?tail)"
    by (simp add: at_input_def rpc_call_eq)
  note a = at_input_uint32 [OF this]
  note b = at_input_uint32 [OF a(2)]
  note c = at_input_uint32 [OF b(2)]
  note d = at_input_uint32 [OF c(2)]
  obtain r1 where r1: "run_state skipOpaque (?r\<lparr>xr_off := 28\<rparr>) = ((), r1)" "at_input r1 ?tail" "xr_b r1 = xr_b ?r"
    using at_input_skipOpaque [OF d(2)] assms by auto
  note e = at_input_uint32 [OF r1(2)]
  obtain r2 where r2: "run_state skipOpaque (r1\<lparr>xr_off := xr_off r1 + 4\<rparr>) = ((), r2)" "at_input r2 args"
    using at_input_skipOpaque [OF e(2)] assms r1(3) by auto
  from a b c d e r1 r2 show ?thesis by (simp add: call_header_def)
qed

lemma dispatch_call:
  assumes "length (rpc_call xid prog vers pr cred verf args) < 2 ^ 32"
  obtains r where "at_input r args" and
    "dispatch t s (rpc_call xid prog vers pr cred verf args) =
       (case versions t prog of
          None \<Rightarrow> (Some (replyAccepted xid progUnavail []), s)
        | Some (lo, hi) \<Rightarrow>
            if procs t (prog, vers, 0) = None
            then (Some (replyAccepted xid progMismatch (w_new [w_uint32 lo, w_uint32 hi])), s)
            else case procs t (prog, vers, pr) of
                   None \<Rightarrow> (Some (replyAccepted xid procUnavail []), s)
                 | Some h \<Rightarrow>
                     let ((body, s'), r5) = run_state (h s) r in
                     if xr_err r5 then (Some (replyAccepted xid garbageArgs []), s')
                     else (Some (replyAccepted xid success body), s'))"
proof -
  let ?c = "rpc_call xid prog vers pr cred verf args"
  obtain r where r: "run_state call_header \<lparr>xr_b = ?c, xr_off = 12, xr_err = False\<rparr> = ((prog, vers, pr), r)" "at_input r args"
    using rpc_call_header [OF assms] by blast
  have w: "word_at ?c 0 = xid" "word_at ?c 4 = callMsg" "word_at ?c 8 = 2"
    using word_at_put32 [of "[]" xid] word_at_put32 [of "put32 xid" callMsg] word_at_put32 [of "put32 xid @ put32 callMsg" 2]
    by (simp_all add: rpc_call_eq)
  have len: "12 \<le> length ?c" by (simp add: rpc_call_eq)
  then have "run_state x_uint32 \<lparr>xr_b = ?c, xr_off = 8, xr_err = False\<rparr> = (2, \<lparr>xr_b = ?c, xr_off = 12, xr_err = False\<rparr>)"
    by (simp add: x_uint32_def w)
  moreover have "\<not> xr_err r" using r(2) by (simp add: at_input_def)
  ultimately show thesis
    using r len w call_prefix [of ?c] by (intro that [of r]) (simp_all add: dispatch_def)
qed

lemma beyond_tables: "pr > 17 \<Longrightarrow> nfs2Procs sv pr = None" "pr > 21 \<Longrightarrow> nfs3Procs sv pr = None"
  by (auto simp: nfs2Procs_def nfs3Procs_def split: option.split)

section \<open>Properties\<close>

text \<open>
  C3: A call that is not answered with SUCCESS changed nothing. Whatever bytes
  arrive, when the server sends no reply, denies the call, or answers it with
  PROG_UNAVAIL, PROG_MISMATCH, PROC_UNAVAIL or GARBAGE_ARGS, the exported
  filesystem is as it was: no handler of any of the five programs acts on
  arguments that did not decode.
\<close>

theorem refused_calls_change_nothing:
  assumes "dispatch (server_table sv) s pkt = (reply, s')"
    and "\<forall>b. reply = Some b \<longrightarrow> word_at b 20 \<noteq> success"
  shows "s' = s"
  using dispatch_good_table [OF good_server_table assms] .

theorem refused_calls_change_nothing_witness:
  "dispatch (server_table example_server) () [1, 2, 3] = (None, ()) \<and> () = ()"
  using refused_calls_change_nothing [of example_server "()" "[1, 2, 3]" None "()"] by (simp add: dispatch_short)

text \<open>
  C20: A filesystem that cannot be written is never written. On a server whose FS
  is no WriteFS every datagram leaves the state as it is, and each procedure of
  NFS version 2 and 3 that would change the export is served and answers ROFS.
\<close>

theorem readonly_server:
  assumes "fs_WriteFS (sv_FS sv) = None"
  shows "snd (dispatch (server_table sv) s pkt) = s \<and>
    (changes_export vers pr \<longrightarrow>
       (\<exists>h. procs (server_table sv) (progNFS, vers, pr) = Some h \<and>
          (\<forall>s r. \<exists>body. run_state (h s) r = ((body, s), r) \<and> word_at body 0 = nfsErrROFS)))"
proof -
  obtain reply s' where d: "dispatch (server_table sv) s pkt = (reply, s')" by (cases "dispatch (server_table sv) s pkt")
  from dispatch_state [OF d] quiet_readonly [OF assms] have "s' = s" unfolding quiet_def by blast
  with d refused_readonly [OF assms, of vers pr] show ?thesis by simp
qed

theorem readonly_server_witness:
  "snd (dispatch (server_table example_server) () [1]) = () \<and>
   (\<exists>h. procs (server_table example_server) (progNFS, 3, 7) = Some h \<and>
      (\<forall>s r. \<exists>body. run_state (h s) r = ((body, s), r) \<and> word_at body 0 = nfsErrROFS))"
  using readonly_server [of example_server "()" "[1]" 3 7] by (simp add: example_server_def changes_export_def)



end
