(* ===== verification/Nfs_Client.thy ===== *)
theory Nfs_Client
  imports Nfs3
begin

text \<open>
  NFS version 3 seen from a client: requests laid out as RFC 1813 has them,
  replies decoded with the reader of src/nfs/xdr.go, and the two loops every
  client runs, reading a file until eof and listing a directory until eof.
\<close>

section \<open>Writers of whole words\<close>

definition word_writer :: "xdrWriter \<Rightarrow> bool" where
  "word_writer f \<longleftrightarrow> 4 dvd length (f []) \<and> (\<forall>w. 4 dvd length w \<longrightarrow> f w = w @ f [])"

lemma word_writerD:
  assumes "word_writer f"
  shows "4 dvd length (f [])" and "4 dvd length w \<Longrightarrow> f w = w @ f []"
  using assms unfolding word_writer_def by blast+

named_theorems words

lemma word_writer_uint32 [words]: "word_writer (w_uint32 v)"
  by (simp add: word_writer_def w_uint32_def)

lemma word_writer_uint64 [words]: "word_writer (w_uint64 v)"
  by (simp add: word_writer_def w_uint64_def)

lemma word_writer_bool [words]: "word_writer (w_bool v)"
  by (simp add: word_writer_def w_bool_def w_uint32_def)

lemma word_writer_fixed [words]: "4 dvd length p \<Longrightarrow> word_writer (w_fixed p)"
  by (simp add: word_writer_def w_fixed_def)

lemma word_writer_opaque [words]: "word_writer (w_opaque p)"
  using padded_4(1) padded_ge by (simp add: word_writer_def w_opaque_eq)

lemma w_seq_words:
  assumes "\<forall>f \<in> set fs. word_writer f"
  shows "4 dvd length w \<Longrightarrow> w_seq fs w = w @ concat (map (\<lambda>f. f []) fs)"
    and "4 dvd length (concat (map (\<lambda>f. f []) fs))"
proof -
  show "4 dvd length (concat (map (\<lambda>f. f []) fs))"
    using assms by (induction fs) (simp_all add: word_writerD(1))
  show "4 dvd length w \<Longrightarrow> w_seq fs w = w @ concat (map (\<lambda>f. f []) fs)"
    using assms
  proof (induction fs arbitrary: w)
    case (Cons f fs)
    then have f: "word_writer f" by simp
    have "w_seq (f # fs) w = w_seq fs (w @ f [])"
      using word_writerD(2) [OF f Cons.prems(1)] by (simp add: w_seq_def)
    with Cons.IH [of "w @ f []"] Cons.prems word_writerD(1) [OF f] show ?case by simp
  qed (simp add: w_seq_def)
qed

lemma word_writer_seq [words]: "\<forall>f \<in> set fs. word_writer f \<Longrightarrow> word_writer (w_seq fs)"
  using w_seq_words [of fs] by (simp add: word_writer_def)

lemma w_seq_new: "\<forall>f \<in> set fs. word_writer f \<Longrightarrow> w_seq fs [] = concat (map (\<lambda>f. f []) fs)"
  by (simp add: w_seq_words(1))

lemma w_new_words: "\<forall>f \<in> set fs. word_writer f \<Longrightarrow> w_new fs = concat (map (\<lambda>f. f []) fs)"
  by (simp add: w_new_def w_seq_new)

section \<open>Attributes on the wire\<close>

lemma writeTime3_words [words]: "word_writer (writeTime3 t)"
  unfolding writeTime3_def by (rule words) (simp add: words)

lemma length_writeTime3 [simp]: "length (writeTime3 t []) = 8"
  by (simp add: writeTime3_def w_seq_def w_uint32_def)

lemma writeFattr3_words [words]: "word_writer (writeFattr3 n)"
  unfolding writeFattr3_def Let_def by (rule words) (simp add: words)

lemma length_writeFattr3 [simp]: "length (writeFattr3 n []) = 84"
  unfolding writeFattr3_def Let_def
  by (subst w_seq_new) (simp_all add: words, simp add: w_uint32_def w_uint64_def)

lemma writePostOp_words [words]: "word_writer (writePostOp no)"
  unfolding writePostOp_def by (cases no) (auto simp: words)

lemma writePostOp_Some: "writePostOp (Some n) [] = put32 1 @ writeFattr3 n []"
  unfolding writePostOp_def option.case by (subst w_seq_new) (simp_all add: words, simp add: w_bool_def w_uint32_def)

text \<open>What a client does with a post_op_attr it has no use for.\<close>

definition c_postop :: "unit xdr" where
  "c_postop = do {
     p \<leftarrow> x_bool;
     _ \<leftarrow> (if p then x_bytes 84 else State_Monad.return []);
     State_Monad.return ()
   }"

text \<open>A decoder that reads exactly \<open>bs\<close> and returns \<open>v\<close>.\<close>

definition reads :: "'a xdr \<Rightarrow> bytes \<Rightarrow> 'a \<Rightarrow> bool" where
  "reads m bs v \<longleftrightarrow> (\<forall>r rest. at_input r (bs @ rest) \<and> length (xr_b r) < 2 ^ 32 \<longrightarrow>
     (\<exists>r'. run_state m r = (v, r') \<and> at_input r' rest \<and> xr_b r' = xr_b r))"

named_theorems decoding

lemma reads_return [decoding]: "reads (State_Monad.return v) [] v"
  by (simp add: reads_def)

lemma reads_bind:
  assumes "reads m bs v" and "reads (f v) cs u"
  shows "reads (State_Monad.bind m f) (bs @ cs) u"
  unfolding reads_def
proof (intro allI impI)
  fix r rest
  assume r: "at_input r ((bs @ cs) @ rest) \<and> length (xr_b r) < 2 ^ 32"
  then obtain r1 where r1: "run_state m r = (v, r1)" "at_input r1 (cs @ rest)" "xr_b r1 = xr_b r"
    using assms(1) unfolding reads_def by (metis append_assoc)
  with r obtain r2 where "run_state (f v) r1 = (u, r2)" "at_input r2 rest" "xr_b r2 = xr_b r"
    using assms(2) unfolding reads_def by metis
  with r1 show "\<exists>r'. run_state (State_Monad.bind m f) r = (u, r') \<and> at_input r' rest \<and> xr_b r' = xr_b r" by simp
qed

lemma reads_else: "\<not> c \<Longrightarrow> reads b bs v \<Longrightarrow> reads (if c then a else b) bs v"
  by simp

lemma reads_uint32 [decoding]: "reads x_uint32 (put32 v) v"
  unfolding reads_def using at_input_uint32 by fastforce

lemma reads_bytes: "length p = n \<Longrightarrow> reads (x_bytes n) p p"
  unfolding reads_def using at_input_bytes by fastforce

lemma reads_uint64 [decoding]: "reads x_uint64 (put64 v) v"
proof -
  have "reads x_uint64 (put32 (ucast (drop_bit 32 v)) @ put32 (ucast v) @ []) (get64 (ucast (drop_bit 32 v)) (ucast v))"
    unfolding x_uint64_def by (rule reads_bind [OF reads_uint32 reads_bind [OF reads_uint32 reads_return]])
  then show ?thesis by (simp add: put64_def get64_split)
qed

lemma reads_bool [decoding]: "reads x_bool (w_bool v []) v"
proof -
  have "reads x_bool (put32 (if v then 1 else 0) @ []) ((if v then 1 else 0 :: u32) \<noteq> 0)"
    unfolding x_bool_def by (rule reads_bind [OF reads_uint32 reads_return])
  then show ?thesis by (cases v) (simp_all add: w_bool_def w_uint32_def)
qed

lemma xr_b_opaque: "xr_b (snd (run_state (x_opaque mx) r)) = xr_b r"
  by (simp add: x_opaque_def x_uint32_def Let_def)

lemma reads_opaque: "length p \<le> mx \<Longrightarrow> mx < 2 ^ 32 \<Longrightarrow> reads (x_opaque mx) (w_opaque p []) p"
  unfolding reads_def using at_input_opaque xr_b_opaque by (metis snd_conv)

lemma reads_str [decoding]: "reads x_str (w_opaque p []) p"
proof -
  have "xr_b (snd (run_state x_str r)) = xr_b r" for r by (simp add: x_str_def xr_b_opaque)
  then show ?thesis unfolding reads_def using at_input_str by (metis snd_conv)
qed

lemma reads_postop [decoding]: "reads c_postop (writePostOp (Some n) []) ()"
proof -
  have "reads c_postop (w_bool True [] @ writeFattr3 n [] @ []) ()"
    unfolding c_postop_def
    by (rule reads_bind [OF reads_bool], unfold if_True, rule reads_bind [OF reads_bytes], simp, rule reads_return)
  then show ?thesis by (simp add: writePostOp_Some w_bool_def w_uint32_def)
qed

text \<open>A whole message.\<close>

definition decode_all :: "'a xdr \<Rightarrow> bytes \<Rightarrow> 'a" where
  "decode_all m bs = fst (run_state m \<lparr>xr_b = bs, xr_off = 0, xr_err = False\<rparr>)"

lemma decode_all_reads: "reads m bs v \<Longrightarrow> length bs < 2 ^ 32 \<Longrightarrow> decode_all m bs = v"
  unfolding reads_def decode_all_def at_input_def
  by (drule spec [of _ "\<lparr>xr_b = bs, xr_off = 0, xr_err = False\<rparr>"], drule spec [of _ "[]"]) auto

section \<open>Reading a file\<close>

definition read3_args :: "bytes \<Rightarrow> u64 \<Rightarrow> u32 \<Rightarrow> bytes" where
  "read3_args fh offset cnt = w_new [w_opaque fh, w_uint64 offset, w_uint32 cnt]"

text \<open>The data and the eof flag of a READ reply, or none when the status is not OK.\<close>

definition read3_result :: "(bytes \<times> bool) option xdr" where
  "read3_result = do {
     st \<leftarrow> x_uint32;
     if st \<noteq> nfsOK then State_Monad.return None
     else do {
       _ \<leftarrow> c_postop;
       _ \<leftarrow> x_uint32;
       eof \<leftarrow> x_bool;
       data \<leftarrow> x_str;
       State_Monad.return (Some (data, eof))
     }
   }"

fun client_read :: "nat \<Rightarrow> ('k, 's) Server \<Rightarrow> 's \<Rightarrow> bytes \<Rightarrow> u32 \<Rightarrow> nat \<Rightarrow> bytes option" where
  "client_read 0 sv s fh cnt off = None"
| "client_read (Suc fuel) sv s fh cnt off =
     (let reply = fst (decode_all (nfs3Read sv s) (read3_args fh (of_nat off) cnt))
      in case decode_all read3_result reply of
           None \<Rightarrow> None
         | Some (data, eof) \<Rightarrow>
             if eof then Some data
             else map_option ((@) data) (client_read fuel sv s fh cnt (off + length data)))"

declare client_read.simps [simp del]

lemma reads_read3_args:
  "length fh \<le> 64 \<Longrightarrow> reads (nfs3Read sv s) (read3_args fh offset cnt)
    (case node3 sv fh s of
       Inl st \<Rightarrow> fail3 st (None :: 'k Node option)
     | Inr n \<Rightarrow>
         if ftype (n_Mode n) = nfDIR then fail3 nfs3ErrIsdir (Some n)
         else if ftype (n_Mode n) \<noteq> nfREG then fail3 nfs3ErrInval (Some n)
         else
           let sz = of_int (max (n_Size n) 0) :: u64
           in if offset < sz then
                let (got, err) = fs_ReadAt (sv_FS sv) n (unat (min cnt maxRead3)) (sint offset) s
                in if err \<noteq> None \<and> got = [] then fail3 (statusFor err) (Some n)
                   else read3_ok n offset sz got
              else read3_ok n offset sz [], s)"
  for sv :: "('k, 's) Server"
proof -
  assume fh: "length fh \<le> 64"
  have "read3_args fh offset cnt = w_opaque fh [] @ put64 offset @ put32 cnt @ []"
    unfolding read3_args_def by (subst w_new_words) (simp_all add: words, simp add: w_uint64_def w_uint32_def)
  then show ?thesis
    unfolding nfs3Read_def readFH3_def
    by (simp only: , intro reads_bind [OF reads_opaque] reads_bind [OF reads_uint64] reads_bind [OF reads_uint32] reads_return)
       (use fh in simp_all)
qed

lemma reads_read3_ok:
  "reads read3_result (read3_ok n offset sz data) (Some (data, sz \<le> offset + of_nat (length data)))"
proof -
  have "read3_ok n offset sz data =
    put32 nfsOK @ writePostOp (Some n) [] @ put32 (of_nat (length data)) @ w_bool (sz \<le> offset + of_nat (length data)) [] @
      w_opaque data [] @ []"
    unfolding read3_ok_def by (subst w_new_words) (simp_all add: words, simp add: w_uint32_def)
  then show ?thesis
    unfolding read3_result_def
    by (simp only: , intro reads_bind [OF reads_uint32] reads_bind [OF reads_postop] reads_bind [OF reads_bool]
        reads_bind [OF reads_str] reads_return reads_else) simp
qed

lemma word_writer_length: "length (w_opaque p []) = 4 + padded (length p)"
  using padded_ge by (simp add: w_opaque_eq)

lemma padded_le: "padded n \<le> n + 3"
  by (simp add: padded_def)

lemma length_read3_args: "length fh \<le> 64 \<Longrightarrow> length (read3_args fh off cnt) < 2 ^ 32"
  unfolding read3_args_def using padded_le [of "length fh"]
  by (subst w_new_words) (simp_all add: words, simp add: w_uint64_def w_uint32_def word_writer_length)

lemma length_read3_ok: "length data \<le> 32768 \<Longrightarrow> length (read3_ok n off sz data) < 2 ^ 32"
  unfolding read3_ok_def using padded_le [of "length data"]
  by (subst w_new_words)
     (simp_all add: words, simp add: w_uint32_def w_bool_def word_writer_length writePostOp_Some)

text \<open>One READ of a file with content \<open>c\<close>.\<close>

definition file_at :: "('k, 's) Server \<Rightarrow> 's \<Rightarrow> bytes \<Rightarrow> bytes \<Rightarrow> bool" where
  "file_at sv s fh c \<longleftrightarrow>
     (\<exists>n. resolve sv fh s = Inr n \<and> ftype (n_Mode n) = nfREG \<and> n_Size n = int (length c) \<and>
       (\<forall>k off. 0 \<le> off \<and> off < int (length c) \<longrightarrow>
          fst (fs_ReadAt (sv_FS sv) n k off s) = take k (drop (nat off) c)))"

lemma read3_chunk:
  assumes "file_at sv s fh c" and "length fh \<le> 64" and "length c < 2 ^ 63" and "off \<le> length c" and "0 < cnt"
  shows "decode_all read3_result (fst (decode_all (nfs3Read sv s) (read3_args fh (of_nat off) cnt))) =
    (let data = take (min (unat cnt) 32768) (drop off c) in Some (data, length c \<le> off + length data))"
proof -
  obtain n where n: "resolve sv fh s = Inr n" "ftype (n_Mode n) = nfREG" "n_Size n = int (length c)"
    "\<And>k j. 0 \<le> j \<Longrightarrow> j < int (length c) \<Longrightarrow> fst (fs_ReadAt (sv_FS sv) n k j s) = take k (drop (nat j) c)"
    using assms(1) unfolding file_at_def by blast
  let ?k = "min (unat cnt) 32768" and ?o = "of_nat off :: u64" and ?sz = "of_nat (length c) :: u64"
  let ?data = "take ?k (drop off c)"
  have k: "unat (min cnt maxRead3) = ?k" by (simp add: min_def maxRead3_def word_le_nat_alt)
  have big: "off < 2 ^ 63" "off < 2 ^ 64" "length c < 2 ^ 64" using assms(3,4) by simp_all
  have o: "unat ?o = off" "unat ?sz = length c" using big by (simp_all add: unat_of_nat)
  have so: "sint ?o = int off" using big(1) by (simp add: signed_of_nat signed_take_bit_int_eq_self)
  define m where "m = off + length ?data"
  have "m < 2 ^ 64" using assms(4) big(3) by (simp add: m_def)
  then have "unat (of_nat m :: u64) = m" by (simp add: unat_of_nat)
  moreover have "?o + of_nat (length ?data) = of_nat m" by (simp add: m_def)
  ultimately have eof: "(?sz \<le> ?o + of_nat (length ?data)) = (length c \<le> off + length ?data)"
    by (simp only: word_le_nat_alt o m_def)
  have node: "node3 sv fh s = Inr n" by (simp add: node3_def n(1))
  have "fst (decode_all (nfs3Read sv s) (read3_args fh ?o cnt)) = read3_ok n ?o ?sz ?data"
  proof (cases "off < length c")
    case True
    obtain err where ra: "fs_ReadAt (sv_FS sv) n ?k (int off) s = (?data, err)"
      using n(4) [of "int off" ?k] True by (cases "fs_ReadAt (sv_FS sv) n ?k (int off) s") simp
    have "?k \<noteq> 0" using assms(5) by (simp add: word_greater_zero_iff unat_gt_0)
    then show ?thesis
      using decode_all_reads [OF reads_read3_args [OF assms(2)] length_read3_args [OF assms(2)], of sv s ?o cnt]
        node n(2,3) True o k so ra by (simp add: nfREG_def nfDIR_def word_less_nat_alt Let_def min_def)
  next
    case False
    then show ?thesis
      using decode_all_reads [OF reads_read3_args [OF assms(2)] length_read3_args [OF assms(2)], of sv s ?o cnt]
        node n(2,3) o by (simp add: nfREG_def nfDIR_def word_less_nat_alt Let_def)
  qed
  moreover have "length ?data \<le> 32768" by simp
  ultimately show ?thesis
    using decode_all_reads [OF reads_read3_ok length_read3_ok, of ?data n ?o ?sz] eof by (simp only: Let_def)
qed

lemma take_drop_length: "take k xs @ drop (length (take k xs)) xs = xs"
  by (cases "k \<le> length xs") simp_all

lemma client_read_content:
  assumes "file_at sv s fh c" and "length fh \<le> 64" and "length c < 2 ^ 63" and "0 < cnt"
  shows "off \<le> length c \<Longrightarrow> length c - off < fuel \<Longrightarrow> client_read fuel sv s fh cnt off = Some (drop off c)"
proof (induction fuel arbitrary: off)
  case (Suc fuel)
  let ?data = "take (min (unat cnt) 32768) (drop off c)"
  have chunk: "decode_all read3_result (fst (decode_all (nfs3Read sv s) (read3_args fh (of_nat off) cnt))) =
    Some (?data, length c \<le> off + length ?data)"
    using read3_chunk [OF assms(1-3) Suc.prems(1) assms(4)] by (simp add: Let_def)
  show ?case
  proof (cases "length c \<le> off + length ?data")
    case True
    then have "?data = drop off c" using Suc.prems(1) by (intro take_all) (simp add: min_def split: if_splits)
    with chunk True show ?thesis by (simp only: client_read.simps Let_def option.case prod.case if_True)
  next
    case False
    have "0 < unat cnt" using assms(4) by (simp add: unat_gt_0 word_greater_zero_iff)
    with False have "0 < length ?data" by simp
    with False Suc.prems have "client_read fuel sv s fh cnt (off + length ?data) = Some (drop (off + length ?data) c)"
      by (intro Suc.IH) simp_all
    moreover have "?data @ drop (off + length ?data) c = drop off c"
      using take_drop_length [of "min (unat cnt) 32768" "drop off c"] by (simp only: drop_drop add.commute)
    ultimately show ?thesis
      using chunk False by (simp only: client_read.simps Let_def option.case prod.case if_False option.map)
  qed
qed simp

section \<open>Listing a directory\<close>

definition readdir3_args :: "bytes \<Rightarrow> u64 \<Rightarrow> u32 \<Rightarrow> bytes" where
  "readdir3_args fh cookie cnt = w_new [w_opaque fh, w_uint64 cookie, w_fixed zeroVerf, w_uint32 cnt]"

fun c_entries :: "nat \<Rightarrow> (bytes \<times> u64) list xdr" where
  "c_entries 0 = State_Monad.return []"
| "c_entries (Suc k) = do {
     more \<leftarrow> x_bool;
     if \<not> more then State_Monad.return []
     else do {
       _ \<leftarrow> x_uint64;
       name \<leftarrow> x_str;
       cookie \<leftarrow> x_uint64;
       es \<leftarrow> c_entries k;
       State_Monad.return ((name, cookie) # es)
     }
   }"

text \<open>The names and cookies of a READDIR reply and its eof flag; an entry takes more than four bytes.\<close>

definition readdir3_result :: "nat \<Rightarrow> ((bytes \<times> u64) list \<times> bool) option xdr" where
  "readdir3_result k = do {
     st \<leftarrow> x_uint32;
     if st \<noteq> nfsOK then State_Monad.return None
     else do {
       _ \<leftarrow> c_postop;
       _ \<leftarrow> x_bytes 8;
       es \<leftarrow> c_entries k;
       eof \<leftarrow> x_bool;
       State_Monad.return (Some (es, eof))
     }
   }"

fun client_list :: "nat \<Rightarrow> ('k, 's) Server \<Rightarrow> 's \<Rightarrow> bytes \<Rightarrow> u32 \<Rightarrow> u64 \<Rightarrow> bytes list option" where
  "client_list 0 sv s fh cnt cookie = None"
| "client_list (Suc fuel) sv s fh cnt cookie =
     (let reply = fst (decode_all (nfs3Readdir sv s) (readdir3_args fh cookie cnt))
      in case decode_all (readdir3_result (length reply)) reply of
           None \<Rightarrow> None
         | Some (es, eof) \<Rightarrow>
             if eof then Some (map fst es)
             else if es = [] then None
             else map_option ((@) (map fst es)) (client_list fuel sv s fh cnt (snd (List.last es))))"

declare client_list.simps [simp del]

text \<open>Entry \<open>i\<close> of a listing on the wire, and its size.\<close>

definition entry3 :: "'k DirEntry list \<Rightarrow> nat \<Rightarrow> bytes" where
  "entry3 ents i = w_bool True [] @ emit_readdir (ents ! i) (entryCookie ents i) []"

definition entry3_size :: "'k DirEntry \<Rightarrow> nat" where
  "entry3_size e = 4 + 8 + xdrStrLen (e_Name e) + 8"

lemma emit_readdir_words [words]: "word_writer (emit_readdir e c)"
  unfolding emit_readdir_def by (rule words) (simp add: words)

lemma emit_readdir_eq:
  "emit_readdir e c [] = put64 (a_Fileid (attrOf (e_Node e))) @ w_opaque (e_Name e) [] @ put64 c"
  unfolding emit_readdir_def by (subst w_seq_new) (simp_all add: words, simp add: w_uint64_def)

lemma length_entry3: "length (entry3 ents i) = entry3_size (ents ! i)"
  by (simp add: entry3_def entry3_size_def emit_readdir_eq word_writer_length xdrStrLen_def w_bool_def w_uint32_def)

lemma entry3_append:
  "4 dvd length w \<Longrightarrow> emit_readdir (ents ! i) (entryCookie ents i) (w_bool True w) = w @ entry3 ents i"
  using word_writerD(2) [OF word_writer_bool [of True], of w]
    word_writerD(2) [OF emit_readdir_words, of "w @ w_bool True []" "ents ! i" "entryCookie ents i"]
    word_writerD(1) [OF word_writer_bool [of True]]
  by (simp add: entry3_def)

lemma entry3_words: "4 dvd length (entry3 ents i)"
  unfolding entry3_def length_append by (intro dvd_add word_writerD(1) words)

text \<open>The page the loop of readdirEntries writes: entries \<open>i\<close> to \<open>j\<close>, as many as fit.\<close>

lemma readdir_loop_page:
  assumes "i \<le> length ents" and "4 dvd length w" and "start \<le> i"
    and "i < length ents \<and> i = start \<longrightarrow> int (entry3_size (ents ! i)) \<le> b"
  shows "\<exists>j. i \<le> j \<and> j \<le> length ents \<and> (i < length ents \<and> i = start \<longrightarrow> i < j) \<and>
    readdir_loop fits_readdir emit_readdir ents start i b w = Some (w @ concat (map (entry3 ents) [i..<j]), j) \<and>
    (i < j \<longrightarrow> int (length (concat (map (entry3 ents) [i..<j]))) \<le> b)"
  using assms
proof (induction "length ents - i" arbitrary: i b w)
  case 0
  then show ?case by (intro exI [of _ i]) (simp add: readdir_loop.simps)
next
  case (Suc m)
  then have i: "i < length ents" by simp
  let ?e = "ents ! i" and ?n = "int (entry3_size (ents ! i))"
  have fits: "fits_readdir b ?e = (if ?n > b then None else Some (b - ?n))"
    by (simp add: fits_readdir_def entry3_size_def Let_def)
  show ?case
  proof (cases "?n > b")
    case True
    with Suc.prems i have "i \<noteq> start" by auto
    with True fits i show ?thesis by (intro exI [of _ i]) (simp add: readdir_loop.simps)
  next
    case False
    let ?w = "w @ entry3 ents i"
    have step: "readdir_loop fits_readdir emit_readdir ents start i b w =
      readdir_loop fits_readdir emit_readdir ents start (i + 1) (b - ?n) ?w"
      using i False fits entry3_append [OF Suc.prems(2), of ents i] by (subst readdir_loop.simps) simp
    have m: "m = length ents - (i + 1)" using Suc.hyps(2) by simp
    obtain j where j: "i + 1 \<le> j" "j \<le> length ents"
      "readdir_loop fits_readdir emit_readdir ents start (i + 1) (b - ?n) ?w =
        Some (?w @ concat (map (entry3 ents) [i + 1..<j]), j)"
      "i + 1 < j \<longrightarrow> int (length (concat (map (entry3 ents) [i + 1..<j]))) \<le> b - ?n"
      using Suc.hyps(1) [of "i + 1" ?w "b - ?n"] m Suc.prems(2,3) i entry3_words [of ents i] by auto
    have "[i..<j] = i # [i + 1..<j]" using j(1) by (simp add: upt_conv_Cons)
    with j step False show ?thesis
      by (intro exI [of _ j]) (cases "i + 1 = j"; simp add: length_entry3)
  qed
qed

lemma reads_entries:
  assumes "length is < k"
  shows "reads (c_entries k) (concat (map (entry3 ents) is) @ w_bool False [])
    (map (\<lambda>i. (e_Name (ents ! i), entryCookie ents i)) is)"
  using assms
proof (induction "is" arbitrary: k)
  case Nil
  then obtain k' where "k = Suc k'" by (cases k) auto
  moreover have "reads (c_entries (Suc k')) (w_bool False [] @ []) []" for k'
    unfolding c_entries.simps by (rule reads_bind [OF reads_bool]) (simp add: reads_return)
  ultimately show ?case by simp
next
  case (Cons i "is")
  then obtain k' where k: "k = Suc k'" "length is < k'" by (cases k) auto
  let ?e = "ents ! i"
  have "reads (c_entries (Suc k'))
    (w_bool True [] @ put64 (a_Fileid (attrOf (e_Node ?e))) @ w_opaque (e_Name ?e) [] @ put64 (entryCookie ents i) @
      (concat (map (entry3 ents) is) @ w_bool False []) @ [])
    ((e_Name ?e, entryCookie ents i) # map (\<lambda>i. (e_Name (ents ! i), entryCookie ents i)) is)"
    unfolding c_entries.simps
    by (intro reads_bind [OF reads_bool] reads_else reads_bind [OF reads_uint64] reads_bind [OF reads_str]
        reads_bind [OF Cons.IH [OF k(2)]] reads_return) simp
  then show ?case by (simp only: k entry3_def [of ents i] emit_readdir_eq list.map concat.simps append_assoc append_Nil2)
qed

text \<open>
  Cookies a listing can be resumed by: positions, or the directory's own,
  strictly increasing and not zero.
\<close>

definition cookies_ok :: "'k DirEntry list \<Rightarrow> bool" where
  "cookies_ok ents \<longleftrightarrow>
     (\<forall>e \<in> set ents. e_Cookie e = 0) \<and> length ents < 2 ^ 64 \<or>
     (\<forall>e \<in> set ents. e_Cookie e \<noteq> 0) \<and> sorted_wrt (<) (map e_Cookie ents)"

lemma unat_cookie: "unat (ucast c :: u64) = unat (c :: u32)"
proof -
  have "unat c < 2 ^ 64" using unsigned_less [of c, where 'a = nat] by simp
  then show ?thesis by (simp add: unsigned_ucast_eq take_bit_nat_eq_self)
qed

lemma takeWhile_below:
  assumes "sorted_wrt (<) (map e_Cookie ents)" and "j < length ents"
  shows "length (takeWhile (\<lambda>e. \<not> (ucast (e_Cookie e) :: u64) > ucast (e_Cookie (ents ! j))) ents) = Suc j"
proof -
  have le: "e_Cookie (ents ! i) \<le> e_Cookie (ents ! j) \<longleftrightarrow> i \<le> j" if "i < length ents" for i
    using assms that sorted_wrt_nth_less [OF assms(1), of i j] sorted_wrt_nth_less [OF assms(1), of j i]
    by (cases i j rule: linorder_cases) auto
  have uc: "(ucast a :: u64) > ucast (b :: u32) \<longleftrightarrow> a > b" for a b :: u32
    by (simp only: word_less_nat_alt unat_cookie)
  have P: "takeWhile P ents = take (Suc j) ents" if "\<And>i. i < length ents \<Longrightarrow> P (ents ! i) \<longleftrightarrow> i \<le> j" for P
    using assms(2) that by (intro takeWhile_eq_take_P_nth) auto
  have "takeWhile (\<lambda>e. \<not> (ucast (e_Cookie e) :: u64) > ucast (e_Cookie (ents ! j))) ents = take (Suc j) ents"
    using le by (intro P) (simp add: uc not_less)
  with assms(2) show ?thesis by simp
qed

lemma readdirStart_0: "cookies_ok ents \<Longrightarrow> readdirStart ents 0 = 0"
proof (cases ents)
  case (Cons e es)
  moreover have "(0 :: u64) < ucast (e_Cookie e) \<longleftrightarrow> e_Cookie e \<noteq> 0"
    by (simp only: word_less_nat_alt unat_cookie) (simp add: unat_gt_0)
  moreover assume "cookies_ok ents"
  ultimately show ?thesis by (auto simp: readdirStart_def cookies_ok_def)
qed (simp add: readdirStart_def)

lemma readdirStart_next:
  assumes "cookies_ok ents" and "j < length ents"
  shows "readdirStart ents (entryCookie ents j) = Suc j"
proof -
  have ne: "ents \<noteq> []" "ents ! j \<in> set ents" using assms(2) by auto
  then have hd: "hd ents \<in> set ents" by simp
  from assms(1) show ?thesis
    unfolding cookies_ok_def
  proof (elim disjE conjE)
    assume z: "\<forall>e \<in> set ents. e_Cookie e = 0" "length ents < 2 ^ 64"
    then have "unat (of_nat (Suc j) :: u64) = Suc j" using assms(2) by (simp add: unat_of_nat del: of_nat_Suc)
    then show ?thesis using z ne hd assms(2) by (simp add: readdirStart_def entryCookie_def del: of_nat_Suc)
  next
    assume "\<forall>e \<in> set ents. e_Cookie e \<noteq> 0" "sorted_wrt (<) (map e_Cookie ents)"
    with takeWhile_below [of ents j] ne hd assms(2) show ?thesis by (simp add: readdirStart_def entryCookie_def)
  qed
qed

definition dir_at :: "('k, 's) Server \<Rightarrow> 's \<Rightarrow> bytes \<Rightarrow> 'k DirEntry list \<Rightarrow> bool" where
  "dir_at sv s fh ents \<longleftrightarrow>
     (\<exists>dir. resolve sv fh s = Inr dir \<and> ftype (n_Mode dir) = nfDIR \<and> fs_ReadDir (sv_FS sv) dir s = Inr ents)"

lemma length_zeroVerf [simp]: "length zeroVerf = 8"
  by (simp add: zeroVerf_def)

lemma reads_readdir3_args:
  assumes "length fh \<le> 64"
  shows "reads (nfs3Readdir sv s) (readdir3_args fh cookie cnt)
    (case readdirStart3 sv fh s of
       Inl w \<Rightarrow> w
     | Inr (dir, ents) \<Rightarrow>
         readdir_reply dir (readdirEntries ents cookie fits_readdir emit_readdir (uint cnt - int readdirFixed) []), s)"
    and "length (readdir3_args fh cookie cnt) < 2 ^ 32"
proof -
  have eq: "readdir3_args fh cookie cnt = w_opaque fh [] @ put64 cookie @ zeroVerf @ put32 cnt @ []"
    unfolding readdir3_args_def
    by (subst w_new_words) (simp_all add: words, simp add: w_uint64_def w_uint32_def w_fixed_def)
  then show "length (readdir3_args fh cookie cnt) < 2 ^ 32"
    using padded_le [of "length fh"] assms by (simp add: word_writer_length)
  show "reads (nfs3Readdir sv s) (readdir3_args fh cookie cnt)
    (case readdirStart3 sv fh s of
       Inl w \<Rightarrow> w
     | Inr (dir, ents) \<Rightarrow>
         readdir_reply dir (readdirEntries ents cookie fits_readdir emit_readdir (uint cnt - int readdirFixed) []), s)"
    unfolding eq nfs3Readdir_def readFH3_def
    by (intro reads_bind [OF reads_opaque] reads_bind [OF reads_uint64] reads_bind [OF reads_bytes]
        reads_bind [OF reads_uint32] reads_return) (use assms in simp_all)
qed

lemma page_words: "4 dvd length (concat (map (entry3 ents) is))"
  by (induction "is") (auto intro: dvd_add entry3_words)

lemma length_page: "length is \<le> length (concat (map (entry3 ents) is))"
  by (induction "is") (simp_all add: length_entry3 entry3_size_def)

text \<open>A reply with a given page, and what a client makes of it.\<close>

lemma readdir_reply_page:
  fixes ents :: "'k DirEntry list" and dir :: "'k Node"
  defines "page i j \<equiv> concat (map (entry3 ents) [i..<j])"
  defines "reply i j eof \<equiv> readdir_reply dir (Some (w_bool eof (w_bool False (page i j))))"
  shows "length (reply i j eof) = 108 + length (page i j)"
    and "length (reply i j eof) < 2 ^ 32 \<Longrightarrow> decode_all (readdir3_result (length (reply i j eof))) (reply i j eof) =
      Some (map (\<lambda>i. (e_Name (ents ! i), entryCookie ents i)) [i..<j], eof)"
proof -
  have "4 dvd length (page i j)" unfolding page_def by (rule page_words)
  then have b: "w_bool eof (w_bool False (page i j)) = page i j @ w_bool False [] @ w_bool eof []"
    "4 dvd length (w_bool eof (w_bool False (page i j)))"
    using word_writerD(2) [OF word_writer_bool [of False], of "page i j"] word_writerD(1) [OF word_writer_bool]
      word_writerD(2) [OF word_writer_bool [of eof], of "page i j @ w_bool False []"] by simp_all
  have eq: "reply i j eof = put32 nfsOK @ writePostOp (Some dir) [] @ zeroVerf @
    (page i j @ w_bool False []) @ w_bool eof [] @ []"
    unfolding reply_def readdir_reply_def option.case using b
    by (subst w_new_words) (simp_all add: words, simp add: w_uint32_def w_fixed_def)
  then show len: "length (reply i j eof) = 108 + length (page i j)"
    by (simp add: writePostOp_Some w_bool_def w_uint32_def)
  then have k: "length [i..<j] < length (reply i j eof)" using length_page [of "[i..<j]" ents] by (simp add: page_def)
  have "reads (readdir3_result (length (reply i j eof))) (reply i j eof)
    (Some (map (\<lambda>i. (e_Name (ents ! i), entryCookie ents i)) [i..<j], eof))"
    unfolding readdir3_result_def
    by (subst (2) eq, intro reads_bind [OF reads_uint32] reads_else reads_bind [OF reads_postop] reads_bind [OF reads_bytes]
        reads_bind [OF reads_entries [OF k, of ents, folded page_def]] reads_bind [OF reads_bool] reads_return) simp_all
  from decode_all_reads [OF this] show "length (reply i j eof) < 2 ^ 32 \<Longrightarrow>
    decode_all (readdir3_result (length (reply i j eof))) (reply i j eof) =
      Some (map (\<lambda>i. (e_Name (ents ! i), entryCookie ents i)) [i..<j], eof)" .
qed

lemma readdir3_page:
  assumes "dir_at sv s fh ents" and "length fh \<le> 64"
    and "\<forall>e \<in> set ents. readdirFixed + entry3_size e \<le> unat cnt" and "108 \<le> unat cnt"
    and "readdirStart ents cookie = i" and "i \<le> length ents"
  defines "reply \<equiv> fst (decode_all (nfs3Readdir sv s) (readdir3_args fh cookie cnt))"
  shows "\<exists>j \<le> length ents. i \<le> j \<and> (i < length ents \<longrightarrow> i < j) \<and> length reply \<le> unat cnt \<and>
    decode_all (readdir3_result (length reply)) reply =
      Some (map (\<lambda>i. (e_Name (ents ! i), entryCookie ents i)) [i..<j], length ents \<le> j)"
proof -
  obtain dir where dir: "resolve sv fh s = Inr dir" "ftype (n_Mode dir) = nfDIR" "fs_ReadDir (sv_FS sv) dir s = Inr ents"
    using assms(1) unfolding dir_at_def by blast
  let ?b = "uint cnt - int readdirFixed" and ?page = "\<lambda>j. concat (map (entry3 ents) [i..<j])"
  have "int (entry3_size (ents ! i)) \<le> ?b" if "i < length ents"
  proof -
    have "readdirFixed + entry3_size (ents ! i) \<le> unat cnt" using assms(3) nth_mem [OF that] by blast
    then have "int (readdirFixed + entry3_size (ents ! i)) \<le> int (unat cnt)" by (simp only: of_nat_le_iff)
    then show ?thesis by simp
  qed
  then obtain j where j: "i \<le> j" "j \<le> length ents" "i < length ents \<longrightarrow> i < j" "i < j \<longrightarrow> int (length (?page j)) \<le> ?b"
    "readdir_loop fits_readdir emit_readdir ents i i ?b [] = Some (?page j, j)"
    using readdir_loop_page [of i ents "[]" i ?b] assms(6) by auto
  have start: "readdirStart3 sv fh s = Inr (dir, ents)"
    using dir by (simp add: readdirStart3_def node3_def)
  have body: "readdirEntries ents cookie fits_readdir emit_readdir ?b [] =
    Some (w_bool (length ents \<le> j) (w_bool False (?page j)))"
    by (simp only: readdirEntries_def assms(5) Let_def j(5) option.case prod.case)
  have reply: "reply = readdir_reply dir (Some (w_bool (length ents \<le> j) (w_bool False (?page j))))"
    unfolding reply_def decode_all_reads [OF reads_readdir3_args [OF assms(2)]] start sum.case prod.case body by simp
  have "length (?page j) + 108 \<le> unat cnt"
  proof (cases "i < j")
    case True
    with j(4) have "int (length (?page j)) + 108 \<le> uint cnt" by (simp add: readdirFixed_def)
    then have "int (length (?page j) + 108) \<le> int (unat cnt)" by simp
    then show ?thesis by (simp only: of_nat_le_iff)
  qed (use assms(4) in simp)
  then have len: "length reply \<le> unat cnt" "length reply < 2 ^ 32"
    using readdir_reply_page(1) [of dir "length ents \<le> j" ents i j] unsigned_less [of cnt, where 'a = nat] by (simp_all add: reply)
  from readdir_reply_page(2) [of dir "length ents \<le> j" ents i j] len(2) have
    "decode_all (readdir3_result (length reply)) reply =
      Some (map (\<lambda>i. (e_Name (ents ! i), entryCookie ents i)) [i..<j], length ents \<le> j)" unfolding reply by simp
  with j len show ?thesis by blast
qed

lemma client_list_rest:
  assumes "dir_at sv s fh ents" and "length fh \<le> 64" and "cookies_ok ents"
    and "\<forall>e \<in> set ents. readdirFixed + entry3_size e \<le> unat cnt" and "108 \<le> unat cnt"
  shows "readdirStart ents cookie = i \<Longrightarrow> i \<le> length ents \<Longrightarrow> length ents - i < fuel \<Longrightarrow>
    client_list fuel sv s fh cnt cookie = Some (map e_Name (drop i ents))"
proof (induction fuel arbitrary: cookie i)
  case (Suc fuel)
  let ?reply = "fst (decode_all (nfs3Readdir sv s) (readdir3_args fh cookie cnt))"
  let ?ent = "\<lambda>i. (e_Name (ents ! i), entryCookie ents i)"
  obtain j where j: "i \<le> j" "j \<le> length ents" "i < length ents \<longrightarrow> i < j"
    "decode_all (readdir3_result (length ?reply)) ?reply = Some (map ?ent [i..<j], length ents \<le> j)"
    using readdir3_page [OF assms(1,2,4,5) Suc.prems(1,2)] by blast
  have names: "map fst (map ?ent [i..<k]) = map e_Name (take (k - i) (drop i ents))" if "k \<le> length ents" for k
    using that by (intro nth_equalityI) auto
  show ?case
  proof (cases "length ents \<le> j")
    case True
    with j(2) names [of j] have "map fst (map ?ent [i..<j]) = map e_Name (drop i ents)" by simp
    with j(4) True show ?thesis by (simp only: client_list.simps Let_def option.case prod.case if_True)
  next
    case False
    then have ij: "i < j" using j by auto
    then have last: "snd (List.last (map ?ent [i..<j])) = entryCookie ents (j - 1)" "map ?ent [i..<j] \<noteq> []"
      by (simp_all add: last_map)
    have "client_list fuel sv s fh cnt (entryCookie ents (j - 1)) = Some (map e_Name (drop j ents))"
      using readdirStart_next [OF assms(3), of "j - 1"] ij False Suc.prems(2,3) by (intro Suc.IH) auto
    moreover have "map fst (map ?ent [i..<j]) @ map e_Name (drop j ents) = map e_Name (drop i ents)"
      using names [of j] ij False
      by (simp flip: map_append) (metis add.commute append_take_drop_id drop_drop le_add_diff_inverse2 less_imp_le)
    ultimately show ?thesis
      using j(4) False last by (simp only: client_list.simps Let_def option.case prod.case if_False option.map)
  qed
qed simp

section \<open>An export of one file and one directory\<close>

definition example_node :: "u64 \<Rightarrow> unit Node" where
  "example_node i = \<lparr>n_ID = i, n_Mode = (if i = 2 then 0x4000 else 0x8000), n_Size = (if i = 2 then 512 else 3), n_Mtime = 0,
     n_Attr = None, n_data = ()\<rparr>"

definition example_entry :: "bytes \<Rightarrow> u32 \<Rightarrow> unit DirEntry" where
  "example_entry nm c = \<lparr>e_Name = nm, e_Node = example_node 3, e_Cookie = c\<rparr>"

definition small_server :: "(unit, unit) Server" where
  "small_server = example_server\<lparr>sv_FS := (sv_FS example_server)\<lparr>
     fs_NodeByID := (\<lambda>i _. Inr (example_node i)),
     fs_ReadDir := (\<lambda>_ _. Inr [example_entry [97] 10, example_entry [98, 99] 20]),
     fs_ReadAt := (\<lambda>_ k off _. (take k (drop (nat off) [7, 8, 9]), None))\<rparr>\<rparr>"

lemma small_server_resolves: "resolve small_server (encodeFH i) () = Inr (example_node i)"
  by (simp add: resolve_def small_server_def example_server_def)

lemma small_server_file: "file_at small_server () (encodeFH 3) [7, 8, 9]"
  unfolding file_at_def small_server_resolves
  by (intro exI [of _ "example_node 3"])
     (simp add: example_node_def ftype_def Let_def nfREG_def small_server_def)

lemma small_server_dir: "dir_at small_server () (encodeFH 2) [example_entry [97] 10, example_entry [98, 99] 20]"
  unfolding dir_at_def small_server_resolves
  by (intro exI [of _ "example_node 2"])
     (simp add: example_node_def ftype_def Let_def nfDIR_def small_server_def)

section \<open>Properties\<close>

text \<open>
  C13: A version 3 client reads the whole file. Against any export that serves a
  regular file under a handle, with its size and the bytes at every offset, a
  client that sends READ calls of any positive count and follows offsets until
  the eof flag gets exactly the content, in at most one call per byte and one
  more.
\<close>

theorem nfs3_read_file:
  assumes "file_at sv s fh c" and "length fh \<le> 64" and "length c < 2 ^ 63" and "0 < cnt"
  shows "client_read (length c + 1) sv s fh cnt 0 = Some c"
  using client_read_content [OF assms, of 0] by simp

theorem nfs3_read_file_witness:
  "client_read (Suc (Suc (Suc (Suc 0)))) small_server () (encodeFH 3) 2 0 = Some [7, 8, 9]"
  using nfs3_read_file [OF small_server_file, of 2] by simp



end
