(* ===== verification/Go_Maps.thy ===== *)
theory Go_Maps
  imports Go_Prelude "HOL-Library.List_Lexorder"
begin

text \<open>
  Go maps as association lists in the order of their keys. The order makes the
  representation unique, so maps with the same entries are equal lists; code that
  ranges over a map sees this order.
\<close>

fun map_put :: "'k::linorder \<Rightarrow> 'v \<Rightarrow> ('k \<times> 'v) list \<Rightarrow> ('k \<times> 'v) list" where
  "map_put k v [] = [(k, v)]"
| "map_put k v (e # es) =
     (if k < fst e then (k, v) # e # es else if k = fst e then (k, v) # es else e # map_put k v es)"

definition map_del :: "'k::linorder \<Rightarrow> ('k \<times> 'v) list \<Rightarrow> ('k \<times> 'v) list" where
  "map_del k es = filter (\<lambda>e. fst e \<noteq> k) es"

definition ordered_map :: "('k::linorder \<times> 'v) list \<Rightarrow> bool" where
  "ordered_map es \<longleftrightarrow> sorted_wrt (<) (map fst es)"

lemma map_of_map_put [simp]: "map_of (map_put k v es) = (map_of es)(k \<mapsto> v)"
  by (induction es) auto

lemma set_map_put: "set (map fst (map_put k v es)) = insert k (set (map fst es))"
  by (induction es) auto

lemma sorted_map_put: "sorted_wrt (<) (map fst es) \<Longrightarrow> sorted_wrt (<) (map fst (map_put k v es))"
proof (induction es)
  case (Cons e es)
  then show ?case using set_map_put [of k v es] by (auto simp: less_imp_le)
qed simp

lemma map_of_map_del [simp]: "map_of (map_del k es) = (map_of es)(k := None)"
  unfolding map_del_def by (induction es) (auto simp: fun_eq_iff)

lemma ordered_map_del: "ordered_map es \<Longrightarrow> ordered_map (map_del k es)"
  by (simp add: ordered_map_def map_del_def sorted_wrt_filter sorted_wrt_map)

lemma ordered_map_simps [simp]:
  "ordered_map []" "ordered_map es \<Longrightarrow> ordered_map (map_put k v es)" "ordered_map es \<Longrightarrow> ordered_map (map_del k es)"
  by (simp_all only: ordered_map_del) (simp_all only: ordered_map_def sorted_map_put sorted_wrt.simps list.map)

lemma ordered_map_distinct: "ordered_map es \<Longrightarrow> distinct (map fst es)"
  unfolding ordered_map_def by (simp add: strict_sorted_iff)

lemma ordered_map_ext:
  assumes "ordered_map xs" and "ordered_map ys" and "map_of xs = map_of ys"
  shows "xs = ys"
proof -
  have canon: "es = map (\<lambda>k. (k, the (map_of es k))) (map fst es)" if "ordered_map es" for es :: "('a \<times> 'b) list"
    using ordered_map_distinct [OF that] by (auto intro!: map_idI [symmetric])
  have "set (map fst xs) = set (map fst ys)"
    using arg_cong [OF assms(3), of dom] by (simp add: dom_map_of_conv_image_fst)
  then have "map fst xs = map fst ys"
    using assms(1,2) unfolding ordered_map_def by (metis strict_sorted_equal)
  with canon [OF assms(1)] canon [OF assms(2)] assms(3) show ?thesis by metis
qed

lemma ordered_map_in: "ordered_map es \<Longrightarrow> (k, v) \<in> set es \<longleftrightarrow> map_of es k = Some v"
  using ordered_map_distinct by (metis map_of_SomeD map_of_is_SomeI)

lemma set_map_put_subset: "set (map_put k v es) \<subseteq> insert (k, v) (set es)"
  by (induction es) auto

lemma set_map_del: "set (map_del k es) \<subseteq> set es"
  by (auto simp: map_del_def)

end
