(* ===== verification/Vfs_Tree.thy ===== *)
theory Vfs_Tree
  imports Efs_View Go_Maps
begin

text \<open>
  The assembled install tree (src/internal/vfs: tree.go, origin.go, generated.go,
  the directory part of build.go). A node is a value here, not a pointer: nodes
  of a tree are never shared, so an update in place is a rebuilt path. The map of
  children is an association list kept in the order of its keys, the order in
  which sortedNames walks it. A source (an fs.FS) is a record of the calls made
  of it; inode numbers are unbounded, since a tree never has 2^64 nodes.
\<close>

section \<open>Model: sources\<close>

text \<open>Errors of a source are opaque to the tree.\<close>

type_synonym src_err = nat

record src_info =
  si_Mode :: u32
  si_Size :: int
  si_ModTime :: int
  si_Sys :: "efs_Stat option"

text \<open>\<open>ss_Open\<close>: an opened file, with its ReadAt when it has one.\<close>

record src_fs =
  ss_Stat :: "bytes \<Rightarrow> src_err + src_info"
  ss_ReadDir :: "bytes \<Rightarrow> src_err + (bytes \<times> (src_err + src_info)) list"
  ss_ReadLink :: "bytes \<Rightarrow> src_err + bytes"
  ss_Open :: "bytes \<Rightarrow> src_err + reader_at option"

section \<open>Model: origins and nodes\<close>

datatype OriginKind = OriginUnknown | OriginImage | OriginDirectory | OriginGenerated

definition OriginKind_String :: "OriginKind \<Rightarrow> bytes" where
  "OriginKind_String k =
     (case k of
        OriginImage \<Rightarrow> str ''image''
      | OriginDirectory \<Rightarrow> str ''directory''
      | OriginGenerated \<Rightarrow> str ''generated''
      | OriginUnknown \<Rightarrow> str ''unknown'')"

record Origin =
  o_Kind :: OriginKind
  o_Source :: bytes
  o_Path :: bytes

definition no_origin :: Origin where
  "no_origin = \<lparr>o_Kind = OriginUnknown, o_Source = [], o_Path = []\<rparr>"

record vmeta =
  v_name :: bytes
  v_dir :: bool
  v_ino :: nat
  v_origin :: Origin
  v_perm :: u32
  v_size :: int
  v_mtime :: int
  v_uid :: u32
  v_gid :: u32
  v_nlink :: int
  v_fsys :: "src_fs option"
  v_data :: bytes

datatype vnode = VNode (v_meta: vmeta) (v_children: "(bytes \<times> vnode) list")

record Tree =
  t_root :: vnode
  t_nextIno :: nat

definition child :: "vnode \<Rightarrow> bytes \<Rightarrow> vnode option" where
  "child n nm = map_of (v_children n) nm"

definition set_child :: "bytes \<Rightarrow> vnode \<Rightarrow> vnode \<Rightarrow> vnode" where
  "set_child nm c n = VNode (v_meta n) (map_put nm c (v_children n))"

definition newDir :: "bytes \<Rightarrow> Origin \<Rightarrow> vnode" where
  "newDir nm origin =
     VNode \<lparr>v_name = nm, v_dir = True, v_ino = 0, v_origin = origin, v_perm = 0, v_size = 512, v_mtime = 0,
            v_uid = 0, v_gid = 0, v_nlink = 2, v_fsys = None, v_data = []\<rparr> []"

section \<open>Model: looking up and opening\<close>

datatype vfs_err =
    TreeInvalid | TreeNotExist | TreeNotDir | TreeIsDir
  | SourceErr src_err | NoRandomAccess bytes | SourceIO io_error
  | KindConflict bytes bytes bytes | Disagree bytes bytes bytes
  | SymlinkLoop bytes | SymlinkUnresolved bytes src_err | SymlinkErr bytes src_err
  | LinkToDir bytes | LinkToSpecial bytes | SrcNotDir bytes | ReadDirErr bytes src_err
  | NotRelative bytes | LayerNoName | LayerNoSource | NoStand src_err
  | NoCollisionFile bytes bytes | CollisionLost bytes bytes bytes
  | DuplicateLayer bytes | BadReplacement bytes bytes | SetNoName | SetTwice bytes | ServedDirectory bytes

text \<open>The loop of lookup over the path's parts.\<close>

fun lookup_in :: "vnode \<Rightarrow> bytes list \<Rightarrow> vnode option" where
  "lookup_in n [] = Some n"
| "lookup_in n (p # ps) =
     (if \<not> v_dir (v_meta n) then None
      else case child n p of None \<Rightarrow> None | Some c \<Rightarrow> lookup_in c ps)"

definition tree_lookup :: "Tree \<Rightarrow> bytes \<Rightarrow> vnode option" where
  "tree_lookup t name =
     (if name = [dot] then Some (t_root t) else lookup_in (t_root t) (split_on slash name))"

definition tree_find :: "Tree \<Rightarrow> bytes \<Rightarrow> (vfs_err, vnode) outcome" where
  "tree_find t name =
     (if \<not> ValidPath name then Err TreeInvalid
      else case tree_lookup t name of None \<Rightarrow> Err TreeNotExist | Some n \<Rightarrow> Ok n)"

definition sortedNames :: "(bytes \<times> vnode) list \<Rightarrow> bytes list" where
  "sortedNames cs = sort (map fst cs)"

text \<open>The children in the order of their names: the nodes behind the fs.DirEntry values.\<close>

definition entries_of_node :: "vnode \<Rightarrow> vnode list" where
  "entries_of_node n = List.map_filter (child n) (sortedNames (v_children n))"

text \<open>An opened file reads at an offset; \<open>memFile\<close> over bytes, \<open>fsFile\<close> over its source.\<close>

datatype vfile = MemFile vmeta bytes | BackedFile vmeta reader_at

definition openRegular :: "vmeta \<Rightarrow> (vfs_err, vfile) outcome" where
  "openRegular m =
     (if o_Kind (v_origin m) = OriginGenerated then Ok (MemFile m (v_data m))
      else
        case v_fsys m of
          None \<Rightarrow> Panic
        | Some f \<Rightarrow>
            (case ss_Open f (o_Path (v_origin m)) of
               Inl e \<Rightarrow> Err (SourceErr e)
             | Inr None \<Rightarrow> Err (NoRandomAccess (o_Path (v_origin m)))
             | Inr (Some ra) \<Rightarrow> Ok (BackedFile m ra)))"

record dirFile =
  df_node :: vnode
  df_ents :: "vnode list"
  df_off :: nat

datatype opened = OpenedDir dirFile | OpenedFile vfile

definition node_open :: "vnode \<Rightarrow> (vfs_err, opened) outcome" where
  "node_open n =
     (if v_dir (v_meta n) then Ok (OpenedDir \<lparr>df_node = n, df_ents = entries_of_node n, df_off = 0\<rparr>)
      else and_then (openRegular (v_meta n)) (\<lambda>f. Ok (OpenedFile f)))"

definition tree_Open :: "Tree \<Rightarrow> bytes \<Rightarrow> (vfs_err, opened) outcome" where
  "tree_Open t name = and_then (tree_find t name) node_open"

definition tree_ReadDir :: "Tree \<Rightarrow> bytes \<Rightarrow> (vfs_err, vnode list) outcome" where
  "tree_ReadDir t name =
     and_then (tree_find t name) (\<lambda>n.
     if \<not> v_dir (v_meta n) then Err TreeNotDir else Ok (entries_of_node n))"

definition tree_Stat :: "Tree \<Rightarrow> bytes \<Rightarrow> (vfs_err, vnode) outcome" where
  "tree_Stat t name = tree_find t name"

definition tree_Resolve :: "Tree \<Rightarrow> bytes \<Rightarrow> (vfs_err, Origin) outcome" where
  "tree_Resolve t name = and_then (tree_find t name) (\<lambda>n. Ok (v_origin (v_meta n)))"

definition info_Mode :: "vmeta \<Rightarrow> u32" where
  "info_Mode m = (if v_dir m then ModeDir OR 0x1ed else v_perm m)"

definition dirFile_ReadDir :: "int \<Rightarrow> dirFile \<Rightarrow> (vfs_err, vnode list \<times> io_error option \<times> dirFile) outcome" where
  "dirFile_ReadDir cnt d =
     (if df_off d > length (df_ents d) then Panic
      else
        let rest = drop (df_off d) (df_ents d) in
        if cnt \<le> 0 then Ok (rest, None, d\<lparr>df_off := length (df_ents d)\<rparr>)
        else if rest = [] then Ok ([], Some EOF, d)
        else
          let k = min (nat cnt) (length rest)
          in Ok (take k rest, None, d\<lparr>df_off := df_off d + k\<rparr>))"

definition vfile_ReadAt :: "vfile \<Rightarrow> reader_at" where
  "vfile_ReadAt f = (case f of MemFile m b \<Rightarrow> bytes_ReadAt b | BackedFile m ra \<Rightarrow> ra)"

definition vfile_Size :: "vfile \<Rightarrow> int" where
  "vfile_Size f = v_size (case f of MemFile m b \<Rightarrow> m | BackedFile m ra \<Rightarrow> m)"

section \<open>Model: inode numbers\<close>

text \<open>The closure \<open>walk\<close> of number, over a node and over the children still to come.\<close>

fun number_node :: "vnode \<Rightarrow> nat \<Rightarrow> vnode \<times> nat"
  and number_children :: "(bytes \<times> vnode) list \<Rightarrow> nat \<Rightarrow> (bytes \<times> vnode) list \<times> nat" where
  "number_node (VNode m cs) nx =
     (let (m', nx1) = (if v_ino m = 0 then (m\<lparr>v_ino := nx\<rparr>, nx + 1) else (m, nx));
          (cs', nx2) = number_children cs nx1
      in (VNode m' cs', nx2))"
| "number_children [] nx = ([], nx)"
| "number_children ((k, c) # cs) nx =
     (let (c', nx1) = number_node c nx; (cs', nx2) = number_children cs nx1 in ((k, c') # cs', nx2))"

definition tree_number :: "Tree \<Rightarrow> Tree" where
  "tree_number t =
     (let (root', nx) = number_node (t_root t) (max (t_nextIno t) (unat RootIno))
      in \<lparr>t_root = root', t_nextIno = nx\<rparr>)"

section \<open>Maps as ordered association lists\<close>

lemma child_set_child [simp]: "child (set_child k c n) k' = (if k' = k then Some c else child n k')"
  by (simp add: child_def set_child_def)

lemma v_meta_set_child [simp]: "v_meta (set_child k c n) = v_meta n"
  by (simp add: set_child_def)

lemma child_newDir [simp]: "child (newDir nm o') k = None"
  by (simp add: child_def newDir_def)

lemma v_meta_newDir [simp]:
  "v_dir (v_meta (newDir nm o'))" "v_name (v_meta (newDir nm o')) = nm" "v_ino (v_meta (newDir nm o')) = 0"
  "v_origin (v_meta (newDir nm o')) = o'"
  by (simp_all add: newDir_def)

section \<open>Numbering\<close>

text \<open>The inode numbers of a tree, in the order of the walk; zero where there is none yet.\<close>

fun inos :: "vnode \<Rightarrow> nat list" and inos_children :: "(bytes \<times> vnode) list \<Rightarrow> nat list" where
  "inos (VNode m cs) = v_ino m # inos_children cs"
| "inos_children [] = []"
| "inos_children ((k, c) # cs) = inos c @ inos_children cs"

text \<open>What numbering does to that list.\<close>

fun fill :: "nat list \<Rightarrow> nat \<Rightarrow> nat list" where
  "fill [] nx = []"
| "fill (x # xs) nx = (if x = 0 then nx # fill xs (nx + 1) else x # fill xs nx)"

definition zeros :: "nat list \<Rightarrow> nat" where
  "zeros xs = length (filter (\<lambda>x. x = 0) xs)"

lemma zeros_simps [simp]: "zeros [] = 0" "zeros (x # xs) = (if x = 0 then 1 else 0) + zeros xs" "zeros (xs @ ys) = zeros xs + zeros ys"
  by (simp_all add: zeros_def)

lemma fill_append: "fill (xs @ ys) nx = fill xs nx @ fill ys (nx + zeros xs)"
  by (induction xs arbitrary: nx) auto

lemma number_inos:
  "inos (fst (number_node n nx)) = fill (inos n) nx \<and> snd (number_node n nx) = nx + zeros (inos n)"
  "inos_children (fst (number_children cs nx)) = fill (inos_children cs) nx \<and>
   snd (number_children cs nx) = nx + zeros (inos_children cs)"
  by (induction n nx and cs nx rule: number_node_number_children.induct)
     (auto simp: fill_append split: prod.splits if_splits)

lemma set_fill: "set (fill xs nx) \<subseteq> (set xs - {0}) \<union> {nx..<nx + zeros xs}"
proof (induction xs arbitrary: nx)
  case (Cons x xs)
  have "{nx + 1..<nx + 1 + zeros xs} \<subseteq> {nx..<nx + (1 + zeros xs)}" by auto
  with Cons.IH [of nx] Cons.IH [of "nx + 1"] show ?case by (cases "x = 0") auto
qed simp

lemma fill_facts:
  assumes "0 < nx" and "\<forall>x \<in> set xs. x < nx" and "distinct (filter (\<lambda>x. x \<noteq> 0) xs)"
  shows "0 \<notin> set (fill xs nx)" and "distinct (fill xs nx)" and "\<forall>x \<in> set (fill xs nx). x < nx + zeros xs"
proof -
  show "\<forall>x \<in> set (fill xs nx). x < nx + zeros xs" "0 \<notin> set (fill xs nx)"
    using set_fill [of xs nx] assms(1,2) by (fastforce, auto)
  show "distinct (fill xs nx)"
    using assms
  proof (induction xs arbitrary: nx)
    case (Cons x xs)
    show ?case
    proof (cases "x = 0")
      case True
      then have "distinct (fill xs (nx + 1))" using Cons.prems by (intro Cons.IH) auto
      moreover have "nx \<notin> set (fill xs (nx + 1))" using set_fill [of xs "nx + 1"] Cons.prems(2) by auto
      ultimately show ?thesis using True by simp
    next
      case False
      then have "distinct (fill xs nx)" using Cons.prems by (intro Cons.IH) auto
      moreover have "x \<notin> set (fill xs nx)" using set_fill [of xs nx] Cons.prems False by auto
      ultimately show ?thesis using False by simp
    qed
  qed simp
qed

lemma t_root_number: "t_root (tree_number t) = fst (number_node (t_root t) (max (t_nextIno t) (unat RootIno)))"
  by (simp add: tree_number_def split: prod.split)

text \<open>Numbering changes nothing but the inode numbers that were zero.\<close>

lemma v_meta_number:
  "v_meta (fst (number_node n nx)) = (if v_ino (v_meta n) = 0 then (v_meta n)\<lparr>v_ino := nx\<rparr> else v_meta n)"
  by (cases n) (simp split: prod.split)

lemma number_child:
  "map_of cs k = Some c \<Longrightarrow> \<exists>nx'. map_of (fst (number_children cs nx)) k = Some (fst (number_node c nx'))"
  "map_of cs k = None \<Longrightarrow> map_of (fst (number_children cs nx)) k = None"
  by (induction cs nx rule: number_node_number_children.induct(2) [where P = "\<lambda>_ _. True"])
     (auto split: prod.splits if_splits, metis fst_conv)

lemma child_number:
  "child n k = Some c \<Longrightarrow> \<exists>nx'. child (fst (number_node n nx)) k = Some (fst (number_node c nx'))"
  "child n k = None \<Longrightarrow> child (fst (number_node n nx)) k = None"
proof -
  let ?nx = "if v_ino (v_meta n) = 0 then nx + 1 else nx"
  have "child (fst (number_node n nx)) k = map_of (fst (number_children (v_children n) ?nx)) k"
    by (cases n) (simp add: child_def split: prod.split)
  then show "child n k = Some c \<Longrightarrow> \<exists>nx'. child (fst (number_node n nx)) k = Some (fst (number_node c nx'))"
    "child n k = None \<Longrightarrow> child (fst (number_node n nx)) k = None"
    using number_child(1) [of "v_children n" k c ?nx] number_child(2) [of "v_children n" k ?nx] by (simp_all add: child_def)
qed

lemma v_dir_number [simp]: "v_dir (v_meta (fst (number_node n nx))) = v_dir (v_meta n)"
  by (simp add: v_meta_number)

lemma lookup_number:
  "lookup_in n ps = Some m \<Longrightarrow> \<exists>nx'. lookup_in (fst (number_node n nx)) ps = Some (fst (number_node m nx'))"
proof (induction ps arbitrary: n nx)
  case (Cons p ps)
  then obtain c where c: "v_dir (v_meta n)" "child n p = Some c" "lookup_in c ps = Some m"
    by (auto split: if_splits option.splits)
  from child_number(1) [OF c(2)] obtain nx' where "child (fst (number_node n nx)) p = Some (fst (number_node c nx'))"
    by blast
  with Cons.IH [OF c(3)] c(1) show ?case by simp
qed auto

section \<open>Well-formed trees\<close>

text \<open>Every map of children is in the order of its keys.\<close>

fun wf_node :: "vnode \<Rightarrow> bool" and wf_children :: "(bytes \<times> vnode) list \<Rightarrow> bool" where
  "wf_node (VNode m cs) \<longleftrightarrow> sorted_wrt (<) (map fst cs) \<and> wf_children cs"
| "wf_children [] \<longleftrightarrow> True"
| "wf_children ((k, c) # cs) \<longleftrightarrow> wf_node c \<and> wf_children cs"

lemma wf_children_iff: "wf_children cs \<longleftrightarrow> (\<forall>(k, c) \<in> set cs. wf_node c)"
  by (induction cs) auto

lemma wf_child: "wf_node n \<Longrightarrow> child n k = Some c \<Longrightarrow> wf_node c"
  by (cases n) (auto simp: child_def wf_children_iff dest: map_of_SomeD)

lemma wf_set_child: "wf_node n \<Longrightarrow> wf_node c \<Longrightarrow> wf_node (set_child k c n)"
  using set_map_put_subset [of k c "v_children n"]
  by (cases n) (auto simp: set_child_def sorted_map_put wf_children_iff)

lemma wf_newDir [simp]: "wf_node (newDir nm o')"
  by (simp add: newDir_def)

lemma fst_number_children: "map fst (fst (number_children cs nx)) = map fst cs"
  by (induction cs arbitrary: nx) (auto split: prod.splits, metis fst_conv)

lemma wf_number:
  "wf_node n \<Longrightarrow> wf_node (fst (number_node n nx))"
  "wf_children cs \<Longrightarrow> wf_children (fst (number_children cs nx))"
proof (induction n nx and cs nx rule: number_node_number_children.induct)
  case (1 m cs nx)
  let ?m = "if v_ino m = 0 then (m\<lparr>v_ino := nx\<rparr>, nx + 1) else (m, nx)"
  have "fst (number_node (VNode m cs) nx) = VNode (fst ?m) (fst (number_children cs (snd ?m)))"
    by (simp split: prod.split)
  moreover have "wf_children (fst (number_children cs (snd ?m)))" using 1 by (cases "v_ino m = 0") auto
  ultimately show ?case using 1(2) fst_number_children [of cs "snd ?m"] by simp
qed (auto split: prod.splits)

text \<open>The inode numbers that are assigned, with their multiplicity.\<close>

definition assigned :: "vnode \<Rightarrow> nat multiset" where
  "assigned n = filter_mset (\<lambda>x. x \<noteq> 0) (mset (inos n))"

lemma mset_inos_put:
  assumes "sorted_wrt (<) (map fst cs)"
  shows "mset (inos_children (map_put k c cs)) + (case map_of cs k of None \<Rightarrow> {#} | Some d \<Rightarrow> mset (inos d)) =
    mset (inos_children cs) + mset (inos c)"
  using assms
proof (induction cs)
  case (Cons e cs)
  obtain k' d where e: "e = (k', d)" by (cases e)
  have "map_of cs k = None" if "k \<le> k'" using Cons.prems that e by (force simp: map_of_eq_None_iff)
  with Cons e show ?case by (auto simp: less_imp_le)
qed simp

lemma assigned_set_child:
  assumes "wf_node n"
  shows "assigned (set_child k c n) + (case child n k of None \<Rightarrow> {#} | Some d \<Rightarrow> assigned d) = assigned n + assigned c"
proof -
  have "mset (inos (set_child k c n)) + (case child n k of None \<Rightarrow> {#} | Some d \<Rightarrow> mset (inos d)) =
    mset (inos n) + mset (inos c)"
    using mset_inos_put [of "v_children n" k c] assms by (cases n) (auto simp: set_child_def child_def)
  then have "filter_mset (\<lambda>x. x \<noteq> 0) (mset (inos (set_child k c n)) + (case child n k of None \<Rightarrow> {#} | Some d \<Rightarrow> mset (inos d))) =
    filter_mset (\<lambda>x. x \<noteq> 0) (mset (inos n) + mset (inos c))" by (rule arg_cong)
  then show ?thesis by (auto simp: assigned_def split: option.splits)
qed

lemma assigned_newDir [simp]: "assigned (newDir nm o') = {#}"
  by (simp add: assigned_def newDir_def)

text \<open>Children are in order, inode numbers are never given twice and stay below the next one.\<close>

definition tree_ok :: "Tree \<Rightarrow> bool" where
  "tree_ok t \<longleftrightarrow> wf_node (t_root t) \<and> v_dir (v_meta (t_root t)) \<and>
     distinct (filter (\<lambda>x. x \<noteq> 0) (inos (t_root t))) \<and> (\<forall>x \<in> set (inos (t_root t)). x < max (t_nextIno t) 2)"

lemma tree_number_ok:
  assumes "tree_ok t"
  shows "tree_ok (tree_number t) \<and> 0 \<notin> set (inos (t_root (tree_number t))) \<and> distinct (inos (t_root (tree_number t)))"
proof -
  let ?nx = "max (t_nextIno t) 2" and ?xs = "inos (t_root t)"
  have root: "unat RootIno = 2" by (simp add: RootIno_def)
  obtain n' nx' where n: "number_node (t_root t) ?nx = (n', nx')" by (cases "number_node (t_root t) ?nx")
  then have t': "tree_number t = \<lparr>t_root = n', t_nextIno = nx'\<rparr>" by (simp add: tree_number_def root)
  have f: "inos n' = fill ?xs ?nx" "nx' = ?nx + zeros ?xs" using number_inos(1) [of "t_root t" ?nx] n by auto
  have ok: "0 < ?nx" "\<forall>x \<in> set ?xs. x < ?nx" "distinct (filter (\<lambda>x. x \<noteq> 0) ?xs)"
    using assms by (auto simp: tree_ok_def)
  have "wf_node n'" "v_dir (v_meta n')"
    using assms wf_number(1) [of "t_root t" ?nx] v_dir_number [of "t_root t" ?nx] n by (auto simp: tree_ok_def)
  with fill_facts [OF ok] f show ?thesis unfolding t' tree_ok_def by auto
qed

end
