(* ===== verification/Vfs_Build.thy ===== *)
theory Vfs_Build
  imports Vfs_Tree
begin

text \<open>
  Assembling the install tree (src/internal/vfs: build.go, spec.go, generated.go):
  every layer's distribution directory is walked onto the tree, files that two
  layers claim are compared or settled by the configuration. The configured maps
  Collisions and Replacements are association lists (Go ranges over
  Replacements in no fixed order, so which error is reported first is not
  fixed; here it is the first in the list). Walking is bounded by \<open>fuel\<close>, the depth of
  directories that may be entered: a source whose directories form a cycle is
  walked forever.
\<close>

section \<open>Model: specifications\<close>

record LayerSpec =
  l_Name :: bytes
  l_Source :: bytes
  l_Base :: bytes
  l_Dist :: bytes
  l_Stand :: bytes
  l_Boot :: bool

record SetSpec =
  set_Name :: bytes
  set_Layers :: "LayerSpec list"
  set_Collisions :: "(bytes \<times> bytes) list"
  set_Replacements :: "(bytes \<times> bytes) list"

definition maxSymlinks :: nat where "maxSymlinks = 8"
definition compareBlock :: nat where "compareBlock = 65536"
definition distDir :: bytes where "distDir = str ''dist''"
definition standDir :: bytes where "standDir = str ''stand''"

text \<open>Indexing a map of strings: the empty string when there is no entry.\<close>

definition map_index :: "(bytes \<times> bytes) list \<Rightarrow> bytes \<Rightarrow> bytes" where
  "map_index m k = (case map_of m k of Some v \<Rightarrow> v | None \<Rightarrow> [])"

section \<open>Model: comparing files\<close>

text \<open>\<open>readFullAt\<close> with \<open>len(p) = n\<close>: the bytes p is filled with.\<close>

function readFullAt :: "reader_at \<Rightarrow> nat \<Rightarrow> int \<Rightarrow> (vfs_err, bytes) outcome" where
  "readFullAt f n off =
     (if n = 0 then Ok []
      else
        let (got, err) = f off n in
        if length got > n then Panic
        else if err \<noteq> None then
          if err = Some EOF \<and> length got = n then Ok got else Err (SourceIO (the err))
        else if got = [] then Diverge
        else and_then (readFullAt f (n - length got) (off + int (length got))) (\<lambda>rest. Ok (got @ rest)))"
  by pat_completeness auto
termination
  by (relation "measure (\<lambda>(f, n, off). n)") (auto simp: length_greater_0_conv [symmetric] simp del: length_greater_0_conv)

declare readFullAt.simps [simp del]

function compare_loop :: "reader_at \<Rightarrow> reader_at \<Rightarrow> nat \<Rightarrow> nat \<Rightarrow> (vfs_err, bool) outcome" where
  "compare_loop af bf sz off =
     (if off < sz then
        let n = min compareBlock (sz - off) in
        and_then (readFullAt af n (int off)) (\<lambda>ap.
        and_then (readFullAt bf n (int off)) (\<lambda>bp.
        if ap \<noteq> bp then Ok False else compare_loop af bf sz (off + n)))
      else Ok True)"
  by pat_completeness auto
termination
  by (relation "measure (\<lambda>(af, bf, sz, off). sz - off)") (auto simp: compareBlock_def)

declare compare_loop.simps [simp del]

definition sameContent :: "vmeta \<Rightarrow> vmeta \<Rightarrow> (vfs_err, bool) outcome" where
  "sameContent a b =
     (if v_size a \<noteq> v_size b then Ok False
      else
        and_then (openRegular a) (\<lambda>af.
        and_then (openRegular b) (\<lambda>bf.
        compare_loop (vfile_ReadAt af) (vfile_ReadAt bf) (nat (v_size a)) 0)))"

section \<open>Model: merging one child\<close>

text \<open>The node that won and the updated parent.\<close>

definition mergeChild ::
  "vnode \<Rightarrow> vnode \<Rightarrow> bytes \<Rightarrow> (bytes \<times> bytes) list \<Rightarrow> (bytes \<times> bytes) list \<Rightarrow> (vfs_err, vnode \<times> vnode) outcome" where
  "mergeChild parent cand logical collisions replacements =
     (let nm = v_name (v_meta cand); take_cand = Ok (cand, set_child nm cand parent) in
      case child parent nm of
        None \<Rightarrow> take_cand
      | Some old \<Rightarrow>
          let om = v_meta old; cm = v_meta cand; winner = map_index collisions logical in
          if v_dir om \<noteq> v_dir cm then Err (KindConflict logical (o_Source (v_origin om)) (o_Source (v_origin cm)))
          else if v_dir om then Ok (old, parent)
          else if winner \<noteq> [] then
            if o_Source (v_origin cm) = winner then take_cand else Ok (old, parent)
          else if map_index replacements (o_Source (v_origin om)) = o_Source (v_origin cm) then take_cand
          else
            and_then (sameContent om cm) (\<lambda>same.
            if \<not> same then Err (Disagree logical (o_Source (v_origin om)) (o_Source (v_origin cm)))
            else Ok (old, parent)))"

text \<open>
  ensureDir, with \<open>f\<close> for what its caller then does to the directory it
  returns: the nodes on the way are rebuilt around the result.
\<close>

fun ensure_parts ::
  "Origin \<Rightarrow> bytes \<Rightarrow> bytes list \<Rightarrow> (vnode \<Rightarrow> (vfs_err, vnode) outcome) \<Rightarrow> vnode \<Rightarrow> (vfs_err, vnode) outcome" where
  "ensure_parts origin seen [] f n = f n"
| "ensure_parts origin seen (p # ps) f n =
     (let seen' = path_Join [seen, p] in
      and_then (mergeChild n (newDir p origin) seen' [] []) (\<lambda>(c, n1).
      and_then (ensure_parts origin seen' ps f c) (\<lambda>c'.
      Ok (set_child p c' n1))))"

definition ensureDir ::
  "bytes \<Rightarrow> Origin \<Rightarrow> (vnode \<Rightarrow> (vfs_err, vnode) outcome) \<Rightarrow> vnode \<Rightarrow> (vfs_err, vnode) outcome" where
  "ensureDir logical origin f root =
     (if logical = [dot] then f root else ensure_parts origin [] (split_on slash logical) f root)"

section \<open>Model: walking a source\<close>

definition ModeType :: u32 where "ModeType = 0x8f280000"

definition is_link :: "src_info \<Rightarrow> bool" where
  "is_link i \<longleftrightarrow> si_Mode i AND ModeSymlink \<noteq> 0"

definition is_dir :: "src_info \<Rightarrow> bool" where
  "is_dir i \<longleftrightarrow> si_Mode i AND ModeDir \<noteq> 0"

definition is_regular :: "src_info \<Rightarrow> bool" where
  "is_regular i \<longleftrightarrow> si_Mode i AND ModeType = 0"

text \<open>The loop of resolveLink with \<open>k\<close> of its iterations left; \<open>orig\<close> is the link named in errors.\<close>

fun resolve_hops :: "src_fs \<Rightarrow> bytes \<Rightarrow> nat \<Rightarrow> bytes \<Rightarrow> (vfs_err, src_info \<times> bytes) outcome" where
  "resolve_hops fsys orig 0 name = Err (SymlinkLoop orig)"
| "resolve_hops fsys orig (Suc k) name =
     (case ss_Stat fsys name of
        Inl e \<Rightarrow> Err (SymlinkUnresolved orig e)
      | Inr info \<Rightarrow>
          if \<not> is_link info then Ok (info, name)
          else
            case ss_ReadLink fsys name of
              Inl e \<Rightarrow> Err (SymlinkErr orig e)
            | Inr target \<Rightarrow>
                resolve_hops fsys orig k
                  (if IsAbs target then path_Clean (trim_prefix slash target)
                   else path_Join [path_Dir name, target]))"

definition resolveLink :: "src_fs \<Rightarrow> bytes \<Rightarrow> (vfs_err, src_info \<times> bytes) outcome" where
  "resolveLink fsys name = resolve_hops fsys name (maxSymlinks + 1) name"

definition statFollow :: "src_fs \<Rightarrow> bytes \<Rightarrow> (vfs_err, src_info \<times> bytes) outcome" where
  "statFollow fsys name =
     (case ss_Stat fsys name of
        Inl e \<Rightarrow> Err (SourceErr e)
      | Inr info \<Rightarrow> if \<not> is_link info then Ok (info, name) else resolveLink fsys name)"

definition originOf :: "OriginKind \<Rightarrow> LayerSpec \<Rightarrow> bytes \<Rightarrow> Origin" where
  "originOf kind layer srcPath = \<lparr>o_Kind = kind, o_Source = l_Name layer, o_Path = srcPath\<rparr>"

text \<open>uid, gid, nlink and the twelve permission bits.\<close>

definition ownerOf :: "src_info \<Rightarrow> u32 \<times> u32 \<times> int \<times> u32" where
  "ownerOf info =
     (case si_Sys info of
        Some st \<Rightarrow> (ucast (st_UID st), ucast (st_GID st), st_Nlink st, ucast (st_Mode st AND 0xfff))
      | None \<Rightarrow>
          let m = si_Mode info
          in (0, 0, 1, (m AND 0x1ff) OR (if m AND 0x00800000 \<noteq> 0 then 0x800 else 0) OR
                       (if m AND 0x00400000 \<noteq> 0 then 0x400 else 0) OR (if m AND 0x00100000 \<noteq> 0 then 0x200 else 0)))"

definition fileNode :: "src_fs \<Rightarrow> OriginKind \<Rightarrow> LayerSpec \<Rightarrow> bytes \<Rightarrow> bytes \<Rightarrow> src_info \<Rightarrow> vnode" where
  "fileNode fsys kind layer nm childSrc info =
     (let (uid, gid, nlink, perm) = ownerOf info
      in VNode \<lparr>v_name = nm, v_dir = False, v_ino = 0, v_origin = originOf kind layer childSrc, v_perm = perm,
                v_size = si_Size info, v_mtime = si_ModTime info, v_uid = uid, v_gid = gid, v_nlink = nlink,
                v_fsys = Some fsys, v_data = []\<rparr> [])"

text \<open>The start of walkFS's loop body: the entry's info and where its bytes are.\<close>

definition entry_target :: "src_fs \<Rightarrow> bytes \<Rightarrow> bytes \<times> (src_err + src_info) \<Rightarrow> (vfs_err, src_info \<times> bytes) outcome" where
  "entry_target fsys srcPath e =
     (let childSrc = path_Join [srcPath, fst e] in
      case snd e of
        Inl err \<Rightarrow> Err (SourceErr err)
      | Inr info \<Rightarrow>
          if \<not> is_link info then Ok (info, childSrc)
          else
            and_then (resolveLink fsys childSrc) (\<lambda>(info', src').
            if is_dir info' then Err (LinkToDir childSrc)
            else if \<not> is_regular info' then Err (LinkToSpecial childSrc)
            else Ok (info', src')))"

text \<open>The body of walkFS's loop; \<open>walk\<close> is walkFS for a directory below.\<close>

definition walk_entry ::
  "(bytes \<Rightarrow> bytes \<Rightarrow> vnode \<Rightarrow> (vfs_err, vnode) outcome) \<Rightarrow> SetSpec \<Rightarrow> LayerSpec \<Rightarrow> src_fs \<Rightarrow> OriginKind \<Rightarrow> bytes \<Rightarrow> bytes \<Rightarrow>
    bytes \<times> (src_err + src_info) \<Rightarrow> vnode \<Rightarrow> (vfs_err, vnode) outcome" where
  "walk_entry walk ss layer fsys kind srcPath target e d =
     (let childTarget = path_Join [target, fst e] in
      and_then (entry_target fsys srcPath e) (\<lambda>(info, childSrc).
      if is_dir info then
        and_then (mergeChild d (newDir (fst e) (originOf kind layer childSrc)) childTarget [] []) (\<lambda>(sub, d1).
        and_then (walk childSrc childTarget sub) (\<lambda>sub'.
        Ok (set_child (fst e) sub' d1)))
      else if is_regular info then
        and_then (mergeChild d (fileNode fsys kind layer (fst e) childSrc info) childTarget
          (set_Collisions ss) (set_Replacements ss)) (\<lambda>(won, d1). Ok d1)
      else Ok d))"

fun walkFS :: "nat \<Rightarrow> SetSpec \<Rightarrow> LayerSpec \<Rightarrow> src_fs \<Rightarrow> OriginKind \<Rightarrow> bytes \<Rightarrow> bytes \<Rightarrow> vnode \<Rightarrow> (vfs_err, vnode) outcome" where
  "walkFS 0 ss layer fsys kind srcPath target dir = Diverge"
| "walkFS (Suc fuel) ss layer fsys kind srcPath target dir =
     (case ss_ReadDir fsys srcPath of
        Inl e \<Rightarrow> Err (ReadDirErr srcPath e)
      | Inr ents \<Rightarrow>
          for_each (walk_entry (walkFS fuel ss layer fsys kind) ss layer fsys kind srcPath target) ents dir)"

definition mergeTree ::
  "nat \<Rightarrow> SetSpec \<Rightarrow> LayerSpec \<Rightarrow> src_fs \<Rightarrow> OriginKind \<Rightarrow> bytes \<Rightarrow> bytes \<Rightarrow> vnode \<Rightarrow> (vfs_err, vnode) outcome" where
  "mergeTree fuel ss layer fsys kind srcDir target root =
     and_then (statFollow fsys srcDir) (\<lambda>(info, srcPath).
     if \<not> is_dir info then Err (SrcNotDir srcDir)
     else ensureDir target (originOf kind layer srcPath) (walkFS fuel ss layer fsys kind srcPath target) root)"

section \<open>Model: layers and sets\<close>

definition cleanRel :: "bytes \<Rightarrow> bytes \<Rightarrow> (vfs_err, bytes) outcome" where
  "cleanRel dir def =
     (if dir = [] then Ok def
      else let clean = path_Clean dir in if \<not> ValidPath clean then Err (NotRelative dir) else Ok clean)"

definition underBase :: "bytes \<Rightarrow> bytes \<Rightarrow> (vfs_err, bytes) outcome" where
  "underBase bs dir =
     (let joined = (if bs \<noteq> [] then path_Join [bs, dir] else dir)
      in if \<not> ValidPath joined then Err (NotRelative joined) else Ok joined)"

definition layerPaths :: "LayerSpec \<Rightarrow> (vfs_err, bytes \<times> bytes) outcome" where
  "layerPaths layer =
     and_then (cleanRel (l_Dist layer) distDir) (\<lambda>d.
     and_then (underBase (l_Base layer) d) (\<lambda>dist.
     if \<not> l_Boot layer then Ok (dist, [])
     else
       and_then (cleanRel (l_Stand layer) standDir) (\<lambda>s.
       and_then (underBase (l_Base layer) s) (\<lambda>stand. Ok (dist, stand)))))"

text \<open>\<open>Resolve\<close> of the Resolver: the source's filesystem and its kind. Closing sources is left out.\<close>

type_synonym resolver = "bytes \<Rightarrow> src_err + (src_fs \<times> OriginKind)"

text \<open>Opening a source that is not open yet; \<open>resolved\<close> holds those that are.\<close>

definition open_source ::
  "resolver \<Rightarrow> bytes \<Rightarrow> (bytes \<times> (src_fs \<times> OriginKind)) list \<Rightarrow>
    (vfs_err, (src_fs \<times> OriginKind) \<times> (bytes \<times> (src_fs \<times> OriginKind)) list) outcome" where
  "open_source r ref resolved =
     (case map_of resolved ref of
        Some res \<Rightarrow> Ok (res, resolved)
      | None \<Rightarrow>
          (case r ref of
             Inl e \<Rightarrow> Err (SourceErr e)
           | Inr res \<Rightarrow> Ok (res, (ref, res) # resolved)))"

definition addLayer ::
  "nat \<Rightarrow> resolver \<Rightarrow> SetSpec \<Rightarrow> LayerSpec \<Rightarrow> vnode \<times> (bytes \<times> (src_fs \<times> OriginKind)) list \<Rightarrow>
    (vfs_err, vnode \<times> (bytes \<times> (src_fs \<times> OriginKind)) list) outcome" where
  "addLayer fuel r ss layer st =
     (let (root, resolved) = st in
      if l_Name layer = [] then Err LayerNoName
      else if l_Source layer = [] then Err LayerNoSource
      else
        and_then (open_source r (l_Source layer) resolved) (\<lambda>((fsys, kind), resolved').
        and_then (layerPaths layer) (\<lambda>(distPath, standPath).
        and_then (mergeTree fuel ss layer fsys kind distPath (path_Join [set_Name ss, distDir]) root) (\<lambda>root1.
        if \<not> l_Boot layer then Ok (root1, resolved')
        else
          case ss_Stat fsys standPath of
            Inl e \<Rightarrow> Err (NoStand e)
          | Inr info \<Rightarrow>
              and_then (mergeTree fuel ss layer fsys kind standPath (path_Join [set_Name ss, standDir]) root1)
                (\<lambda>root2. Ok (root2, resolved'))))))"

text \<open>positions[name] of the layers, by their index.\<close>

definition position :: "LayerSpec list \<Rightarrow> bytes \<Rightarrow> nat option" where
  "position ls nm = map_of (zip (map l_Name ls) [0..<length ls]) nm"

fun duplicate :: "bytes list \<Rightarrow> bytes set \<Rightarrow> bytes option" where
  "duplicate [] seen = None"
| "duplicate (x # xs) seen = (if x \<in> seen then Some x else duplicate xs (insert x seen))"

definition checkReplacements :: "SetSpec \<Rightarrow> (vfs_err, unit) outcome" where
  "checkReplacements ss =
     (case duplicate (map l_Name (set_Layers ss)) {} of
        Some nm \<Rightarrow> Err (DuplicateLayer nm)
      | None \<Rightarrow>
          for_each (\<lambda>(from, to) _.
            case (position (set_Layers ss) from, position (set_Layers ss) to) of
              (Some i, Some j) \<Rightarrow> if j \<le> i then Err (BadReplacement from to) else Ok ()
            | _ \<Rightarrow> Err (BadReplacement from to)) (set_Replacements ss) ())"

definition checkCollisions :: "SetSpec \<Rightarrow> Tree \<Rightarrow> (vfs_err, unit) outcome" where
  "checkCollisions ss t =
     for_each (\<lambda>p _.
       let winner = map_index (set_Collisions ss) p in
       case tree_lookup t p of
         None \<Rightarrow> Err (NoCollisionFile winner p)
       | Some n \<Rightarrow>
           if v_dir (v_meta n) then Err (NoCollisionFile winner p)
           else if o_Source (v_origin (v_meta n)) \<noteq> winner
           then Err (CollisionLost winner p (o_Source (v_origin (v_meta n))))
           else Ok ()) (sort (map fst (set_Collisions ss))) ()"

text \<open>Validate: what Build checks before it opens a source.\<close>

definition Validate :: "SetSpec \<Rightarrow> (vfs_err, unit) outcome" where
  "Validate ss =
     (if set_Name ss = [] then Err SetNoName
      else
        and_then (checkReplacements ss) (\<lambda>_.
        for_each (\<lambda>layer _.
          if l_Name layer = [] then Err LayerNoName
          else if l_Source layer = [] then Err LayerNoSource
          else and_then (layerPaths layer) (\<lambda>_. Ok ())) (set_Layers ss) ()))"

definition build_set ::
  "nat \<Rightarrow> resolver \<Rightarrow> SetSpec \<Rightarrow> vnode \<times> (bytes \<times> (src_fs \<times> OriginKind)) list \<Rightarrow>
    (vfs_err, vnode \<times> (bytes \<times> (src_fs \<times> OriginKind)) list) outcome" where
  "build_set fuel r ss st =
     (let (root, resolved) = st in
      if set_Name ss = [] then Err SetNoName
      else if child root (set_Name ss) \<noteq> None then Err (SetTwice (set_Name ss))
      else
        and_then (checkReplacements ss) (\<lambda>_.
        and_then
          (for_each (addLayer fuel r ss) (set_Layers ss)
             (set_child (set_Name ss) (newDir (set_Name ss) no_origin) root, resolved)) (\<lambda>(root', resolved').
        and_then (checkCollisions ss \<lparr>t_root = root', t_nextIno = 0\<rparr>) (\<lambda>_. Ok (root', resolved')))))"

definition Build :: "nat \<Rightarrow> SetSpec list \<Rightarrow> resolver \<Rightarrow> (vfs_err, Tree) outcome" where
  "Build fuel sets r =
     and_then (for_each (build_set fuel r) sets (newDir [dot] no_origin, [])) (\<lambda>(root, resolved).
     Ok (tree_number \<lparr>t_root = root, t_nextIno = 0\<rparr>))"

section \<open>Model: generated files\<close>

definition generated_file :: "vmeta \<Rightarrow> bytes \<Rightarrow> bytes \<Rightarrow> vmeta" where
  "generated_file m generator content =
     m\<lparr>v_origin := \<lparr>o_Kind = OriginGenerated, o_Source = generator, o_Path = []\<rparr>, v_data := content,
       v_size := int (length content), v_perm := 0x124, v_mtime := 0, v_nlink := 1, v_uid := 0, v_gid := 0,
       v_fsys := None\<rparr>"

text \<open>What AddGenerated does in the parent directory.\<close>

definition put_generated :: "bytes \<Rightarrow> bytes \<Rightarrow> bytes \<Rightarrow> bytes \<Rightarrow> vnode \<Rightarrow> (vfs_err, vnode) outcome" where
  "put_generated name nm generator content parent =
     (case child parent nm of
        None \<Rightarrow>
          Ok (set_child nm (VNode (generated_file
            \<lparr>v_name = nm, v_dir = False, v_ino = 0, v_origin = no_origin, v_perm = 0, v_size = 0, v_mtime = 0,
             v_uid = 0, v_gid = 0, v_nlink = 0, v_fsys = None, v_data = []\<rparr> generator content) []) parent)
      | Some n \<Rightarrow>
          if v_dir (v_meta n) then Err (ServedDirectory name)
          else Ok (set_child nm (VNode (generated_file (v_meta n) generator content) (v_children n)) parent))"

definition AddGenerated :: "bytes \<Rightarrow> bytes \<Rightarrow> bytes \<Rightarrow> Tree \<Rightarrow> (vfs_err, Tree) outcome" where
  "AddGenerated name generator content t =
     (if \<not> ValidPath name \<or> name = [dot] then Err TreeInvalid
      else
        and_then
          (ensureDir (path_Dir name) \<lparr>o_Kind = OriginGenerated, o_Source = generator, o_Path = []\<rparr>
             (put_generated name (path_Base name) generator content) (t_root t)) (\<lambda>root'.
        Ok (tree_number (t\<lparr>t_root := root'\<rparr>))))"

section \<open>Directories that are made on the way\<close>

text \<open>
  \<open>n'\<close> has every path of \<open>n\<close> with its kind and inode number, and with all else but
  at the path \<open>tgt\<close>.
\<close>

definition keeps_paths :: "bytes list \<Rightarrow> vnode \<Rightarrow> vnode \<Rightarrow> bool" where
  "keeps_paths tgt n n' \<longleftrightarrow>
     (\<forall>qs m. lookup_in n qs = Some m \<longrightarrow>
        (\<exists>m'. lookup_in n' qs = Some m' \<and> v_dir (v_meta m') = v_dir (v_meta m) \<and> v_ino (v_meta m') = v_ino (v_meta m) \<and>
              (qs \<noteq> tgt \<longrightarrow> v_meta m' = v_meta m)))"

lemma mergeChild_dir:
  assumes "mergeChild n (newDir p origin) logical [] [] = Ok (c, n1)"
  shows "v_dir (v_meta c) \<and> child n1 p = Some c \<and> v_meta n1 = v_meta n \<and>
    (child n p = None \<and> c = newDir p origin \<and> n1 = set_child p c n \<or> child n p = Some c \<and> n1 = n)"
  using assms by (auto simp: mergeChild_def Let_def split: option.splits if_splits)

lemma keeps_paths_child:
  assumes "v_dir (v_meta n)" and "v_meta n1 = v_meta n" and "\<And>k. k \<noteq> p \<Longrightarrow> child n1 k = child n k"
    and "\<And>c. child n p = Some c \<Longrightarrow> keeps_paths ps c c'"
  shows "keeps_paths (p # ps) n (set_child p c' n1)"
  unfolding keeps_paths_def
proof (intro allI impI)
  fix qs m
  assume look: "lookup_in n qs = Some m"
  show "\<exists>m'. lookup_in (set_child p c' n1) qs = Some m' \<and> v_dir (v_meta m') = v_dir (v_meta m) \<and>
    v_ino (v_meta m') = v_ino (v_meta m) \<and> (qs \<noteq> p # ps \<longrightarrow> v_meta m' = v_meta m)"
  proof (cases qs)
    case Nil
    with look assms(2) show ?thesis by auto
  next
    case (Cons q rs)
    then obtain d where d: "child n q = Some d" "lookup_in d rs = Some m"
      using look by (auto split: if_splits option.splits)
    show ?thesis
    proof (cases "q = p")
      case True
      with assms(4) d obtain m' where "lookup_in c' rs = Some m'" "v_dir (v_meta m') = v_dir (v_meta m)"
        "v_ino (v_meta m') = v_ino (v_meta m)" "rs \<noteq> ps \<longrightarrow> v_meta m' = v_meta m" unfolding keeps_paths_def by blast
      with Cons True assms(1,2) show ?thesis by auto
    qed (use Cons d assms in auto)
  qed
qed

lemma ensure_parts_facts:
  assumes "ensure_parts origin seen ps f n = Ok n'" and "wf_node n" and "v_dir (v_meta n)"
    and f: "\<And>d d'. f d = Ok d' \<Longrightarrow> wf_node d \<Longrightarrow> v_dir (v_meta d) \<Longrightarrow>
      wf_node d' \<and> v_meta d' = v_meta d \<and> assigned d' = assigned d \<and> keeps_paths tgt d d' \<and> lookup_in d' tgt = Some (m d)"
  shows "wf_node n' \<and> v_meta n' = v_meta n \<and> assigned n' = assigned n \<and> keeps_paths (ps @ tgt) n n' \<and>
    (\<exists>d. lookup_in n' (ps @ tgt) = Some (m d) \<and> (lookup_in n ps = Some d \<or> lookup_in n ps = None \<and> assigned d = {#}))"
  using assms(1-3)
proof (induction ps arbitrary: seen n n')
  case Nil
  with f [of n n'] show ?case by auto
next
  case (Cons p ps)
  obtain c n1 c' where c: "mergeChild n (newDir p origin) (path_Join [seen, p]) [] [] = Ok (c, n1)"
    "ensure_parts origin (path_Join [seen, p]) ps f c = Ok c'" "n' = set_child p c' n1"
    using Cons.prems(1) by (auto simp: Let_def go_outcome)
  note mc = mergeChild_dir [OF c(1)]
  have wfc: "wf_node c" "wf_node n1" using mc Cons.prems(2) wf_child wf_set_child by (metis wf_newDir)+
  have ih: "wf_node c' \<and> v_meta c' = v_meta c \<and> assigned c' = assigned c \<and> keeps_paths (ps @ tgt) c c' \<and>
    (\<exists>d. lookup_in c' (ps @ tgt) = Some (m d) \<and> (lookup_in c ps = Some d \<or> lookup_in c ps = None \<and> assigned d = {#}))"
    using Cons.IH [OF c(2)] wfc mc by blast
  have "assigned n1 = assigned n"
    using mc assigned_set_child [OF Cons.prems(2), of p "newDir p origin"] by auto
  then have "assigned n' = assigned n"
    using assigned_set_child [OF wfc(2), of p c'] mc ih c(3) by simp
  moreover have "keeps_paths (p # ps @ tgt) n (set_child p c' n1)"
    by (rule keeps_paths_child) (use mc ih Cons.prems(3) in auto)
  moreover obtain d where d: "lookup_in c' (ps @ tgt) = Some (m d)" "lookup_in c ps = Some d \<or> lookup_in c ps = None \<and> assigned d = {#}"
    using ih by blast
  moreover have "lookup_in n (p # ps) = Some d \<or> lookup_in n (p # ps) = None \<and> assigned d = {#}"
  proof (cases "child n p")
    case None
    then have "c = newDir p origin" using mc by auto
    then have "assigned d = {#}" using d(2) by (cases ps) auto
    with None Cons.prems(3) show ?thesis by simp
  qed (use mc d(2) Cons.prems(3) in auto)
  ultimately show ?case using wf_set_child [OF wfc(2)] ih mc Cons.prems(3) c(3) by auto
qed

section \<open>Generated files\<close>

text \<open>The node put_generated leaves at its name.\<close>

definition generated_node :: "bytes \<Rightarrow> bytes \<Rightarrow> bytes \<Rightarrow> vnode \<Rightarrow> vnode" where
  "generated_node nm generator content d =
     (case child d nm of
        None \<Rightarrow> VNode (generated_file
          \<lparr>v_name = nm, v_dir = False, v_ino = 0, v_origin = no_origin, v_perm = 0, v_size = 0, v_mtime = 0,
           v_uid = 0, v_gid = 0, v_nlink = 0, v_fsys = None, v_data = []\<rparr> generator content) []
      | Some n \<Rightarrow> VNode (generated_file (v_meta n) generator content) (v_children n))"

lemma generated_file_keeps [simp]:
  "v_dir (generated_file m g c) = v_dir m" "v_ino (generated_file m g c) = v_ino m"
  by (simp_all add: generated_file_def)

lemma put_generated_facts:
  assumes "put_generated name nm g c d = Ok d'" and "wf_node d" and "v_dir (v_meta d)"
  shows "wf_node d' \<and> v_meta d' = v_meta d \<and> assigned d' = assigned d \<and> keeps_paths [nm] d d' \<and>
    lookup_in d' [nm] = Some (generated_node nm g c d)"
proof -
  let ?g = "generated_node nm g c d"
  have d': "d' = set_child nm ?g d"
    using assms(1) by (auto simp: put_generated_def generated_node_def split: option.splits if_splits)
  have old: "\<not> v_dir (v_meta n) \<and> v_meta ?g = generated_file (v_meta n) g c" if "child d nm = Some n" for n
    using assms(1) that by (auto simp: put_generated_def generated_node_def split: if_splits)
  have "wf_node ?g \<and> assigned ?g = (case child d nm of None \<Rightarrow> {#} | Some n \<Rightarrow> assigned n)"
  proof (cases "child d nm")
    case None
    then show ?thesis by (simp add: generated_node_def assigned_def)
  next
    case (Some n)
    then have "wf_node n" using wf_child assms(2) by blast
    with Some show ?thesis by (cases n) (simp add: generated_node_def assigned_def)
  qed
  then have "wf_node d'" "assigned d' = assigned d"
    using assigned_set_child [OF assms(2), of nm ?g] wf_set_child [OF assms(2)] d' by (auto split: option.splits)
  moreover have "keeps_paths [nm] d (set_child nm ?g d)"
  proof (rule keeps_paths_child [where ps = "[]"])
    fix n
    assume n: "child d nm = Some n"
    show "keeps_paths [] n ?g" unfolding keeps_paths_def
    proof (intro allI impI)
      fix qs m
      assume "lookup_in n qs = Some m"
      then have "qs = []" "m = n" using old [OF n] by (cases qs; auto)+
      with old [OF n] show "\<exists>m'. lookup_in ?g qs = Some m' \<and> v_dir (v_meta m') = v_dir (v_meta m) \<and>
        v_ino (v_meta m') = v_ino (v_meta m) \<and> (qs \<noteq> [] \<longrightarrow> v_meta m' = v_meta m)" by simp
    qed
  qed (use assms(3) in auto)
  ultimately show ?thesis using assms(3) d' by simp
qed

lemma AddGenerated_facts:
  assumes "tree_ok t" and "AddGenerated name g c t = Ok t'"
  obtains root' where "t' = tree_number (t\<lparr>t_root := root'\<rparr>)" and "tree_ok (t\<lparr>t_root := root'\<rparr>)"
    and "keeps_paths (split_on slash name) (t_root t) root'"
    and "\<exists>nm d. lookup_in root' (split_on slash name) = Some (generated_node nm g c d)"
    and "ValidPath name" and "name \<noteq> [dot]"
proof -
  have v: "ValidPath name" "name \<noteq> [dot]" using assms(2) by (auto simp: AddGenerated_def split: if_splits)
  let ?org = "\<lparr>o_Kind = OriginGenerated, o_Source = g, o_Path = []\<rparr>"
  obtain ps b where split: "split_on slash name = ps @ [b]" using split_on_not_Nil by (metis rev_exhaust)
  note db = path_Dir_Base [OF v split]
  obtain root' where r: "ensureDir (path_Dir name) ?org (put_generated name b g c) (t_root t) = Ok root'"
    "t' = tree_number (t\<lparr>t_root := root'\<rparr>)"
    using assms(2) v db(1) by (auto simp: AddGenerated_def go_outcome)
  have plain: "\<forall>e \<in> set ps. plain_part e" using ValidPath_parts [OF v] split by simp
  have "ensureDir (path_Dir name) ?org f = ensure_parts ?org [] ps f" for f
  proof (cases "ps = []")
    case False
    then have "split_on slash (join_with [slash] ps) = ps" using plain by (intro split_join) (auto simp: plain_part_def)
    with False db(2) join_parts_rel(3) [OF False plain] show ?thesis by (simp add: ensureDir_def fun_eq_iff)
  qed (use db(2) in \<open>simp add: ensureDir_def fun_eq_iff\<close>)
  with r(1) have e: "ensure_parts ?org [] ps (put_generated name b g c) (t_root t) = Ok root'" by simp
  have ok: "wf_node (t_root t)" "v_dir (v_meta (t_root t))" using assms(1) by (auto simp: tree_ok_def)
  note put = put_generated_facts [of name b g c]
  from ensure_parts_facts [OF e ok, where m = "generated_node b g c" and tgt = "[b]"] put
  have f: "wf_node root'" "v_meta root' = v_meta (t_root t)" "assigned root' = assigned (t_root t)"
    "keeps_paths (ps @ [b]) (t_root t) root'" "\<exists>d. lookup_in root' (ps @ [b]) = Some (generated_node b g c d)" by blast+
  have m: "mset (filter (\<lambda>x. x \<noteq> 0) (inos root')) = mset (filter (\<lambda>x. x \<noteq> 0) (inos (t_root t)))"
    using f(3) by (simp add: assigned_def)
  have "set (filter (\<lambda>x. x \<noteq> 0) (inos root')) = set (filter (\<lambda>x. x \<noteq> 0) (inos (t_root t)))"
    using mset_eq_setD [OF m] .
  then have "\<forall>x \<in> set (inos root'). x < max (t_nextIno t) 2" using assms(1) by (force simp: tree_ok_def)
  with f(1,2) m ok assms(1) have "tree_ok (t\<lparr>t_root := root'\<rparr>)"
    using mset_eq_imp_distinct_iff [OF m] by (simp add: tree_ok_def)
  with that [OF r(2)] f(4,5) v split show thesis by metis
qed

section \<open>The tree Build returns\<close>

text \<open>While a tree is assembled no node has an inode number.\<close>

definition fresh :: "vnode \<Rightarrow> bool" where
  "fresh n \<longleftrightarrow> wf_node n \<and> assigned n = {#}"

lemma fresh_newDir [simp]: "fresh (newDir nm o')"
  by (simp add: fresh_def)

lemma fresh_fileNode [simp]: "fresh (fileNode fsys kind layer nm src info)"
  by (simp add: fileNode_def fresh_def assigned_def split: prod.split)

lemma fresh_set_child: "fresh n \<Longrightarrow> fresh c \<Longrightarrow> fresh (set_child k c n)"
  using assigned_set_child [of n k c] wf_set_child [of n c k] by (simp add: fresh_def)

lemma assigned_children: "map_of cs k = Some c \<Longrightarrow> set_mset (assigned c) \<subseteq> set (inos_children cs)"
proof (induction cs)
  case (Cons e cs)
  then show ?case by (cases e) (auto simp: assigned_def split: if_splits)
qed simp

lemma fresh_inos:
  assumes "fresh n"
  shows "\<forall>x \<in> set (inos n). x = 0"
proof -
  have "mset (filter (\<lambda>x. x \<noteq> 0) (inos n)) = {#}" using assms by (simp add: fresh_def assigned_def)
  then have "filter (\<lambda>x. x \<noteq> 0) (inos n) = []" by (simp only: mset_zero_iff)
  then show ?thesis by (simp only: filter_empty_conv not_not)
qed

lemma fresh_child:
  assumes "fresh n" and "child n k = Some c"
  shows "fresh c"
proof -
  have "set_mset (assigned c) \<subseteq> set (inos n)" using assms(2) assigned_children by (cases n) (auto simp: child_def)
  moreover have "\<forall>x \<in> set (inos n). x = 0" by (rule fresh_inos [OF assms(1)])
  moreover have "0 \<notin># assigned c" by (simp add: assigned_def)
  ultimately have "assigned c = {#}" by (metis multiset_nonemptyE subsetD)
  with assms wf_child show ?thesis by (auto simp: fresh_def)
qed

lemma fresh_mergeChild:
  assumes "mergeChild n cand logical cl rp = Ok (c, n1)" and "fresh n" and "fresh cand"
  shows "fresh c \<and> fresh n1 \<and> v_meta n1 = v_meta n"
  using assms by (auto simp: mergeChild_def Let_def go_outcome fresh_set_child split: option.splits if_splits intro: fresh_child)

lemma fresh_walkFS:
  "walkFS fuel ss layer fsys kind srcPath target dir = Ok dir' \<Longrightarrow> fresh dir \<Longrightarrow> fresh dir' \<and> v_meta dir' = v_meta dir"
proof (induction fuel arbitrary: srcPath target dir dir')
  case (Suc fuel)
  let ?body = "walk_entry (walkFS fuel ss layer fsys kind) ss layer fsys kind srcPath target"
  from Suc.prems obtain ents where loop: "for_each ?body ents dir = Ok dir'" by (auto split: sum.splits)
  have "fresh d' \<and> v_meta d' = v_meta dir" if d: "fresh d \<and> v_meta d = v_meta dir" and b: "?body e d = Ok d'" for e d d'
  proof -
    from b obtain info src where t: "entry_target fsys srcPath e = Ok (info, src)"
      by (auto simp: walk_entry_def Let_def go_outcome)
    consider (dir) sub d1 sub' where "mergeChild d (newDir (fst e) (originOf kind layer src)) (path_Join [target, fst e]) [] [] = Ok (sub, d1)"
        "walkFS fuel ss layer fsys kind src (path_Join [target, fst e]) sub = Ok sub'" "d' = set_child (fst e) sub' d1"
      | (reg) won where "mergeChild d (fileNode fsys kind layer (fst e) src info) (path_Join [target, fst e])
          (set_Collisions ss) (set_Replacements ss) = Ok (won, d')"
      | (other) "d' = d"
      using b t by (auto simp: walk_entry_def Let_def go_outcome split: if_splits)
    then show ?thesis
    proof cases
      case dir
      with fresh_mergeChild [OF dir(1)] d have m: "fresh sub" "fresh d1" "v_meta d1 = v_meta dir" by auto
      with Suc.IH [OF dir(2)] dir(3) fresh_set_child show ?thesis by simp
    next
      case reg
      with fresh_mergeChild [OF reg] d show ?thesis by simp
    qed (use d in simp)
  qed
  then show ?case using for_each_invariant [OF loop, of "\<lambda>d. fresh d \<and> v_meta d = v_meta dir"] Suc.prems(2) by blast
qed simp

lemma fresh_ensure_parts:
  assumes "ensure_parts origin seen ps f n = Ok n'" and "fresh n"
    and "\<And>d d'. f d = Ok d' \<Longrightarrow> fresh d \<Longrightarrow> fresh d' \<and> v_meta d' = v_meta d"
  shows "fresh n' \<and> v_meta n' = v_meta n"
  using assms(1,2)
proof (induction ps arbitrary: seen n n')
  case (Cons p ps)
  obtain c n1 c' where c: "mergeChild n (newDir p origin) (path_Join [seen, p]) [] [] = Ok (c, n1)"
    "ensure_parts origin (path_Join [seen, p]) ps f c = Ok c'" "n' = set_child p c' n1"
    using Cons.prems(1) by (auto simp: Let_def go_outcome)
  from fresh_mergeChild [OF c(1) Cons.prems(2)] Cons.IH [OF c(2)] c(3) fresh_set_child show ?case by simp
qed (use assms(3) in simp)

lemma fresh_mergeTree:
  assumes "mergeTree fuel ss layer fsys kind srcDir target root = Ok root'" and "fresh root"
  shows "fresh root' \<and> v_meta root' = v_meta root"
proof -
  obtain src where "ensureDir target (originOf kind layer src) (walkFS fuel ss layer fsys kind src target) root = Ok root'"
    using assms(1) by (auto simp: mergeTree_def go_outcome split: if_splits)
  then show ?thesis
    using fresh_walkFS [of fuel ss layer fsys kind src target] fresh_ensure_parts [of _ "[]" _ _ root root'] assms(2)
    by (auto simp: ensureDir_def split: if_splits)
qed

lemma fresh_addLayer:
  "addLayer fuel r ss layer st = Ok st' \<Longrightarrow> fresh (fst st) \<Longrightarrow> fresh (fst st') \<and> v_meta (fst st') = v_meta (fst st)"
  by (cases st) (auto simp: addLayer_def Let_def go_outcome split: if_splits sum.splits dest!: fresh_mergeTree)

lemma fresh_build_set:
  assumes "build_set fuel r ss st = Ok st'" and "fresh (fst st)"
  shows "fresh (fst st') \<and> v_meta (fst st') = v_meta (fst st)"
proof -
  obtain root resolved where st: "st = (root, resolved)" by (cases st)
  let ?st1 = "(set_child (set_Name ss) (newDir (set_Name ss) no_origin) root, resolved)"
  have loop: "for_each (addLayer fuel r ss) (set_Layers ss) ?st1 = Ok st'"
    using assms(1) st by (auto simp: build_set_def Let_def go_outcome split: if_splits)
  have "fresh (fst ?st1) \<and> v_meta (fst ?st1) = v_meta root" using assms(2) st by (simp add: fresh_set_child)
  from for_each_invariant [OF loop, of "\<lambda>x. fresh (fst x) \<and> v_meta (fst x) = v_meta root", OF this] fresh_addLayer st
  show ?thesis by (metis fst_conv)
qed

lemma Build_ok:
  assumes "Build fuel sets r = Ok t"
  shows "tree_ok t \<and> 0 \<notin> set (inos (t_root t)) \<and> distinct (inos (t_root t))"
proof -
  obtain root resolved where b: "for_each (build_set fuel r) sets (newDir [dot] no_origin, []) = Ok (root, resolved)"
    "t = tree_number \<lparr>t_root = root, t_nextIno = 0\<rparr>" using assms by (auto simp: Build_def go_outcome)
  have "fresh (fst (root, resolved)) \<and> v_meta (fst (root, resolved)) = v_meta (newDir [dot] no_origin)"
    by (rule for_each_invariant [OF b(1), of "\<lambda>x. fresh (fst x) \<and> v_meta (fst x) = v_meta (newDir [dot] no_origin)"])
       (use fresh_build_set in auto)
  then have "fresh root" "v_dir (v_meta root)" by (simp_all add: newDir_def)
  then have "tree_ok \<lparr>t_root = root, t_nextIno = 0\<rparr>"
    using fresh_inos [of root] by (auto simp: tree_ok_def fresh_def filter_empty_conv)
  from tree_number_ok [OF this] b(2) show ?thesis by simp
qed

section \<open>What a layer contributes, path by path\<close>

text \<open>The file or directory a source holds at a path below \<open>src\<close>, as the node the walk makes of it.\<close>

fun src_at :: "src_fs \<Rightarrow> OriginKind \<Rightarrow> LayerSpec \<Rightarrow> bytes \<Rightarrow> bytes list \<Rightarrow> vmeta option" where
  "src_at fsys kind layer src [] = None"
| "src_at fsys kind layer src (p # ps) =
     (case ss_ReadDir fsys src of
        Inl _ \<Rightarrow> None
      | Inr ents \<Rightarrow>
          (case find (\<lambda>e. fst e = p) ents of
             None \<Rightarrow> None
           | Some e \<Rightarrow>
               (case entry_target fsys src e of
                  Ok (info, src') \<Rightarrow>
                    if is_dir info then
                      if ps = [] then Some (v_meta (newDir p (originOf kind layer src'))) else src_at fsys kind layer src' ps
                    else if is_regular info \<and> ps = [] then Some (v_meta (fileNode fsys kind layer p src' info))
                    else None
                | _ \<Rightarrow> None)))"

text \<open>How an old and a new claim to the same logical path are settled.\<close>

definition settled :: "SetSpec \<Rightarrow> bytes \<Rightarrow> vmeta \<Rightarrow> vmeta \<Rightarrow> vmeta \<Rightarrow> bool" where
  "settled ss logical a b r \<longleftrightarrow>
     v_dir a = v_dir b \<and>
     (if v_dir a then r = a
      else if map_index (set_Collisions ss) logical \<noteq> []
      then r = (if o_Source (v_origin b) = map_index (set_Collisions ss) logical then b else a)
      else if map_index (set_Replacements ss) (o_Source (v_origin a)) = o_Source (v_origin b) then r = b
      else sameContent a b = Ok True \<and> r = a)"

text \<open>Paths below \<open>target\<close>, joined one element at a time as the walk joins them.\<close>

definition below :: "bytes \<Rightarrow> bytes list \<Rightarrow> bytes" where
  "below target ps = fold (\<lambda>p t. path_Join [t, p]) ps target"

definition look :: "vnode \<Rightarrow> bytes list \<Rightarrow> vmeta option" where
  "look n ps = map_option v_meta (lookup_in n ps)"

text \<open>The merge of one path.\<close>

definition merged :: "SetSpec \<Rightarrow> bytes \<Rightarrow> vmeta option \<Rightarrow> vmeta option \<Rightarrow> vmeta option \<Rightarrow> bool" where
  "merged ss logical old cand new \<longleftrightarrow>
     (case cand of
        None \<Rightarrow> new = old
      | Some b \<Rightarrow>
          (case old of
             None \<Rightarrow> new = Some b
           | Some a \<Rightarrow> (\<exists>r. new = Some r \<and> settled ss logical a b r)))"

text \<open>What one entry of a directory does to the child of its name.\<close>

definition entry_rel ::
  "(bytes \<Rightarrow> bytes \<Rightarrow> vnode \<Rightarrow> (vfs_err, vnode) outcome) \<Rightarrow> SetSpec \<Rightarrow> LayerSpec \<Rightarrow> src_fs \<Rightarrow> OriginKind \<Rightarrow> bytes \<Rightarrow> bytes \<Rightarrow>
    bytes \<times> (src_err + src_info) \<Rightarrow> vnode option \<Rightarrow> vnode option \<Rightarrow> bool" where
  "entry_rel walk ss layer fsys kind srcPath target e c c' \<longleftrightarrow>
     (\<exists>info src. entry_target fsys srcPath e = Ok (info, src) \<and>
       (if is_dir info then
          \<exists>sub sub'. (c = None \<and> sub = newDir (fst e) (originOf kind layer src) \<or> c = Some sub \<and> v_dir (v_meta sub)) \<and>
            walk src (path_Join [target, fst e]) sub = Ok sub' \<and> c' = Some sub'
        else if is_regular info then
          let cand = fileNode fsys kind layer (fst e) src info in
          c = None \<and> c' = Some cand \<or>
          (\<exists>old won. c = Some old \<and> \<not> v_dir (v_meta old) \<and> c' = Some won \<and> (won = old \<or> won = cand) \<and>
             settled ss (path_Join [target, fst e]) (v_meta old) (v_meta cand) (v_meta won))
        else c' = c))"

lemma fileNode_simps [simp]:
  "\<not> v_dir (v_meta (fileNode fsys kind layer nm src info))" "v_name (v_meta (fileNode fsys kind layer nm src info)) = nm"
  by (simp_all add: fileNode_def split: prod.split)

lemma mergeChild_file:
  fixes cand :: vnode
  assumes "mergeChild d cand logical (set_Collisions ss) (set_Replacements ss) = Ok (won, d1)" and "\<not> v_dir (v_meta cand)"
  shows "v_meta d1 = v_meta d \<and> child d1 (v_name (v_meta cand)) = Some won \<and>
    (\<forall>k. k \<noteq> v_name (v_meta cand) \<longrightarrow> child d1 k = child d k) \<and>
    (child d (v_name (v_meta cand)) = None \<and> won = cand \<or>
     (\<exists>old. child d (v_name (v_meta cand)) = Some old \<and> \<not> v_dir (v_meta old) \<and> (won = old \<or> won = cand) \<and>
        settled ss logical (v_meta old) (v_meta cand) (v_meta won)))"
proof (cases "child d (v_name (v_meta cand))")
  case None
  with assms show ?thesis by (auto simp: mergeChild_def)
next
  case (Some old)
  with assms show ?thesis
    by (auto simp: mergeChild_def Let_def settled_def go_outcome split: if_splits)
qed

lemma walk_entry_rel:
  assumes "walk_entry walk ss layer fsys kind srcPath target e d = Ok d'"
  shows "v_meta d' = v_meta d \<and> (\<forall>k. k \<noteq> fst e \<longrightarrow> child d' k = child d k) \<and>
    entry_rel walk ss layer fsys kind srcPath target e (child d (fst e)) (child d' (fst e))"
proof -
  from assms obtain info src where t: "entry_target fsys srcPath e = Ok (info, src)"
    by (auto simp: walk_entry_def Let_def go_outcome)
  show ?thesis
  proof (cases "is_dir info")
    case True
    then obtain sub d1 sub' where m: "mergeChild d (newDir (fst e) (originOf kind layer src)) (path_Join [target, fst e]) [] [] = Ok (sub, d1)"
      "walk src (path_Join [target, fst e]) sub = Ok sub'" "d' = set_child (fst e) sub' d1"
      using assms t by (auto simp: walk_entry_def Let_def go_outcome)
    from mergeChild_dir [OF m(1)] m(2,3) t True show ?thesis by (auto simp: entry_rel_def)
  next
    case False
    note nodir = False
    show ?thesis
    proof (cases "is_regular info")
      case True
      then obtain won where "mergeChild d (fileNode fsys kind layer (fst e) src info) (path_Join [target, fst e])
          (set_Collisions ss) (set_Replacements ss) = Ok (won, d')"
        using assms t False by (auto simp: walk_entry_def Let_def go_outcome)
      from mergeChild_file [OF this] t nodir True show ?thesis by (auto simp: entry_rel_def Let_def)
    next
      case False
      with assms t nodir show ?thesis by (auto simp: walk_entry_def entry_rel_def Let_def)
    qed
  qed
qed

lemma walk_entries_rel:
  assumes "for_each (walk_entry walk ss layer fsys kind srcPath target) ents d = Ok d'" and "distinct (map fst ents)"
  shows "v_meta d' = v_meta d \<and>
    (\<forall>k. case find (\<lambda>e. fst e = k) ents of
           None \<Rightarrow> child d' k = child d k
         | Some e \<Rightarrow> entry_rel walk ss layer fsys kind srcPath target e (child d k) (child d' k))"
  using assms
proof (induction ents arbitrary: d)
  case (Cons e ents)
  then obtain d1 where d1: "walk_entry walk ss layer fsys kind srcPath target e d = Ok d1"
    "for_each (walk_entry walk ss layer fsys kind srcPath target) ents d1 = Ok d'" by (auto simp: go_outcome)
  note step = walk_entry_rel [OF d1(1)]
  from Cons.IH [OF d1(2)] Cons.prems(2) have rest: "v_meta d' = v_meta d1"
    "\<forall>k. case find (\<lambda>e. fst e = k) ents of
           None \<Rightarrow> child d' k = child d1 k
         | Some e \<Rightarrow> entry_rel walk ss layer fsys kind srcPath target e (child d1 k) (child d' k)" by auto
  have "find (\<lambda>x. fst x = fst e) ents = None" using Cons.prems(2) by (auto simp: find_None_iff image_iff)
  with spec [OF rest(2), of "fst e"] have "child d' (fst e) = child d1 (fst e)" by simp
  moreover have "case find (\<lambda>e. fst e = k) ents of
      None \<Rightarrow> child d' k = child d k
    | Some e \<Rightarrow> entry_rel walk ss layer fsys kind srcPath target e (child d k) (child d' k)" if "k \<noteq> fst e" for k
  proof -
    have "child d1 k = child d k" using step that by blast
    with spec [OF rest(2), of k] show ?thesis by (simp only:)
  qed
  ultimately show ?case using step rest(1) by simp
qed simp

lemma look_Cons: "v_dir (v_meta n) \<Longrightarrow> look n (p # ps) = (case child n p of None \<Rightarrow> None | Some c \<Rightarrow> look c ps)"
  by (simp add: look_def split: option.split)

lemma look_Nil: "look n [] = Some (v_meta n)"
  by (simp add: look_def)

lemma look_file: "\<not> v_dir (v_meta n) \<Longrightarrow> ps \<noteq> [] \<Longrightarrow> look n ps = None"
  by (cases ps) (simp_all add: look_def)

lemma look_newDir: "ps \<noteq> [] \<Longrightarrow> look (newDir nm o') ps = None"
  by (cases ps) (simp_all add: look_def)

lemma below_Cons: "below target (p # ps) = below (path_Join [target, p]) ps"
  by (simp add: below_def)

text \<open>A source lists no name twice in a directory.\<close>

definition lists_once :: "src_fs \<Rightarrow> bool" where
  "lists_once fsys \<longleftrightarrow> (\<forall>p ents. ss_ReadDir fsys p = Inr ents \<longrightarrow> distinct (map fst ents))"

lemma walkFS_merged:
  "lists_once fsys \<Longrightarrow> walkFS fuel ss layer fsys kind src target dir = Ok dir' \<Longrightarrow> v_dir (v_meta dir) \<Longrightarrow>
    v_meta dir' = v_meta dir \<and>
    (\<forall>ps. ps \<noteq> [] \<longrightarrow> merged ss (below target ps) (look dir ps) (src_at fsys kind layer src ps) (look dir' ps))"
proof (induction fuel arbitrary: src target dir dir')
  case (Suc fuel)
  let ?walk = "walkFS fuel ss layer fsys kind"
  from Suc.prems(2) obtain ents where rd: "ss_ReadDir fsys src = Inr ents"
    and loop: "for_each (walk_entry ?walk ss layer fsys kind src target) ents dir = Ok dir'" by (auto split: sum.splits)
  have "distinct (map fst ents)" using Suc.prems(1) rd by (auto simp: lists_once_def)
  note rel = walk_entries_rel [OF loop this]
  then have d': "v_dir (v_meta dir')" using Suc.prems(3) by simp
  have "merged ss (below target (p # ps)) (look dir (p # ps)) (src_at fsys kind layer src (p # ps)) (look dir' (p # ps))"
    for p ps
  proof (cases "find (\<lambda>e. fst e = p) ents")
    case None
    then have "child dir' p = child dir p" using rel by (auto dest: spec [of _ p])
    with None rd Suc.prems(3) d' show ?thesis by (simp add: merged_def look_Cons)
  next
    case (Some e)
    then have e: "fst e = p" by (auto simp: find_Some_iff)
    have er: "entry_rel ?walk ss layer fsys kind src target e (child dir p) (child dir' p)"
      using spec [OF conjunct2 [OF rel], of p] Some by simp
    then obtain info src' where t: "entry_target fsys src e = Ok (info, src')" by (auto simp: entry_rel_def)
    show ?thesis
    proof (cases "is_dir info")
      case True
      then obtain sub sub' where sub: "child dir p = None \<and> sub = newDir p (originOf kind layer src') \<or>
          child dir p = Some sub \<and> v_dir (v_meta sub)"
        "?walk src' (path_Join [target, p]) sub = Ok sub'" "child dir' p = Some sub'"
        using er t e by (auto simp: entry_rel_def)
      then have "v_dir (v_meta sub)" by auto
      note ih = Suc.IH [OF Suc.prems(1) sub(2) this]
      show ?thesis
      proof (cases "ps = []")
        case ps: True
        with sub ih t True rd Some e d' Suc.prems(3) show ?thesis
          by (auto simp: merged_def look_Cons look_Nil settled_def)
      next
        case ps: False
        then have "src_at fsys kind layer src (p # ps) = src_at fsys kind layer src' ps"
          using True t rd Some by simp
        moreover have "look dir (p # ps) = look sub ps" using sub(1) Suc.prems(3) ps by (auto simp: look_Cons look_newDir)
        ultimately show ?thesis using ih ps sub(3) d' by (simp add: look_Cons below_Cons)
      qed
    next
      case False
      with er t e rd Some d' Suc.prems(3) show ?thesis
        by (cases "ps = []")
           (auto simp: entry_rel_def Let_def merged_def look_Cons look_Nil look_file below_Cons below_def
             split: if_splits option.splits)
    qed
  qed
  then have "merged ss (below target ps) (look dir ps) (src_at fsys kind layer src ps) (look dir' ps)" if "ps \<noteq> []" for ps
    using that by (cases ps) auto
  with rel show ?case by blast
qed simp

section \<open>Comparing files\<close>

context solid_image
begin

lemma readFullAt_solid:
  assumes "off + n \<le> length content"
  shows "readFullAt rd n (int off) = Ok (take n (drop off content))"
proof (cases "n = 0")
  case False
  with rd_inside [of "int off" n] assms have "rd (int off) n = (take n (drop off content), None)" by simp
  moreover have "length (take n (drop off content)) = n" using assms by simp
  ultimately show ?thesis
    using False by (subst readFullAt.simps) (auto simp: readFullAt.simps [of rd 0])
qed (simp add: readFullAt.simps)

end

lemma compare_loop_solid:
  assumes "solid_image af ca" and "solid_image bf cb" and "length ca = length cb"
  shows "off \<le> length ca \<Longrightarrow> compare_loop af bf (length ca) off = Ok (drop off ca = drop off cb)"
proof (induction "length ca - off" arbitrary: off rule: less_induct)
  case less
  show ?case
  proof (cases "off < length ca")
    case True
    define n where "n = min compareBlock (length ca - off)"
    have n: "0 < n" "off + n \<le> length ca" using True by (auto simp: n_def compareBlock_def)
    have eq: "(drop off ca = drop off cb) \<longleftrightarrow>
      take n (drop off ca) = take n (drop off cb) \<and> drop (off + n) ca = drop (off + n) cb"
      by (metis append_take_drop_id drop_drop add.commute)
    have rec: "compare_loop af bf (length ca) (off + n) = Ok (drop (off + n) ca = drop (off + n) cb)"
      using less.hyps [of "off + n"] n True by simp
    have "compare_loop af bf (length ca) off = and_then (readFullAt af n (int off)) (\<lambda>ap.
      and_then (readFullAt bf n (int off)) (\<lambda>bp. if ap \<noteq> bp then Ok False else compare_loop af bf (length ca) (off + n)))"
      unfolding n_def by (subst compare_loop.simps) (simp add: True Let_def)
    with rec eq solid_image.readFullAt_solid [OF assms(1) n(2)] solid_image.readFullAt_solid [OF assms(2), of off n] n(2) assms(3)
    show ?thesis by simp
  next
    case False
    then show ?thesis using less.prems assms(3) by (subst compare_loop.simps) simp
  qed
qed

text \<open>A regular file that opens and whose reader delivers \<open>c\<close>.\<close>

definition holds :: "vmeta \<Rightarrow> bytes \<Rightarrow> bool" where
  "holds m c \<longleftrightarrow> v_size m = int (length c) \<and> (\<exists>f. openRegular m = Ok f \<and> solid_image (vfile_ReadAt f) c)"

lemma sameContent_holds:
  assumes "holds a ca" and "holds b cb"
  shows "sameContent a b = Ok (ca = cb)"
proof (cases "length ca = length cb")
  case True
  obtain fa fb where f: "openRegular a = Ok fa" "solid_image (vfile_ReadAt fa) ca"
    "openRegular b = Ok fb" "solid_image (vfile_ReadAt fb) cb" using assms unfolding holds_def by blast
  from compare_loop_solid [OF f(2,4) True, of 0] f assms True show ?thesis by (simp add: sameContent_def holds_def)
next
  case False
  then have "ca \<noteq> cb" by auto
  with False assms show ?thesis by (simp add: sameContent_def holds_def)
qed

section \<open>A source without an end\<close>

text \<open>Every directory of this source holds one directory, itself.\<close>

definition cyclic_fs :: src_fs where
  "cyclic_fs =
     \<lparr>ss_Stat = (\<lambda>_. Inr \<lparr>si_Mode = ModeDir, si_Size = 512, si_ModTime = 0, si_Sys = None\<rparr>),
      ss_ReadDir = (\<lambda>_. Inr [(str ''d'', Inr \<lparr>si_Mode = ModeDir, si_Size = 512, si_ModTime = 0, si_Sys = None\<rparr>)]),
      ss_ReadLink = (\<lambda>_. Inl 0), ss_Open = (\<lambda>_. Inl 0)\<rparr>"

lemma cyclic_target:
  "\<exists>info. entry_target cyclic_fs src (str ''d'', Inr \<lparr>si_Mode = ModeDir, si_Size = 512, si_ModTime = 0, si_Sys = None\<rparr>) =
    Ok (info, path_Join [src, str ''d'']) \<and> is_dir info"
  by (simp add: entry_target_def is_link_def is_dir_def ModeDir_def ModeSymlink_def)

lemma walk_cyclic:
  assumes "fresh dir" and "child dir (str ''d'') = None"
  shows "walkFS fuel ss layer cyclic_fs kind src target dir = Diverge"
  using assms
proof (induction fuel arbitrary: src target dir)
  case (Suc fuel)
  let ?e = "(str ''d'', Inr \<lparr>si_Mode = ModeDir, si_Size = 512, si_ModTime = 0, si_Sys = None\<rparr>)"
  obtain info where t: "entry_target cyclic_fs src ?e = Ok (info, path_Join [src, str ''d''])" "is_dir info"
    using cyclic_target by blast
  have rd: "ss_ReadDir cyclic_fs src = Inr [?e]" by (simp add: cyclic_fs_def)
  let ?sub = "newDir (str ''d'') (originOf kind layer (path_Join [src, str ''d'']))"
  have m: "mergeChild dir ?sub logical [] [] = Ok (?sub, set_child (str ''d'') ?sub dir)" for logical
    using Suc.prems(2) by (simp only: mergeChild_def Let_def v_meta_newDir option.case)
  have "walkFS fuel ss layer cyclic_fs kind s t ?sub = Diverge" for s t by (rule Suc.IH) simp_all
  then have "walk_entry (walkFS fuel ss layer cyclic_fs kind) ss layer cyclic_fs kind src target ?e dir = Diverge"
    using t m by (simp only: walk_entry_def Let_def fst_conv and_then.simps prod.case if_True)
  then show ?case by (simp only: walkFS.simps rd sum.case for_each.simps and_then.simps)
qed simp

section \<open>Properties\<close>

text \<open>
  C2: A layer is merged path by path and nothing is guessed. When the walk of a
  layer's directory onto the tree succeeds, then at every logical path below it:
  where the layer has nothing the tree is as before; where only the layer has
  something, that is served; where both have a directory the earlier one stays;
  where both have a file, the configured winner of exactly that path is served,
  else the layer configured to replace the earlier one, else the earlier file,
  and then the two compared equal.
\<close>

theorem layer_merges_paths:
  assumes "lists_once fsys" and "walkFS fuel ss layer fsys kind src target dir = Ok dir'" and "v_dir (v_meta dir)"
    and "ps \<noteq> []"
  shows "merged ss (below target ps) (look dir ps) (src_at fsys kind layer src ps) (look dir' ps)"
  using walkFS_merged [OF assms(1-3)] assms(4) by blast

definition one_file_fs :: src_fs where
  "one_file_fs =
     \<lparr>ss_Stat = (\<lambda>_. Inr \<lparr>si_Mode = 0x1a4, si_Size = 3, si_ModTime = 0, si_Sys = None\<rparr>),
      ss_ReadDir = (\<lambda>_. Inr [(str ''f'', Inr \<lparr>si_Mode = 0x1a4, si_Size = 3, si_ModTime = 0, si_Sys = None\<rparr>)]),
      ss_ReadLink = (\<lambda>_. Inl 0), ss_Open = (\<lambda>_. Inr (Some (bytes_ReadAt [1, 2, 3])))\<rparr>"

definition no_set :: SetSpec where
  "no_set = \<lparr>set_Name = str ''s'', set_Layers = [], set_Collisions = [], set_Replacements = []\<rparr>"

definition some_layer :: LayerSpec where
  "some_layer = \<lparr>l_Name = str ''cd'', l_Source = str ''cd.img'', l_Base = [], l_Dist = [], l_Stand = [], l_Boot = False\<rparr>"

theorem layer_merges_paths_witness:
  "\<exists>dir'. walkFS 1 no_set some_layer one_file_fs OriginImage (str ''dist'') (str ''s/dist'') (newDir (str ''dist'') no_origin) = Ok dir' \<and>
     look dir' [str ''f''] = src_at one_file_fs OriginImage some_layer (str ''dist'') [str ''f''] \<and> look dir' [str ''f''] \<noteq> None"
proof -
  let ?dir = "newDir (str ''dist'') no_origin"
  have once: "lists_once one_file_fs" by (simp add: lists_once_def one_file_fs_def)
  have reg: "entry_target one_file_fs src (str ''f'', Inr \<lparr>si_Mode = 0x1a4, si_Size = 3, si_ModTime = 0, si_Sys = None\<rparr>) =
      Ok (\<lparr>si_Mode = 0x1a4, si_Size = 3, si_ModTime = 0, si_Sys = None\<rparr>, path_Join [src, str ''f''])" for src
    by (simp add: entry_target_def is_link_def ModeSymlink_def)
  have kind: "\<not> is_dir \<lparr>si_Mode = 0x1a4, si_Size = 3, si_ModTime = 0, si_Sys = None\<rparr>"
    "is_regular \<lparr>si_Mode = 0x1a4, si_Size = 3, si_ModTime = 0, si_Sys = None\<rparr>"
    by (simp_all add: is_dir_def is_regular_def ModeDir_def ModeType_def)
  have rd: "ss_ReadDir one_file_fs src = Inr [(str ''f'', Inr \<lparr>si_Mode = 0x1a4, si_Size = 3, si_ModTime = 0, si_Sys = None\<rparr>)]" for src
    by (simp add: one_file_fs_def)
  obtain dir' where w: "walkFS 1 no_set some_layer one_file_fs OriginImage (str ''dist'') (str ''s/dist'') ?dir = Ok dir'"
    using reg kind rd by (simp add: walk_entry_def Let_def mergeChild_def del: str_simps)
  from layer_merges_paths [OF once this, of "[str ''f'']"]
  have "merged no_set (below (str ''s/dist'') [str ''f'']) (look ?dir [str ''f''])
    (src_at one_file_fs OriginImage some_layer (str ''dist'') [str ''f'']) (look dir' [str ''f''])" by (simp del: str_simps)
  moreover have "look ?dir [str ''f''] = None" by (rule look_newDir) simp
  moreover have "src_at one_file_fs OriginImage some_layer (str ''dist'') [str ''f''] \<noteq> None"
    using reg kind rd by (simp del: str_simps)
  ultimately show ?thesis using w by (auto simp: merged_def)
qed

text \<open>
  Two files compare equal exactly when their bytes are equal. For files that
  open and whose readers deliver contents of the sizes the tree records,
  sameContent returns, and answers whether the contents are the same.
\<close>

theorem sameContent_exact:
  assumes "holds a ca" and "holds b cb"
  shows "sameContent a b = Ok (ca = cb)"
  using sameContent_holds [OF assms] .

lemma holds_memory:
  assumes "o_Kind (v_origin m) = OriginGenerated" and "v_data m = c" and "v_size m = int (length c)"
  shows "holds m c"
proof -
  have "openRegular m = Ok (MemFile m c)" using assms by (simp add: openRegular_def)
  moreover have "solid_image (vfile_ReadAt (MemFile m c)) c"
    by (simp add: vfile_ReadAt_def bytes_image.solid_image_axioms)
  ultimately show ?thesis using assms(3) by (auto simp: holds_def)
qed

lemma holds_generated: "holds (generated_file m g c) c"
  by (rule holds_memory) (simp_all add: generated_file_def)

theorem sameContent_exact_witness:
  "sameContent (generated_file (v_meta (newDir [] no_origin)) [] [1, 2]) (generated_file (v_meta (newDir [] no_origin)) [] [1, 3]) = Ok False"
  using sameContent_exact [OF holds_generated holds_generated, of "v_meta (newDir [] no_origin)" "[]" "[1, 2]"
    "v_meta (newDir [] no_origin)" "[]" "[1, 3]"] by simp

lemma lookup_ino: "lookup_in n ps = Some m \<Longrightarrow> v_ino (v_meta m) \<in> set (inos n)"
proof (induction ps arbitrary: n)
  case Nil
  then show ?case by (cases n) auto
next
  case (Cons p ps)
  then obtain c where c: "child n p = Some c" "lookup_in c ps = Some m" by (auto split: if_splits option.splits)
  have "map_of cs p = Some c \<Longrightarrow> set (inos c) \<subseteq> set (inos_children cs)" for cs
  proof (induction cs)
    case (Cons e cs)
    then show ?case by (cases e) (auto split: if_splits)
  qed simp
  with c(1) have "set (inos c) \<subseteq> set (inos n)" by (cases n) (auto simp: child_def)
  with Cons.IH [OF c(2)] show ?case by blast
qed

lemma numbered_AddGenerated:
  assumes "tree_ok t" and "AddGenerated name g c t = Ok t'"
  shows "tree_ok t' \<and> 0 \<notin> set (inos (t_root t')) \<and> distinct (inos (t_root t'))"
  by (rule AddGenerated_facts [OF assms]) (use tree_number_ok in simp)

lemma AddGenerated_paths:
  assumes ok: "tree_ok t" "0 \<notin> set (inos (t_root t))" and add: "AddGenerated name g c t = Ok t'"
  shows "(\<exists>n. tree_find t' name = Ok n \<and> holds (v_meta n) c) \<and>
    (\<forall>qs m. lookup_in (t_root t) qs = Some m \<longrightarrow>
       (\<exists>m'. lookup_in (t_root t') qs = Some m' \<and> v_ino (v_meta m') = v_ino (v_meta m) \<and>
             (qs \<noteq> split_on slash name \<longrightarrow> v_meta m' = v_meta m)))"
proof (rule AddGenerated_facts [OF ok(1) add], intro conjI allI impI)
  fix root'
  assume t': "t' = tree_number (t\<lparr>t_root := root'\<rparr>)" and v: "ValidPath name" "name \<noteq> [dot]"
    and new: "\<exists>nm d. lookup_in root' (split_on slash name) = Some (generated_node nm g c d)"
  obtain nx where root: "t_root t' = fst (number_node root' nx)" using t' by (simp add: t_root_number)
  from new obtain nm d nx' where "lookup_in (t_root t') (split_on slash name) = Some (fst (number_node (generated_node nm g c d) nx'))"
    unfolding root using lookup_number by metis
  moreover have "holds (v_meta (fst (number_node (generated_node nm g c d) nx'))) c"
    by (rule holds_memory) (simp_all add: v_meta_number generated_node_def generated_file_def split: option.split)
  ultimately show "\<exists>n. tree_find t' name = Ok n \<and> holds (v_meta n) c"
    using v by (simp add: tree_find_def tree_lookup_def)
next
  fix root' qs m
  assume t': "t' = tree_number (t\<lparr>t_root := root'\<rparr>)" and k: "keeps_paths (split_on slash name) (t_root t) root'"
    and look: "lookup_in (t_root t) qs = Some m"
  obtain nx where root: "t_root t' = fst (number_node root' nx)" using t' by (simp add: t_root_number)
  obtain m1 where m1: "lookup_in root' qs = Some m1" "v_ino (v_meta m1) = v_ino (v_meta m)"
    "qs \<noteq> split_on slash name \<longrightarrow> v_meta m1 = v_meta m" using k look unfolding keeps_paths_def by blast
  obtain nx' where "lookup_in (t_root t') qs = Some (fst (number_node m1 nx'))" unfolding root using lookup_number [OF m1(1)] by blast
  moreover have "v_ino (v_meta m1) \<noteq> 0" using lookup_ino [OF look] ok(2) m1(2) by metis
  ultimately show "\<exists>m'. lookup_in (t_root t') qs = Some m' \<and> v_ino (v_meta m') = v_ino (v_meta m) \<and>
    (qs \<noteq> split_on slash name \<longrightarrow> v_meta m' = v_meta m)" using m1 by (simp add: v_meta_number)
qed

text \<open>
  C12: A served inode number is never reused and never moves. After Build and any
  number of generated files every node of the tree has an inode number and no
  two have the same; adding one more generated file makes its content readable
  under its name, and every path that was there keeps its inode number, and all
  else but at that name.
\<close>

theorem served_inodes:
  assumes "Build fuel sets r = Ok t0" and "for_each (\<lambda>(n, g, c). AddGenerated n g c) gs t0 = Ok t"
    and "AddGenerated name g c t = Ok t'"
  shows "0 \<notin> set (inos (t_root t')) \<and> distinct (inos (t_root t')) \<and>
    (\<exists>n. tree_find t' name = Ok n \<and> holds (v_meta n) c) \<and>
    (\<forall>qs m. lookup_in (t_root t) qs = Some m \<longrightarrow>
       (\<exists>m'. lookup_in (t_root t') qs = Some m' \<and> v_ino (v_meta m') = v_ino (v_meta m) \<and>
             (qs \<noteq> split_on slash name \<longrightarrow> v_meta m' = v_meta m)))"
proof -
  have "tree_ok t \<and> 0 \<notin> set (inos (t_root t))"
    by (rule for_each_invariant [OF assms(2), of "\<lambda>t. tree_ok t \<and> 0 \<notin> set (inos (t_root t))"])
       (use Build_ok [OF assms(1)] numbered_AddGenerated in \<open>auto split: prod.splits\<close>)
  with AddGenerated_paths [OF _ _ assms(3)] numbered_AddGenerated [OF _ assms(3)] show ?thesis by blast
qed

theorem served_inodes_witness:
  "\<exists>t t'. Build 1 [] (\<lambda>_. Inl 0) = Ok t \<and> AddGenerated (str ''a'') [] [7] t = Ok t' \<and>
     (\<exists>n. tree_find t' (str ''a'') = Ok n \<and> holds (v_meta n) [7])"
proof -
  obtain t where t: "Build 1 [] (\<lambda>_. Inl 0) = Ok t" by (simp add: Build_def)
  then have root: "child (t_root t) k = None" for k
    by (auto simp: Build_def t_root_number newDir_def child_def)
  have a: "ValidPath (str ''a'')" "str ''a'' \<noteq> [dot]" "split_on slash (str ''a'') = [] @ [str ''a'']"
    by (simp_all add: ValidPath_def slash_def dot_def)
  have "\<exists>t'. AddGenerated (str ''a'') [] [7] t = Ok t'"
    using a path_Dir_Base [OF a] root by (simp add: AddGenerated_def ensureDir_def put_generated_def del: str_simps)
  then obtain t' where "AddGenerated (str ''a'') [] [7] t = Ok t'" by blast
  with served_inodes [OF t _ this, of "[]"] t show ?thesis by auto
qed

text \<open>
  C39: A directory cycle on the media is walked forever. The walk refuses links to
  directories because they could cycle, but takes real directories as they come:
  on a source in which a directory contains itself no number of levels is enough.
\<close>

theorem walk_cycle_diverges:
  "walkFS fuel ss layer cyclic_fs kind src target (newDir nm origin) = Diverge"
  by (rule walk_cyclic) simp_all

end
