(* ===== verification/Go_Net.thy ===== *)
theory Go_Net
  imports Go_Strings
begin

text \<open>
  What the program uses of Go's net and net/netip: addresses with their zero
  value, conversion from slices, IPv4-mapped addresses, UDP addresses.
\<close>

datatype addr = NoAddr | V4 bytes | V6 bytes bytes

definition IsValid :: "addr \<Rightarrow> bool" where
  "IsValid a \<longleftrightarrow> a \<noteq> NoAddr"

fun AsSlice :: "addr \<Rightarrow> bytes" where
  "AsSlice NoAddr = []"
| "AsSlice (V4 b) = b"
| "AsSlice (V6 b z) = b"

definition AddrFromSlice :: "bytes \<Rightarrow> addr" where
  "AddrFromSlice b = (if length b = 4 then V4 b else if length b = 16 then V6 b [] else NoAddr)"

fun WithZone :: "addr \<Rightarrow> bytes \<Rightarrow> addr" where
  "WithZone (V6 b z) z' = V6 b z'"
| "WithZone a z' = a"

definition mapped_prefix :: bytes where
  "mapped_prefix = replicate 10 0 @ [0xff, 0xff]"

fun Unmap :: "addr \<Rightarrow> addr" where
  "Unmap (V6 b z) = (if take 12 b = mapped_prefix then V4 (drop 12 b) else V6 b z)"
| "Unmap a = a"

definition addr_IsUnspecified :: "addr \<Rightarrow> bool" where
  "addr_IsUnspecified a \<longleftrightarrow> a = V4 (replicate 4 0) \<or> a = V6 (replicate 16 0) []"

record UDPAddr =
  ua_IP :: bytes
  ua_Port :: int
  ua_Zone :: bytes

definition AddrPort :: "UDPAddr \<Rightarrow> addr \<times> u16" where
  "AddrPort u = (WithZone (AddrFromSlice (ua_IP u)) (ua_Zone u), of_int (ua_Port u))"

text \<open>\<open>net.IP.IsUnspecified\<close>: 0.0.0.0 in either form, or the IPv6 zero address.\<close>

definition ip_IsUnspecified :: "bytes \<Rightarrow> bool" where
  "ip_IsUnspecified b \<longleftrightarrow> b = replicate 4 0 \<or> b = mapped_prefix @ replicate 4 0 \<or> b = replicate 16 0"

end
