(* ===== verification/Tftp.thy ===== *)
theory Tftp
  imports Efs Go_Net "HOL-Library.Sublist"
begin

text \<open>
  The TFTP server (src/internal/tftp/tftp.go): requests, option negotiation and
  the transfer loop with its retransmissions. The network is a \<open>world\<close>: what
  opening a socket, WriteTo and ReadFrom do, as functions of a state of its
  own. One wait with a read deadline is the list of what ReadFrom returns up to the
  deadline; an error of ReadFrom may come before its end. Times are nanoseconds.
  Logging and the capture record's image and duration are left out, the
  record's counters and result are kept. Shutdown cancels transfers by closing
  their sockets, which is a failing write here.
\<close>

section \<open>Model: constants and state\<close>

definition opRRQ :: u16 where "opRRQ = 1"
definition opWRQ :: u16 where "opWRQ = 2"
definition opDATA :: u16 where "opDATA = 3"
definition opACK :: u16 where "opACK = 4"
definition opERROR :: u16 where "opERROR = 5"
definition opOACK :: u16 where "opOACK = 6"

lemmas opcodes = opRRQ_def opWRQ_def opDATA_def opACK_def opERROR_def opOACK_def

definition tftp_blockSize :: int where "tftp_blockSize = 512"
definition minOptBlockSize :: int where "minOptBlockSize = 8"
definition maxOptBlockSize :: int where "maxOptBlockSize = 65464"

definition errNotDefined :: u16 where "errNotDefined = 0"
definition errFileNotFound :: u16 where "errFileNotFound = 1"
definition errAccessViolation :: u16 where "errAccessViolation = 2"

record tftp_File =
  tf_ReadAt :: reader_at
  tf_Size :: int

text \<open>An error of Open: whether it is ErrNotFound, and its text.\<close>

datatype open_error = OpenError bool bytes

record tftp_Server =
  ts_Open :: "bytes \<Rightarrow> open_error + tftp_File"
  ts_AllowIP :: "(addr \<Rightarrow> bool) option"
  ts_PortMin :: int
  ts_PortMax :: int
  ts_RetryInterval :: int
  ts_Retries :: int
  ts_FinalRetries :: int
  ts_FinalTimeout :: int

datatype sock_event = Recv "UDPAddr option" bytes | ReadFails

record 'c world =
  w_listen :: "int \<Rightarrow> 'c \<Rightarrow> int option \<times> 'c"
  w_write :: "int \<Rightarrow> UDPAddr \<Rightarrow> bytes \<Rightarrow> 'c \<Rightarrow> bool \<times> 'c"
  w_wait :: "int \<Rightarrow> int \<Rightarrow> 'c \<Rightarrow> sock_event list \<times> 'c"

datatype xfer_result = ResOk | ResUnackedFinal | ResAborted | ResGaveUp | ResError | ResNotFound

record transfer =
  x_size :: int
  x_blockSize :: int
  x_blocks :: int
  x_bytesSent :: int
  x_bytesAcked :: int
  x_resends :: int
  x_result :: xfer_result

section \<open>Model: requests\<close>

definition parseRRQ :: "bytes \<Rightarrow> bytes + (bytes \<times> bytes \<times> bytes)" where
  "parseRRQ pkt =
     (let body = drop 2 pkt in
      if 0 \<notin> set body then Inl (str ''malformed request: no filename terminator'')
      else
        let rest = tl (dropWhile (\<lambda>b. b \<noteq> 0) body) in
        if 0 \<notin> set rest then Inl (str ''malformed request: no mode terminator'')
        else Inr (takeWhile (\<lambda>b. b \<noteq> 0) body, ToLower (takeWhile (\<lambda>b. b \<noteq> 0) rest), tl (dropWhile (\<lambda>b. b \<noteq> 0) rest)))"

definition isPrintableASCII :: "bytes \<Rightarrow> bool" where
  "isPrintableASCII = list_all (\<lambda>c. \<not> (c < 0x20 \<or> c > 0x7e))"

text \<open>The loop over name and value fields; the options in the order in which they are stored.\<close>

fun option_pairs :: "bytes list \<Rightarrow> (bytes \<times> bytes) list option" where
  "option_pairs (name # val # rest) =
     (if name = [] \<or> val = [] \<or> \<not> isPrintableASCII name \<or> \<not> isPrintableASCII val then None
      else map_option ((#) (ToLower name, val)) (option_pairs rest))"
| "option_pairs _ = Some []"

definition parseOptions :: "bytes \<Rightarrow> (bytes \<times> bytes) list option" where
  "parseOptions trailing =
     (if trailing = [] then Some []
      else
        let fields = split_on 0 trailing in
        if length fields < 3 \<or> last fields \<noteq> [] then None
        else if length (butlast fields) mod 2 \<noteq> 0 then None
        else option_pairs (butlast fields))"

text \<open>Reading the map of options: a later value of a name replaces an earlier one.\<close>

definition opt_get :: "(bytes \<times> bytes) list \<Rightarrow> bytes \<Rightarrow> bytes option" where
  "opt_get opts = map_of (rev opts)"

definition opt_field :: "bytes \<Rightarrow> int \<Rightarrow> bytes" where
  "opt_field name n = name @ [0] @ itoa n @ [0]"

definition clamp_blksize :: "int \<Rightarrow> int" where
  "clamp_blksize n = (if n < minOptBlockSize then minOptBlockSize else if n > maxOptBlockSize then maxOptBlockSize else n)"

definition negotiateOptions :: "(bytes \<times> bytes) list \<Rightarrow> int \<Rightarrow> int \<Rightarrow> int \<Rightarrow> bytes option \<times> int \<times> int" where
  "negotiateOptions opts fileSize defaultBlockSize defaultTimeout =
     (if opts = [] then (None, defaultBlockSize, defaultTimeout)
      else
        let (b1, blkSize) =
              (case Option.bind (opt_get opts (str ''blksize'')) ParseInt of
                 None \<Rightarrow> ([], defaultBlockSize)
               | Some n \<Rightarrow> (opt_field (str ''blksize'') (clamp_blksize n), clamp_blksize n));
            (b2, timeout) =
              (case Option.bind (opt_get opts (str ''timeout'')) ParseInt of
                 None \<Rightarrow> ([], defaultTimeout)
               | Some n \<Rightarrow>
                   if 1 \<le> n \<and> n \<le> 255 then (opt_field (str ''timeout'') n, n * 1000000000)
                   else ([], defaultTimeout));
            b3 = (case opt_get opts (str ''tsize'') of None \<Rightarrow> [] | Some v \<Rightarrow> opt_field (str ''tsize'') fileSize)
        in if b1 @ b2 @ b3 = [] then (None, defaultBlockSize, defaultTimeout)
           else (Some (put16 opOACK @ b1 @ b2 @ b3), blkSize, timeout))"

section \<open>Model: sending\<close>

definition error_packet :: "u16 \<Rightarrow> bytes \<Rightarrow> bytes" where
  "error_packet code msg = put16 opERROR @ put16 code @ msg @ [0]"

definition sendError :: "'c world \<Rightarrow> int \<Rightarrow> UDPAddr \<Rightarrow> u16 \<Rightarrow> bytes \<Rightarrow> 'c \<Rightarrow> 'c" where
  "sendError w pc addr code msg c = snd (w_write w pc addr (error_packet code msg) c)"

function listen_from :: "'c world \<Rightarrow> int \<Rightarrow> int \<Rightarrow> 'c \<Rightarrow> int option \<times> 'c" where
  "listen_from w p portMax c =
     (if p > portMax then (None, c)
      else case w_listen w p c of
             (Some pc, c') \<Rightarrow> (Some pc, c')
           | (None, c') \<Rightarrow> listen_from w (p + 1) portMax c')"
  by pat_completeness auto
termination by (relation "measure (\<lambda>(w, p, m, c). nat (m + 1 - p))") auto

declare listen_from.simps [simp del]

definition listenTransfer :: "'c world \<Rightarrow> tftp_Server \<Rightarrow> 'c \<Rightarrow> int option \<times> 'c" where
  "listenTransfer w sv c =
     (if ts_PortMin sv = 0 \<and> ts_PortMax sv = 0 then w_listen w 0 c
      else listen_from w (ts_PortMin sv) (ts_PortMax sv) c)"

datatype ack_result = Acked | ClientError | TimedOut

text \<open>The inner loop of sendAndWaitAck over what ReadFrom returns.\<close>

fun wait_ack :: "addr \<times> u16 \<Rightarrow> u16 \<Rightarrow> sock_event list \<Rightarrow> ack_result \<times> sock_event list" where
  "wait_ack clientAP wantBlock [] = (TimedOut, [])"
| "wait_ack clientAP wantBlock (ReadFails # q) = (TimedOut, q)"
| "wait_ack clientAP wantBlock (Recv from pkt # q) =
     (let ackbuf = take 1500 pkt in
      case from of
        None \<Rightarrow> wait_ack clientAP wantBlock q
      | Some fu \<Rightarrow>
          if Unmap (fst (AddrPort fu)) \<noteq> fst clientAP \<or> snd (AddrPort fu) \<noteq> snd clientAP then wait_ack clientAP wantBlock q
          else if length ackbuf < 4 then wait_ack clientAP wantBlock q
          else if half_at ackbuf 0 = opACK then
            if half_at ackbuf 2 = wantBlock then (Acked, q) else wait_ack clientAP wantBlock q
          else if half_at ackbuf 0 = opERROR then (ClientError, q)
          else wait_ack clientAP wantBlock q)"

text \<open>
  The attempts of sendAndWaitAck that are left; the state is the network's and
  the datagrams not yet read. The result is acked, aborted, resends.
\<close>

fun send_attempts ::
  "'c world \<Rightarrow> int \<Rightarrow> UDPAddr \<Rightarrow> addr \<times> u16 \<Rightarrow> bytes \<Rightarrow> u16 \<Rightarrow> int \<Rightarrow> int \<Rightarrow> nat \<Rightarrow> int \<Rightarrow>
    'c \<times> sock_event list \<Rightarrow> bool \<times> bool \<times> int \<times> 'c \<times> sock_event list" where
  "send_attempts w pc dst clientAP pkt wantBlock timeout retries 0 attempt st = (False, False, retries, st)"
| "send_attempts w pc dst clientAP pkt wantBlock timeout retries (Suc left) attempt (c, q) =
     (case w_write w pc dst pkt c of
        (False, c1) \<Rightarrow> (False, True, attempt, c1, q)
      | (True, c1) \<Rightarrow>
          let (evs, c2) = w_wait w pc timeout c1 in
          case wait_ack clientAP wantBlock (q @ evs) of
            (Acked, q') \<Rightarrow> (True, False, attempt, c2, q')
          | (ClientError, q') \<Rightarrow> (False, True, attempt, c2, q')
          | (TimedOut, q') \<Rightarrow>
              send_attempts w pc dst clientAP pkt wantBlock timeout retries left (attempt + 1) (c2, q'))"

definition sendAndWaitAck ::
  "'c world \<Rightarrow> int \<Rightarrow> UDPAddr \<Rightarrow> addr \<times> u16 \<Rightarrow> bytes \<Rightarrow> u16 \<Rightarrow> int \<Rightarrow> int \<Rightarrow>
    'c \<times> sock_event list \<Rightarrow> bool \<times> bool \<times> int \<times> 'c \<times> sock_event list" where
  "sendAndWaitAck w pc dst clientAP pkt wantBlock timeout retries st =
     send_attempts w pc dst clientAP pkt wantBlock timeout retries (nat (retries + 1)) 0 st"

section \<open>Model: a transfer\<close>

definition retryPolicy :: "tftp_Server \<Rightarrow> int \<times> int \<times> int \<times> int" where
  "retryPolicy sv =
     (if ts_RetryInterval sv = 0 then 1000000000 else ts_RetryInterval sv,
      if ts_Retries sv = 0 then 5 else ts_Retries sv,
      if ts_FinalRetries sv = 0 then 1 else ts_FinalRetries sv,
      if ts_FinalTimeout sv = 0 then 300000000 else ts_FinalTimeout sv)"

text \<open>The local variables of serveFile that its loop only reads.\<close>

record xfer_env =
  xe_file :: tftp_File
  xe_pc :: int
  xe_client :: UDPAddr
  xe_key :: "addr \<times> u16"
  xe_retry :: int
  xe_retries :: int
  xe_finalRetries :: int
  xe_finalTimeout :: int

text \<open>
  The loop over the blocks; \<open>buf\<close> is \<open>data[4:]\<close>, which keeps its bytes from block to
  block. A block size of 0 would never end the loop.
\<close>

function send_blocks ::
  "'c world \<Rightarrow> xfer_env \<Rightarrow> bytes \<Rightarrow> u16 \<Rightarrow> int \<Rightarrow> transfer \<Rightarrow> 'c \<times> sock_event list \<Rightarrow> (unit, transfer \<times> 'c) outcome" where
  "send_blocks w xe buf block off t st =
     (if x_blockSize t \<le> 0 then Diverge
      else
        let want = max 0 (min (x_size t - off) (x_blockSize t));
            rd = (if want > 0 then tf_ReadAt (xe_file xe) off (nat want) else ([], None)) in
        if snd rd \<noteq> None \<and> snd rd \<noteq> Some EOF then
          Ok (t, sendError w (xe_pc xe) (xe_client xe) errNotDefined (str ''read error'') (fst st))
        else
          let buf' = blit 0 (fst rd) buf;
              pkt = put16 opDATA @ put16 block @ take (nat want) buf';
              isFinal = want < x_blockSize t;
              (acked, aborted, resends, st') =
                sendAndWaitAck w (xe_pc xe) (xe_client xe) (xe_key xe) pkt block
                  (if isFinal then xe_finalTimeout xe else xe_retry xe)
                  (if isFinal then xe_finalRetries xe else xe_retries xe) st;
              t' = t\<lparr>x_blocks := x_blocks t + 1, x_bytesSent := x_bytesSent t + want,
                     x_resends := x_resends t + resends,
                     x_bytesAcked := (if acked then x_bytesAcked t + want else x_bytesAcked t)\<rparr> in
          if aborted then Ok (t'\<lparr>x_result := ResAborted\<rparr>, fst st')
          else if isFinal then Ok (t'\<lparr>x_result := (if acked then ResOk else ResUnackedFinal)\<rparr>, fst st')
          else if \<not> acked then Ok (t'\<lparr>x_result := ResGaveUp\<rparr>, fst st')
          else send_blocks w xe buf' (block + 1) (off + x_blockSize t) t' st')"
  by pat_completeness auto
termination by (relation "measure (\<lambda>(w, xe, buf, block, off, t, st). nat (x_size t - off))") (auto simp: Let_def)

declare send_blocks.simps [simp del]

definition serveFile ::
  "'c world \<Rightarrow> tftp_Server \<Rightarrow> UDPAddr \<Rightarrow> bytes \<Rightarrow> (bytes \<times> bytes) list \<Rightarrow> 'c \<Rightarrow> (unit, transfer \<times> 'c) outcome" where
  "serveFile w sv client name opts c =
     (let path = trim_prefix slash name;
          t = \<lparr>x_size = 0, x_blockSize = tftp_blockSize, x_blocks = 0, x_bytesSent = 0, x_bytesAcked = 0,
               x_resends = 0, x_result = ResError\<rparr> in
      case ts_Open sv path of
        Inl (OpenError notFound msg) \<Rightarrow>
          (case listenTransfer w sv c of
             (None, c1) \<Rightarrow> Ok (t, c1)
           | (Some pc, c1) \<Rightarrow>
               Ok (t\<lparr>x_result := (if notFound then ResNotFound else ResError)\<rparr>,
                   sendError w pc client (if notFound then errFileNotFound else errNotDefined) msg c1))
      | Inr f \<Rightarrow>
          (case listenTransfer w sv c of
             (None, c1) \<Rightarrow> Ok (t, c1)
           | (Some pc, c1) \<Rightarrow>
               let (retry0, retries, finalRetries, finalTimeout0) = retryPolicy sv;
                   size = tf_Size f;
                   (oack, blkSize, retry) = negotiateOptions opts size tftp_blockSize retry0;
                   finalTimeout = min finalTimeout0 retry;
                   key = (Unmap (fst (AddrPort client)), snd (AddrPort client));
                   t1 = t\<lparr>x_size := size, x_blockSize := blkSize\<rparr>;
                   xe = \<lparr>xe_file = f, xe_pc = pc, xe_client = client, xe_key = key, xe_retry = retry,
                         xe_retries = retries, xe_finalRetries = finalRetries, xe_finalTimeout = finalTimeout\<rparr>;
                   go = send_blocks w xe (replicate (nat blkSize) 0) 1 0 in
               case oack of
                 None \<Rightarrow> go t1 (c1, [])
               | Some pkt \<Rightarrow>
                   let (acked, aborted, resends, st) = sendAndWaitAck w pc client key pkt 0 retry retries (c1, []);
                       t2 = t1\<lparr>x_resends := resends\<rparr> in
                   if aborted then Ok (t2\<lparr>x_result := ResAborted\<rparr>, fst st)
                   else if \<not> acked then Ok (t2\<lparr>x_result := ResGaveUp\<rparr>, fst st)
                   else go t2 st))"

text \<open>One datagram on the request socket \<open>pc\<close>; a transfer it starts is run to its end.\<close>

definition tftp_handle ::
  "'c world \<Rightarrow> tftp_Server \<Rightarrow> int \<Rightarrow> UDPAddr option \<Rightarrow> bytes \<Rightarrow> 'c \<Rightarrow> (unit, transfer option \<times> 'c) outcome" where
  "tftp_handle w sv pc from pkt c =
     (if length pkt < 2 then Ok (None, c)
      else case from of
        None \<Rightarrow> Ok (None, c)
      | Some udp \<Rightarrow>
          if (case ts_AllowIP sv of None \<Rightarrow> False | Some allow \<Rightarrow> \<not> allow (Unmap (AddrFromSlice (ua_IP udp)))) then
            Ok (None, sendError w pc udp errAccessViolation (str ''access denied'') c)
          else if half_at pkt 0 = opRRQ then
            (case parseRRQ pkt of
               Inl msg \<Rightarrow> Ok (None, sendError w pc udp errNotDefined msg c)
             | Inr (name, mode, trailing) \<Rightarrow>
                 let opts = (case parseOptions trailing of None \<Rightarrow> [] | Some os \<Rightarrow> os) in
                 and_then (serveFile w sv udp name opts c) (\<lambda>(t, c'). Ok (Some t, c')))
          else if half_at pkt 0 = opWRQ then
            Ok (None, sendError w pc udp errAccessViolation (str ''server is read-only'') c)
          else Ok (None, c))"

section \<open>A client at the other end of a faulty link\<close>

text \<open>
  The receiver of RFC 1350: it takes the block it waits for, acknowledges it, and
  acknowledges the previous block again.
\<close>

record rcv =
  r_acc :: bytes
  r_next :: u16
  r_writes :: nat
  r_hold :: nat
  r_pending :: "sock_event list"

definition ack_event :: "UDPAddr \<Rightarrow> u16 \<Rightarrow> sock_event" where
  "ack_event me n = Recv (Some me) (put16 opACK @ put16 n)"

definition receive :: "UDPAddr \<Rightarrow> bytes \<Rightarrow> rcv \<Rightarrow> rcv \<times> sock_event list" where
  "receive me pkt r =
     (let n = half_at pkt 2 in
      if half_at pkt 0 = opDATA then
        if n = r_next r then (r\<lparr>r_acc := r_acc r @ drop 4 pkt, r_next := n + 1\<rparr>, [ack_event me n])
        else if n = r_next r - 1 then (r, [ack_event me n])
        else (r, [])
      else if half_at pkt 0 = opOACK \<and> r_next r = 1 then (r, [ack_event me 0])
      else (r, []))"

fun receive_copies :: "UDPAddr \<Rightarrow> nat \<Rightarrow> bytes \<Rightarrow> rcv \<Rightarrow> rcv \<times> sock_event list" where
  "receive_copies me 0 pkt r = (r, [])"
| "receive_copies me (Suc m) pkt r =
     (let (r1, evs1) = receive me pkt r; (r2, evs2) = receive_copies me m pkt r1 in (r2, evs1 @ evs2))"

text \<open>
  What happens to the \<open>n\<close>-th packet sent: how many copies of it arrive, how many
  copies of each acknowledgement come back, and how many of the acknowledgements
  under way are held back beyond the deadline. The link keeps the order.
\<close>

record fault =
  f_copies :: nat
  f_acks :: nat
  f_hold :: nat

definition link :: "UDPAddr \<Rightarrow> int \<Rightarrow> (nat \<Rightarrow> fault) \<Rightarrow> rcv world" where
  "link me port faults =
     \<lparr>w_listen = (\<lambda>p r. (Some port, r)),
      w_write = (\<lambda>pc dst pkt r.
        let f = faults (r_writes r); (r', evs) = receive_copies me (f_copies f) pkt r in
        (True, r'\<lparr>r_writes := r_writes r + 1, r_hold := f_hold f,
                  r_pending := r_pending r @ concat (map (replicate (f_acks f)) evs)\<rparr>)),
      w_wait = (\<lambda>pc timeout r.
        let k = length (r_pending r) - r_hold r in (take k (r_pending r), r\<lparr>r_pending := drop k (r_pending r)\<rparr>))\<rparr>"

definition new_rcv :: rcv where
  "new_rcv = \<lparr>r_acc = [], r_next = 1, r_writes = 0, r_hold = 0, r_pending = []\<rparr>"

text \<open>Among any \<open>m + 1\<close> packets in a row one arrives and is acknowledged in time.\<close>

definition fair_link :: "nat \<Rightarrow> (nat \<Rightarrow> fault) \<Rightarrow> bool" where
  "fair_link m faults \<longleftrightarrow>
     (\<forall>n. \<exists>i\<le>m. f_copies (faults (n + i)) > 0 \<and> f_acks (faults (n + i)) > 0 \<and> f_hold (faults (n + i)) = 0)"

section \<open>Lockstep\<close>

text \<open>
  While block \<open>k\<close> is being sent the client has \<open>e\<close> blocks, \<open>k - 1\<close> or \<open>k\<close>, and what is
  under way to the server is acknowledgements of \<open>k - 1\<close> followed by
  acknowledgements of \<open>k\<close>.
\<close>

definition lockstep :: "UDPAddr \<Rightarrow> bytes \<Rightarrow> nat \<Rightarrow> nat \<Rightarrow> nat \<Rightarrow> rcv \<times> sock_event list \<Rightarrow> bool" where
  "lockstep me content bs k e st \<longleftrightarrow>
     e \<le> k \<and> k \<le> e + 1 \<and> r_acc (fst st) = take (e * bs) content \<and> r_next (fst st) = of_nat (e + 1) \<and>
     (\<exists>a b. snd st @ r_pending (fst st) = replicate a (ack_event me (of_nat (k - 1))) @ replicate b (ack_event me (of_nat k)) \<and>
        (k = 0 \<longrightarrow> a = 0) \<and> (0 < b \<longrightarrow> e = k))"

definition ap_key :: "UDPAddr \<Rightarrow> addr \<times> u16" where
  "ap_key u = (Unmap (fst (AddrPort u)), snd (AddrPort u))"

lemma half_at_header: "half_at (put16 a @ put16 b @ rest) 0 = a" "half_at (put16 a @ put16 b @ rest) 2 = b"
  using half_at_put16 [of "[]" a "put16 b @ rest"] half_at_put16 [of "put16 a" b rest] by simp_all

lemma half_at_ack: "half_at (put16 a @ put16 b) 0 = a" "half_at (put16 a @ put16 b) 2 = b"
  using half_at_header [of a b "[]"] by simp_all

lemma wait_ack_ack:
  "wait_ack (ap_key me) n (ack_event me m # q) = (if m = n then (Acked, q) else wait_ack (ap_key me) n q)"
  by (simp add: ack_event_def ap_key_def half_at_ack)

lemma wait_ack_stale:
  "m \<noteq> n \<Longrightarrow> wait_ack (ap_key me) n (replicate a (ack_event me m) @ q) = wait_ack (ap_key me) n q"
  by (induction a) (simp_all add: wait_ack_ack)

lemma wait_ack_lockstep:
  assumes "m \<noteq> n \<or> a = 0"
  shows "wait_ack (ap_key me) n (replicate a (ack_event me m) @ replicate b (ack_event me n)) =
    (if b = 0 then (TimedOut, []) else (Acked, replicate (b - 1) (ack_event me n)))"
proof -
  have "wait_ack (ap_key me) n (replicate b (ack_event me n)) =
    (if b = 0 then (TimedOut, []) else (Acked, replicate (b - 1) (ack_event me n)))"
    by (cases b) (simp_all add: wait_ack_ack)
  with assms show ?thesis by (cases "a = 0") (simp_all add: wait_ack_stale)
qed

lemma Suc_word_neq: "0 < k \<Longrightarrow> (of_nat (k - 1) :: u16) \<noteq> of_nat k"
  by (cases k) simp_all

text \<open>What the client makes of block \<open>k\<close> while the server is in step with it.\<close>

definition step_packet :: "bytes \<Rightarrow> nat \<Rightarrow> nat \<Rightarrow> bytes \<Rightarrow> bool" where
  "step_packet content bs k pkt \<longleftrightarrow>
     (if k = 0 then half_at pkt 0 = opOACK
      else \<exists>d. pkt = put16 opDATA @ put16 (of_nat k) @ d \<and> take ((k - 1) * bs) content @ d = take (k * bs) content)"

lemma receive_step:
  assumes "step_packet content bs k pkt" and "e \<le> k" and "k \<le> e + 1"
    and "r_acc r = take (e * bs) content" and "r_next r = of_nat (e + 1)"
  shows "receive me pkt r = (r\<lparr>r_acc := take (k * bs) content, r_next := of_nat (k + 1)\<rparr>, [ack_event me (of_nat k)])"
proof (cases "k = 0")
  case True
  with assms show ?thesis by (simp add: step_packet_def receive_def opcodes)
next
  case False
  then obtain d where d: "pkt = put16 opDATA @ put16 (of_nat k) @ d" "take ((k - 1) * bs) content @ d = take (k * bs) content"
    using assms(1) by (auto simp: step_packet_def)
  have drop4: "drop 4 (put16 opDATA @ put16 (of_nat k) @ d) = d" by simp
  consider "e = k" | "e = k - 1" "e + 1 = k" using assms(2,3) by linarith
  then show ?thesis
  proof cases
    case 1
    with assms(4,5) have r: "r\<lparr>r_acc := take (k * bs) content, r_next := of_nat (k + 1)\<rparr> = r" by simp
    from 1 assms(4,5) show ?thesis unfolding r by (simp add: receive_def d(1) half_at_header Let_def)
  next
    case 2
    then have "r_next r = of_nat k" "r_acc r @ d = take (k * bs) content"
      using assms(4,5) d(2) by (simp_all del: of_nat_Suc)
    then show ?thesis by (simp add: receive_def d(1) half_at_header drop4 Let_def)
  qed
qed

lemma receive_copies_step:
  assumes "step_packet content bs k pkt" and "e \<le> k" and "k \<le> e + 1"
    and "r_acc r = take (e * bs) content" and "r_next r = of_nat (e + 1)"
  shows "receive_copies me m pkt r =
    (if m = 0 then r else r\<lparr>r_acc := take (k * bs) content, r_next := of_nat (k + 1)\<rparr>, replicate m (ack_event me (of_nat k)))"
  using assms(2-)
proof (induction m arbitrary: r e)
  case (Suc m)
  have "receive_copies me m pkt (r\<lparr>r_acc := take (k * bs) content, r_next := of_nat (k + 1)\<rparr>) =
    (r\<lparr>r_acc := take (k * bs) content, r_next := of_nat (k + 1)\<rparr>, replicate m (ack_event me (of_nat k)))"
    using Suc.IH [of k "r\<lparr>r_acc := take (k * bs) content, r_next := of_nat (k + 1)\<rparr>"] by (cases m) simp_all
  then show ?case using receive_step [OF assms(1) Suc.prems] by (simp add: Let_def)
qed simp

lemma concat_replicate: "concat (replicate m (replicate n x)) = replicate (m * n) x"
  by (induction m) (simp_all add: replicate_add)

lemma put16_inj: "put16 a = put16 b \<longleftrightarrow> a = b"
  using be16_put16 by metis

lemma ack_event_inj: "ack_event me m = ack_event me n \<longleftrightarrow> m = n"
  by (simp add: ack_event_def put16_inj)

definition good_fault :: "fault \<Rightarrow> bool" where
  "good_fault f \<longleftrightarrow> f_copies f > 0 \<and> f_acks f > 0 \<and> f_hold f = 0"

lemma lockstep_wait:
  assumes "lockstep me content bs k e (r, q)" and "j = length (r_pending r) - h"
  obtains res q' where "wait_ack (ap_key me) (of_nat k) (q @ take j (r_pending r)) = (res, q')"
    and "res = TimedOut \<and> lockstep me content bs k e (r\<lparr>r_pending := drop j (r_pending r)\<rparr>, q') \<or>
      res = Acked \<and> lockstep me content bs (Suc k) k (r\<lparr>r_pending := drop j (r_pending r)\<rparr>, q')"
    and "h = 0 \<Longrightarrow> ack_event me (of_nat k) \<in> set (r_pending r) \<Longrightarrow> res = Acked"
proof -
  let ?X = "ack_event me (of_nat (k - 1))" and ?Y = "ack_event me (of_nat k)"
  from assms(1) obtain a b where ab: "q @ r_pending r = replicate a ?X @ replicate b ?Y" "k = 0 \<longrightarrow> a = 0" "0 < b \<longrightarrow> e = k"
    and st: "e \<le> k" "k \<le> e + 1" "r_acc r = take (e * bs) content" "r_next r = of_nat (e + 1)"
    unfolding lockstep_def by auto
  define i where "i = length q + j"
  define a1 b1 where "a1 = min a i" and "b1 = min b (i - a)"
  have front: "q @ take j (r_pending r) = replicate a1 ?X @ replicate b1 ?Y"
    using arg_cong [OF ab(1), of "take i"] by (simp add: i_def a1_def b1_def min.commute)
  have rest: "drop j (r_pending r) = replicate (a - i) ?X @ replicate (b - (i - a)) ?Y"
    using arg_cong [OF ab(1), of "drop i"] by (simp add: i_def)
  have neq: "(of_nat (k - 1) :: u16) \<noteq> of_nat k \<or> a1 = 0"
    using ab(2) Suc_word_neq [of k] by (cases "k = 0") (simp_all add: a1_def)
  have wait: "wait_ack (ap_key me) (of_nat k) (q @ take j (r_pending r)) =
    (if b1 = 0 then (TimedOut, []) else (Acked, replicate (b1 - 1) ?Y))"
    unfolding front by (rule wait_ack_lockstep [OF neq])
  show thesis
  proof (cases "b1 = 0")
    case True
    moreover have "lockstep me content bs k e (r\<lparr>r_pending := drop j (r_pending r)\<rparr>, [])"
      using st ab(2,3) rest unfolding lockstep_def by (intro conjI exI [of _ "a - i"] exI [of _ "b - (i - a)"]) auto
    moreover have "\<not> (h = 0 \<and> ?Y \<in> set (r_pending r))"
    proof
      assume "h = 0 \<and> ?Y \<in> set (r_pending r)"
      then have "?Y \<in> set (replicate a1 ?X @ replicate b1 ?Y)" using assms(2) unfolding front [symmetric] by simp
      with True neq show False by (auto simp: ack_event_inj split: if_splits)
    qed
    ultimately show thesis using wait that by auto
  next
    case False
    then have "a \<le> i" "e = k" using ab(3) by (auto simp: b1_def)
    then have "lockstep me content bs (Suc k) k (r\<lparr>r_pending := drop j (r_pending r)\<rparr>, replicate (b1 - 1) ?Y)"
      using st rest unfolding lockstep_def
      by (auto simp: replicate_add [symmetric] intro!: exI [of _ "b1 - 1 + (b - (i - a))"] exI [of _ 0])
    with False wait that show thesis by auto
  qed
qed

lemma lockstep_write:
  assumes "lockstep me content bs k e (r, q)" and "step_packet content bs k pkt"
  obtains e' r' where "w_write (link me port faults) pc dst pkt r = (True, r')" and "lockstep me content bs k e' (r', q)"
    and "r_writes r' = r_writes r + 1" and "r_hold r' = f_hold (faults (r_writes r))"
    and "good_fault (faults (r_writes r)) \<Longrightarrow> ack_event me (of_nat k) \<in> set (r_pending r')"
proof -
  let ?Y = "ack_event me (of_nat k)"
  from assms(1) obtain a b where ab: "q @ r_pending r = replicate a (ack_event me (of_nat (k - 1))) @ replicate b ?Y"
      "k = 0 \<longrightarrow> a = 0" "0 < b \<longrightarrow> e = k"
    and st: "e \<le> k" "k \<le> e + 1" "r_acc r = take (e * bs) content" "r_next r = of_nat (e + 1)"
    unfolding lockstep_def by auto
  define f where "f = faults (r_writes r)"
  define n where "n = f_copies f * f_acks f"
  define r' where "r' = (if f_copies f = 0 then r else r\<lparr>r_acc := take (k * bs) content, r_next := of_nat (k + 1)\<rparr>)
    \<lparr>r_writes := r_writes r + 1, r_hold := f_hold f, r_pending := r_pending r @ replicate n ?Y\<rparr>"
  define e' where "e' = (if f_copies f = 0 then e else k)"
  have pend: "r_pending r' = r_pending r @ replicate n ?Y" by (simp add: r'_def)
  have w: "w_write (link me port faults) pc dst pkt r = (True, r')"
    using receive_copies_step [OF assms(2) st, of me "f_copies f"]
    by (simp add: link_def Let_def f_def [symmetric] concat_replicate n_def r'_def)
  have "q @ r_pending r' = replicate a (ack_event me (of_nat (k - 1))) @ replicate (b + n) ?Y"
    using ab(1) by (simp add: pend replicate_add)
  moreover have "0 < b + n \<longrightarrow> e' = k" using ab(3) by (auto simp: e'_def n_def)
  moreover have "e' \<le> k \<and> k \<le> e' + 1 \<and> r_acc r' = take (e' * bs) content \<and> r_next r' = of_nat (e' + 1)"
    using st by (simp add: e'_def r'_def)
  ultimately have "lockstep me content bs k e' (r', q)"
    unfolding lockstep_def using ab(2) by (intro conjI exI [of _ a] exI [of _ "b + n"]) auto
  moreover have "good_fault f \<Longrightarrow> ?Y \<in> set (r_pending r')"
    unfolding pend by (simp add: good_fault_def n_def)
  ultimately show thesis using that [OF w] by (simp add: r'_def f_def)
qed

lemma send_attempts_lockstep:
  assumes "lockstep me content bs k e (r, q)" and "step_packet content bs k pkt"
  obtains acked resends r' q' e' where
    "send_attempts (link me port faults) pc dst (ap_key me) pkt (of_nat k) timeout retries left attempt (r, q) =
       (acked, False, resends, r', q')"
    and "if acked then lockstep me content bs (Suc k) k (r', q') else lockstep me content bs k e' (r', q')"
    and "\<exists>i<left. good_fault (faults (r_writes r + i)) \<Longrightarrow> acked"
  using assms(1)
proof (induction left arbitrary: r q e attempt thesis)
  case 0
  show ?case by (rule 0(1) [of False retries r q e]) (use 0 in simp_all)
next
  case (Suc left)
  obtain e1 r1 where w: "w_write (link me port faults) pc dst pkt r = (True, r1)" "lockstep me content bs k e1 (r1, q)"
      "r_writes r1 = r_writes r + 1" "r_hold r1 = f_hold (faults (r_writes r))"
    and got: "good_fault (faults (r_writes r)) \<Longrightarrow> ack_event me (of_nat k) \<in> set (r_pending r1)"
    using lockstep_write [OF Suc.prems(2) assms(2)] by metis
  define j where "j = length (r_pending r1) - r_hold r1"
  define r2 where "r2 = r1\<lparr>r_pending := drop j (r_pending r1)\<rparr>"
  have wait: "w_wait (link me port faults) pc timeout r1 = (take j (r_pending r1), r2)"
    by (simp add: link_def Let_def j_def r2_def)
  obtain res q1 where ack: "wait_ack (ap_key me) (of_nat k) (q @ take j (r_pending r1)) = (res, q1)"
    and res: "res = TimedOut \<and> lockstep me content bs k e1 (r2, q1) \<or> res = Acked \<and> lockstep me content bs (Suc k) k (r2, q1)"
    and now: "r_hold r1 = 0 \<Longrightarrow> ack_event me (of_nat k) \<in> set (r_pending r1) \<Longrightarrow> res = Acked"
    using lockstep_wait [OF w(2) j_def] unfolding r2_def by metis
  show ?case
  proof (cases "res = Acked")
    case True
    show ?thesis
      by (rule Suc.prems(1) [of True attempt r2 q1]) (use True w(1) wait ack res in simp_all)
  next
    case False
    with res have t: "res = TimedOut" "lockstep me content bs k e1 (r2, q1)" by auto
    have "\<not> good_fault (faults (r_writes r))"
      using False now got w(4) unfolding good_fault_def by metis
    then have later: "\<exists>i<left. good_fault (faults (r_writes r2 + i))" if "\<exists>i<Suc left. good_fault (faults (r_writes r + i))"
      using that w(3) less_Suc_eq_0_disj by (auto simp: r2_def)
    obtain acked resends r' q' e' where
      "send_attempts (link me port faults) pc dst (ap_key me) pkt (of_nat k) timeout retries left (attempt + 1) (r2, q1) =
         (acked, False, resends, r', q')"
      "if acked then lockstep me content bs (Suc k) k (r', q') else lockstep me content bs k e' (r', q')"
      "\<exists>i<left. good_fault (faults (r_writes r2 + i)) \<Longrightarrow> acked"
      using Suc.IH [OF _ t(2), of "attempt + 1"] by metis
    with later show ?thesis
      by (intro Suc.prems(1) [of acked resends r' q' e']) (simp_all add: w(1) wait ack t(1))
  qed
qed

lemma sendAndWaitAck_lockstep:
  assumes "lockstep me content bs k e (r, q)" and "step_packet content bs k pkt"
  obtains acked resends r' q' e' where
    "sendAndWaitAck (link me port faults) pc dst (ap_key me) pkt (of_nat k) timeout retries (r, q) = (acked, False, resends, r', q')"
    and "if acked then lockstep me content bs (Suc k) k (r', q') else lockstep me content bs k e' (r', q')"
    and "fair_link m faults \<Longrightarrow> int m \<le> retries \<Longrightarrow> acked"
proof -
  obtain acked resends r' q' e' where
    "send_attempts (link me port faults) pc dst (ap_key me) pkt (of_nat k) timeout retries (nat (retries + 1)) 0 (r, q) =
       (acked, False, resends, r', q')"
    and "if acked then lockstep me content bs (Suc k) k (r', q') else lockstep me content bs k e' (r', q')"
    and acked: "\<exists>i<nat (retries + 1). good_fault (faults (r_writes r + i)) \<Longrightarrow> acked"
    using send_attempts_lockstep [OF assms] by metis
  moreover have "acked" if "fair_link m faults" "int m \<le> retries"
  proof -
    from that(1) obtain i where "i \<le> m" "good_fault (faults (r_writes r + i))"
      unfolding fair_link_def good_fault_def by blast
    with that(2) show ?thesis by (intro acked exI [of _ i]) auto
  qed
  ultimately show thesis using that unfolding sendAndWaitAck_def by metis
qed

section \<open>The transfer\<close>

lemma lockstep_prefix: "lockstep me content bs k e st \<Longrightarrow> prefix (r_acc (fst st)) content"
  by (auto simp: lockstep_def take_is_prefix)

lemma take_drop_min: "take (min n (length xs - m)) (drop m xs) = take n (drop m xs)"
  by (simp add: min_def)

text \<open>One pass of the loop sends the block of the file that is due.\<close>

lemma block_due:
  assumes "solid_image (tf_ReadAt f) content" and "0 < bs" and "off = (k - 1) * bs" and "off \<le> length content" and "0 < k"
    and "want = max 0 (min (int (length content) - int off) (int bs))" and "length buf = bs"
    and "rd = (if want > 0 then tf_ReadAt f (int off) (nat want) else ([], None))"
  shows "snd rd = None" and "fst rd = take bs (drop off content)" and "nat want = length (fst rd)"
    and "step_packet content bs k (put16 opDATA @ put16 (of_nat k) @ take (nat want) (blit 0 (fst rd) buf))"
    and "want < int bs \<longleftrightarrow> length content < k * bs" and "length (blit 0 (fst rd) buf) = bs"
proof -
  obtain j where k: "k = Suc j" using assms(5) by (cases k) simp_all
  define n where "n = min bs (length content - off)"
  have n_le: "off + n \<le> length content" using assms(4) by (simp add: n_def)
  have want: "want = int n" using assms(4) unfolding assms(6) n_def by linarith
  have rd: "rd = (take n (drop off content), None)"
  proof (cases "n = 0")
    case True
    then show ?thesis by (simp add: assms(8) want)
  next
    case False
    then show ?thesis
      using solid_image.rd_inside [OF assms(1), of "int off" n] assms(4) n_le by (simp add: assms(8) want)
  qed
  have n: "length (take n (drop off content)) = n" by (simp add: n_def)
  show "snd rd = None" by (simp add: rd)
  show fst: "fst rd = take bs (drop off content)"
    by (simp add: rd n_def min_def)
  show len: "nat want = length (fst rd)" using n by (simp add: want rd)
  have blit: "blit 0 (fst rd) buf = fst rd @ drop (length (fst rd)) buf" by (rule blit_0)
  have "take (j * bs) content @ take bs (drop (j * bs) content) = take (Suc j * bs) content"
    using take_add [of "j * bs" bs content] by (simp add: add.commute)
  then show "step_packet content bs k (put16 opDATA @ put16 (of_nat k) @ take (nat want) (blit 0 (fst rd) buf))"
    unfolding step_packet_def blit len by (simp add: fst assms(3) k min.commute take_drop_min)
  show "want < int bs \<longleftrightarrow> length content < k * bs"
    using assms(3,4) by (auto simp: want n_def k)
  show "length (blit 0 (fst rd) buf) = bs"
    using assms(7) n by (simp add: blit rd n_def)
qed

lemma send_blocks_lockstep:
  assumes "solid_image (tf_ReadAt f) content" and "0 < bs" and "xe_file xe = f" and "xe_key xe = ap_key me"
    and "lockstep me content bs k e (r, q)" and "0 < k" and "(k - 1) * bs \<le> length content" and "length buf = bs"
    and "x_size t = int (length content)" and "x_blockSize t = int bs"
  obtains t' r' where
    "send_blocks (link me port faults) xe buf (of_nat k) (int ((k - 1) * bs)) t (r, q) = Ok (t', r')"
    and "prefix (r_acc r') content" and "x_result t' = ResOk \<Longrightarrow> r_acc r' = content"
    and "fair_link m faults \<Longrightarrow> int m \<le> xe_retries xe \<Longrightarrow> int m \<le> xe_finalRetries xe \<Longrightarrow> x_result t' = ResOk"
  using assms(5-)
proof (induction "length content - (k - 1) * bs" arbitrary: k e r q buf t thesis rule: less_induct)
  case less
  define off where "off = (k - 1) * bs"
  define want where "want = max 0 (min (int (length content) - int off) (int bs))"
  define rd where "rd = (if want > 0 then tf_ReadAt f (int off) (nat want) else ([], None))"
  define pkt where "pkt = put16 opDATA @ put16 (of_nat k) @ take (nat want) (blit 0 (fst rd) buf)"
  note due = block_due [OF assms(1,2) off_def _ less.prems(3) want_def less.prems(5) rd_def]
  have off: "off \<le> length content" using less.prems(4) by (simp add: off_def)
  have pkt: "step_packet content bs k pkt" unfolding pkt_def by (rule due(4) [OF off])
  define fin where "fin \<longleftrightarrow> length content < k * bs"
  have fin_eq: "want < int bs \<longleftrightarrow> fin" unfolding fin_def by (rule due(5) [OF off])
  obtain acked resends r1 q1 e1 where
    send: "sendAndWaitAck (link me port faults) (xe_pc xe) (xe_client xe) (ap_key me) pkt (of_nat k)
        (if fin then xe_finalTimeout xe else xe_retry xe) (if fin then xe_finalRetries xe else xe_retries xe) (r, q) =
        (acked, False, resends, r1, q1)"
    and next_st: "if acked then lockstep me content bs (Suc k) k (r1, q1) else lockstep me content bs k e1 (r1, q1)"
    and fair: "fair_link m faults \<Longrightarrow> int m \<le> (if fin then xe_finalRetries xe else xe_retries xe) \<Longrightarrow> acked"
    using sendAndWaitAck_lockstep [OF less.prems(2) pkt] by metis
  define t1 where "t1 = t\<lparr>x_blocks := x_blocks t + 1, x_bytesSent := x_bytesSent t + want,
     x_resends := x_resends t + resends, x_bytesAcked := (if acked then x_bytesAcked t + want else x_bytesAcked t)\<rparr>"
  have step: "send_blocks (link me port faults) xe buf (of_nat k) (int off) t (r, q) =
    (if fin then Ok (t1\<lparr>x_result := (if acked then ResOk else ResUnackedFinal)\<rparr>, r1)
     else if \<not> acked then Ok (t1\<lparr>x_result := ResGaveUp\<rparr>, r1)
     else send_blocks (link me port faults) xe (blit 0 (fst rd) buf) (of_nat (Suc k)) (int (off + bs)) t1 (r1, q1))"
    unfolding send_blocks.simps [of _ xe buf] Let_def less.prems(6,7) assms(3,4) want_def [symmetric] rd_def [symmetric]
      pkt_def [symmetric] fin_eq send prod.case t1_def [symmetric]
    using assms(2) due(1) [OF off] by (simp add: add.commute)
  have pre: "prefix (r_acc r1) content"
    using next_st lockstep_prefix by (metis fst_conv)
  consider "fin" | "\<not> fin" "\<not> acked" | "\<not> fin" "acked" by blast
  then show ?case
  proof cases
    case 1
    have all: "acked \<Longrightarrow> r_acc r1 = content"
      using next_st 1 by (simp add: lockstep_def fin_def)
    show ?thesis
      by (rule less.prems(1) [OF step [unfolded off_def if_P [OF 1]]]) (use pre all fair 1 in \<open>auto split: if_splits\<close>)
  next
    case 2
    show ?thesis
      by (rule less.prems(1) [of "t1\<lparr>x_result := ResGaveUp\<rparr>" r1]) (use step pre fair 2 in \<open>auto simp: off_def\<close>)
  next
    case 3
    have full: "k * bs \<le> length content" using 3 by (simp add: fin_def)
    have eq: "off + bs = (Suc k - 1) * bs" using less.prems(3) by (cases k) (simp_all add: off_def)
    have dec: "length content - (Suc k - 1) * bs < length content - (k - 1) * bs"
      using full assms(2) less.prems(3) eq by (simp add: off_def)
    have lk: "lockstep me content bs (Suc k) k (r1, q1)" using next_st 3 by simp
    have t1: "x_size t1 = int (length content)" "x_blockSize t1 = int bs"
      using less.prems(6,7) by (simp_all add: t1_def)
    obtain t' r' where rec:
      "send_blocks (link me port faults) xe (blit 0 (fst rd) buf) (of_nat (Suc k)) (int ((Suc k - 1) * bs)) t1 (r1, q1) = Ok (t', r')"
      "prefix (r_acc r') content" "x_result t' = ResOk \<Longrightarrow> r_acc r' = content"
      "fair_link m faults \<Longrightarrow> int m \<le> xe_retries xe \<Longrightarrow> int m \<le> xe_finalRetries xe \<Longrightarrow> x_result t' = ResOk"
      using less.hyps [OF dec _ lk _ _ due(6) [OF off] t1] full by auto
    have "send_blocks (link me port faults) xe buf (of_nat k) (int off) t (r, q) =
        send_blocks (link me port faults) xe (blit 0 (fst rd) buf) (of_nat (Suc k)) (int (off + bs)) t1 (r1, q1)"
      using step 3 by simp
    then have "send_blocks (link me port faults) xe buf (of_nat k) (int ((k - 1) * bs)) t (r, q) = Ok (t', r')"
      using rec(1) unfolding eq [symmetric] off_def by (rule trans)
    then show ?thesis by (rule less.prems(1)) (use rec in auto)
  qed
qed

lemma clamp_blksize_pos: "0 < clamp_blksize n"
  by (simp add: clamp_blksize_def minOptBlockSize_def maxOptBlockSize_def)

lemma negotiate_blksize:
  assumes "negotiateOptions opts sz tftp_blockSize retry0 = (oack, bs, retry)"
  shows "0 < bs"
  using assms clamp_blksize_pos
  by (auto simp: negotiateOptions_def tftp_blockSize_def Let_def split: if_splits prod.splits option.splits)

lemma negotiate_oack:
  assumes "negotiateOptions opts sz tftp_blockSize retry0 = (Some pkt, bs, retry)"
  shows "half_at pkt 0 = opOACK"
proof -
  from assms obtain rest where "pkt = put16 opOACK @ rest"
    by (auto simp: negotiateOptions_def Let_def split: if_splits prod.splits)
  then show ?thesis using half_at_put16 [of "[]" opOACK rest] by simp
qed

lemma listen_link: "listenTransfer (link me port faults) sv r = (Some port, r) \<or> ts_PortMin sv > ts_PortMax sv"
  by (auto simp: listenTransfer_def link_def listen_from.simps)

definition final_retries :: "tftp_Server \<Rightarrow> int" where
  "final_retries sv = fst (snd (snd (retryPolicy sv)))"

definition block_retries :: "tftp_Server \<Rightarrow> int" where
  "block_retries sv = fst (snd (retryPolicy sv))"

text \<open>serveFile against the client, whatever was negotiated.\<close>

lemma serveFile_lockstep:
  assumes "ts_Open sv (trim_prefix slash name) = Inr f" and "tf_Size f = int (length content)"
    and "solid_image (tf_ReadAt f) content" and "ts_PortMin sv \<le> ts_PortMax sv"
  obtains t r where "serveFile (link me port faults) sv me name opts new_rcv = Ok (t, r)"
    and "prefix (r_acc r) content" and "x_result t = ResOk \<Longrightarrow> r_acc r = content"
    and "fair_link m faults \<Longrightarrow> int m \<le> block_retries sv \<Longrightarrow> int m \<le> final_retries sv \<Longrightarrow> x_result t = ResOk"
proof -
  obtain retry0 retries fretries ftimeout0 where pol: "retryPolicy sv = (retry0, retries, fretries, ftimeout0)"
    by (metis prod_cases4)
  have pol': "block_retries sv = retries" "final_retries sv = fretries"
    by (simp_all add: block_retries_def final_retries_def pol)
  obtain oack bs' retry where neg: "negotiateOptions opts (int (length content)) tftp_blockSize retry0 = (oack, bs', retry)"
    by (metis prod_cases3)
  obtain bs where bs: "bs' = int bs" "0 < bs" using negotiate_blksize [OF neg] by (metis int_ops(1) of_nat_less_iff pos_int_cases)
  define xe where "xe = \<lparr>xe_file = f, xe_pc = port, xe_client = me, xe_key = ap_key me, xe_retry = retry,
    xe_retries = retries, xe_finalRetries = fretries, xe_finalTimeout = min ftimeout0 retry\<rparr>"
  define t0 where "t0 = \<lparr>x_size = int (length content), x_blockSize = int bs, x_blocks = 0, x_bytesSent = 0, x_bytesAcked = 0,
    x_resends = 0, x_result = ResError\<rparr>"
  have listen: "listenTransfer (link me port faults) sv new_rcv = (Some port, new_rcv)"
    using listen_link [of me port faults sv] assms(4) by auto
  have start: "lockstep me content bs 0 0 (new_rcv, [])" "lockstep me content bs 1 0 (new_rcv, [])"
    by (simp_all add: lockstep_def new_rcv_def)
  let ?go = "\<lambda>t. send_blocks (link me port faults) xe (replicate bs 0) 1 0 t"
  have xe: "xe_file xe = f" "xe_key xe = ap_key me" by (simp_all add: xe_def)
  have go: "\<exists>t' r'. ?go t (r, q) = Ok (t', r') \<and> prefix (r_acc r') content \<and> (x_result t' = ResOk \<longrightarrow> r_acc r' = content) \<and>
      (fair_link m faults \<longrightarrow> int m \<le> retries \<longrightarrow> int m \<le> fretries \<longrightarrow> x_result t' = ResOk)"
    if lk: "lockstep me content bs 1 0 (r, q)" and sz: "x_size t = int (length content)" "x_blockSize t = int bs" for t r q
  proof -
    obtain t' r' where
      "send_blocks (link me port faults) xe (replicate bs 0) (of_nat 1) (int ((1 - 1) * bs)) t (r, q) = Ok (t', r')"
      "prefix (r_acc r') content" "x_result t' = ResOk \<Longrightarrow> r_acc r' = content"
      "fair_link m faults \<Longrightarrow> int m \<le> xe_retries xe \<Longrightarrow> int m \<le> xe_finalRetries xe \<Longrightarrow> x_result t' = ResOk"
      by (rule send_blocks_lockstep [OF assms(3) bs(2) xe lk _ _ _ sz, of "replicate bs 0" port faults m]) auto
    then show ?thesis by (auto simp: xe_def)
  qed
  have open_file: "serveFile (link me port faults) sv me name opts new_rcv =
    (case oack of None \<Rightarrow> ?go t0 (new_rcv, [])
     | Some pkt \<Rightarrow>
         let (acked, aborted, resends, st) =
               sendAndWaitAck (link me port faults) port me (ap_key me) pkt 0 retry retries (new_rcv, []) in
         if aborted then Ok (t0\<lparr>x_resends := resends, x_result := ResAborted\<rparr>, fst st)
         else if \<not> acked then Ok (t0\<lparr>x_resends := resends, x_result := ResGaveUp\<rparr>, fst st)
         else ?go (t0\<lparr>x_resends := resends\<rparr>) st)"
    by (simp add: serveFile_def assms(1,2) listen pol neg bs(1) ap_key_def [symmetric] xe_def t0_def Let_def split: option.split cong: if_cong)
  show thesis
  proof (cases oack)
    case None
    with go [OF start(2), of t0] open_file that show thesis by (auto simp: t0_def pol')
  next
    case (Some pkt)
    have step: "step_packet content bs 0 pkt"
      using negotiate_oack [OF neg [unfolded Some]] by (simp add: step_packet_def)
    obtain acked resends r1 q1 e1 where
      send: "sendAndWaitAck (link me port faults) port me (ap_key me) pkt (of_nat 0) retry retries (new_rcv, []) =
        (acked, False, resends, r1, q1)"
      and lk: "if acked then lockstep me content bs (Suc 0) 0 (r1, q1) else lockstep me content bs 0 e1 (r1, q1)"
      and fair: "fair_link m faults \<Longrightarrow> int m \<le> retries \<Longrightarrow> acked"
      using sendAndWaitAck_lockstep [OF start(1) step] by metis
    show thesis
    proof (cases acked)
      case True
      with go [of r1 q1 "t0\<lparr>x_resends := resends\<rparr>"] lk obtain t' r' where
        "?go (t0\<lparr>x_resends := resends\<rparr>) (r1, q1) = Ok (t', r')" "prefix (r_acc r') content"
        "x_result t' = ResOk \<longrightarrow> r_acc r' = content"
        "fair_link m faults \<longrightarrow> int m \<le> retries \<longrightarrow> int m \<le> fretries \<longrightarrow> x_result t' = ResOk"
        by (auto simp: t0_def)
      with True send that [of t' r'] show thesis by (simp add: open_file Some pol')
    next
      case False
      have "prefix (r_acc r1) content" using lk False lockstep_prefix [of me content bs 0 e1 "(r1, q1)"] by simp
      with False send fair that [of "t0\<lparr>x_resends := resends, x_result := ResGaveUp\<rparr>" r1] show thesis
        unfolding open_file Some pol' by auto
    qed
  qed
qed

text \<open>A read request as RFC 1350 has it; \<open>trailing\<close> is options or what a PROM left in its buffer.\<close>

definition rrq_packet :: "bytes \<Rightarrow> bytes \<Rightarrow> bytes \<Rightarrow> bytes" where
  "rrq_packet name mode trailing = put16 opRRQ @ name @ 0 # mode @ 0 # trailing"

lemma takeWhile_to: "0 \<notin> set a \<Longrightarrow> takeWhile (\<lambda>b. b \<noteq> 0) (a @ 0 # rest) = a"
  and dropWhile_to: "0 \<notin> set a \<Longrightarrow> dropWhile (\<lambda>b. b \<noteq> 0) (a @ 0 # rest) = 0 # rest"
  for a rest :: bytes
  by (induction a) auto

lemma parseRRQ_packet:
  "0 \<notin> set name \<Longrightarrow> 0 \<notin> set mode \<Longrightarrow> parseRRQ (rrq_packet name mode trailing) = Inr (name, ToLower mode, trailing)"
  by (simp add: parseRRQ_def rrq_packet_def takeWhile_to dropWhile_to Let_def)

definition allowed :: "tftp_Server \<Rightarrow> UDPAddr \<Rightarrow> bool" where
  "allowed sv u \<longleftrightarrow> (case ts_AllowIP sv of None \<Rightarrow> True | Some allow \<Rightarrow> allow (Unmap (AddrFromSlice (ua_IP u))))"

lemma handle_rrq:
  assumes "allowed sv me" and "0 \<notin> set name" and "0 \<notin> set mode"
  shows "\<exists>opts. tftp_handle w sv pc (Some me) (rrq_packet name mode trailing) c =
    and_then (serveFile w sv me name opts c) (\<lambda>(t, c'). Ok (Some t, c'))"
proof -
  have "half_at (rrq_packet name mode trailing) 0 = opRRQ"
    using half_at_put16 [of "[]" opRRQ] by (simp add: rrq_packet_def)
  moreover have "\<not> length (rrq_packet name mode trailing) < 2" by (simp add: rrq_packet_def)
  ultimately show ?thesis
    using assms by (auto simp: tftp_handle_def parseRRQ_packet allowed_def split: option.splits)
qed

definition served_file :: "tftp_Server \<Rightarrow> bytes \<Rightarrow> bytes \<Rightarrow> bool" where
  "served_file sv name content \<longleftrightarrow>
     (\<exists>f. ts_Open sv (trim_prefix slash name) = Inr f \<and> tf_Size f = int (length content) \<and> solid_image (tf_ReadAt f) content)"

text \<open>
  C5: A TFTP transfer over a link that loses, duplicates and delays packets (but
  keeps their order) always ends; the client then has a prefix of the file, however
  many blocks the 16-bit block number wraps around, and when the server records the
  transfer as ok the client has exactly the file. If among any \<open>m + 1\<close> packets in a row one
  gets through and is acknowledged in time, \<open>m\<close> being within both retry budgets, the
  transfer is ok. This holds for every request of a file that exists by a client
  that is allowed, with any options or trailing junk.
\<close>

theorem tftp_delivers:
  assumes "served_file sv name content" and "allowed sv me" and "ts_PortMin sv \<le> ts_PortMax sv"
    and "0 \<notin> set name" and "0 \<notin> set mode"
  shows "\<exists>t r. tftp_handle (link me port faults) sv pc (Some me) (rrq_packet name mode trailing) new_rcv = Ok (Some t, r) \<and>
    prefix (r_acc r) content \<and> (x_result t = ResOk \<longrightarrow> r_acc r = content) \<and>
    (fair_link m faults \<and> int m \<le> block_retries sv \<and> int m \<le> final_retries sv \<longrightarrow> x_result t = ResOk)"
proof -
  obtain f where f: "ts_Open sv (trim_prefix slash name) = Inr f" "tf_Size f = int (length content)"
      "solid_image (tf_ReadAt f) content"
    using assms(1) by (auto simp: served_file_def)
  obtain opts where h: "tftp_handle (link me port faults) sv pc (Some me) (rrq_packet name mode trailing) new_rcv =
      and_then (serveFile (link me port faults) sv me name opts new_rcv) (\<lambda>(t, c'). Ok (Some t, c'))"
    using handle_rrq [OF assms(2,4,5)] by metis
  show ?thesis
    by (rule serveFile_lockstep [OF f assms(3), of me port faults opts m]) (auto simp: h)
qed

definition demo_tftp :: tftp_Server where
  "demo_tftp = \<lparr>ts_Open = (\<lambda>p. if p = [0x61] then Inr \<lparr>tf_ReadAt = bytes_ReadAt [1, 2, 3], tf_Size = 3\<rparr> else Inl (OpenError True [])),
     ts_AllowIP = None, ts_PortMin = 0, ts_PortMax = 0, ts_RetryInterval = 0, ts_Retries = 0, ts_FinalRetries = 0, ts_FinalTimeout = 0\<rparr>"

text \<open>Every other packet is lost.\<close>

definition demo_faults :: "nat \<Rightarrow> fault" where
  "demo_faults n = \<lparr>f_copies = (if odd n then 1 else 0), f_acks = 1, f_hold = 0\<rparr>"

definition demo_client :: UDPAddr where
  "demo_client = \<lparr>ua_IP = [10, 0, 0, 2], ua_Port = 2000, ua_Zone = []\<rparr>"

theorem tftp_delivers_witness:
  "\<exists>t r. tftp_handle (link demo_client 3000 demo_faults) demo_tftp 69 (Some demo_client)
      (rrq_packet [0x2f, 0x61] (str ''octet'') []) new_rcv = Ok (Some t, r) \<and>
    prefix (r_acc r) [1, 2, 3] \<and> x_result t = ResOk \<and> r_acc r = [1, 2, 3]"
proof -
  have served: "served_file demo_tftp [0x2f, 0x61] [1, 2, 3]"
    using bytes_image.solid_image_axioms [of "[1, 2, 3]"]
    by (simp add: served_file_def demo_tftp_def trim_prefix_def slash_def)
  have fair: "fair_link 1 demo_faults"
    unfolding fair_link_def
  proof
    fix n :: nat
    show "\<exists>i\<le>1. f_copies (demo_faults (n + i)) > 0 \<and> f_acks (demo_faults (n + i)) > 0 \<and> f_hold (demo_faults (n + i)) = 0"
      by (rule exI [of _ "if odd n then 0 else 1"]) (simp add: demo_faults_def)
  qed
  have allow: "allowed demo_tftp demo_client" by (simp add: allowed_def demo_tftp_def)
  have ports: "ts_PortMin demo_tftp \<le> ts_PortMax demo_tftp" by (simp add: demo_tftp_def)
  have retries: "int 1 \<le> block_retries demo_tftp" "int 1 \<le> final_retries demo_tftp"
    by (simp_all add: block_retries_def final_retries_def retryPolicy_def demo_tftp_def)
  have nul: "0 \<notin> set ([0x2f, 0x61] :: bytes)" "0 \<notin> set (str ''octet'')" by (simp_all add: str_def)
  show ?thesis
    using tftp_delivers [OF served allow ports nul, of 3000 demo_faults 69 "[]" 1] fair retries by blast
qed

end
