(* ===== verification/Bootp.thy ===== *)
theory Bootp
  imports Go_Net
begin

text \<open>
  BOOTP and DHCP (src/internal/bootp/bootp.go, dhcp.go): what the server makes of
  one datagram, from parsing to the reply, its destination and the interface it
  leaves by. Sockets, logging and the capture record are left out. A netmask
  prefix is its number of bits, \<open>None\<close> when it is not valid.
\<close>

section \<open>Model: BOOTP\<close>

definition packetLen :: nat where "packetLen = 300"

record bootp_Client =
  bc_Name :: bytes
  bc_MAC :: bytes
  bc_IP :: addr
  bc_Hostname :: bytes

record bootp_Server =
  bs_ServerIP :: addr
  bs_Netmask :: "nat option"
  bs_Clients :: "bootp_Client list"
  bs_DHCPServerID :: addr
  bs_DHCP :: bool
  bs_ReplyAddr :: "UDPAddr option"

definition dhcpCookie :: bytes where "dhcpCookie = [99, 130, 83, 99]"

text \<open>\<open>b[i:j]\<close> of a slice that is long enough.\<close>

definition sub :: "nat \<Rightarrow> nat \<Rightarrow> 'a list \<Rightarrow> 'a list" where
  "sub i j b = take (j - i) (drop i b)"

text \<open>The loop of isDHCP over the options.\<close>

function has_type_option :: "bytes \<Rightarrow> bool" where
  "has_type_option [] = False"
| "has_type_option (c # opts) =
     (if c = 0 then has_type_option opts
      else if c = 255 then False
      else case opts of
             [] \<Rightarrow> False
           | l # v \<Rightarrow>
               if length v < unat l then False
               else if c = 53 then True
               else has_type_option (drop (unat l) v))"
  by pat_completeness auto
termination by (relation "measure length") auto

definition isDHCP :: "bytes \<Rightarrow> bool" where
  "isDHCP req =
     (let opts = drop 236 req in
      if length opts < 4 \<or> take 4 opts \<noteq> dhcpCookie then False else has_type_option (drop 4 opts))"

definition trim_right :: "byte \<Rightarrow> bytes \<Rightarrow> bytes" where
  "trim_right c b = rev (dropWhile (\<lambda>x. x = c) (rev b))"

definition parseRequest :: "bytes \<Rightarrow> (bytes \<times> bytes) option" where
  "parseRequest req =
     (if length req < packetLen \<or> req ! 0 \<noteq> 1 \<or> req ! 1 \<noteq> 1 \<or> req ! 2 \<noteq> 6 then None
      else if isDHCP req then None
      else Some (sub 28 34 req, trim_right 0 (sub 108 236 req)))"

definition lookupClient :: "bootp_Server \<Rightarrow> bytes \<Rightarrow> bootp_Client option" where
  "lookupClient sv mac = List.find (\<lambda>c. bc_MAC c = mac) (bs_Clients sv)"

text \<open>\<open>net.CIDRMask(ones, 32)\<close>.\<close>

definition CIDRMask :: "nat \<Rightarrow> bytes" where
  "CIDRMask ones =
     (if ones > 32 then []
      else map (\<lambda>i. if ones \<ge> 8 * i + 8 then 0xff else NOT (drop_bit (ones - 8 * i) 0xff)) [0, 1, 2, 3])"

text \<open>\<open>copy(rep[i:j], src)\<close>.\<close>

definition copy_to :: "nat \<Rightarrow> nat \<Rightarrow> bytes \<Rightarrow> bytes \<Rightarrow> bytes" where
  "copy_to i j src rep = blit i (take (j - i) src) rep"

text \<open>The vendor area: the bytes written from its start, and the rest cleared.\<close>

definition vendor_area :: "bootp_Server \<Rightarrow> bootp_Client \<Rightarrow> bytes" where
  "vendor_area sv client =
     (let v0 = dhcpCookie;
          v1 = (case bs_Netmask sv of
                  None \<Rightarrow> v0
                | Some bits \<Rightarrow> v0 @ [1, 4] @ copy_to 0 4 (CIDRMask bits) (replicate 4 0));
          h = bc_Hostname client;
          v2 = (if h \<noteq> [] \<and> length v1 + 2 + length h + 1 \<le> packetLen - 236
                then v1 @ [12, of_nat (length h)] @ h else v1)
      in blit 0 (v2 @ [255]) (replicate (packetLen - 236) 0))"

definition buildReply :: "bootp_Server \<Rightarrow> bytes \<Rightarrow> bootp_Client \<Rightarrow> bytes" where
  "buildReply sv req client =
     (let rep = (take packetLen req)[0 := 2, 3 := 0];
          rep = copy_to 16 20 (AsSlice (bc_IP client)) rep;
          rep = copy_to 20 24 (AsSlice (bs_ServerIP sv)) rep;
          rep = blit 44 (replicate 64 0) rep
      in blit 236 (vendor_area sv client) rep)"

text \<open>\<open>replyVia\<close> on the interface index of the control message, if there is one.\<close>

definition replyVia :: "int option \<Rightarrow> int option" where
  "replyVia cm = (case cm of None \<Rightarrow> None | Some i \<Rightarrow> if i \<le> 0 then None else Some i)"

definition IPv4bcast :: bytes where
  "IPv4bcast = mapped_prefix @ replicate 4 0xff"

definition bcast_to :: "int \<Rightarrow> UDPAddr" where
  "bcast_to port = \<lparr>ua_IP = IPv4bcast, ua_Port = port, ua_Zone = []\<rparr>"

definition reply_dst :: "bootp_Server \<Rightarrow> UDPAddr option \<Rightarrow> UDPAddr" where
  "reply_dst sv src =
     (case bs_ReplyAddr sv of
        Some a \<Rightarrow> a
      | None \<Rightarrow>
          (case src of
             None \<Rightarrow> bcast_to 68
           | Some u \<Rightarrow> if ua_IP u \<noteq> [] \<and> \<not> ip_IsUnspecified (ua_IP u) then u else bcast_to (ua_Port u)))"

section \<open>Model: DHCP\<close>

definition dhcpDiscover :: byte where "dhcpDiscover = 1"
definition dhcpOffer :: byte where "dhcpOffer = 2"
definition dhcpRequest :: byte where "dhcpRequest = 3"
definition dhcpAck :: byte where "dhcpAck = 5"
definition dhcpNak :: byte where "dhcpNak = 6"

lemmas dhcp_types = dhcpDiscover_def dhcpOffer_def dhcpRequest_def dhcpAck_def dhcpNak_def

definition LeaseSeconds :: u32 where "LeaseSeconds = 365 * 24 * 60 * 60"

record dhcpMsg =
  d_typ :: byte
  d_mac :: bytes
  d_xid :: bytes
  d_flags :: bytes
  d_ciaddr :: addr
  d_giaddr :: bytes
  d_requested :: addr
  d_serverID :: addr
  d_chaddr :: bytes

definition take_option :: "byte \<Rightarrow> bytes \<Rightarrow> dhcpMsg \<Rightarrow> dhcpMsg" where
  "take_option c v m =
     (if c = 53 \<and> length v = 1 then m\<lparr>d_typ := v ! 0\<rparr>
      else if c = 50 \<and> length v = 4 then m\<lparr>d_requested := V4 v\<rparr>
      else if c = 54 \<and> length v = 4 then m\<lparr>d_serverID := V4 v\<rparr>
      else m)"

function parse_options :: "bytes \<Rightarrow> dhcpMsg \<Rightarrow> dhcpMsg option" where
  "parse_options [] m = (if d_typ m \<noteq> 0 then Some m else None)"
| "parse_options (c # opts) m =
     (if c = 0 then parse_options opts m
      else if c = 255 then (if d_typ m \<noteq> 0 then Some m else None)
      else case opts of
             [] \<Rightarrow> None
           | l # v \<Rightarrow>
               if length v < unat l then None
               else parse_options (drop (unat l) v) (take_option c (take (unat l) v) m))"
  by pat_completeness auto
termination by (relation "measure (\<lambda>(opts, m). length opts)") auto

definition parseDHCP :: "bytes \<Rightarrow> dhcpMsg option" where
  "parseDHCP req =
     (if length req < 241 \<or> req ! 0 \<noteq> 1 \<or> req ! 1 \<noteq> 1 \<or> req ! 2 \<noteq> 6 \<or> sub 236 240 req \<noteq> dhcpCookie then None
      else parse_options (drop 240 req)
        \<lparr>d_typ = 0, d_mac = sub 28 34 req, d_xid = sub 4 8 req, d_flags = sub 10 12 req, d_ciaddr = V4 (sub 12 16 req),
         d_giaddr = sub 24 28 req, d_requested = NoAddr, d_serverID = NoAddr, d_chaddr = sub 28 44 req\<rparr>)"

definition serverID :: "bootp_Server \<Rightarrow> addr" where
  "serverID sv = (if IsValid (bs_DHCPServerID sv) then bs_DHCPServerID sv else bs_ServerIP sv)"

definition dhcpAnswer :: "bootp_Server \<Rightarrow> dhcpMsg \<Rightarrow> bootp_Client \<Rightarrow> byte" where
  "dhcpAnswer sv m c =
     (if d_typ m = dhcpDiscover then dhcpOffer
      else if d_typ m = dhcpRequest then
        if IsValid (d_serverID m) \<and> d_serverID m \<noteq> serverID sv then 0
        else
          let want = (if \<not> IsValid (d_requested m) \<and> \<not> addr_IsUnspecified (d_ciaddr m) then d_ciaddr m else d_requested m) in
          if \<not> IsValid want then 0
          else if want = bc_IP c then dhcpAck
          else dhcpNak
      else 0)"

text \<open>The closure \<open>opt\<close>: one option appended.\<close>

definition dhcp_opt :: "byte \<Rightarrow> bytes \<Rightarrow> bytes" where
  "dhcp_opt code v = [code, of_nat (length v)] @ v"

definition dhcp_options :: "bootp_Server \<Rightarrow> bootp_Client \<Rightarrow> byte \<Rightarrow> bytes" where
  "dhcp_options sv c typ =
     dhcp_opt 53 [typ] @ dhcp_opt 54 (AsSlice (serverID sv)) @
     (if typ \<noteq> dhcpNak then
        dhcp_opt 51 (put32 LeaseSeconds) @
        (case bs_Netmask sv of None \<Rightarrow> [] | Some bits \<Rightarrow> dhcp_opt 1 (CIDRMask bits)) @
        (if bc_Hostname c \<noteq> [] then dhcp_opt 12 (bc_Hostname c) else [])
      else [])"

definition buildDHCP :: "bootp_Server \<Rightarrow> dhcpMsg \<Rightarrow> bootp_Client \<Rightarrow> byte \<Rightarrow> bytes" where
  "buildDHCP sv m c typ =
     (let rep = (replicate 240 0)[0 := 2, 1 := 1, 2 := 6];
          rep = copy_to 4 8 (d_xid m) rep;
          rep = copy_to 10 12 (d_flags m) rep;
          rep = (if typ = dhcpAck then copy_to 12 16 (AsSlice (d_ciaddr m)) rep else rep);
          rep = (if typ \<noteq> dhcpNak then copy_to 20 24 (AsSlice (bs_ServerIP sv)) (copy_to 16 20 (AsSlice (bc_IP c)) rep) else rep);
          rep = copy_to 24 28 (d_giaddr m) rep;
          rep = copy_to 28 44 (d_chaddr m) rep;
          rep = copy_to 236 240 dhcpCookie rep;
          rep = rep @ dhcp_options sv c typ @ [255]
      in rep @ replicate (packetLen - length rep) 0)"

definition dhcp_dst :: "bootp_Server \<Rightarrow> dhcpMsg \<Rightarrow> byte \<Rightarrow> UDPAddr" where
  "dhcp_dst sv m typ =
     (case bs_ReplyAddr sv of
        Some a \<Rightarrow> a
      | None \<Rightarrow>
          if typ = dhcpAck \<and> \<not> addr_IsUnspecified (d_ciaddr m)
          then \<lparr>ua_IP = AsSlice (d_ciaddr m), ua_Port = 68, ua_Zone = []\<rparr> else bcast_to 68)"

definition serveDHCP :: "bootp_Server \<Rightarrow> dhcpMsg \<Rightarrow> (bytes \<times> UDPAddr) option" where
  "serveDHCP sv m =
     (case lookupClient sv (d_mac m) of
        None \<Rightarrow> None
      | Some c \<Rightarrow>
          let typ = dhcpAnswer sv m c in
          if typ = 0 then None else Some (buildDHCP sv m c typ, dhcp_dst sv m typ))"

text \<open>
  One datagram, already cut to the 1500 bytes of Serve's buffer: the reply, where
  it goes and the interface it is sent by.
\<close>

definition serve_packet :: "bootp_Server \<Rightarrow> UDPAddr option \<Rightarrow> int option \<Rightarrow> bytes \<Rightarrow> (bytes \<times> UDPAddr \<times> int option) option" where
  "serve_packet sv src cm pkt =
     (case (if bs_DHCP sv then parseDHCP pkt else None) of
        Some m \<Rightarrow> map_option (\<lambda>(reply, dst). (reply, dst, replyVia cm)) (serveDHCP sv m)
      | None \<Rightarrow>
          if length pkt < packetLen then None
          else case parseRequest pkt of
            None \<Rightarrow> None
          | Some (mac, _) \<Rightarrow>
              (case lookupClient sv mac of
                 None \<Rightarrow> None
               | Some client \<Rightarrow> Some (buildReply sv pkt client, reply_dst sv src, replyVia cm)))"

section \<open>Fields of a packet\<close>

named_theorems fields

lemma length_sub [simp]: "j \<le> length b \<Longrightarrow> length (sub i j b) = j - i"
  by (simp add: sub_def)

lemma sub_blit_same [fields]:
  "k + length ys \<le> length xs \<Longrightarrow> i = k \<Longrightarrow> j = k + length ys \<Longrightarrow> sub i j (blit k ys xs) = ys"
  by (auto intro!: nth_equalityI simp: sub_def nth_blit)

lemma sub_blit_other [fields]:
  "k + length ys \<le> length xs \<Longrightarrow> j \<le> length xs \<Longrightarrow> j \<le> k \<or> k + length ys \<le> i \<Longrightarrow> sub i j (blit k ys xs) = sub i j xs"
  by (auto intro!: nth_equalityI simp: sub_def nth_blit)

lemma nth_blit_other [fields]:
  "k + length ys \<le> length xs \<Longrightarrow> i < length xs \<Longrightarrow> i < k \<or> k + length ys \<le> i \<Longrightarrow> blit k ys xs ! i = xs ! i"
  by (auto simp: nth_blit)

lemma sub_update [fields]: "k < i \<or> j \<le> k \<Longrightarrow> sub i j (xs[k := v]) = sub i j xs"
  by (cases "k < length xs") (auto intro!: nth_equalityI simp: sub_def nth_list_update list_update_beyond)

lemma sub_take [fields]: "j \<le> n \<Longrightarrow> sub i j (take n xs) = sub i j xs"
  by (simp add: sub_def drop_take min_def)

lemma sub_append [fields]: "j \<le> length xs \<Longrightarrow> sub i j (xs @ ys) = sub i j xs"
  by (simp add: sub_def)

text \<open>Fields written one after the other, none over another.\<close>

definition writes :: "(nat \<times> bytes) list \<Rightarrow> bytes \<Rightarrow> bytes" where
  "writes ws b = fold (\<lambda>(k, ys) b. blit k ys b) ws b"

fun spread :: "(nat \<times> bytes) list \<Rightarrow> nat \<Rightarrow> bool" where
  "spread [] n = True"
| "spread ((k, ys) # ws) n =
     (k + length ys \<le> n \<and> list_all (\<lambda>(k', ys'). k + length ys \<le> k' \<or> k' + length ys' \<le> k) ws \<and> spread ws n)"

lemma writes_simps [simp]: "writes [] b = b" "writes ((k, ys) # ws) b = writes ws (blit k ys b)"
  by (simp_all add: writes_def)

lemma length_writes: "spread ws (length b) \<Longrightarrow> length (writes ws b) = length b"
  by (induction ws arbitrary: b) auto

lemma writes_other:
  "spread ws (length b) \<Longrightarrow> j \<le> length b \<Longrightarrow> list_all (\<lambda>(k, ys). j \<le> k \<or> k + length ys \<le> i) ws \<Longrightarrow>
    sub i j (writes ws b) = sub i j b"
proof (induction ws arbitrary: b)
  case (Cons w ws)
  obtain k ys where w: "w = (k, ys)" by fastforce
  from Cons.prems w have "sub i j (writes ws (blit k ys b)) = sub i j (blit k ys b)"
    by (intro Cons.IH) auto
  with Cons.prems w show ?case using sub_blit_other [of k ys b j i] by simp
qed simp

lemma writes_field:
  "spread ws (length b) \<Longrightarrow> (k, ys) \<in> set ws \<Longrightarrow> j = k + length ys \<Longrightarrow> sub k j (writes ws b) = ys"
proof (induction ws arbitrary: b)
  case (Cons w ws)
  obtain k' ys' where w: "w = (k', ys')" by fastforce
  show ?case
  proof (cases "(k, ys) \<in> set ws")
    case True
    with Cons w show ?thesis by simp
  next
    case False
    with Cons.prems w have here: "k' = k" "ys' = ys" by auto
    with Cons.prems w have "sub k j (writes ws (blit k ys b)) = sub k j (blit k ys b)"
      by (intro writes_other) (auto simp: list_all_iff)
    moreover have "sub k j (blit k ys b) = ys"
      by (rule sub_blit_same) (use Cons.prems w here in auto)
    ultimately show ?thesis by (simp add: w here)
  qed
qed simp

lemma sub_first: "xs \<noteq> [] \<Longrightarrow> sub 0 (Suc 0) xs = [xs ! 0]"
  by (cases xs) (simp_all add: sub_def)

lemma copy_to_blit [fields]: "length src = j - i \<Longrightarrow> copy_to i j src rep = blit i src rep"
  by (simp add: copy_to_def)

lemma length_copy_to [simp]: "i \<le> j \<Longrightarrow> j \<le> length rep \<Longrightarrow> length (copy_to i j src rep) = length rep"
  unfolding copy_to_def by (rule length_blit) simp

lemma length_CIDRMask [simp]: "n \<le> 32 \<Longrightarrow> length (CIDRMask n) = 4"
  by (simp add: CIDRMask_def)

section \<open>Options\<close>

text \<open>The options of RFC 1048 and RFC 2132 up to the end option.\<close>

function options_of :: "bytes \<Rightarrow> (byte \<times> bytes) list option" where
  "options_of [] = None"
| "options_of (c # opts) =
     (if c = 0 then options_of opts
      else if c = 255 then Some []
      else case opts of
             [] \<Rightarrow> None
           | l # v \<Rightarrow>
               if length v < unat l then None
               else map_option ((#) (c, take (unat l) v)) (options_of (drop (unat l) v)))"
  by pat_completeness auto
termination by (relation "measure length") auto

lemma unat_length: "length v \<le> 255 \<Longrightarrow> unat (of_nat (length v) :: byte) = length v"
  by (simp add: unat_of_nat take_bit_eq_mod)

lemma options_of_opt [simp]:
  "length v \<le> 255 \<Longrightarrow> c \<noteq> 0 \<Longrightarrow> c \<noteq> 255 \<Longrightarrow>
    options_of (dhcp_opt c v @ rest) = map_option ((#) (c, v)) (options_of rest)"
  by (simp add: dhcp_opt_def unat_length)

lemma parse_options_opt [simp]:
  "length v \<le> 255 \<Longrightarrow> c \<noteq> 0 \<Longrightarrow> c \<noteq> 255 \<Longrightarrow>
    parse_options (dhcp_opt c v @ rest) m = parse_options rest (take_option c v m)"
  by (simp add: dhcp_opt_def unat_length)

lemma take_option_typ: "c \<noteq> 53 \<Longrightarrow> d_typ (take_option c v m) = d_typ m"
  by (simp add: take_option_def)

text \<open>The two parsers agree on what is DHCP: what isDHCP lets through has no message type.\<close>

lemma parse_options_no_type:
  "\<not> has_type_option opts \<Longrightarrow> d_typ m = 0 \<Longrightarrow> parse_options opts m = None"
proof (induction opts arbitrary: m rule: has_type_option.induct)
  case (2 c opts)
  show ?case
  proof (cases opts)
    case Nil
    with 2 show ?thesis by simp
  next
    case (Cons l v)
    consider "c = 0" | "c = 255" | "c \<noteq> 0" "c \<noteq> 255" "length v < unat l" | "c \<noteq> 0" "c \<noteq> 255" "\<not> length v < unat l" by blast
    then show ?thesis
    proof cases
      case 1
      with 2 show ?thesis by simp
    next
      case 4
      then have "c \<noteq> 53" "\<not> has_type_option (drop (unat l) v)" using 2(3) Cons by (auto split: if_splits)
      with 2(2) [OF 4(1,2) Cons 4(3)] 4 2(4) Cons show ?thesis by (simp add: take_option_typ)
    qed (use 2(4) Cons in simp_all)
  qed
qed simp

lemma parseDHCP_not:
  assumes "parseRequest req = Some r"
  shows "parseDHCP req = None"
proof -
  have len: "packetLen \<le> length req" and no: "\<not> isDHCP req"
    using assms by (auto simp: parseRequest_def split: if_splits)
  show ?thesis
  proof (cases "sub 236 240 req = dhcpCookie")
    case True
    then have "\<not> has_type_option (drop 240 req)"
      using no len by (auto simp: isDHCP_def sub_def packetLen_def Let_def split: if_splits)
    then show ?thesis by (simp add: parseDHCP_def parse_options_no_type)
  qed (simp add: parseDHCP_def)
qed

section \<open>What the server answers\<close>

text \<open>
  A configuration as src/internal/config produces it: IPv4 addresses, a host name
  of at most 40 bytes.
\<close>

definition configured :: "bootp_Server \<Rightarrow> bool" where
  "configured sv \<longleftrightarrow>
     (\<exists>b. bs_ServerIP sv = V4 b \<and> length b = 4) \<and>
     (bs_DHCPServerID sv = NoAddr \<or> (\<exists>b. bs_DHCPServerID sv = V4 b \<and> length b = 4)) \<and>
     (\<forall>n. bs_Netmask sv = Some n \<longrightarrow> n \<le> 32) \<and>
     (\<forall>c \<in> set (bs_Clients sv). (\<exists>b. bc_IP c = V4 b \<and> length b = 4) \<and> length (bc_Hostname c) \<le> 40)"

definition mask_option :: "bootp_Server \<Rightarrow> (byte \<times> bytes) list" where
  "mask_option sv = (case bs_Netmask sv of None \<Rightarrow> [] | Some n \<Rightarrow> [(1, CIDRMask n)])"

definition host_option :: "bootp_Client \<Rightarrow> (byte \<times> bytes) list" where
  "host_option c = (if bc_Hostname c = [] then [] else [(12, bc_Hostname c)])"

lemma lookupClient_in: "lookupClient sv mac = Some c \<Longrightarrow> c \<in> set (bs_Clients sv) \<and> bc_MAC c = mac"
  by (auto simp: lookupClient_def find_Some_iff)

lemma configured_client:
  assumes "configured sv" and "lookupClient sv mac = Some c"
  shows "bc_IP c = V4 (AsSlice (bc_IP c))" and "length (AsSlice (bc_IP c)) = 4" and "length (bc_Hostname c) \<le> 40"
proof -
  have "c \<in> set (bs_Clients sv)" using lookupClient_in [OF assms(2)] by simp
  then obtain b where "bc_IP c = V4 b" "length b = 4" "length (bc_Hostname c) \<le> 40"
    using assms(1) unfolding configured_def by blast
  then show "bc_IP c = V4 (AsSlice (bc_IP c))" and "length (AsSlice (bc_IP c)) = 4" and "length (bc_Hostname c) \<le> 40"
    by simp_all
qed

lemma configured_server:
  assumes "configured sv"
  shows "length (AsSlice (bs_ServerIP sv)) = 4" and "serverID sv = V4 (AsSlice (serverID sv))"
    and "length (AsSlice (serverID sv)) = 4" and "bs_Netmask sv = Some n \<Longrightarrow> n \<le> 32"
  using assms by (auto simp: configured_def serverID_def IsValid_def)

text \<open>The vendor area holds the configured options and fits its 64 bytes.\<close>

lemma vendor_area_options:
  assumes "configured sv" and "lookupClient sv mac = Some c"
  shows "length (vendor_area sv c) = 64" and "take 4 (vendor_area sv c) = dhcpCookie"
    and "options_of (drop 4 (vendor_area sv c)) = Some (mask_option sv @ host_option c)"
proof -
  define h where "h = (if bc_Hostname c = [] then [] else dhcp_opt 12 (bc_Hostname c))"
  define m where "m = (case bs_Netmask sv of None \<Rightarrow> [] | Some n \<Rightarrow> dhcp_opt 1 (CIDRMask n))"
  have hl: "length (bc_Hostname c) \<le> 40" by (rule configured_client(3) [OF assms])
  have mask: "copy_to 0 4 (CIDRMask n) (replicate 4 0) = CIDRMask n" if "bs_Netmask sv = Some n" for n
    using configured_server(4) [OF assms(1) that] by (simp add: copy_to_def blit_0)
  have lm: "length m \<le> 6" using configured_server(4) [OF assms(1)] by (auto simp: m_def dhcp_opt_def split: option.split)
  have lh: "length h \<le> 42" using hl by (simp add: h_def dhcp_opt_def)
  have v1: "(case bs_Netmask sv of None \<Rightarrow> dhcpCookie
      | Some bits \<Rightarrow> dhcpCookie @ [1, 4] @ copy_to 0 4 (CIDRMask bits) (replicate 4 0)) = dhcpCookie @ m"
    using mask configured_server(4) [OF assms(1)] by (auto simp: m_def dhcp_opt_def split: option.split)
  have lc: "length dhcpCookie = 4" by (simp add: dhcpCookie_def)
  have v: "vendor_area sv c = blit 0 (dhcpCookie @ m @ h @ [255]) (replicate 64 0)"
    unfolding vendor_area_def Let_def v1 using hl lm lc by (auto simp: h_def dhcp_opt_def packetLen_def)
  then have v': "vendor_area sv c = dhcpCookie @ m @ h @ 255 # replicate (64 - (4 + length m + length h + 1)) 0"
    using lc by (simp add: blit_0)
  show "length (vendor_area sv c) = 64" using lm lh lc by (simp add: v')
  show "take 4 (vendor_area sv c) = dhcpCookie" using lc by (simp add: v')
  have "options_of (h @ 255 # rest) = Some (host_option c)" for rest
    using hl by (simp add: h_def host_option_def)
  then have "options_of (m @ h @ 255 # rest) = Some (mask_option sv @ host_option c)" for rest
    using configured_server(4) [OF assms(1)] by (auto simp: m_def mask_option_def split: option.split)
  then show "options_of (drop 4 (vendor_area sv c)) = Some (mask_option sv @ host_option c)"
    using lc by (simp add: v')
qed

lemma buildReply_fields:
  assumes "configured sv" and "lookupClient sv mac = Some c" and "packetLen \<le> length req"
  defines "rep \<equiv> buildReply sv req c"
  shows "length rep = packetLen" and "rep ! 0 = 2"
    and "sub 4 12 rep = sub 4 12 req" and "sub 16 20 rep = AsSlice (bc_IP c)" and "sub 20 24 rep = AsSlice (bs_ServerIP sv)"
    and "sub 24 44 rep = sub 24 44 req" and "sub 44 108 rep = replicate 64 0" and "sub 108 236 rep = sub 108 236 req"
    and "drop 236 rep = vendor_area sv c"
proof -
  note l = configured_client(2) [OF assms(1,2)] configured_server(1) [OF assms(1)] vendor_area_options(1) [OF assms(1,2)]
  define r0 where "r0 = (take packetLen req)[0 := 2, 3 := 0]"
  define ws where "ws = [(16 :: nat, AsSlice (bc_IP c)), (20, AsSlice (bs_ServerIP sv)), (44, replicate 64 0), (236, vendor_area sv c)]"
  have rep: "rep = writes ws r0"
    using l by (simp add: rep_def buildReply_def Let_def r0_def ws_def copy_to_blit)
  have l0: "length r0 = 300" using assms(3) by (simp add: r0_def packetLen_def)
  have sp: "spread ws (length r0)" using l by (simp add: ws_def l0)
  show len: "length rep = packetLen" using length_writes [OF sp] l0 by (simp add: rep packetLen_def)
  have keep: "sub i j rep = sub i j r0" if "list_all (\<lambda>(k, ys). j \<le> k \<or> k + length ys \<le> i) ws" "j \<le> 300" for i j
    unfolding rep by (rule writes_other [OF sp]) (use that l0 in simp_all)
  have r0: "sub i j r0 = sub i j req" if "4 \<le> i" "j \<le> 300" for i j
    using that by (simp add: r0_def sub_update sub_take packetLen_def)
  have "sub 0 1 rep = sub 0 1 r0" using l by (intro keep) (simp_all add: ws_def)
  moreover have "rep \<noteq> []" "r0 \<noteq> []" using len l0 by (auto simp: packetLen_def)
  ultimately show "rep ! 0 = 2" using assms(3) by (simp add: sub_first) (simp add: r0_def packetLen_def)
  show "sub 4 12 rep = sub 4 12 req" "sub 24 44 rep = sub 24 44 req" "sub 108 236 rep = sub 108 236 req"
    using l keep [of 12 4] keep [of 44 24] keep [of 236 108] by (simp_all add: r0 ws_def)
  show "sub 16 20 rep = AsSlice (bc_IP c)" unfolding rep by (rule writes_field [OF sp]) (simp_all add: ws_def l)
  show "sub 20 24 rep = AsSlice (bs_ServerIP sv)" unfolding rep by (rule writes_field [OF sp]) (simp_all add: ws_def l)
  show "sub 44 108 rep = replicate 64 0" unfolding rep by (rule writes_field [OF sp]) (simp_all add: ws_def l)
  have "sub 236 300 rep = vendor_area sv c"
    unfolding rep by (rule writes_field [OF sp]) (simp_all add: ws_def l)
  then show "drop 236 rep = vendor_area sv c"
    using len unfolding sub_def packetLen_def by simp
qed

text \<open>
  C31: The BOOTP reply. A legacy request from a configured machine is answered (whether
  or not DHCP is served too) with a 300-byte BOOTREPLY that keeps the
  request's transaction, hardware address and boot file, assigns the machine
  its configured address, names the server, and carries exactly the
  configured netmask and host name as options; it goes to the machine's own address
  if it has one and is broadcast to the port it asked from otherwise. A
  machine that is not configured gets no answer.
\<close>

theorem bootp_reply:
  assumes "configured sv" and "parseRequest req = Some (mac, boot)"
  shows "case lookupClient sv mac of
      None \<Rightarrow> serve_packet sv src cm req = None
    | Some c \<Rightarrow> \<exists>rep. serve_packet sv src cm req = Some (rep, reply_dst sv src, replyVia cm) \<and>
        length rep = 300 \<and> rep ! 0 = 2 \<and> sub 4 12 rep = sub 4 12 req \<and> sub 24 44 rep = sub 24 44 req \<and>
        sub 108 236 rep = sub 108 236 req \<and>
        sub 16 20 rep = AsSlice (bc_IP c) \<and> sub 20 24 rep = AsSlice (bs_ServerIP sv) \<and> sub 44 108 rep = replicate 64 0 \<and>
        sub 236 240 rep = dhcpCookie \<and> options_of (drop 240 rep) = Some (mask_option sv @ host_option c)"
proof -
  have len: "packetLen \<le> length req" using assms(2) by (auto simp: parseRequest_def split: if_splits)
  have step: "serve_packet sv src cm req = map_option (\<lambda>c. (buildReply sv req c, reply_dst sv src, replyVia cm)) (lookupClient sv mac)"
    using len by (simp add: serve_packet_def parseDHCP_not [OF assms(2)] assms(2) split: option.split)
  show ?thesis
  proof (cases "lookupClient sv mac")
    case (Some c)
    note fs = buildReply_fields [OF assms(1) Some len] and va = vendor_area_options [OF assms(1) Some]
    have "drop 240 (buildReply sv req c) = drop 4 (vendor_area sv c)" "sub 236 240 (buildReply sv req c) = take 4 (vendor_area sv c)"
      by (simp_all add: fs(9) [symmetric] sub_def)
    with fs va show ?thesis by (simp add: step Some packetLen_def)
  qed (simp add: step)
qed

definition demo_bootp :: bootp_Server where
  "demo_bootp = \<lparr>bs_ServerIP = V4 [10, 0, 0, 1], bs_Netmask = Some 24,
     bs_Clients = [\<lparr>bc_Name = [0x61], bc_MAC = [8, 0, 0x69, 1, 2, 3], bc_IP = V4 [10, 0, 0, 7], bc_Hostname = [0x6f, 0x32]\<rparr>],
     bs_DHCPServerID = NoAddr, bs_DHCP = True, bs_ReplyAddr = None\<rparr>"

lemma demo_configured: "configured demo_bootp"
  by (simp add: configured_def demo_bootp_def)

definition demo_request :: bytes where
  "demo_request = [1, 1, 6, 0] @ replicate 24 0 @ [8, 0, 0x69, 1, 2, 3] @ replicate 266 0"

lemma demo_parse: "parseRequest demo_request = Some ([8, 0, 0x69, 1, 2, 3], [])"
proof -
  have "sub 28 34 demo_request = [8, 0, 0x69, 1, 2, 3]" "sub 108 236 demo_request = replicate 128 0"
    "drop 236 demo_request = replicate 64 0" "length demo_request = 300"
    by (simp_all add: demo_request_def sub_def)
  moreover have "demo_request ! 0 = 1" "demo_request ! 1 = 1" "demo_request ! 2 = 6"
    by (simp_all add: demo_request_def)
  moreover have "\<not> isDHCP demo_request"
    using \<open>drop 236 demo_request = replicate 64 0\<close>
    by (auto simp: isDHCP_def dhcpCookie_def Let_def numeral_eq_Suc)
  ultimately show ?thesis
    by (simp add: parseRequest_def packetLen_def trim_right_def)
qed

theorem bootp_reply_witness:
  "\<exists>rep. serve_packet demo_bootp None None demo_request = Some (rep, bcast_to 68, None) \<and> length rep = 300 \<and> rep ! 0 = 2 \<and>
    sub 16 20 rep = [10, 0, 0, 7] \<and> options_of (drop 240 rep) = Some [(1, [0xff, 0xff, 0xff, 0]), (12, [0x6f, 0x32])]"
proof -
  have l: "lookupClient demo_bootp [8, 0, 0x69, 1, 2, 3] =
      Some \<lparr>bc_Name = [0x61], bc_MAC = [8, 0, 0x69, 1, 2, 3], bc_IP = V4 [10, 0, 0, 7], bc_Hostname = [0x6f, 0x32]\<rparr>"
    by (simp add: lookupClient_def demo_bootp_def)
  have m: "mask_option demo_bootp = [(1, [0xff, 0xff, 0xff, 0])]"
    by (simp add: mask_option_def demo_bootp_def CIDRMask_def)
  have d: "reply_dst demo_bootp None = bcast_to 68" by (simp add: reply_dst_def demo_bootp_def)
  show ?thesis
    using bootp_reply [OF demo_configured demo_parse, of None None] by (auto simp: l m d host_option_def replyVia_def)
qed

section \<open>A lease\<close>

definition reply_options :: "bootp_Server \<Rightarrow> bootp_Client \<Rightarrow> byte \<Rightarrow> (byte \<times> bytes) list" where
  "reply_options sv c typ =
     [(53, [typ]), (54, AsSlice (serverID sv))] @
     (if typ = dhcpNak then [] else (51, put32 LeaseSeconds) # mask_option sv @ host_option c)"

lemma dhcp_options_read:
  assumes "configured sv" and "lookupClient sv mac = Some c"
  shows "options_of (dhcp_options sv c typ @ 255 # pad) = Some (reply_options sv c typ)"
proof -
  have "options_of ((if bc_Hostname c \<noteq> [] then dhcp_opt 12 (bc_Hostname c) else []) @ 255 # pad) = Some (host_option c)"
    using configured_client(3) [OF assms] by (simp add: host_option_def)
  then have "options_of ((case bs_Netmask sv of None \<Rightarrow> [] | Some bits \<Rightarrow> dhcp_opt 1 (CIDRMask bits)) @
      (if bc_Hostname c \<noteq> [] then dhcp_opt 12 (bc_Hostname c) else []) @ 255 # pad) = Some (mask_option sv @ host_option c)"
    using configured_server(4) [OF assms(1)] by (auto simp: mask_option_def split: option.split)
  then show ?thesis
    using configured_server(3) [OF assms(1)] by (auto simp: dhcp_options_def reply_options_def)
qed

lemma buildDHCP_fields:
  assumes "configured sv" and "lookupClient sv mac = Some c"
    and m: "length (d_xid m) = 4" "length (d_flags m) = 2" "length (AsSlice (d_ciaddr m)) = 4" "length (d_giaddr m) = 4" "length (d_chaddr m) = 16"
    and rep: "rep = buildDHCP sv m c typ"
  shows "packetLen \<le> length rep" and "rep ! 0 = 2" and "sub 4 8 rep = d_xid m" and "sub 28 44 rep = d_chaddr m"
    and "typ \<noteq> dhcpNak \<Longrightarrow> sub 16 20 rep = AsSlice (bc_IP c)" and "sub 236 240 rep = dhcpCookie"
    and "options_of (drop 240 rep) = Some (reply_options sv c typ)"
proof -
  note l = configured_client(2) [OF assms(1,2)] configured_server(1) [OF assms(1)] m
  define r0 where "r0 = ((replicate 240 0)[0 := 2, 1 := 1, 2 := 6] :: bytes)"
  define ws where "ws = [(4 :: nat, d_xid m), (10, d_flags m)] @ (if typ = dhcpAck then [(12, AsSlice (d_ciaddr m))] else []) @
    (if typ \<noteq> dhcpNak then [(16, AsSlice (bc_IP c)), (20, AsSlice (bs_ServerIP sv))] else []) @
    [(24, d_giaddr m), (28, d_chaddr m), (236, dhcpCookie)]"
  define pad where "pad = replicate (packetLen - length (writes ws r0 @ dhcp_options sv c typ @ [255])) (0 :: byte)"
  have ck: "length dhcpCookie = 4" by (simp add: dhcpCookie_def)
  have rep': "rep = writes ws r0 @ dhcp_options sv c typ @ 255 # pad"
    using l ck unfolding pad_def by (simp add: rep buildDHCP_def Let_def ws_def r0_def copy_to_blit)
  have l0: "length r0 = 240" by (simp add: r0_def)
  have sp: "spread ws (length r0)" using l ck l0 by (simp add: ws_def)
  have lw: "length (writes ws r0) = 240" using length_writes [OF sp] l0 by simp
  have top: "sub i j rep = sub i j (writes ws r0)" if "j \<le> 240" for i j
    using that lw by (simp add: rep' sub_append)
  show "packetLen \<le> length rep" by (simp add: rep' pad_def)
  have "sub 0 1 (writes ws r0) = sub 0 1 r0" by (rule writes_other [OF sp]) (simp_all add: ws_def l0)
  moreover have "rep \<noteq> []" "r0 \<noteq> []" using l0 by (auto simp: rep')
  ultimately show "rep ! 0 = 2" using top [of 1 0] by (simp add: sub_first) (simp add: r0_def)
  have field: "sub k j rep = ys" if "(k, ys) \<in> set ws" "j = k + length ys" "j \<le> 240" for k j ys
    using top [OF that(3)] writes_field [OF sp that(1,2)] by simp
  show "sub 4 8 rep = d_xid m" by (rule field) (simp_all add: ws_def l)
  show "sub 28 44 rep = d_chaddr m" by (rule field) (simp_all add: ws_def l)
  show "sub 236 240 rep = dhcpCookie" by (rule field) (simp_all add: ws_def ck)
  show "sub 16 20 rep = AsSlice (bc_IP c)" if "typ \<noteq> dhcpNak" by (rule field) (simp_all add: ws_def l that)
  show "options_of (drop 240 rep) = Some (reply_options sv c typ)"
    using lw dhcp_options_read [OF assms(1,2)] by (simp add: rep')
qed

text \<open>A client's message: ethernet header fields, no address of its own, and options.\<close>

definition client_msg :: "byte \<Rightarrow> bytes \<Rightarrow> bytes \<Rightarrow> bytes \<Rightarrow> bytes" where
  "client_msg typ xid mac extra =
     [1, 1, 6, 0] @ xid @ replicate 20 0 @ mac @ replicate 202 0 @ dhcpCookie @ dhcp_opt 53 [typ] @ extra @ [255]"

definition client_header :: "byte \<Rightarrow> bytes \<Rightarrow> bytes \<Rightarrow> dhcpMsg" where
  "client_header typ xid mac =
     \<lparr>d_typ = typ, d_mac = mac, d_xid = xid, d_flags = [0, 0], d_ciaddr = V4 [0, 0, 0, 0], d_giaddr = [0, 0, 0, 0],
      d_requested = NoAddr, d_serverID = NoAddr, d_chaddr = mac @ replicate 10 0\<rparr>"

lemma parseDHCP_client:
  assumes "length xid = 4" and "length mac = 6"
  shows "parseDHCP (client_msg typ xid mac extra) = parse_options (extra @ [255]) (client_header typ xid mac)"
proof -
  let ?p = "client_msg typ xid mac extra"
  have f: "sub 28 34 ?p = mac" "sub 4 8 ?p = xid" "sub 10 12 ?p = [0, 0]" "sub 12 16 ?p = [0, 0, 0, 0]" "sub 24 28 ?p = [0, 0, 0, 0]"
    "sub 28 44 ?p = mac @ replicate 10 0" "sub 236 240 ?p = dhcpCookie" "drop 240 ?p = dhcp_opt 53 [typ] @ extra @ [255]"
    "?p ! 0 = 1" "?p ! 1 = 1" "?p ! 2 = 6" "\<not> length ?p < 241"
    using assms by (simp_all add: client_msg_def sub_def dhcpCookie_def dhcp_opt_def numeral_eq_Suc)
  show ?thesis using f by (simp add: parseDHCP_def take_option_def client_header_def)
qed

lemma serve_client_msg:
  assumes "configured sv" and "bs_DHCP sv" and "lookupClient sv mac = Some c" and "length xid = 4" and "length mac = 6"
    and "parse_options (extra @ [255]) (client_header typ xid mac) = Some m"
    and "m = (client_header typ xid mac)\<lparr>d_requested := ra, d_serverID := sa\<rparr>" and "dhcpAnswer sv m c = ans"
  shows "if ans = 0 then serve_packet sv src cm (client_msg typ xid mac extra) = None
    else \<exists>rep. serve_packet sv src cm (client_msg typ xid mac extra) = Some (rep, dhcp_dst sv m ans, replyVia cm) \<and>
      300 \<le> length rep \<and> rep ! 0 = 2 \<and> sub 4 8 rep = xid \<and> sub 28 34 rep = mac \<and> sub 236 240 rep = dhcpCookie \<and>
      (ans \<noteq> dhcpNak \<longrightarrow> sub 16 20 rep = AsSlice (bc_IP c)) \<and> options_of (drop 240 rep) = Some (reply_options sv c ans)"
proof -
  have m: "length (d_xid m) = 4" "length (d_flags m) = 2" "length (AsSlice (d_ciaddr m)) = 4" "length (d_giaddr m) = 4"
    "length (d_chaddr m) = 16" "d_mac m = mac" "d_xid m = xid" "d_chaddr m = mac @ replicate 10 0"
    using assms(4,5) by (simp_all add: assms(7) client_header_def)
  note fs = buildDHCP_fields [OF assms(1,3) m(1-5) refl, of ans]
  have "sub 28 34 b = take 6 (sub 28 44 b)" for b :: bytes by (simp add: sub_def)
  then have mac: "sub 28 34 (buildDHCP sv m c ans) = mac" using fs(4) m(8) assms(5) by simp
  have "serve_packet sv src cm (client_msg typ xid mac extra) =
      (if ans = 0 then None else Some (buildDHCP sv m c ans, dhcp_dst sv m ans, replyVia cm))"
    using assms(2,3,8) m(6) by (simp add: serve_packet_def parseDHCP_client [OF assms(4,5)] assms(6) serveDHCP_def)
  with fs mac m(7) show ?thesis by (simp add: packetLen_def)
qed

lemma dhcpOffer_answer: "dhcpAnswer sv (client_header dhcpDiscover xid mac) c = dhcpOffer"
  by (simp add: dhcpAnswer_def client_header_def)

lemma dhcpRequest_answer:
  assumes "m = (client_header dhcpRequest xid mac)\<lparr>d_requested := V4 w, d_serverID := sa\<rparr>"
  shows "dhcpAnswer sv m c =
    (if IsValid sa \<and> sa \<noteq> serverID sv then 0 else if V4 w = bc_IP c then dhcpAck else dhcpNak)"
  by (simp add: assms dhcpAnswer_def client_header_def dhcp_types IsValid_def)

lemma parse_request_options:
  assumes "length w = 4" and "length sid = 4"
  shows "parse_options (dhcp_opt 50 w @ [255]) (client_header dhcpRequest xid mac) =
      Some ((client_header dhcpRequest xid mac)\<lparr>d_requested := V4 w, d_serverID := NoAddr\<rparr>)"
    and "parse_options ((dhcp_opt 50 w @ dhcp_opt 54 sid) @ [255]) (client_header dhcpRequest xid mac) =
      Some ((client_header dhcpRequest xid mac)\<lparr>d_requested := V4 w, d_serverID := V4 sid\<rparr>)"
  using assms by (simp_all add: take_option_def client_header_def dhcp_types)

text \<open>
  C19: A DHCP lease. A configured machine that broadcasts DISCOVER is offered its configured
  address; when it then requests the address and the server that the offer
  names, it gets an ACK for that address with lease time, netmask and
  host name as options. A REQUEST for any other address is refused with a NAK, and
  one that names another server gets no answer.
\<close>

theorem dhcp_lease:
  assumes "configured sv" and "bs_DHCP sv" and "lookupClient sv mac = Some c" and "length xid = 4" and "length mac = 6"
  shows "(\<exists>offer dst ack dst'.
      serve_packet sv src cm (client_msg dhcpDiscover xid mac []) = Some (offer, dst, replyVia cm) \<and>
      sub 16 20 offer = AsSlice (bc_IP c) \<and> options_of (drop 240 offer) = Some (reply_options sv c dhcpOffer) \<and>
      serve_packet sv src cm (client_msg dhcpRequest xid mac
        (dhcp_opt 50 (sub 16 20 offer) @ dhcp_opt 54 (the (map_of (reply_options sv c dhcpOffer) 54)))) = Some (ack, dst', replyVia cm) \<and>
      sub 4 8 ack = xid \<and> sub 28 34 ack = mac \<and> sub 16 20 ack = AsSlice (bc_IP c) \<and>
      options_of (drop 240 ack) = Some (reply_options sv c dhcpAck)) \<and>
    (\<forall>w. length w = 4 \<and> w \<noteq> AsSlice (bc_IP c) \<longrightarrow>
      (\<exists>nak dst. serve_packet sv src cm (client_msg dhcpRequest xid mac (dhcp_opt 50 w)) = Some (nak, dst, replyVia cm) \<and>
        options_of (drop 240 nak) = Some (reply_options sv c dhcpNak))) \<and>
    (\<forall>w sid. length w = 4 \<and> length sid = 4 \<and> V4 sid \<noteq> serverID sv \<longrightarrow>
      serve_packet sv src cm (client_msg dhcpRequest xid mac (dhcp_opt 50 w @ dhcp_opt 54 sid)) = None)"
proof -
  note serve = serve_client_msg [OF assms, where src = src and cm = cm]
  note ip = configured_client(1,2) [OF assms(1,3)] and sid = configured_server(2,3) [OF assms(1)]
  let ?h = "client_header dhcpDiscover xid mac"
  have nz: "dhcpOffer \<noteq> 0" "dhcpOffer \<noteq> dhcpNak" "dhcpAck \<noteq> 0" "dhcpAck \<noteq> dhcpNak" "dhcpNak \<noteq> 0"
    by (simp_all add: dhcp_types)
  have disc: "parse_options ([] @ [255]) ?h = Some ?h" "?h = ?h\<lparr>d_requested := NoAddr, d_serverID := NoAddr\<rparr>"
    by (simp_all add: client_header_def dhcp_types)
  obtain offer dst where offer: "serve_packet sv src cm (client_msg dhcpDiscover xid mac []) = Some (offer, dst, replyVia cm)"
      "sub 16 20 offer = AsSlice (bc_IP c)" "options_of (drop 240 offer) = Some (reply_options sv c dhcpOffer)"
    using serve [OF disc dhcpOffer_answer] nz by auto
  have sid54: "the (map_of (reply_options sv c dhcpOffer) 54) = AsSlice (serverID sv)"
    by (simp add: reply_options_def)
  have ans: "dhcpAnswer sv ((client_header dhcpRequest xid mac)\<lparr>d_requested := V4 (AsSlice (bc_IP c)), d_serverID := V4 (AsSlice (serverID sv))\<rparr>) c = dhcpAck"
    unfolding dhcpRequest_answer [OF refl] using ip(1) sid(1) by simp
  obtain ack dst' where ack: "serve_packet sv src cm (client_msg dhcpRequest xid mac
        (dhcp_opt 50 (AsSlice (bc_IP c)) @ dhcp_opt 54 (AsSlice (serverID sv)))) = Some (ack, dst', replyVia cm)"
      "sub 4 8 ack = xid" "sub 28 34 ack = mac" "sub 16 20 ack = AsSlice (bc_IP c)"
      "options_of (drop 240 ack) = Some (reply_options sv c dhcpAck)"
    using serve [OF parse_request_options(2) [OF ip(2) sid(2)] refl ans] nz by auto
  have nak: "\<exists>nak dst. serve_packet sv src cm (client_msg dhcpRequest xid mac (dhcp_opt 50 w)) = Some (nak, dst, replyVia cm) \<and>
      options_of (drop 240 nak) = Some (reply_options sv c dhcpNak)" if w: "length w = 4" "w \<noteq> AsSlice (bc_IP c)" for w
  proof -
    have "dhcpAnswer sv ((client_header dhcpRequest xid mac)\<lparr>d_requested := V4 w, d_serverID := NoAddr\<rparr>) c = dhcpNak"
      unfolding dhcpRequest_answer [OF refl] using w(2) ip(1) by (metis AsSlice.simps(2) IsValid_def)
    then show ?thesis using serve [OF parse_request_options(1) [OF w(1) w(1)] refl] nz by auto
  qed
  have other: "serve_packet sv src cm (client_msg dhcpRequest xid mac (dhcp_opt 50 w @ dhcp_opt 54 sid)) = None"
    if w: "length w = 4" "length sid = 4" "V4 sid \<noteq> serverID sv" for w sid
  proof -
    have "dhcpAnswer sv ((client_header dhcpRequest xid mac)\<lparr>d_requested := V4 w, d_serverID := V4 sid\<rparr>) c = 0"
      using w(3) by (simp add: dhcpRequest_answer [OF refl] IsValid_def)
    then show ?thesis using serve [OF parse_request_options(2) [OF w(1,2)] refl] by auto
  qed
  show ?thesis
    using offer ack nak other unfolding sid54 by (metis (no_types, lifting))
qed

theorem dhcp_lease_witness:
  "\<exists>offer dst ack dst'.
      serve_packet demo_bootp None None (client_msg dhcpDiscover [1, 2, 3, 4] [8, 0, 0x69, 1, 2, 3] []) = Some (offer, dst, None) \<and>
      sub 16 20 offer = [10, 0, 0, 7] \<and>
      serve_packet demo_bootp None None (client_msg dhcpRequest [1, 2, 3, 4] [8, 0, 0x69, 1, 2, 3]
        (dhcp_opt 50 (sub 16 20 offer) @ dhcp_opt 54 [10, 0, 0, 1])) = Some (ack, dst', None) \<and>
      sub 16 20 ack = [10, 0, 0, 7]"
proof -
  have l: "lookupClient demo_bootp [8, 0, 0x69, 1, 2, 3] =
      Some \<lparr>bc_Name = [0x61], bc_MAC = [8, 0, 0x69, 1, 2, 3], bc_IP = V4 [10, 0, 0, 7], bc_Hostname = [0x6f, 0x32]\<rparr>"
    by (simp add: lookupClient_def demo_bootp_def)
  have d: "bs_DHCP demo_bootp" by (simp add: demo_bootp_def)
  have s: "the (map_of (reply_options demo_bootp c dhcpOffer) 54) = [10, 0, 0, 1]" for c
    by (simp add: reply_options_def serverID_def IsValid_def demo_bootp_def)
  have n: "length ([1, 2, 3, 4] :: bytes) = 4" "length ([8, 0, 0x69, 1, 2, 3] :: bytes) = 6" "replyVia None = None"
    by (simp_all add: replyVia_def)
  show ?thesis
    using conjunct1 [OF dhcp_lease [OF demo_configured d l n(1,2), of None None]]
    unfolding s n(3) bootp_Client.simps AsSlice.simps by blast
qed

end
