(* ===== verification/Sharefs_Table.thy ===== *)
theory Sharefs_Table
  imports Go_Maps Go_Strings "HOL-Library.Sublist"
begin

text \<open>
  The table of paths behind a share's filehandles (src/internal/sharefs/table.go,
  and \<open>under\<close> of sharefs.go). The file is a list of lines, each what SplitN,
  ParseUint and Unquote make of its text; \<open>pf_ok\<close> says whether writes to the file
  succeed. Ids are natural numbers: a table never hands out 2^64 of them.
\<close>

section \<open>Model\<close>

datatype tline = TNext nat | TSet nat bytes | TDel nat | TMalformed

record ptab =
  pt_next :: nat
  pt_byID :: "(nat \<times> bytes) list"
  pt_byPath :: "(bytes \<times> nat) list"

record pathTable =
  pf_lines :: "tline list"
  pf_ok :: bool
  pf_tab :: ptab

definition new_tab :: ptab where
  "new_tab = \<lparr>pt_next = 1, pt_byID = [], pt_byPath = []\<rparr>"

definition tab_set :: "nat \<Rightarrow> bytes \<Rightarrow> ptab \<Rightarrow> ptab" where
  "tab_set k p t =
     (let byPath = (case map_of (pt_byID t) k of None \<Rightarrow> pt_byPath t | Some old \<Rightarrow> map_del old (pt_byPath t))
      in \<lparr>pt_next = max (pt_next t) (k + 1), pt_byID = map_put k p (pt_byID t), pt_byPath = map_put p k byPath\<rparr>)"

definition tab_del :: "nat \<Rightarrow> ptab \<Rightarrow> ptab" where
  "tab_del k t =
     t\<lparr>pt_byPath := map_del (case map_of (pt_byID t) k of None \<Rightarrow> [] | Some p \<Rightarrow> p) (pt_byPath t),
       pt_byID := map_del k (pt_byID t)\<rparr>"

definition load_line :: "tline \<Rightarrow> ptab \<Rightarrow> ptab option" where
  "load_line l t =
     (case l of
        TNext k \<Rightarrow> Some (t\<lparr>pt_next := max (pt_next t) k\<rparr>)
      | TSet k p \<Rightarrow> Some (tab_set k p t)
      | TDel k \<Rightarrow> Some (tab_del k t)
      | TMalformed \<Rightarrow> None)"

definition tab_load :: "tline list \<Rightarrow> ptab option" where
  "tab_load ls = fold (\<lambda>l r. Option.bind r (load_line l)) ls (Some new_tab)"

text \<open>The table rewritten: what openPathTable leaves in the file.\<close>

definition compact :: "ptab \<Rightarrow> tline list" where
  "compact t = TNext (pt_next t) # map (\<lambda>(k, p). TSet k p) (pt_byID t)"

definition openPathTable :: "bool \<Rightarrow> tline list \<Rightarrow> pathTable option" where
  "openPathTable ok ls =
     (case tab_load ls of
        None \<Rightarrow> None
      | Some t \<Rightarrow> if ok then Some \<lparr>pf_lines = compact t, pf_ok = ok, pf_tab = t\<rparr> else None)"

definition write_line :: "tline \<Rightarrow> pathTable \<Rightarrow> pathTable" where
  "write_line l t = (if pf_ok t then t\<lparr>pf_lines := pf_lines t @ [l]\<rparr> else t)"

definition idFor :: "bytes \<Rightarrow> pathTable \<Rightarrow> nat option \<times> pathTable" where
  "idFor p t =
     (case map_of (pt_byPath (pf_tab t)) p of
        Some k \<Rightarrow> (Some k, t)
      | None \<Rightarrow>
          let k = pt_next (pf_tab t) in
          if \<not> pf_ok t then (None, t)
          else (Some k, (write_line (TSet k p) t)\<lparr>pf_tab := tab_set k p (pf_tab t)\<rparr>))"

definition tab_path :: "nat \<Rightarrow> pathTable \<Rightarrow> bytes option" where
  "tab_path k t = map_of (pt_byID (pf_tab t)) k"

definition under :: "bytes \<Rightarrow> bytes \<Rightarrow> bool" where
  "under p base \<longleftrightarrow> p = base \<or> prefix (base @ [slash]) p"

definition remove_entry :: "bytes \<Rightarrow> nat \<times> bytes \<Rightarrow> pathTable \<Rightarrow> pathTable" where
  "remove_entry p e t =
     (if under (snd e) p then (write_line (TDel (fst e)) t)\<lparr>pf_tab := tab_del (fst e) (pf_tab t)\<rparr> else t)"

definition tab_remove :: "bytes \<Rightarrow> pathTable \<Rightarrow> pathTable" where
  "tab_remove p t = fold (remove_entry p) (pt_byID (pf_tab t)) t"

definition move_entry :: "bytes \<Rightarrow> bytes \<Rightarrow> nat \<times> bytes \<Rightarrow> pathTable \<Rightarrow> pathTable" where
  "move_entry p q e t =
     (if under (snd e) p then
        let np = q @ drop (length p) (snd e) in
        (write_line (TSet (fst e) np) t)\<lparr>pf_tab := tab_set (fst e) np (pf_tab t)\<rparr>
      else t)"

definition tab_move :: "bytes \<Rightarrow> bytes \<Rightarrow> pathTable \<Rightarrow> pathTable" where
  "tab_move p q t = fold (move_entry p q) (pt_byID (pf_tab t)) t"

section \<open>The invariant\<close>

definition tab_ok :: "ptab \<Rightarrow> bool" where
  "tab_ok t \<longleftrightarrow>
     ordered_map (pt_byID t) \<and> ordered_map (pt_byPath t) \<and> 0 < pt_next t \<and>
     (\<forall>k p. map_of (pt_byID t) k = Some p \<longleftrightarrow> map_of (pt_byPath t) p = Some k) \<and>
     (\<forall>k p. map_of (pt_byID t) k = Some p \<longrightarrow> k < pt_next t)"

lemma tab_okD:
  assumes "tab_ok t"
  shows "ordered_map (pt_byID t)" and "ordered_map (pt_byPath t)" and "0 < pt_next t"
    and "map_of (pt_byID t) k = Some p \<longleftrightarrow> map_of (pt_byPath t) p = Some k"
    and "map_of (pt_byID t) k = Some p \<Longrightarrow> k < pt_next t"
  using assms unfolding tab_ok_def by blast+

lemma tab_ok_inj: "tab_ok t \<Longrightarrow> map_of (pt_byID t) i = Some p \<Longrightarrow> map_of (pt_byID t) j = Some p \<Longrightarrow> i = j"
  using tab_okD(4) by (metis option.inject)

lemma tab_okI:
  assumes "ordered_map (pt_byID t)" and "ordered_map (pt_byPath t)" and "0 < pt_next t"
    and "\<And>k p. map_of (pt_byID t) k = Some p \<longleftrightarrow> map_of (pt_byPath t) p = Some k"
    and "\<And>k p. map_of (pt_byID t) k = Some p \<Longrightarrow> k < pt_next t"
  shows "tab_ok t"
  using assms unfolding tab_ok_def by blast

lemma tab_ok_new: "tab_ok new_tab"
  by (rule tab_okI) (simp_all add: new_tab_def)

lemma byID_set [simp]: "map_of (pt_byID (tab_set k p t)) = (map_of (pt_byID t))(k \<mapsto> p)"
  by (simp add: tab_set_def Let_def)

lemma byID_del [simp]: "map_of (pt_byID (tab_del k t)) = (map_of (pt_byID t))(k := None)"
  by (simp add: tab_del_def)

lemma next_set [simp]: "pt_next (tab_set k p t) = max (pt_next t) (k + 1)" "pt_next (tab_del k t) = pt_next t"
  by (simp_all add: tab_set_def tab_del_def Let_def)

lemma inverse_upd:
  assumes "\<And>i q. f i = Some q \<longleftrightarrow> g q = Some i" and "\<And>i. f i = Some p \<Longrightarrow> i = k"
  shows "(f(k \<mapsto> p)) i = Some q \<longleftrightarrow> ((case f k of None \<Rightarrow> g | Some old \<Rightarrow> g(old := None))(p \<mapsto> k)) q = Some i"
proof -
  have inj: "f i = Some p' \<Longrightarrow> f j = Some p' \<Longrightarrow> i = j" for i j p' using assms(1) by (metis option.inject)
  show ?thesis
  proof (cases "q = p")
    case True
    then show ?thesis using assms(2) [of i] by (cases "i = k") auto
  next
    case False
    then have "((case f k of None \<Rightarrow> g | Some old \<Rightarrow> g(old := None))(p \<mapsto> k)) q = Some i \<longleftrightarrow> f i = Some q \<and> f k \<noteq> Some q"
      using assms(1) [of i q] assms(1) [of k q] by (auto split: option.splits)
    with False show ?thesis using inj [of i q k] by (cases "i = k") auto
  qed
qed

text \<open>Numbering a path keeps the table consistent when no other id has the path.\<close>

lemma tab_ok_set:
  assumes "tab_ok t" and "\<And>i. map_of (pt_byID t) i = Some p \<Longrightarrow> i = k"
  shows "tab_ok (tab_set k p t)"
proof (rule tab_okI)
  show "ordered_map (pt_byID (tab_set k p t))" using tab_okD(1) [OF assms(1)] by (simp add: tab_set_def Let_def)
  show "ordered_map (pt_byPath (tab_set k p t))"
    using tab_okD(2) [OF assms(1)] by (simp add: tab_set_def Let_def split: option.split)
  show "0 < pt_next (tab_set k p t)" by simp
  show "i < pt_next (tab_set k p t)" if "map_of (pt_byID (tab_set k p t)) i = Some q" for i q
    using that tab_okD(5) [OF assms(1), of i] by (auto split: if_splits simp: less_max_iff_disj)
  have paths: "map_of (pt_byPath (tab_set k p t)) =
      (case map_of (pt_byID t) k of None \<Rightarrow> map_of (pt_byPath t) | Some old \<Rightarrow> (map_of (pt_byPath t))(old := None))(p \<mapsto> k)"
    by (simp add: tab_set_def Let_def split: option.split)
  show "map_of (pt_byID (tab_set k p t)) i = Some q \<longleftrightarrow> map_of (pt_byPath (tab_set k p t)) q = Some i" for i q
    unfolding byID_set paths by (rule inverse_upd) (use tab_okD(4) [OF assms(1)] assms(2) in blast)+
qed

lemma tab_ok_del:
  assumes "tab_ok t" and "map_of (pt_byID t) k \<noteq> None"
  shows "tab_ok (tab_del k t)"
proof (rule tab_okI)
  obtain p where p: "map_of (pt_byID t) k = Some p" using assms(2) by blast
  show "ordered_map (pt_byID (tab_del k t))" "ordered_map (pt_byPath (tab_del k t))"
    using tab_okD(1,2) [OF assms(1)] by (simp_all add: tab_del_def)
  show "0 < pt_next (tab_del k t)" using tab_okD(3) [OF assms(1)] by simp
  show "i < pt_next (tab_del k t)" if "map_of (pt_byID (tab_del k t)) i = Some q" for i q
    using that tab_okD(5) [OF assms(1), of i q] by (auto split: if_splits)
  show "map_of (pt_byID (tab_del k t)) i = Some q \<longleftrightarrow> map_of (pt_byPath (tab_del k t)) q = Some i" for i q
    using tab_okD(4) [OF assms(1), of i q] tab_okD(4) [OF assms(1), of k p] p by (auto simp: tab_del_def split: if_splits)
qed

section \<open>Replaying the file\<close>

lemma tab_load_snoc: "tab_load (ls @ [l]) = Option.bind (tab_load ls) (load_line l)"
  by (simp add: tab_load_def)

lemma load_TSet: "load_line (TSet k p) t = Some (tab_set k p t)" "load_line (TDel k) t = Some (tab_del k t)"
  by (simp_all add: load_line_def)

lemma load_sets:
  assumes "tab_ok t" and "ordered_map es"
    and "\<And>k p. (k, p) \<in> set es \<Longrightarrow> k < pt_next t"
    and "\<And>k p i q. (k, p) \<in> set es \<Longrightarrow> (i, q) \<in> set es \<union> set (pt_byID t) \<Longrightarrow> p = q \<longleftrightarrow> k = i"
  shows "\<exists>t'. fold (\<lambda>l r. Option.bind r (load_line l)) (map (\<lambda>(k, p). TSet k p) es) (Some t) = Some t' \<and> tab_ok t' \<and>
    pt_next t' = pt_next t \<and> map_of (pt_byID t') = map_of (pt_byID t) ++ map_of es"
  using assms
proof (induction es arbitrary: t)
  case (Cons e es)
  obtain k p where e: "e = (k, p)" by fastforce
  let ?t = "tab_set k p t"
  have mem: "(i, q) \<in> set (pt_byID t) \<longleftrightarrow> map_of (pt_byID t) i = Some q" for i q
    by (rule ordered_map_in [OF tab_okD(1) [OF Cons.prems(1)]])
  have ok: "tab_ok ?t"
  proof (rule tab_ok_set [OF Cons.prems(1)])
    show "i = k" if "map_of (pt_byID t) i = Some p" for i
      using that Cons.prems(4) [of k p i p] e mem by auto
  qed
  have mem': "(i, q) \<in> set (pt_byID ?t) \<Longrightarrow> (i, q) = (k, p) \<or> (i, q) \<in> set (pt_byID t)" for i q
    using ordered_map_in [OF tab_okD(1) [OF ok], of i q] mem [of i q] by (auto split: if_splits)
  have nx: "pt_next ?t = pt_next t" using Cons.prems(3) [of k p] e by simp
  have "\<exists>t'. fold (\<lambda>l r. Option.bind r (load_line l)) (map (\<lambda>(k, p). TSet k p) es) (Some ?t) = Some t' \<and> tab_ok t' \<and>
      pt_next t' = pt_next ?t \<and> map_of (pt_byID t') = map_of (pt_byID ?t) ++ map_of es"
  proof (rule Cons.IH [OF ok])
    show "ordered_map es" using Cons.prems(2) by (simp add: ordered_map_def)
    show "i < pt_next ?t" if "(i, q) \<in> set es" for i q using Cons.prems(3) [of i q] that nx by simp
    show "p' = q \<longleftrightarrow> k' = i" if "(k', p') \<in> set es" "(i, q) \<in> set es \<union> set (pt_byID ?t)" for k' p' i q
      using Cons.prems(4) [of k' p' i q] that mem' [of i q] e by auto
  qed
  moreover have "map_of (pt_byID ?t) ++ map_of es = map_of (pt_byID t) ++ map_of (e # es)"
  proof -
    have "k \<notin> dom (map_of es)" using ordered_map_distinct [OF Cons.prems(2)] e by (simp add: dom_map_of_conv_image_fst)
    then show ?thesis by (simp add: e map_add_upd_left)
  qed
  moreover have "fold (\<lambda>l r. Option.bind r (load_line l)) (map (\<lambda>(k, p). TSet k p) (e # es)) (Some t) =
      fold (\<lambda>l r. Option.bind r (load_line l)) (map (\<lambda>(k, p). TSet k p) es) (Some ?t)"
    by (simp add: e load_TSet)
  ultimately show ?case unfolding nx by metis
qed simp

lemma load_compact:
  assumes "tab_ok t"
  shows "tab_load (compact t) = Some t"
proof -
  define t0 where "t0 = new_tab\<lparr>pt_next := max 1 (pt_next t)\<rparr>"
  have nx: "pt_next t0 = pt_next t" using tab_okD(3) [OF assms] by (simp add: t0_def)
  have ok0: "tab_ok t0" by (rule tab_okI) (simp_all add: t0_def new_tab_def)
  have mem: "(k, p) \<in> set (pt_byID t) \<longleftrightarrow> map_of (pt_byID t) k = Some p" for k p
    by (rule ordered_map_in [OF tab_okD(1) [OF assms]])
  have inj: "map_of (pt_byID t) i = Some q \<Longrightarrow> map_of (pt_byID t) k = Some p \<Longrightarrow> p = q \<longleftrightarrow> k = i" for i q k p
    using tab_ok_inj [OF assms] by (metis option.inject)
  obtain t' where t': "fold (\<lambda>l r. Option.bind r (load_line l)) (map (\<lambda>(k, p). TSet k p) (pt_byID t)) (Some t0) = Some t'"
      "tab_ok t'" "pt_next t' = pt_next t0" "map_of (pt_byID t') = map_of (pt_byID t0) ++ map_of (pt_byID t)"
    using load_sets [OF ok0 tab_okD(1) [OF assms]] nx mem inj tab_okD(5) [OF assms] by (force simp: t0_def new_tab_def)
  have ids: "pt_byID t' = pt_byID t"
    using t' by (intro ordered_map_ext tab_okD(1) [OF assms] tab_okD(1) [OF t'(2)]) (simp add: t0_def new_tab_def)
  have "map_of (pt_byPath t') p = map_of (pt_byPath t) p" for p
    using tab_okD(4) [OF assms, of _ p] tab_okD(4) [OF t'(2), of _ p] ids by (metis option.exhaust)
  then have "pt_byPath t' = pt_byPath t"
    by (intro ordered_map_ext tab_okD(2) [OF assms] tab_okD(2) [OF t'(2)]) auto
  then have "t' = t" using ids nx t'(3) by simp
  with t'(1) show ?thesis by (simp add: tab_load_def compact_def load_line_def t0_def new_tab_def)
qed

section \<open>Removing and moving\<close>

text \<open>A table whose file, read again, gives the same table.\<close>

definition durable :: "pathTable \<Rightarrow> bool" where
  "durable t \<longleftrightarrow> pf_ok t \<and> tab_ok (pf_tab t) \<and> tab_load (pf_lines t) = Some (pf_tab t)"

abbreviation paths_of :: "pathTable \<Rightarrow> nat \<Rightarrow> bytes option" where
  "paths_of t \<equiv> map_of (pt_byID (pf_tab t))"

lemma durable_set:
  assumes "durable t" and "\<And>i. paths_of t i = Some p \<Longrightarrow> i = k"
  shows "durable ((write_line (TSet k p) t)\<lparr>pf_tab := tab_set k p (pf_tab t)\<rparr>)"
  using assms by (auto simp: durable_def write_line_def tab_load_snoc load_TSet intro: tab_ok_set)

lemma durable_del:
  assumes "durable t" and "paths_of t k \<noteq> None"
  shows "durable ((write_line (TDel k) t)\<lparr>pf_tab := tab_del k (pf_tab t)\<rparr>)"
  using assms by (auto simp: durable_def write_line_def tab_load_snoc load_TSet intro: tab_ok_del)

lemma remove_fold:
  assumes "durable t" and "ordered_map es" and "\<And>k q. (k, q) \<in> set es \<Longrightarrow> paths_of t k = Some q"
  shows "durable (fold (remove_entry p) es t) \<and> pt_next (pf_tab (fold (remove_entry p) es t)) = pt_next (pf_tab t) \<and>
    paths_of (fold (remove_entry p) es t) = (\<lambda>k. if \<exists>q. (k, q) \<in> set es \<and> under q p then None else paths_of t k)"
  using assms
proof (induction es arbitrary: t)
  case (Cons e es)
  obtain k q where e: "e = (k, q)" by fastforce
  let ?t = "remove_entry p e t"
  have k: "paths_of t k = Some q" using Cons.prems(3) e by simp
  have ok: "durable ?t" using durable_del [OF Cons.prems(1), of k] Cons.prems(1) k by (simp add: remove_entry_def e)
  have fresh: "(k, q') \<notin> set es" for q'
    using ordered_map_distinct [OF Cons.prems(2)] e by (force simp: image_iff)
  have es: "ordered_map es" using Cons.prems(2) by (simp add: ordered_map_def)
  have at: "paths_of ?t i = (if i = k \<and> under q p then None else paths_of t i)" for i
    by (simp add: remove_entry_def e)
  have "paths_of ?t i = Some r" if "(i, r) \<in> set es" for i r
    using Cons.prems(3) [of i r] that fresh [of r] at by auto
  from Cons.IH [OF ok es this] fresh at show ?case
    by (auto simp: e fun_eq_iff) (simp add: remove_entry_def)
qed (simp add: fun_eq_iff)

lemma under_moved: "under a p \<Longrightarrow> under (q @ drop (length p) a) q"
  by (auto simp: under_def prefix_def)

lemma moved_inj: "under a p \<Longrightarrow> under b p \<Longrightarrow> q @ drop (length p) a = q @ drop (length p) b \<Longrightarrow> a = b"
  by (auto simp: under_def prefix_def)

lemma move_fold:
  assumes "durable t" and "ordered_map es" and "\<And>k a. (k, a) \<in> set es \<Longrightarrow> paths_of t k = Some a"
    and "\<And>k a j. (k, a) \<in> set es \<Longrightarrow> under a p \<Longrightarrow> paths_of t j = Some (q @ drop (length p) a) \<Longrightarrow> j = k"
  shows "durable (fold (move_entry p q) es t) \<and> pt_next (pf_tab (fold (move_entry p q) es t)) = pt_next (pf_tab t) \<and>
    paths_of (fold (move_entry p q) es t) =
      (\<lambda>k. case map_of es k of Some a \<Rightarrow> if under a p then Some (q @ drop (length p) a) else paths_of t k | None \<Rightarrow> paths_of t k)"
  using assms
proof (induction es arbitrary: t)
  case (Cons e es)
  obtain k a where e: "e = (k, a)" by fastforce
  let ?t = "move_entry p q e t" and ?np = "q @ drop (length p) a"
  have k: "paths_of t k = Some a" using Cons.prems(3) e by simp
  have tok: "tab_ok (pf_tab t)" using Cons.prems(1) by (simp add: durable_def)
  have ok: "durable ?t"
    using durable_set [OF Cons.prems(1), of ?np k] Cons.prems(1) Cons.prems(4) [of k a] by (simp add: move_entry_def e Let_def)
  have fresh: "(k, b) \<notin> set es" for b
    using ordered_map_distinct [OF Cons.prems(2)] e by (force simp: image_iff)
  have es: "ordered_map es" using Cons.prems(2) by (simp add: ordered_map_def)
  have at: "paths_of ?t i = (if i = k \<and> under a p then Some ?np else paths_of t i)" for i
    by (simp add: move_entry_def e Let_def)
  have nx: "pt_next (pf_tab ?t) = pt_next (pf_tab t)"
    using tab_okD(5) [OF tok k] by (simp add: move_entry_def Let_def e)
  have same: "paths_of ?t i = Some r" if "(i, r) \<in> set es" for i r
    using Cons.prems(3) [of i r] that fresh [of r] at by auto
  have clash: "j = i" if "(i, r) \<in> set es" "under r p" "paths_of ?t j = Some (q @ drop (length p) r)" for i r j
  proof (cases "j = k \<and> under a p")
    case True
    then have "a = r" using that(2,3) at moved_inj [of a p r q] by simp
    then have "i = k" using tab_ok_inj [OF tok] k Cons.prems(3) [of i r] that(1) by auto
    with True show ?thesis by simp
  next
    case False
    then show ?thesis using Cons.prems(4) [of i r j] that at by auto
  qed
  have "map_of es k = None" using fresh map_of_SomeD by (metis option.exhaust)
  with Cons.IH [OF ok es same clash] nx at show ?case
    by (auto simp: e fun_eq_iff split: option.split)
qed (simp add: fun_eq_iff)

lemma tab_remove_paths:
  assumes "durable t"
  shows "durable (tab_remove p t)" and "pt_next (pf_tab (tab_remove p t)) = pt_next (pf_tab t)"
    and "paths_of (tab_remove p t) k = (case paths_of t k of None \<Rightarrow> None | Some a \<Rightarrow> if under a p then None else Some a)"
proof -
  have o: "ordered_map (pt_byID (pf_tab t))" using assms tab_okD(1) by (auto simp: durable_def)
  note r = remove_fold [OF assms o, of p] and mem = ordered_map_in [OF o]
  show "durable (tab_remove p t)" "pt_next (pf_tab (tab_remove p t)) = pt_next (pf_tab t)"
    using r mem by (simp_all add: tab_remove_def)
  show "paths_of (tab_remove p t) k = (case paths_of t k of None \<Rightarrow> None | Some a \<Rightarrow> if under a p then None else Some a)"
    using r mem by (auto simp: tab_remove_def split: option.split)
qed

text \<open>What Rename does to the table: the target is forgotten, then the source moved.\<close>

lemma tab_rename_paths:
  assumes "durable t"
  shows "durable (tab_move p q (tab_remove q t))" and "pt_next (pf_tab (tab_move p q (tab_remove q t))) = pt_next (pf_tab t)"
    and "paths_of (tab_move p q (tab_remove q t)) k =
      (case paths_of t k of None \<Rightarrow> None
       | Some a \<Rightarrow> if under a q then None else if under a p then Some (q @ drop (length p) a) else Some a)"
proof -
  let ?r = "tab_remove q t"
  note r = tab_remove_paths [OF assms, of q]
  have o: "ordered_map (pt_byID (pf_tab ?r))" using r(1) tab_okD(1) by (auto simp: durable_def)
  have gone: "\<not> under a q" if "paths_of ?r j = Some a" for j a
    using that r(3) [of j] by (auto split: option.splits if_splits)
  have m: "durable (tab_move p q ?r) \<and> pt_next (pf_tab (tab_move p q ?r)) = pt_next (pf_tab ?r) \<and>
    paths_of (tab_move p q ?r) = (\<lambda>k. case paths_of ?r k of
      Some a \<Rightarrow> if under a p then Some (q @ drop (length p) a) else paths_of ?r k | None \<Rightarrow> paths_of ?r k)"
    unfolding tab_move_def
    by (rule move_fold [OF r(1) o]) (use ordered_map_in [OF o] gone under_moved in blast)+
  then show "durable (tab_move p q ?r)" "pt_next (pf_tab (tab_move p q ?r)) = pt_next (pf_tab t)" using r(2) by simp_all
  show "paths_of (tab_move p q ?r) k =
      (case paths_of t k of None \<Rightarrow> None
       | Some a \<Rightarrow> if under a q then None else if under a p then Some (q @ drop (length p) a) else Some a)"
    using m r(3) [of k] by (auto split: option.split)
qed

section \<open>The life of a table\<close>

text \<open>What a share does to its table, a restart of the server included.\<close>

datatype table_op = Number bytes | Removed bytes | Renamed bytes bytes | Restart

fun table_step :: "table_op \<Rightarrow> pathTable \<Rightarrow> pathTable option" where
  "table_step (Number p) t = Some (snd (idFor p t))"
| "table_step (Removed p) t = Some (tab_remove p t)"
| "table_step (Renamed p q) t = Some (tab_move p q (tab_remove q t))"
| "table_step Restart t = openPathTable (pf_ok t) (pf_lines t)"

fun table_run :: "table_op list \<Rightarrow> pathTable \<Rightarrow> pathTable option" where
  "table_run [] t = Some t"
| "table_run (x # xs) t = Option.bind (table_step x t) (table_run xs)"

text \<open>Where the file that was at path \<open>a\<close> is afterwards, if it still exists.\<close>

fun follow_op :: "table_op \<Rightarrow> bytes \<Rightarrow> bytes option" where
  "follow_op (Removed p) a = (if under a p then None else Some a)"
| "follow_op (Renamed p q) a =
     (if under a q then None else if under a p then Some (q @ drop (length p) a) else Some a)"
| "follow_op _ a = Some a"

fun follow :: "table_op list \<Rightarrow> bytes \<Rightarrow> bytes option" where
  "follow [] a = Some a"
| "follow (x # xs) a = Option.bind (follow_op x a) (follow xs)"

lemma idFor_fresh:
  assumes "durable t" and "map_of (pt_byPath (pf_tab t)) p = None"
  shows "paths_of t k \<noteq> Some p"
  using assms tab_okD(4) [of "pf_tab t" k p] by (auto simp: durable_def)

lemma table_step_ok:
  assumes "durable t"
  shows "\<exists>t'. table_step x t = Some t' \<and> durable t' \<and> pt_next (pf_tab t) \<le> pt_next (pf_tab t') \<and>
    (\<forall>k < pt_next (pf_tab t). paths_of t' k = Option.bind (paths_of t k) (follow_op x))"
proof (cases x)
  case (Number p)
  show ?thesis
  proof (cases "map_of (pt_byPath (pf_tab t)) p")
    case None
    then have "durable ((write_line (TSet (pt_next (pf_tab t)) p) t)\<lparr>pf_tab := tab_set (pt_next (pf_tab t)) p (pf_tab t)\<rparr>)"
      using idFor_fresh [OF assms] by (intro durable_set [OF assms]) blast
    with None assms Number show ?thesis by (auto simp: idFor_def durable_def Let_def split: option.split bind_splits)
  qed (use assms Number in \<open>auto simp: idFor_def split: bind_splits\<close>)
next
  case (Removed p)
  with tab_remove_paths [OF assms, of p] show ?thesis by (auto split: option.split)
next
  case (Renamed p q)
  with tab_rename_paths [OF assms, of p q] show ?thesis by (auto split: option.split)
next
  case Restart
  with assms load_compact show ?thesis by (auto simp: openPathTable_def durable_def split: bind_splits)
qed

text \<open>
  C9: Filehandles outlive renames and restarts. From a consistent table whose
  file can be written, any sequence of numbering, removing, renaming and
  restarting succeeds and leaves a table that a further restart reproduces
  exactly. A number handed out before names, afterwards, exactly the path to which its
  file was renamed, and nothing if the file was removed or
  overwritten: no number ever comes to name another file.
\<close>

theorem table_survives:
  assumes "durable t"
  shows "\<exists>t'. table_run xs t = Some t' \<and> durable t' \<and>
    (\<exists>t''. openPathTable (pf_ok t') (pf_lines t') = Some t'' \<and> pf_tab t'' = pf_tab t') \<and>
    (\<forall>k < pt_next (pf_tab t). tab_path k t' = Option.bind (tab_path k t) (follow xs))"
proof -
  have "\<exists>t'. table_run xs t = Some t' \<and> durable t' \<and> (\<forall>k < pt_next (pf_tab t). paths_of t' k = Option.bind (paths_of t k) (follow xs))"
    using assms
  proof (induction xs arbitrary: t)
    case Nil
    then show ?case by (auto split: bind_splits)
  next
    case (Cons x xs)
    obtain t1 where t1: "table_step x t = Some t1" "durable t1" "pt_next (pf_tab t) \<le> pt_next (pf_tab t1)"
        "\<forall>k < pt_next (pf_tab t). paths_of t1 k = Option.bind (paths_of t k) (follow_op x)"
      using table_step_ok [OF Cons.prems, of x] by blast
    obtain t' where "table_run xs t1 = Some t'" "durable t'" "\<forall>k < pt_next (pf_tab t1). paths_of t' k = Option.bind (paths_of t1 k) (follow xs)"
      using Cons.IH [OF t1(2)] by blast
    with t1 show ?case by (auto split: bind_splits)
  qed
  then obtain t' where t': "table_run xs t = Some t'" "durable t'"
      "\<forall>k < pt_next (pf_tab t). paths_of t' k = Option.bind (paths_of t k) (follow xs)" by blast
  moreover have "\<exists>t''. openPathTable (pf_ok t') (pf_lines t') = Some t'' \<and> pf_tab t'' = pf_tab t'"
    using t'(2) by (simp add: openPathTable_def durable_def)
  ultimately show ?thesis by (auto simp: tab_path_def)
qed

definition demo_table :: pathTable where
  "demo_table = \<lparr>pf_lines = [TSet 1 [0x61]], pf_ok = True, pf_tab = tab_set 1 [0x61] new_tab\<rparr>"

theorem table_survives_witness:
  "\<exists>t'. table_run [Number [0x62], Renamed [0x61] [0x63], Restart, Removed [0x62]] demo_table = Some t' \<and>
    tab_path 1 t' = Some [0x63]"
proof -
  have "tab_ok (tab_set 1 [0x61] new_tab)"
    by (rule tab_ok_set [OF tab_ok_new]) (simp add: new_tab_def)
  then have "durable demo_table"
    by (simp add: durable_def demo_table_def tab_load_def load_TSet)
  from table_survives [OF this, of "[Number [0x62], Renamed [0x61] [0x63], Restart, Removed [0x62]]"] show ?thesis
    by (auto simp: demo_table_def new_tab_def tab_path_def under_def slash_def)
qed

end
