(* ===== verification/Sharefs.thy ===== *)
theory Sharefs
  imports Sharefs_Table Nfs_Base
begin

text \<open>
  A writable share (src/internal/sharefs/sharefs.go). The host directory behind
  os.Root is a record of functions over a state \<open>'h\<close>, one for each thing the code
  does to a path (an open followed by one operation and a close is one function);
  \<open>h_Lstat\<close> is Lstat with the platform's fileStat and generation. An operation
  is a function of the share's state that returns an outcome and the new state,
  composed by \<open>doing\<close>; \<open>sf_log\<close> records the paths given to the host, in order, for the
  statement of confinement.
  The walk of \<open>search\<close> is bounded by \<open>fuel\<close>, the number of directories it may
  open. A node is of type Node with the share's own part as its data, so
  the type assertion in \<open>own\<close> always succeeds.
\<close>

section \<open>Model: the host\<close>

datatype errno =
    EPERM | EACCES | EEXIST | ENOENT | ENOTDIR | EISDIR | EINVAL | ENOSPC | EDQUOT | ENAMETOOLONG
  | ENOTEMPTY | EFBIG | EXDEV | EROFS

datatype host_err = HErrno errno | HNotExist | HExist | HPermission | HOther nat

fun errno_err :: "errno \<Rightarrow> nfs_err" where
  "errno_err EPERM = ErrPerm"
| "errno_err EACCES = ErrAccess"
| "errno_err EEXIST = ErrExist"
| "errno_err ENOENT = ErrNotFound"
| "errno_err ENOTDIR = ErrNotDir"
| "errno_err EISDIR = ErrIsDir"
| "errno_err EINVAL = ErrInval"
| "errno_err ENOSPC = ErrNoSpace"
| "errno_err EDQUOT = ErrQuota"
| "errno_err ENAMETOOLONG = ErrNameTooLong"
| "errno_err ENOTEMPTY = ErrNotEmpty"
| "errno_err EFBIG = ErrFBig"
| "errno_err EXDEV = ErrXDev"
| "errno_err EROFS = ErrROFS"

fun mapErr :: "host_err \<Rightarrow> nfs_err" where
  "mapErr (HErrno e) = errno_err e"
| "mapErr HNotExist = ErrNotFound"
| "mapErr HExist = ErrExist"
| "mapErr HPermission = ErrAccess"
| "mapErr (HOther n) = ErrIO"

text \<open>\<open>errors.Is(err, fs.ErrExist)\<close>.\<close>

definition is_exist :: "host_err \<Rightarrow> bool" where
  "is_exist e \<longleftrightarrow> e = HExist \<or> e = HErrno EEXIST \<or> e = HErrno ENOTEMPTY"

record stat =
  st_mode :: u32
  st_nlink :: u32
  st_size :: u64
  st_used :: u64
  st_atime :: gotime
  st_mtime :: gotime
  st_ctime :: gotime
  st_dev :: u64
  st_ino :: u64
  st_gen :: u64

text \<open>An entry of a host directory; its device and inode when the host reports them.\<close>

record host_entry =
  he_Name :: bytes
  he_IsDir :: bool
  he_inode :: "(u64 \<times> u64) option"

record 'h host =
  h_Lstat :: "bytes \<Rightarrow> 'h \<Rightarrow> host_err + stat"
  h_ReadDir :: "bytes \<Rightarrow> 'h \<Rightarrow> host_err + host_entry list \<times> host_err option"
  h_ReadAt :: "bytes \<Rightarrow> int \<Rightarrow> nat \<Rightarrow> 'h \<Rightarrow> host_err + bytes \<times> host_err option"
  h_Readlink :: "bytes \<Rightarrow> 'h \<Rightarrow> host_err + bytes"
  h_Truncate :: "bytes \<Rightarrow> int \<Rightarrow> 'h \<Rightarrow> host_err option \<times> 'h"
  h_WriteAt :: "bytes \<Rightarrow> bytes \<Rightarrow> int \<Rightarrow> 'h \<Rightarrow> host_err option \<times> 'h"
  h_Chmod :: "bytes \<Rightarrow> u32 \<Rightarrow> 'h \<Rightarrow> host_err option \<times> 'h"
  h_Chtimes :: "bytes \<Rightarrow> gotime option \<Rightarrow> gotime option \<Rightarrow> 'h \<Rightarrow> host_err option \<times> 'h"
  h_Create :: "bytes \<Rightarrow> bool \<Rightarrow> u32 \<Rightarrow> 'h \<Rightarrow> host_err option \<times> 'h"
  h_Mkdir :: "bytes \<Rightarrow> u32 \<Rightarrow> 'h \<Rightarrow> host_err option \<times> 'h"
  h_Symlink :: "bytes \<Rightarrow> bytes \<Rightarrow> 'h \<Rightarrow> host_err option \<times> 'h"
  h_Remove :: "bytes \<Rightarrow> 'h \<Rightarrow> host_err option \<times> 'h"
  h_Rename :: "bytes \<Rightarrow> bytes \<Rightarrow> 'h \<Rightarrow> host_err option \<times> 'h"
  h_Space :: "'h \<Rightarrow> host_err + Space"

section \<open>Model: the share and its nodes\<close>

type_synonym key = "u64 \<times> u64 \<times> u64"

record share_node =
  sn_fs :: u32
  sn_path :: bytes
  sn_raw :: u32
  sn_key :: key

type_synonym snode = "share_node Node"

record 'h share =
  sf_name :: bytes
  sf_exportID :: u32
  sf_badNameChars :: bytes
  sf_filter :: "(Attr \<Rightarrow> Attr) option"
  sf_host :: 'h
  sf_table :: "pathTable option"
  sf_cache :: "key \<Rightarrow> bytes option"
  sf_log :: "bytes list"

type_synonym ('h, 'a) act = "'h share \<Rightarrow> (nfs_err, 'a) outcome \<times> 'h share"

definition doing :: "('h, 'a) act \<Rightarrow> ('a \<Rightarrow> ('h, 'b) act) \<Rightarrow> ('h, 'b) act" where
  "doing m f s =
     (case m s of
        (Ok a, s') \<Rightarrow> f a s'
      | (Err e, s') \<Rightarrow> (Err e, s')
      | (Panic, s') \<Rightarrow> (Panic, s')
      | (Diverge, s') \<Rightarrow> (Diverge, s'))"

definition give :: "'a \<Rightarrow> ('h, 'a) act" where
  "give a s = (Ok a, s)"

definition fail_with :: "nfs_err \<Rightarrow> ('h, 'a) act" where
  "fail_with e s = (Err e, s)"

text \<open>Calls of the host on given paths, with the error as it is or mapped.\<close>

definition touch :: "bytes list \<Rightarrow> 'h share \<Rightarrow> 'h share" where
  "touch ps s = s\<lparr>sf_log := sf_log s @ ps\<rparr>"

definition host_read :: "bytes list \<Rightarrow> ('h \<Rightarrow> 'a) \<Rightarrow> ('h, 'a) act" where
  "host_read ps f s = (Ok (f (sf_host s)), touch ps s)"

definition host_call :: "bytes list \<Rightarrow> ('h \<Rightarrow> host_err option \<times> 'h) \<Rightarrow> ('h, host_err option) act" where
  "host_call ps f s = (case f (sf_host s) of (e, h') \<Rightarrow> (Ok e, (touch ps s)\<lparr>sf_host := h'\<rparr>))"

definition checked :: "host_err + 'a \<Rightarrow> ('h, 'a) act" where
  "checked r = (case r of Inl e \<Rightarrow> fail_with (mapErr e) | Inr a \<Rightarrow> give a)"

definition check_err :: "host_err option \<Rightarrow> ('h, unit) act" where
  "check_err e = (case e of None \<Rightarrow> give () | Some e \<Rightarrow> fail_with (mapErr e))"

definition is_type :: "u32 \<Rightarrow> snode \<Rightarrow> bool" where
  "is_type t n \<longleftrightarrow> sn_raw (n_data n) AND 0xf000 = t"

abbreviation isDir :: "snode \<Rightarrow> bool" where "isDir \<equiv> is_type 0x4000"
abbreviation isReg :: "snode \<Rightarrow> bool" where "isReg \<equiv> is_type 0x8000"
abbreviation isLink :: "snode \<Rightarrow> bool" where "isLink \<equiv> is_type 0xa000"

abbreviation path_of :: "snode \<Rightarrow> bytes" where "path_of n \<equiv> sn_path (n_data n)"

definition share_join :: "bytes \<Rightarrow> bytes \<Rightarrow> bytes" where
  "share_join dir name = (if dir = [dot] then name else dir @ [slash] @ name)"

definition node_attr :: "'h share \<Rightarrow> stat \<Rightarrow> key \<Rightarrow> Attr" where
  "node_attr s st k =
     (let a = \<lparr>a_Mode = st_mode st AND NOT 0x800, a_Nlink = st_nlink st, a_Size = st_size st, a_Used = st_used st,
               a_Fileid = fst (snd k), a_Atime = st_atime st, a_Mtime = st_mtime st, a_Ctime = st_ctime st\<rparr>;
          a = (if st_mode st AND 0xf000 = 0xa000 then a\<lparr>a_Mode := a_Mode a OR 0x1ff\<rparr> else a)
      in case sf_filter s of None \<Rightarrow> a | Some f \<Rightarrow> f a)"

definition node_for :: "'h share \<Rightarrow> bytes \<Rightarrow> stat \<Rightarrow> key \<Rightarrow> snode" where
  "node_for s rel st k =
     (let a = node_attr s st k
      in \<lparr>n_ID = a_Fileid a, n_Mode = a_Mode a, n_Size = sint (a_Size a), n_Mtime = of_int (t_Unix (a_Mtime a)),
          n_Attr = Some a, n_data = \<lparr>sn_fs = sf_exportID s, sn_path = rel, sn_raw = st_mode st, sn_key = k\<rparr>\<rparr>)"

definition describe :: "bytes \<Rightarrow> stat \<Rightarrow> ('h, snode) act" where
  "describe rel st s =
     (case sf_table s of
        Some t \<Rightarrow>
          (case idFor rel t of
             (None, t') \<Rightarrow> (Err ErrIO, s\<lparr>sf_table := Some t'\<rparr>)
           | (Some i, t') \<Rightarrow> (Ok (node_for s rel st (0, of_nat i, 0)), s\<lparr>sf_table := Some t'\<rparr>))
      | None \<Rightarrow>
          let k = (st_dev st, st_ino st, st_gen st)
          in (Ok (node_for s rel st k), s\<lparr>sf_cache := (sf_cache s)(k \<mapsto> rel)\<rparr>))"

definition statNode :: "'h host \<Rightarrow> bytes \<Rightarrow> ('h, snode) act" where
  "statNode h rel = doing (host_read [rel] (h_Lstat h rel)) (\<lambda>r. doing (checked r) (describe rel))"

definition checkName :: "'h share \<Rightarrow> bytes \<Rightarrow> nfs_err option" where
  "checkName s name =
     (if name = [] \<or> name = [dot] \<or> name = [dot, dot] then Some ErrInval
      else if slash \<in> set name \<or> 0 \<in> set name \<or> set name \<inter> set (sf_badNameChars s) \<noteq> {} then Some ErrInval
      else if length name > 255 then Some ErrNameTooLong
      else None)"

definition ownDir :: "snode \<Rightarrow> ('h, snode) act" where
  "ownDir n = (if isDir n then give n else fail_with ErrNotDir)"

fun mount_parts :: "'h host \<Rightarrow> bytes list \<Rightarrow> snode \<Rightarrow> ('h, snode) act" where
  "mount_parts h [] n = give n"
| "mount_parts h (part # parts) n =
     (if part = [] then mount_parts h parts n
      else (\<lambda>s.
        if checkName s part \<noteq> None then fail_with ErrNotFound s
        else if \<not> isDir n then fail_with ErrNotDir s
        else doing (statNode h (share_join (path_of n) part)) (mount_parts h parts) s))"

definition share_MountRoot :: "'h host \<Rightarrow> bytes \<Rightarrow> ('h, snode) act" where
  "share_MountRoot h p s =
     (let parts = split_on slash (trim_byte slash p) in
      if hd parts \<noteq> sf_name s then fail_with ErrNotFound s
      else doing (statNode h [dot]) (mount_parts h (tl parts)) s)"

section \<open>Model: filehandles\<close>

definition fmtInode :: byte where "fmtInode = 2"
definition fmtTable :: byte where "fmtTable = 3"

definition share_format :: "'h share \<Rightarrow> byte" where
  "share_format s = (if sf_table s \<noteq> None then fmtTable else fmtInode)"

definition share_Handle :: "'h share \<Rightarrow> snode \<Rightarrow> bytes" where
  "share_Handle s n =
     (let (dev, ino, gen) = sn_key (n_data n)
      in [share_format s, 0, 0, 0] @ put32 (sf_exportID s) @ put64 dev @ put64 ino @ put64 gen)"

definition handle_key :: "bytes \<Rightarrow> key" where
  "handle_key fh =
     (get64 (word_at fh 8) (word_at fh 12), get64 (word_at fh 16) (word_at fh 20), get64 (word_at fh 24) (word_at fh 28))"

text \<open>The entries of one directory during the search: the node found, or the directories to walk later.\<close>

fun search_entries :: "'h host \<Rightarrow> key \<Rightarrow> bytes \<Rightarrow> host_entry list \<Rightarrow> bytes list \<Rightarrow> ('h, bytes list + snode) act" where
  "search_entries h k dir [] queue s = give (Inl queue) s"
| "search_entries h k dir (e # es) queue s =
     (let rel = share_join dir (he_Name e); queue' = (if he_IsDir e then queue @ [rel] else queue) in
      if he_inode e \<noteq> Some (fst k, fst (snd k)) then search_entries h k dir es queue' s
      else case statNode h rel s of
             (Ok n, s') \<Rightarrow> if sn_key (n_data n) = k then give (Inr n) s' else search_entries h k dir es queue' s'
           | (_, s') \<Rightarrow> search_entries h k dir es queue' s')"

fun search_queue :: "nat \<Rightarrow> 'h host \<Rightarrow> key \<Rightarrow> bytes list \<Rightarrow> ('h, snode) act" where
  "search_queue fuel h k [] s = fail_with ErrStale s"
| "search_queue 0 h k (dir # queue) s = (Diverge, s)"
| "search_queue (Suc fuel) h k (dir # queue) s =
     (case h_ReadDir h dir (sf_host s) of
        Inl e \<Rightarrow> search_queue fuel h k queue (touch [dir] s)
      | Inr (ents, e) \<Rightarrow>
          doing (search_entries h k dir ents queue)
            (\<lambda>r. case r of Inr n \<Rightarrow> give n | Inl queue' \<Rightarrow> search_queue fuel h k queue') (touch [dir] s))"

definition share_search :: "nat \<Rightarrow> 'h host \<Rightarrow> key \<Rightarrow> ('h, snode) act" where
  "share_search fuel h k s =
     (case statNode h [dot] s of
        (Ok n, s') \<Rightarrow> if sn_key (n_data n) = k then give n s' else search_queue fuel h k [[dot]] s'
      | (_, s') \<Rightarrow> search_queue fuel h k [[dot]] s')"

definition share_NodeByHandle :: "nat \<Rightarrow> 'h host \<Rightarrow> bytes \<Rightarrow> ('h, snode) act" where
  "share_NodeByHandle fuel h fh s =
     (if length fh \<noteq> 32 \<or> fh ! 1 OR fh ! 2 OR fh ! 3 \<noteq> 0 \<or> (fh ! 0 \<noteq> fmtInode \<and> fh ! 0 \<noteq> fmtTable) then
        fail_with ErrBadHandle s
      else if fh ! 0 \<noteq> share_format s \<or> word_at fh 4 \<noteq> sf_exportID s then fail_with ErrStale s
      else
        let k = handle_key fh in
        case sf_table s of
          Some t \<Rightarrow>
            (case tab_path (unat (fst (snd k))) t of
               None \<Rightarrow> fail_with ErrStale s
             | Some rel \<Rightarrow>
                 (case statNode h rel s of
                    (Err ErrNotFound, s') \<Rightarrow> (Err ErrStale, s')
                  | (r, s') \<Rightarrow> (r, s')))
        | None \<Rightarrow>
            (case sf_cache s k of
               None \<Rightarrow> share_search fuel h k s
             | Some rel \<Rightarrow>
                 (case statNode h rel s of
                    (Ok n, s') \<Rightarrow> if sn_key (n_data n) = k then give n s' else share_search fuel h k s'
                  | (_, s') \<Rightarrow> share_search fuel h k s')))"

section \<open>Model: reading\<close>

definition share_Lookup :: "'h host \<Rightarrow> snode \<Rightarrow> bytes \<Rightarrow> ('h, snode) act" where
  "share_Lookup h dir name =
     doing (ownDir dir) (\<lambda>d s.
       if name = [dot] then statNode h (path_of d) s
       else if name = [dot, dot] then statNode h (path_Dir (path_of d)) s
       else if checkName s name \<noteq> None then fail_with ErrNotFound s
       else statNode h (share_join (path_of d) name) s)"

text \<open>FNV-1a with 32 bits.\<close>

definition fnv32a :: "bytes \<Rightarrow> u32" where
  "fnv32a b = foldl (\<lambda>x c. (x XOR ucast c) * 16777619) 2166136261 b"

definition cookie :: "bytes \<Rightarrow> u32" where
  "cookie name = max (fnv32a name AND 0x7fffffff) 1"

fun stat_entries :: "'h host \<Rightarrow> bytes \<Rightarrow> host_entry list \<Rightarrow> ('h, share_node DirEntry list) act" where
  "stat_entries h dir [] s = give [] s"
| "stat_entries h dir (e # es) s =
     (case statNode h (share_join dir (he_Name e)) s of
        (Ok n, s') \<Rightarrow>
          doing (stat_entries h dir es)
            (\<lambda>out. give (\<lparr>e_Name = he_Name e, e_Node = n, e_Cookie = cookie (he_Name e)\<rparr> # out)) s'
      | (_, s') \<Rightarrow> stat_entries h dir es s')"

definition share_ReadDir :: "'h host \<Rightarrow> snode \<Rightarrow> ('h, share_node DirEntry list) act" where
  "share_ReadDir h dir =
     doing (ownDir dir) (\<lambda>d.
     doing (host_read [path_of d] (h_ReadDir h (path_of d))) (\<lambda>r.
     doing (checked r) (\<lambda>(ents, err).
     doing (check_err err) (\<lambda>_.
     doing (stat_entries h (path_of d) (sort_key he_Name ents)) (\<lambda>out.
     give (sort_key e_Cookie (sort_key e_Name out)))))))"

definition share_ReadAt :: "'h host \<Rightarrow> snode \<Rightarrow> nat \<Rightarrow> int \<Rightarrow> ('h, bytes \<times> nfs_err option) act" where
  "share_ReadAt h n len off =
     (if \<not> isReg n then give ([], Some ErrInval)
      else
        doing (host_read [path_of n] (h_ReadAt h (path_of n) off len)) (\<lambda>r.
        case r of
          Inl e \<Rightarrow> give ([], Some (mapErr e))
        | Inr (got, err) \<Rightarrow> give (got, map_option mapErr err)))"

definition share_Readlink :: "'h host \<Rightarrow> snode \<Rightarrow> ('h, bytes) act" where
  "share_Readlink h n =
     (if \<not> isLink n then fail_with ErrInval
      else doing (host_read [path_of n] (h_Readlink h (path_of n))) checked)"

section \<open>Model: changing\<close>

definition ModeSetgid :: u32 where "ModeSetgid = 0x400000"
definition ModeSticky :: u32 where "ModeSticky = 0x100000"

definition fileMode :: "u32 \<Rightarrow> u32" where
  "fileMode m =
     (let mode = m AND 0x1ff;
          mode = (if m AND 0x400 \<noteq> 0 then mode OR ModeSetgid else mode)
      in if m AND 0x200 \<noteq> 0 then mode OR ModeSticky else mode)"

definition clearSetuid :: "'h host \<Rightarrow> snode \<Rightarrow> ('h, unit) act" where
  "clearSetuid h n =
     (let raw = sn_raw (n_data n);
          strip = (if raw AND 0x8 \<noteq> 0 then 0x800 OR 0x400 else 0x800) in
      if raw AND strip \<noteq> 0 then
        doing (host_call [path_of n] (h_Chmod h (path_of n) (fileMode (raw AND NOT strip)))) (\<lambda>_. give ())
      else give ())"

definition set_size :: "'h host \<Rightarrow> snode \<Rightarrow> u64 \<Rightarrow> ('h, unit) act" where
  "set_size h n sz =
     (if isDir n then fail_with ErrIsDir
      else if \<not> isReg n then fail_with ErrInval
      else
        doing (host_call [path_of n] (h_Truncate h (path_of n) (min (uint sz) (2 ^ 63 - 1)))) (\<lambda>e.
        doing (check_err e) (\<lambda>_. clearSetuid h n)))"

definition share_SetAttr :: "'h host \<Rightarrow> snode \<Rightarrow> SetAttr \<Rightarrow> ('h, unit) act" where
  "share_SetAttr h n a =
     doing (case sa_Size a of None \<Rightarrow> give () | Some sz \<Rightarrow> set_size h n sz) (\<lambda>_.
     if isLink n then give ()
     else
       doing (case sa_Mode a of
                None \<Rightarrow> give ()
              | Some m \<Rightarrow> doing (host_call [path_of n] (h_Chmod h (path_of n) (fileMode m))) check_err) (\<lambda>_.
       if sa_Atime a \<noteq> None \<or> sa_Mtime a \<noteq> None
       then doing (host_call [path_of n] (h_Chtimes h (path_of n) (sa_Atime a) (sa_Mtime a))) check_err
       else give ()))"

definition share_WriteAt :: "'h host \<Rightarrow> snode \<Rightarrow> bytes \<Rightarrow> int \<Rightarrow> ('h, unit) act" where
  "share_WriteAt h n p off =
     (if \<not> isReg n then fail_with ErrInval
      else
        doing (host_call [path_of n] (h_WriteAt h (path_of n) p off)) (\<lambda>e.
        doing (check_err e) (\<lambda>_. clearSetuid h n)))"

definition share_newEntry :: "snode \<Rightarrow> bytes \<Rightarrow> ('h, bytes) act" where
  "share_newEntry dir name =
     doing (ownDir dir) (\<lambda>d s.
       case checkName s name of
         Some e \<Rightarrow> fail_with e s
       | None \<Rightarrow> give (share_join (path_of d) name) s)"

definition verfTimes :: "bytes \<Rightarrow> gotime \<times> gotime" where
  "verfTimes verf =
     (\<lparr>t_Unix = uint (word_at verf 0), t_Nanosecond = 0\<rparr>, \<lparr>t_Unix = uint (word_at verf 4), t_Nanosecond = 0\<rparr>)"

definition retransmitted :: "'h host \<Rightarrow> bytes \<Rightarrow> bytes \<Rightarrow> ('h, snode) act" where
  "retransmitted h rel verf =
     doing (statNode h rel) (\<lambda>n.
     doing (host_read [rel] (h_Lstat h rel)) (\<lambda>r.
     doing (checked r) (\<lambda>st.
     let (at, mt) = verfTimes verf in
     if isReg n \<and> st_atime st = at \<and> st_mtime st = mt then give n else fail_with ErrExist)))"

definition finish_create :: "'h host \<Rightarrow> bytes \<Rightarrow> SetAttr \<Rightarrow> ('h, snode) act" where
  "finish_create h rel a =
     doing (statNode h rel) (\<lambda>n. doing (share_SetAttr h n a) (\<lambda>_. statNode h rel))"

definition create_file :: "'h host \<Rightarrow> bytes \<Rightarrow> CreateHow \<Rightarrow> SetAttr \<Rightarrow> bytes \<Rightarrow> ('h, snode) act" where
  "create_file h rel how a verf =
     (let perm = (case sa_Mode a of None \<Rightarrow> 0x1a4 | Some m \<Rightarrow> m);
          a' = (if how = Exclusive
                then \<lparr>sa_Mode = None, sa_Size = None, sa_Atime = Some (fst (verfTimes verf)), sa_Mtime = Some (snd (verfTimes verf))\<rparr>
                else a) in
      doing (host_call [rel] (h_Create h rel (how \<noteq> Unchecked) (perm AND 0x1ff))) (\<lambda>e.
      case e of
        Some err \<Rightarrow> if how = Exclusive \<and> is_exist err then retransmitted h rel verf else fail_with (mapErr err)
      | None \<Rightarrow> finish_create h rel (a'\<lparr>sa_Mode := Some perm\<rparr>)))"

definition share_Create :: "'h host \<Rightarrow> snode \<Rightarrow> bytes \<Rightarrow> CreateHow \<Rightarrow> SetAttr \<Rightarrow> bytes \<Rightarrow> ('h, snode) act" where
  "share_Create h dir name how a verf =
     doing (share_newEntry dir name) (\<lambda>rel s.
       if how = Unchecked then
         (case statNode h rel s of
            (Ok n, s') \<Rightarrow>
              if \<not> isReg n then fail_with ErrExist s'
              else doing (share_SetAttr h n a) (\<lambda>_. give n) s'
          | (_, s') \<Rightarrow> create_file h rel how a verf s')
       else create_file h rel how a verf s)"

definition share_Mkdir :: "'h host \<Rightarrow> snode \<Rightarrow> bytes \<Rightarrow> SetAttr \<Rightarrow> ('h, snode) act" where
  "share_Mkdir h dir name a =
     doing (share_newEntry dir name) (\<lambda>rel.
     doing (host_call [rel] (h_Mkdir h rel 0x1ed)) (\<lambda>e.
     doing (check_err e) (\<lambda>_. finish_create h rel (a\<lparr>sa_Size := None\<rparr>))))"

definition share_Symlink :: "'h host \<Rightarrow> snode \<Rightarrow> bytes \<Rightarrow> bytes \<Rightarrow> ('h, snode) act" where
  "share_Symlink h dir name target =
     doing (share_newEntry dir name) (\<lambda>rel.
     if target = [] \<or> 0 \<in> set target then fail_with ErrInval
     else
       doing (host_call [rel] (h_Symlink h target rel)) (\<lambda>e.
       doing (check_err e) (\<lambda>_. statNode h rel)))"

definition share_forget :: "bytes \<Rightarrow> ('h, unit) act" where
  "share_forget rel s =
     (case sf_table s of
        Some t \<Rightarrow> give () (s\<lparr>sf_table := Some (tab_remove rel t)\<rparr>)
      | None \<Rightarrow>
          give () (s\<lparr>sf_cache := (\<lambda>k. case sf_cache s k of None \<Rightarrow> None | Some p \<Rightarrow> if under p rel then None else Some p)\<rparr>))"

definition share_moved :: "bytes \<Rightarrow> bytes \<Rightarrow> ('h, unit) act" where
  "share_moved from to s =
     (case sf_table s of
        Some t \<Rightarrow> give () (s\<lparr>sf_table := Some (tab_move from to t)\<rparr>)
      | None \<Rightarrow>
          give () (s\<lparr>sf_cache := (\<lambda>k. case sf_cache s k of None \<Rightarrow> None
            | Some p \<Rightarrow> if under p from then Some (to @ drop (length from) p) else Some p)\<rparr>))"

definition share_remove :: "'h host \<Rightarrow> snode \<Rightarrow> bytes \<Rightarrow> bool \<Rightarrow> ('h, unit) act" where
  "share_remove h dir name wantDir =
     doing (share_newEntry dir name) (\<lambda>rel.
     doing (statNode h rel) (\<lambda>n.
     if wantDir \<and> \<not> isDir n then fail_with ErrNotDir
     else if \<not> wantDir \<and> isDir n then fail_with ErrIsDir
     else
       doing (host_call [rel] (h_Remove h rel)) (\<lambda>e.
       doing (check_err e) (\<lambda>_. share_forget rel))))"

definition share_Rename :: "'h host \<Rightarrow> snode \<Rightarrow> bytes \<Rightarrow> snode \<Rightarrow> bytes \<Rightarrow> ('h, unit) act" where
  "share_Rename h fromDir fromName toDir toName =
     doing (share_newEntry fromDir fromName) (\<lambda>from.
     doing (share_newEntry toDir toName) (\<lambda>to.
     doing (host_call [from, to] (h_Rename h from to)) (\<lambda>e.
     doing (check_err e) (\<lambda>_.
     if from = to then give ()
     else doing (share_forget to) (\<lambda>_. share_moved from to)))))"

definition share_Space :: "'h host \<Rightarrow> ('h, Space) act" where
  "share_Space h s = checked (h_Space h (sf_host s)) s"

definition share_Exports :: "'h share \<Rightarrow> bytes list" where
  "share_Exports s = [slash # sf_name s]"

section \<open>Model: opening a share\<close>

record share_opts =
  so_PathTable :: bytes
  so_TableFallback :: bytes
  so_NoBirthTime :: bool
  so_AttrFilter :: "(Attr \<Rightarrow> Attr) option"

text \<open>What the host answers while a share is opened: stat of the directory (is it a directory), OpenRoot and
  openSys, whether the filesystem keeps birth times, and the lines of a table file with whether it can be written.\<close>

record open_env =
  oe_stat :: "host_err + bool"
  oe_root :: "host_err option"
  oe_sys :: "host_err option"
  oe_birth :: bool
  oe_table :: "bytes \<Rightarrow> bool \<times> tline list"
  oe_inodesUsable :: bool
  oe_badNameChars :: bytes

datatype open_err = BadShareName | OpenHost host_err | ShareNotDir | NeedsTable | NoBirthTimes | BadTable

definition table_choice :: "share_opts \<Rightarrow> open_env \<Rightarrow> bytes option" where
  "table_choice opts env =
     (if so_PathTable opts = [] \<and> (so_NoBirthTime opts \<or> \<not> oe_birth env) then
        if so_TableFallback opts = [] then None else Some (so_TableFallback opts)
      else Some (so_PathTable opts))"

definition share_Open :: "bytes \<Rightarrow> share_opts \<Rightarrow> open_env \<Rightarrow> 'h \<Rightarrow> (open_err, 'h share) outcome" where
  "share_Open name opts env x =
     (if name = [] \<or> slash \<in> set name \<or> 0x5c \<in> set name then Err BadShareName
      else
        case oe_stat env of
          Inl e \<Rightarrow> Err (OpenHost e)
        | Inr isdir \<Rightarrow>
            if \<not> isdir then Err ShareNotDir
            else if so_PathTable opts = [] \<and> \<not> oe_inodesUsable env then Err NeedsTable
            else
              case oe_root env of
                Some e \<Rightarrow> Err (OpenHost e)
              | None \<Rightarrow>
                  (case oe_sys env of
                     Some e \<Rightarrow> Err (OpenHost e)
                   | None \<Rightarrow>
                       let s = \<lparr>sf_name = name, sf_exportID = fnv32a name, sf_badNameChars = oe_badNameChars env,
                                sf_filter = so_AttrFilter opts, sf_host = x, sf_table = None, sf_cache = Map.empty, sf_log = []\<rparr> in
                       case table_choice opts env of
                         None \<Rightarrow> Err NoBirthTimes
                       | Some table \<Rightarrow>
                           if table = [] then Ok s
                           else
                             case oe_table env table of
                               (ok, ls) \<Rightarrow>
                                 (case openPathTable ok ls of
                                    None \<Rightarrow> Err BadTable
                                  | Some t \<Rightarrow> Ok (s\<lparr>sf_table := Some t\<rparr>))))"

section \<open>Confined paths\<close>

text \<open>The paths that stay in the share: its root, or ordinary elements separated by slashes.\<close>

definition inside :: "bytes \<Rightarrow> bool" where
  "inside p \<longleftrightarrow> p = [dot] \<or> (list_all plain_part (split_on slash p) \<and> 0 \<notin> set p)"

lemma split_on_append: "split_on c (a @ c # b) = split_on c a @ split_on c b"
proof (induction a)
  case (Cons x a)
  then show ?case using split_on_not_Nil [of c a] by (cases "split_on c a") auto
qed simp

lemma split_on_plain: "c \<notin> set a \<Longrightarrow> split_on c a = [a]"
  by (induction a) auto

definition plain_name :: "bytes \<Rightarrow> bool" where
  "plain_name name \<longleftrightarrow> plain_part name \<and> 0 \<notin> set name"

lemma checkName_plain: "checkName s name = None \<Longrightarrow> plain_name name"
  by (auto simp: checkName_def plain_name_def plain_part_def split: if_splits)

lemma inside_join:
  assumes "inside d" and "plain_name name"
  shows "inside (share_join d name)" and "share_join d name \<noteq> [dot]"
proof -
  have "slash \<noteq> dot" "slash \<noteq> 0" by (simp_all add: slash_def dot_def)
  with assms show "inside (share_join d name)" "share_join d name \<noteq> [dot]"
    by (auto simp: inside_def share_join_def plain_name_def plain_part_def split_on_append split_on_plain
        append_eq_Cons_conv)
qed

lemma inside_Dir:
  assumes "inside p"
  shows "inside (path_Dir p)"
proof (cases "p = [dot]")
  case True
  then show ?thesis by (simp add: path_Dir_def path_Clean_def IsAbs_def clean_step_def inside_def dot_def slash_def)
next
  case False
  then have plain: "\<forall>e \<in> set (split_on slash p). plain_part e" and nul: "0 \<notin> set p"
    using assms by (simp_all add: inside_def list_all_iff)
  obtain ps b where ps: "split_on slash p = ps @ [b]" using split_on_not_Nil [of slash p] by (metis append_butlast_last_id)
  have join: "join_with [slash] (ps @ [b]) = p" using join_split [of slash p] ps by simp
  have "set (join_with [slash] ps) \<subseteq> set p" if "ps \<noteq> []"
    using join join_with_append [of ps "[b]" slash] that by auto
  moreover have "split_on slash (join_with [slash] ps) = ps" if "ps \<noteq> []"
    using that plain ps by (intro split_join) (auto simp: plain_part_def)
  ultimately show ?thesis
    using path_Dir_parts(2) [OF plain [unfolded ps] ps] plain nul ps by (auto simp: inside_def list_all_iff)
qed

lemma inside_moved:
  assumes "inside p" and "inside a" and "a \<noteq> [dot]" and "inside b" and "b \<noteq> [dot]" and "under p a"
  shows "inside (b @ drop (length a) p)"
proof (cases "p = a")
  case False
  then obtain r where r: "p = a @ slash # r" using assms(6) by (auto simp: under_def prefix_def)
  have "p \<noteq> [dot]" using r by (cases a) (auto simp: dot_def slash_def)
  with assms r show ?thesis by (auto simp: inside_def split_on_append)
qed (use assms in simp)

section \<open>Every operation stays inside\<close>

definition table_inside :: "pathTable \<Rightarrow> bool" where
  "table_inside t \<longleftrightarrow> (\<forall>(k, p) \<in> set (pt_byID (pf_tab t)). inside p)"

definition share_ok :: "'h share \<Rightarrow> bool" where
  "share_ok s \<longleftrightarrow>
     list_all inside (sf_log s) \<and> sf_filter s = None \<and>
     (\<forall>t. sf_table s = Some t \<longrightarrow> table_inside t) \<and> (\<forall>k p. sf_cache s k = Some p \<longrightarrow> inside p)"

definition node_ok :: "snode \<Rightarrow> bool" where
  "node_ok n \<longleftrightarrow> inside (path_of n) \<and> n_Mode n AND 0x800 = 0"

text \<open>From a good share the action reaches a good share, and its result is good.\<close>

definition secures :: "('a \<Rightarrow> bool) \<Rightarrow> ('h, 'a) act \<Rightarrow> bool" where
  "secures Q m \<longleftrightarrow> (\<forall>s. share_ok s \<longrightarrow> share_ok (snd (m s)) \<and> (\<forall>a. fst (m s) = Ok a \<longrightarrow> Q a))"

named_theorems confined

lemma secures_doing:
  assumes "secures Q m" and "\<And>a. Q a \<Longrightarrow> secures R (f a)"
  shows "secures R (doing m f)"
proof -
  have "share_ok (snd (doing m f s)) \<and> (\<forall>a. fst (doing m f s) = Ok a \<longrightarrow> R a)" if "share_ok s" for s
  proof -
    have "share_ok (snd (m s))" "\<forall>a. fst (m s) = Ok a \<longrightarrow> Q a" using assms(1) that by (simp_all add: secures_def)
    then show ?thesis
      using assms(2) by (cases "m s"; cases "fst (m s)") (auto simp: doing_def secures_def)
  qed
  then show ?thesis by (simp add: secures_def)
qed

lemma secures_give [confined]: "Q a \<Longrightarrow> secures Q (give a)"
  by (simp add: secures_def give_def)

lemma secures_fail [confined]: "secures Q (fail_with e)"
  by (simp add: secures_def fail_with_def)

lemma share_ok_touch: "share_ok (touch ps s) \<longleftrightarrow> share_ok s \<and> list_all inside ps"
  by (auto simp: share_ok_def touch_def)

lemma secures_read: "list_all inside ps \<Longrightarrow> secures (\<lambda>_. True) (host_read ps f)"
  by (simp add: secures_def host_read_def share_ok_touch)

lemma secures_call: "list_all inside ps \<Longrightarrow> secures (\<lambda>_. True) (host_call ps f)"
  by (auto simp: secures_def host_call_def share_ok_touch share_ok_def touch_def split: prod.split)

lemma secures_checked: "secures (\<lambda>_. True) (checked r)"
  by (auto simp: checked_def split: sum.split intro: secures_give secures_fail)

lemma secures_check_err: "secures (\<lambda>_. True) (check_err e)"
  by (auto simp: check_err_def split: option.split intro: secures_give secures_fail)

lemma secures_mono: "secures Q m \<Longrightarrow> (\<And>a. Q a \<Longrightarrow> R a) \<Longrightarrow> secures R m"
  by (auto simp: secures_def)

lemma secures_cond [confined]: "(b \<Longrightarrow> secures Q m) \<Longrightarrow> (\<not> b \<Longrightarrow> secures Q m') \<Longrightarrow> secures Q (if b then m else m')"
  by simp

lemma securesD: "secures Q m \<Longrightarrow> share_ok s \<Longrightarrow> m s = (r, s') \<Longrightarrow> share_ok s' \<and> (\<forall>a. r = Ok a \<longrightarrow> Q a)"
  by (auto simp: secures_def)

lemmas secures_read_then [confined] = secures_doing [OF secures_read]
  and secures_call_then [confined] = secures_doing [OF secures_call]
  and secures_checked_then [confined] = secures_doing [OF secures_checked]
  and secures_check_err_then [confined] = secures_doing [OF secures_check_err]

lemma table_inside_set: "table_inside t \<Longrightarrow> inside p \<Longrightarrow> table_inside (t\<lparr>pf_tab := tab_set k p (pf_tab t)\<rparr>)"
  using set_map_put_subset [of k p "pt_byID (pf_tab t)"] by (auto simp: table_inside_def tab_set_def Let_def)

lemma table_inside_write [simp]: "table_inside (write_line l t) = table_inside t" "pf_tab (write_line l t) = pf_tab t"
  by (simp_all add: write_line_def table_inside_def)

lemma table_inside_idFor: "table_inside t \<Longrightarrow> inside p \<Longrightarrow> idFor p t = (i, t') \<Longrightarrow> table_inside t'"
  using table_inside_set [of "write_line (TSet (pt_next (pf_tab t)) p) t" p]
  by (auto simp: idFor_def Let_def split: option.splits if_splits)

lemma table_inside_remove: "table_inside t \<Longrightarrow> table_inside (tab_remove p t)"
proof -
  have "table_inside (fold (remove_entry p) es t)" if "table_inside t" for es t
    using that
  proof (induction es arbitrary: t)
    case (Cons e es)
    have "table_inside (remove_entry p e t)"
      using Cons.prems set_map_del [of "fst e" "pt_byID (pf_tab t)"]
      by (auto simp: remove_entry_def table_inside_def tab_del_def)
    then show ?case using Cons.IH by simp
  qed simp
  then show "table_inside t \<Longrightarrow> table_inside (tab_remove p t)" by (simp add: tab_remove_def)
qed

lemma table_inside_move:
  assumes "table_inside t" and "inside a" and "a \<noteq> [dot]" and "inside b" and "b \<noteq> [dot]"
  shows "table_inside (tab_move a b t)"
proof -
  have "table_inside (fold (move_entry a b) es t)" if "table_inside t" "\<forall>e \<in> set es. inside (snd e)" for es t
    using that
  proof (induction es arbitrary: t)
    case (Cons e es)
    have "table_inside (move_entry a b e t)"
      using Cons.prems inside_moved [OF _ assms(2-5), of "snd e"] table_inside_set [of "write_line l t" for l]
      by (simp add: move_entry_def Let_def)
    then show ?case using Cons by simp
  qed simp
  moreover have "\<forall>e \<in> set (pt_byID (pf_tab t)). inside (snd e)" using assms(1) by (auto simp: table_inside_def)
  ultimately show ?thesis using assms(1) by (simp add: tab_move_def)
qed

lemma share_mode: "(m AND - 2049) AND 2048 = (0::u32)" "((m AND - 2049) OR 511) AND 2048 = (0::u32)"
  by (simp_all add: and.assoc bit.conj_disj_distrib2)

lemma node_for_ok: "sf_filter s = None \<Longrightarrow> inside rel \<Longrightarrow> node_ok (node_for s rel st k)"
  by (simp add: node_ok_def node_for_def node_attr_def Let_def share_mode)

lemma secures_describe: "inside rel \<Longrightarrow> secures node_ok (describe rel st)"
  unfolding secures_def describe_def
  by (auto simp: share_ok_def node_for_ok Let_def table_inside_idFor split: option.splits prod.splits)

lemma secures_statNode [confined]: "inside rel \<Longrightarrow> secures node_ok (statNode h rel)"
  unfolding statNode_def by (intro confined secures_describe) simp_all

lemmas secures_statNode_then [confined] = secures_doing [OF secures_statNode]

text \<open>The interface's promise on what it lists: ordinary names.\<close>

definition lists_plain :: "'h host \<Rightarrow> bool" where
  "lists_plain h \<longleftrightarrow> (\<forall>dir st ents err e. h_ReadDir h dir st = Inr (ents, err) \<and> e \<in> set ents \<longrightarrow> plain_name (he_Name e))"

lemma secures_ownDir: "node_ok n \<Longrightarrow> secures node_ok (ownDir n)"
  unfolding ownDir_def by (intro confined)

lemma secures_newEntry: "node_ok n \<Longrightarrow> secures (\<lambda>rel. inside rel \<and> rel \<noteq> [dot]) (share_newEntry n name)"
  unfolding share_newEntry_def
proof (rule secures_doing [OF secures_ownDir])
  fix d
  assume "node_ok d"
  then show "secures (\<lambda>rel. inside rel \<and> rel \<noteq> [dot])
      (\<lambda>s. case checkName s name of Some e \<Rightarrow> fail_with e s | None \<Rightarrow> give (share_join (path_of d) name) s)"
    by (auto simp: secures_def fail_with_def give_def node_ok_def split: option.split dest!: checkName_plain
        dest: inside_join)
qed

lemmas secures_newEntry_then [confined] = secures_doing [OF secures_newEntry]
  and secures_ownDir_then = secures_doing [OF secures_ownDir]

text \<open>An action that looks at the state first.\<close>

lemma securesI: "(\<And>s. secures Q (f s)) \<Longrightarrow> secures Q (\<lambda>s. f s s)"
  by (simp add: secures_def)

lemma secures_Lookup [confined]: "node_ok d \<Longrightarrow> secures node_ok (share_Lookup h d name)"
  unfolding share_Lookup_def
proof (rule secures_ownDir_then)
  fix d
  assume d: "node_ok d"
  have "secures node_ok (\<lambda>s'. if name = [dot] then statNode h (path_of d) s'
      else if name = [dot, dot] then statNode h (path_Dir (path_of d)) s'
      else if checkName s name \<noteq> None then fail_with ErrNotFound s'
      else statNode h (share_join (path_of d) name) s')" for s :: "'a share"
    using d inside_Dir inside_join(1) [of "path_of d" name] checkName_plain [of s name]
      secures_statNode [of _ h] secures_fail [of node_ok ErrNotFound]
    by (cases "name = [dot]"; cases "name = [dot, dot]"; cases "checkName s name") (auto simp: node_ok_def)
  then show "secures node_ok (\<lambda>s. if name = [dot] then statNode h (path_of d) s
      else if name = [dot, dot] then statNode h (path_Dir (path_of d)) s
      else if checkName s name \<noteq> None then fail_with ErrNotFound s
      else statNode h (share_join (path_of d) name) s)"
    by (rule securesI)
qed

lemma secures_mount_parts: "node_ok n \<Longrightarrow> secures node_ok (mount_parts h parts n)"
proof (induction parts arbitrary: n)
  case (Cons part parts)
  have "secures node_ok (\<lambda>s'. if checkName s part \<noteq> None then fail_with ErrNotFound s'
        else if \<not> isDir n then fail_with ErrNotDir s'
        else doing (statNode h (share_join (path_of n) part)) (mount_parts h parts) s')" for s :: "'a share"
    using Cons inside_join(1) [of "path_of n" part] checkName_plain [of s part] secures_fail [of node_ok]
      secures_statNode_then [of "share_join (path_of n) part" node_ok "mount_parts h parts" h]
    by (cases "checkName s part"; cases "isDir n") (auto simp: node_ok_def)
  from securesI [OF this] show ?case using Cons by simp
qed (simp add: secures_give)

lemma secures_MountRoot [confined]: "secures node_ok (share_MountRoot h p)"
proof -
  have walk: "secures node_ok (doing (statNode h [dot]) (mount_parts h ps))" for ps
    by (rule secures_statNode_then [OF _ secures_mount_parts]) (simp_all add: inside_def)
  have "secures node_ok (\<lambda>s'. let parts = split_on slash (trim_byte slash p) in
      if hd parts \<noteq> sf_name s then fail_with ErrNotFound s'
      else doing (statNode h [dot]) (mount_parts h (tl parts)) s')" for s :: "'a share"
    using secures_fail [of node_ok ErrNotFound] walk
    by (cases "hd (split_on slash (trim_byte slash p)) \<noteq> sf_name s") (simp_all add: Let_def inside_def)
  then show ?thesis unfolding share_MountRoot_def [abs_def] by (rule securesI)
qed

lemma secures_ReadAt [confined]: "node_ok n \<Longrightarrow> secures (\<lambda>_. True) (share_ReadAt h n len off)"
  unfolding share_ReadAt_def by (intro confined) (auto simp: node_ok_def split: sum.split intro: secures_give)

lemma secures_Readlink [confined]: "node_ok n \<Longrightarrow> secures (\<lambda>_. True) (share_Readlink h n)"
  unfolding share_Readlink_def by (intro confined secures_checked) (auto simp: node_ok_def)

lemma secures_clearSetuid [confined]: "node_ok n \<Longrightarrow> secures (\<lambda>_. True) (clearSetuid h n)"
  unfolding clearSetuid_def Let_def by (intro confined) (auto simp: node_ok_def)

lemma secures_set_size: "node_ok n \<Longrightarrow> secures (\<lambda>_. True) (set_size h n sz)"
  unfolding set_size_def by (intro confined) (auto simp: node_ok_def)

lemma secures_SetAttr [confined]: "node_ok n \<Longrightarrow> secures (\<lambda>_. True) (share_SetAttr h n a)"
proof -
  assume n: "node_ok n"
  then have path: "list_all inside [path_of n]" by (simp add: node_ok_def)
  have sz: "secures (\<lambda>_. True) (case sa_Size a of None \<Rightarrow> give () | Some sz \<Rightarrow> set_size h n sz)"
    using n by (auto split: option.split intro: secures_give secures_set_size)
  have mode: "secures (\<lambda>_. True) (case sa_Mode a of None \<Rightarrow> give ()
      | Some m \<Rightarrow> doing (host_call [path_of n] (h_Chmod h (path_of n) (fileMode m))) check_err)"
    using path by (auto split: option.split intro!: confined secures_check_err)
  show ?thesis
    unfolding share_SetAttr_def
    by (intro secures_doing [OF sz] secures_cond secures_give secures_doing [OF mode] secures_call_then [OF path]
        secures_check_err TrueI)
qed

lemma secures_WriteAt [confined]: "node_ok n \<Longrightarrow> secures (\<lambda>_. True) (share_WriteAt h n p off)"
  unfolding share_WriteAt_def by (intro confined) (auto simp: node_ok_def)

lemma secures_retransmitted: "inside rel \<Longrightarrow> secures node_ok (retransmitted h rel verf)"
  unfolding retransmitted_def by (intro confined) (auto simp: Let_def split: prod.split intro: confined)

lemma secures_finish_create [confined]: "inside rel \<Longrightarrow> secures node_ok (finish_create h rel a)"
  unfolding finish_create_def by (intro confined secures_doing [OF secures_SetAttr])

lemma secures_create_file: "inside rel \<Longrightarrow> secures node_ok (create_file h rel how a verf)"
  unfolding create_file_def Let_def
  by (intro secures_call_then) (auto split: option.split intro: secures_retransmitted secures_finish_create secures_fail)

text \<open>An action that ignores how a first one failed.\<close>

lemma secures_try:
  assumes "secures Q m" and "\<And>a. Q a \<Longrightarrow> secures R (f a)" and "secures R g"
  shows "secures R (\<lambda>s. case m s of (Ok a, s') \<Rightarrow> f a s' | (_, s') \<Rightarrow> g s')"
  unfolding secures_def
proof (intro allI impI)
  fix s :: "'b share"
  assume s: "share_ok s"
  obtain r s' where m: "m s = (r, s')" by fastforce
  have "share_ok s' \<and> (\<forall>a. r = Ok a \<longrightarrow> Q a)" by (rule securesD [OF assms(1) s m])
  then show "share_ok (snd (case m s of (Ok a, s') \<Rightarrow> f a s' | (_, s') \<Rightarrow> g s')) \<and>
      (\<forall>a. fst (case m s of (Ok a, s') \<Rightarrow> f a s' | (_, s') \<Rightarrow> g s') = Ok a \<longrightarrow> R a)"
    using assms(2,3) by (cases r) (auto simp: m secures_def)
qed

lemma secures_create_over:
  assumes "inside rel"
  shows "secures node_ok (\<lambda>s. case statNode h rel s of
      (Ok n, s') \<Rightarrow> if \<not> isReg n then fail_with ErrExist s' else doing (share_SetAttr h n a) (\<lambda>_. give n) s'
    | (_, s') \<Rightarrow> create_file h rel how a verf s')"
proof (rule secures_try [OF secures_statNode [OF assms] _ secures_create_file [OF assms]])
  fix n
  assume n: "node_ok n"
  then have "secures node_ok (doing (share_SetAttr h n a) (\<lambda>_. give n))"
    by (intro secures_doing [OF secures_SetAttr] secures_give)
  then show "secures node_ok
      (\<lambda>s. if \<not> isReg n then fail_with ErrExist s else doing (share_SetAttr h n a) (\<lambda>_. give n) s)"
    using secures_fail [of node_ok ErrExist] by (cases "isReg n") simp_all
qed

lemma secures_Create [confined]: "node_ok d \<Longrightarrow> secures node_ok (share_Create h d name how a verf)"
  unfolding share_Create_def
proof (rule secures_newEntry_then)
  fix rel
  assume rel: "inside rel \<and> rel \<noteq> [dot]"
  then show "secures node_ok (\<lambda>s. if how = Unchecked then
      (case statNode h rel s of
         (Ok n, s') \<Rightarrow> if \<not> isReg n then fail_with ErrExist s' else doing (share_SetAttr h n a) (\<lambda>_. give n) s'
       | (_, s') \<Rightarrow> create_file h rel how a verf s')
      else create_file h rel how a verf s)"
    using secures_create_over [of rel h a how verf] secures_create_file [of rel h how a verf]
    by (cases "how = Unchecked") simp_all
qed

lemma secures_Mkdir [confined]: "node_ok d \<Longrightarrow> secures node_ok (share_Mkdir h d name a)"
  unfolding share_Mkdir_def by (intro confined) auto

lemma secures_Symlink [confined]: "node_ok d \<Longrightarrow> secures node_ok (share_Symlink h d name target)"
  unfolding share_Symlink_def by (intro confined) auto

lemma secures_forget: "secures (\<lambda>_. True) (share_forget rel)"
  by (auto simp: secures_def share_forget_def give_def share_ok_def table_inside_remove split: option.splits if_splits)

lemma secures_moved:
  assumes "inside a" and "a \<noteq> [dot]" and "inside b" and "b \<noteq> [dot]"
  shows "secures (\<lambda>_. True) (share_moved a b)"
proof -
  have "share_ok (snd (share_moved a b s))" if "share_ok s" for s :: "'a share"
    using that inside_moved [OF _ assms] table_inside_move [OF _ assms]
    by (auto simp: share_moved_def give_def share_ok_def split: option.splits if_splits)
  then show ?thesis by (simp add: secures_def)
qed

lemma secures_remove [confined]: "node_ok d \<Longrightarrow> secures (\<lambda>_. True) (share_remove h d name wantDir)"
  unfolding share_remove_def by (intro confined secures_forget) auto

lemma secures_Rename [confined]:
  "node_ok d \<Longrightarrow> node_ok d' \<Longrightarrow> secures (\<lambda>_. True) (share_Rename h d name d' name')"
  unfolding share_Rename_def
  by (intro confined secures_doing [OF secures_forget] secures_moved) auto

end
