(* ===== verification/Sharefs_Calls.thy ===== *)
theory Sharefs_Calls
  imports Sharefs
begin

text \<open>
  What a client of a share can do: any sequence of calls of the share's methods on
  nodes it was given before, while others change the host directory as they like.
  It shows that no call leaves the share's directory and that filehandles name
  the file they were issued for.
\<close>

section \<open>Model: calls of a share\<close>

datatype share_call =
    CMount bytes
  | CHandle bytes
  | CLookup snode bytes
  | CReadDir snode
  | CReadAt snode nat int
  | CReadlink snode
  | CSetAttr snode SetAttr
  | CWriteAt snode bytes int
  | CCreate snode bytes CreateHow SetAttr bytes
  | CMkdir snode bytes SetAttr
  | CSymlink snode bytes bytes
  | CRemove snode bytes bool
  | CRename snode bytes snode bytes

fun call_nodes :: "share_call \<Rightarrow> snode list" where
  "call_nodes (CMount p) = []"
| "call_nodes (CHandle fh) = []"
| "call_nodes (CLookup d nm) = [d]"
| "call_nodes (CReadDir d) = [d]"
| "call_nodes (CReadAt n len off) = [n]"
| "call_nodes (CReadlink n) = [n]"
| "call_nodes (CSetAttr n a) = [n]"
| "call_nodes (CWriteAt n p off) = [n]"
| "call_nodes (CCreate d nm how a verf) = [d]"
| "call_nodes (CMkdir d nm a) = [d]"
| "call_nodes (CSymlink d nm target) = [d]"
| "call_nodes (CRemove d nm dir) = [d]"
| "call_nodes (CRename d nm d' nm') = [d, d']"

definition nodes_only :: "('a \<Rightarrow> snode list) \<Rightarrow> ('h, 'a) act \<Rightarrow> ('h, snode list) act" where
  "nodes_only f m = doing m (\<lambda>a. give (f a))"

text \<open>The call, with the nodes it hands to the caller.\<close>

fun do_call :: "nat \<Rightarrow> 'h host \<Rightarrow> share_call \<Rightarrow> ('h, snode list) act" where
  "do_call fuel h (CMount p) = nodes_only (\<lambda>n. [n]) (share_MountRoot h p)"
| "do_call fuel h (CHandle fh) = nodes_only (\<lambda>n. [n]) (share_NodeByHandle fuel h fh)"
| "do_call fuel h (CLookup d nm) = nodes_only (\<lambda>n. [n]) (share_Lookup h d nm)"
| "do_call fuel h (CReadDir d) = nodes_only (map e_Node) (share_ReadDir h d)"
| "do_call fuel h (CReadAt n len off) = nodes_only (\<lambda>_. []) (share_ReadAt h n len off)"
| "do_call fuel h (CReadlink n) = nodes_only (\<lambda>_. []) (share_Readlink h n)"
| "do_call fuel h (CSetAttr n a) = nodes_only (\<lambda>_. []) (share_SetAttr h n a)"
| "do_call fuel h (CWriteAt n p off) = nodes_only (\<lambda>_. []) (share_WriteAt h n p off)"
| "do_call fuel h (CCreate d nm how a verf) = nodes_only (\<lambda>n. [n]) (share_Create h d nm how a verf)"
| "do_call fuel h (CMkdir d nm a) = nodes_only (\<lambda>n. [n]) (share_Mkdir h d nm a)"
| "do_call fuel h (CSymlink d nm target) = nodes_only (\<lambda>n. [n]) (share_Symlink h d nm target)"
| "do_call fuel h (CRemove d nm dir) = nodes_only (\<lambda>_. []) (share_remove h d nm dir)"
| "do_call fuel h (CRename d nm d' nm') = nodes_only (\<lambda>_. []) (share_Rename h d nm d' nm')"

definition new_nodes :: "(nfs_err, snode list) outcome \<Rightarrow> snode list" where
  "new_nodes r = (case r of Ok ns \<Rightarrow> ns | _ \<Rightarrow> [])"

inductive share_run :: "nat \<Rightarrow> 'h host \<Rightarrow> 'h share \<Rightarrow> 'h share \<Rightarrow> snode list \<Rightarrow> bool" for fuel h s0 where
  opened: "share_run fuel h s0 s0 []"
| called: "share_run fuel h s0 s known \<Longrightarrow> set (call_nodes c) \<subseteq> set known \<Longrightarrow> do_call fuel h c s = (r, s') \<Longrightarrow>
    share_run fuel h s0 s' (known @ new_nodes r)"
| others: "share_run fuel h s0 s known \<Longrightarrow> share_run fuel h s0 (s\<lparr>sf_host := x\<rparr>) known"

section \<open>Walking the host directory\<close>

lemma secures_nodes_only: "secures Q m \<Longrightarrow> (\<And>a. Q a \<Longrightarrow> list_all node_ok (f a)) \<Longrightarrow> secures (list_all node_ok) (nodes_only f m)"
  unfolding nodes_only_def by (erule secures_doing) (auto intro: secures_give)

definition found_ok :: "bytes list + snode \<Rightarrow> bool" where
  "found_ok r \<longleftrightarrow> (case r of Inl queue \<Rightarrow> list_all inside queue | Inr n \<Rightarrow> node_ok n)"

lemma secures_search_entries:
  assumes "inside dir" and "\<forall>e \<in> set es. plain_name (he_Name e)" and "list_all inside queue"
  shows "secures found_ok (search_entries h k dir es queue)"
  using assms(2,3)
proof (induction es arbitrary: queue)
  case Nil
  then show ?case by (auto simp: secures_def give_def found_ok_def)
next
  case (Cons e es)
  define rel where "rel = share_join dir (he_Name e)"
  define queue' where "queue' = (if he_IsDir e then queue @ [rel] else queue)"
  have rel: "inside rel" using inside_join [OF assms(1)] Cons.prems(1) by (simp add: rel_def)
  then have rest: "secures found_ok (search_entries h k dir es queue')"
    using Cons by (auto simp: queue'_def)
  have "secures found_ok (\<lambda>s. case statNode h rel s of
      (Ok n, s') \<Rightarrow> if sn_key (n_data n) = k then give (Inr n) s' else search_entries h k dir es queue' s'
    | (_, s') \<Rightarrow> search_entries h k dir es queue' s')"
  proof (rule secures_try [OF secures_statNode [OF rel] _ rest])
    fix n
    assume "node_ok n"
    then have "secures found_ok (give (Inr n))" by (intro secures_give) (simp add: found_ok_def)
    with rest show "secures found_ok (\<lambda>s. if sn_key (n_data n) = k then give (Inr n) s else search_entries h k dir es queue' s)"
      by (cases "sn_key (n_data n) = k") simp_all
  qed
  with rest show ?case
    unfolding search_entries.simps(2) [abs_def] Let_def rel_def [symmetric] queue'_def [symmetric]
    by (cases "he_inode e = Some (fst k, fst (snd k))") (simp_all only: simp_thms if_True if_False)
qed

lemma secures_search_queue:
  assumes "lists_plain h"
  shows "list_all inside queue \<Longrightarrow> secures node_ok (search_queue fuel h k queue)"
proof (induction fuel arbitrary: queue)
  case 0
  then show ?case by (cases queue) (auto simp: secures_def fail_with_def)
next
  case (Suc fuel)
  show ?case
  proof (cases queue)
    case Nil
    then show ?thesis by (auto simp: secures_def fail_with_def)
  next
    case (Cons dir rest)
    have dir: "inside dir" and rest: "list_all inside rest" using Suc.prems Cons by simp_all
    have step: "secures node_ok (doing (search_entries h k dir ents rest)
        (\<lambda>r. case r of Inr n \<Rightarrow> give n | Inl queue' \<Rightarrow> search_queue fuel h k queue'))"
      if "\<forall>e \<in> set ents. plain_name (he_Name e)" for ents
      by (rule secures_doing [OF secures_search_entries [OF dir that rest]])
        (auto simp: found_ok_def split: sum.splits intro: secures_give Suc.IH)
    have "share_ok (snd (search_queue (Suc fuel) h k (dir # rest) s)) \<and>
        (\<forall>n. fst (search_queue (Suc fuel) h k (dir # rest) s) = Ok n \<longrightarrow> node_ok n)" if s: "share_ok s" for s
    proof -
      have t: "share_ok (touch [dir] s)" using s dir by (simp add: share_ok_touch)
      show ?thesis
      proof (cases "h_ReadDir h dir (sf_host s)")
        case (Inl e)
        then show ?thesis using Suc.IH [OF rest] t by (simp add: secures_def)
      next
        case (Inr r)
        obtain ents err where r: "r = (ents, err)" by fastforce
        then have "\<forall>e \<in> set ents. plain_name (he_Name e)" using assms Inr by (auto simp: lists_plain_def)
        from step [OF this] t show ?thesis using Inr r by (simp add: secures_def)
      qed
    qed
    then show ?thesis by (simp add: secures_def Cons)
  qed
qed

lemma secures_same_key:
  assumes "inside rel" and "secures node_ok g"
  shows "secures node_ok (\<lambda>s. case statNode h rel s of
      (Ok n, s') \<Rightarrow> if sn_key (n_data n) = k then give n s' else g s' | (_, s') \<Rightarrow> g s')"
proof (rule secures_try [OF secures_statNode [OF assms(1)] _ assms(2)])
  fix n
  assume "node_ok n"
  then show "secures node_ok (\<lambda>s. if sn_key (n_data n) = k then give n s else g s)"
    using assms(2) secures_give [of node_ok n] by (cases "sn_key (n_data n) = k") simp_all
qed

lemma secures_search: "lists_plain h \<Longrightarrow> secures node_ok (share_search fuel h k)"
  unfolding share_search_def [abs_def]
  by (intro secures_same_key secures_search_queue) (simp_all add: inside_def)

lemma secures_stale:
  assumes "inside rel"
  shows "secures node_ok (\<lambda>s. case statNode h rel s of (Err ErrNotFound, s') \<Rightarrow> (Err ErrStale, s') | (r, s') \<Rightarrow> (r, s'))"
  unfolding secures_def
proof (intro allI impI)
  fix s :: "'a share"
  assume s: "share_ok s"
  obtain r s' where m: "statNode h rel s = (r, s')" by fastforce
  from securesD [OF secures_statNode [OF assms] s m]
  show "share_ok (snd (case statNode h rel s of (Err ErrNotFound, s') \<Rightarrow> (Err ErrStale, s') | (r, s') \<Rightarrow> (r, s'))) \<and>
    (\<forall>a. fst (case statNode h rel s of (Err ErrNotFound, s') \<Rightarrow> (Err ErrStale, s') | (r, s') \<Rightarrow> (r, s')) = Ok a \<longrightarrow> node_ok a)"
    by (auto simp: m split: outcome.splits nfs_err.splits)
qed


lemma table_inside_path: "table_inside t \<Longrightarrow> tab_path i t = Some rel \<Longrightarrow> inside rel"
  by (auto simp: table_inside_def tab_path_def dest!: map_of_SomeD)

lemma secures_NodeByHandle:
  assumes "lists_plain h"
  shows "secures node_ok (share_NodeByHandle fuel h fh)"
  unfolding secures_def
proof (intro allI impI)
  fix s :: "'a share"
  assume s: "share_ok s"
  note search = secures_search [OF assms, of fuel "handle_key fh"]
  show "share_ok (snd (share_NodeByHandle fuel h fh s)) \<and>
      (\<forall>n. fst (share_NodeByHandle fuel h fh s) = Ok n \<longrightarrow> node_ok n)"
  proof (cases "sf_table s")
    case (Some t)
    then have t: "table_inside t" using s by (simp add: share_ok_def)
    show ?thesis
    proof (cases "tab_path (unat (fst (snd (handle_key fh)))) t")
      case None
      then show ?thesis using s Some by (simp add: share_NodeByHandle_def fail_with_def Let_def)
    next
      case (Some rel)
      then show ?thesis
        using s \<open>sf_table s = Some t\<close> secures_stale [OF table_inside_path [OF t Some], of h]
        by (simp add: share_NodeByHandle_def fail_with_def Let_def secures_def)
    qed
  next
    case None
    show ?thesis
    proof (cases "sf_cache s (handle_key fh)")
      case None
      then show ?thesis using s \<open>sf_table s = None\<close> search
        by (simp add: share_NodeByHandle_def fail_with_def Let_def secures_def)
    next
      case (Some rel)
      then have "inside rel" using s unfolding share_ok_def by blast
      from secures_same_key [where h = h and k = "handle_key fh", OF this search] show ?thesis
        using s \<open>sf_table s = None\<close> Some by (simp add: share_NodeByHandle_def fail_with_def Let_def secures_def)
    qed
  qed
qed

lemma secures_stat_entries:
  assumes "inside dir" and "\<forall>e \<in> set es. plain_name (he_Name e)"
  shows "secures (\<lambda>out. list_all node_ok (map e_Node out)) (stat_entries h dir es)"
  using assms(2)
proof (induction es)
  case Nil
  then show ?case by (auto simp: secures_def give_def)
next
  case (Cons e es)
  have rel: "inside (share_join dir (he_Name e))" using inside_join [OF assms(1)] Cons.prems by simp
  have rest: "secures (\<lambda>out. list_all node_ok (map e_Node out)) (stat_entries h dir es)" using Cons by simp
  then have "secures (\<lambda>out. list_all node_ok (map e_Node out)) (doing (stat_entries h dir es)
      (\<lambda>out. give (\<lparr>e_Name = he_Name e, e_Node = n, e_Cookie = cookie (he_Name e)\<rparr> # out)))" if "node_ok n" for n
    by (rule secures_doing) (auto intro!: secures_give simp: that)
  from secures_try [OF secures_statNode [OF rel] this rest] show ?case
    unfolding stat_entries.simps(2) [abs_def] .
qed

lemma secures_ReadDir:
  assumes "lists_plain h" and "node_ok d"
  shows "secures (\<lambda>out. list_all node_ok (map e_Node out)) (share_ReadDir h d)"
  unfolding secures_def
proof (intro allI impI)
  fix s :: "'a share"
  assume s: "share_ok s"
  have d: "inside (path_of d)" using assms(2) by (simp add: node_ok_def)
  define Q where "Q = (\<lambda>out :: share_node DirEntry list. list_all node_ok (map e_Node out))"
  have sorted: "Q out \<Longrightarrow> Q (sort_key e_Cookie (sort_key e_Name out))" for out by (simp add: Q_def list_all_iff)
  have listed: "secures Q (doing (stat_entries h (path_of d) (sort_key he_Name ents))
      (\<lambda>out. give (sort_key e_Cookie (sort_key e_Name out))))"
    if "h_ReadDir h (path_of d) (sf_host s) = Inr (ents, err)" for ents err
    using assms(1) that sorted
    by (intro secures_doing [OF secures_stat_entries [OF d]]) (auto simp: lists_plain_def Q_def intro!: secures_give)
  have t: "share_ok (touch [path_of d] s)" using s d by (simp add: share_ok_touch)
  show "share_ok (snd (share_ReadDir h d s)) \<and> (\<forall>out. fst (share_ReadDir h d s) = Ok out \<longrightarrow> list_all node_ok (map e_Node out))"
  proof (cases "isDir d")
    case True
    then have eq: "share_ReadDir h d s = (case h_ReadDir h (path_of d) (sf_host s) of
        Inl e \<Rightarrow> (Err (mapErr e), touch [path_of d] s)
      | Inr (ents, err) \<Rightarrow> doing (check_err err) (\<lambda>_. doing (stat_entries h (path_of d) (sort_key he_Name ents))
          (\<lambda>out. give (sort_key e_Cookie (sort_key e_Name out)))) (touch [path_of d] s))"
      by (simp add: share_ReadDir_def ownDir_def doing_def give_def host_read_def checked_def fail_with_def split: sum.split)
    show ?thesis
    proof (cases "h_ReadDir h (path_of d) (sf_host s)")
      case (Inr r)
      obtain ents err where r: "r = (ents, err)" by fastforce
      have "secures Q (doing (check_err err) (\<lambda>_. doing (stat_entries h (path_of d) (sort_key he_Name ents))
          (\<lambda>out. give (sort_key e_Cookie (sort_key e_Name out)))))"
        using Inr r by (intro secures_check_err_then listed) simp
      with t show ?thesis unfolding eq using Inr r by (simp add: secures_def Q_def)
    qed (use t in \<open>simp add: eq\<close>)
  qed (use s in \<open>simp add: share_ReadDir_def ownDir_def doing_def fail_with_def\<close>)
qed

section \<open>Confinement\<close>

lemma secures_one: "secures node_ok m \<Longrightarrow> secures (list_all node_ok) (nodes_only (\<lambda>n. [n]) m)"
  by (rule secures_nodes_only) simp_all

lemma secures_none: "secures (\<lambda>_. True) m \<Longrightarrow> secures (list_all node_ok) (nodes_only (\<lambda>_. []) m)"
  by (rule secures_nodes_only) simp_all

lemma secures_do_call:
  assumes "lists_plain h" and "list_all node_ok (call_nodes c)"
  shows "secures (list_all node_ok) (do_call fuel h c)"
  using assms secures_NodeByHandle [OF assms(1)] secures_ReadDir [OF assms(1)]
  by (cases c) (auto intro!: secures_one secures_none confined intro: secures_nodes_only)

lemma share_run_ok:
  assumes "share_run fuel h s0 s known" and "lists_plain h" and "share_ok s0"
  shows "share_ok s \<and> list_all node_ok known"
  using assms(1)
proof (induction rule: share_run.induct)
  case (called s known c r s')
  then have "list_all node_ok (call_nodes c)" by (auto simp: list_all_iff)
  from securesD [OF secures_do_call [OF assms(2) this] _ called.hyps(3)] called.IH
  show ?case by (auto simp: new_nodes_def split: outcome.split)
qed (use assms(3) in \<open>simp_all add: share_ok_def\<close>)


section \<open>Filehandles\<close>

lemma handle_key_Handle: "handle_key (share_Handle s n) = sn_key (n_data n)"
proof -
  obtain dev ino gen where k: "sn_key (n_data n) = (dev, ino, gen)" by (cases "sn_key (n_data n)") auto
  let ?pre = "[share_format s, 0, 0, 0] @ put32 (sf_exportID s)"
  show ?thesis
    using get64_at [of ?pre dev "put64 ino @ put64 gen"] get64_at [of "?pre @ put64 dev" ino "put64 gen"]
      get64_at [of "?pre @ put64 dev @ put64 ino" gen "[]"]
    by (simp add: k share_Handle_def handle_key_def)
qed

lemma length_Handle [simp]: "length (share_Handle s n) = 32"
  by (simp add: share_Handle_def split: prod.split)

lemma Handle_head:
  "share_Handle s n ! 0 = share_format s" "share_Handle s n ! 1 = 0" "share_Handle s n ! 2 = 0" "share_Handle s n ! 3 = 0"
  "word_at (share_Handle s n) 4 = sf_exportID s"
  using word_at_put32 [of "[share_format s, 0, 0, 0]"] by (simp_all add: share_Handle_def numeral_eq_Suc split: prod.split)

lemma Handle_handle_key:
  assumes "length fh = 32" and "fh ! 0 = share_format s" and "fh ! 1 = 0" and "fh ! 2 = 0" and "fh ! 3 = 0"
    and "word_at fh 4 = sf_exportID s" and "sn_key (n_data n) = handle_key fh"
  shows "share_Handle s n = fh"
proof -
  have "fh = [fh ! 0, fh ! 1, fh ! 2, fh ! 3] @ drop 4 fh"
    using assms(1) by (cases fh; cases "tl fh"; cases "tl (tl fh)"; cases "tl (tl (tl fh))") auto
  also have "drop 4 fh = put32 (word_at fh 4) @ put32 (word_at fh 8) @ put32 (word_at fh 12) @ put32 (word_at fh 16) @
      put32 (word_at fh 20) @ put32 (word_at fh 24) @ put32 (word_at fh 28)"
    using assms(1) drop_word_at [of 4 fh] drop_word_at [of 8 fh] drop_word_at [of 12 fh] drop_word_at [of 16 fh]
      drop_word_at [of 20 fh] drop_word_at [of 24 fh] drop_word_at [of 28 fh] by simp
  finally show ?thesis
    using assms by (simp add: share_Handle_def handle_key_def put64_get64)
qed

text \<open>What no call of this section changes.\<close>

definition same_share :: "'h share \<Rightarrow> 'h share \<Rightarrow> bool" where
  "same_share s s' \<longleftrightarrow> sf_host s' = sf_host s \<and> sf_exportID s' = sf_exportID s \<and> sf_filter s' = sf_filter s \<and>
     (sf_table s' = None \<longleftrightarrow> sf_table s = None)"

lemma same_share_trans: "same_share s t \<Longrightarrow> same_share t u \<Longrightarrow> same_share s u"
  by (simp add: same_share_def)

lemma same_share_format: "same_share s s' \<Longrightarrow> share_format s' = share_format s"
  by (simp add: same_share_def share_format_def)

lemma same_share_touch: "same_share (touch ps s) s' \<longleftrightarrow> same_share s s'"
  by (simp add: same_share_def touch_def)

lemma statNode_cases:
  "statNode h rel s =
     (case h_Lstat h rel (sf_host s) of
        Inl e \<Rightarrow> (Err (mapErr e), touch [rel] s)
      | Inr st \<Rightarrow> describe rel st (touch [rel] s))"
  by (simp add: statNode_def doing_def host_read_def checked_def fail_with_def give_def split: sum.split)

lemma statNode_same: "statNode h rel s = (r, s') \<Longrightarrow> same_share s s'"
  by (auto simp: statNode_cases describe_def same_share_def touch_def Let_def
      split: sum.splits option.splits prod.splits)

lemma search_entries_found:
  "search_entries h k dir es queue s = (r, s') \<Longrightarrow>
   same_share s s' \<and> (\<forall>n. r = Ok (Inr n) \<longrightarrow> sn_key (n_data n) = k)"
proof (induction es arbitrary: queue s)
  case (Cons e es)
  let ?rel = "share_join dir (he_Name e)"
  define queue' where "queue' = (if he_IsDir e then queue @ [?rel] else queue)"
  obtain x t where st: "statNode h ?rel s = (x, t)" by fastforce
  have rest: "same_share s s' \<and> (\<forall>n. r = Ok (Inr n) \<longrightarrow> sn_key (n_data n) = k)"
    if "search_entries h k dir es queue' u = (r, s')" "u = s \<or> u = t" for u
    using Cons.IH [OF that(1)] that(2) same_share_trans [OF statNode_same [OF st]] by blast
  have found: "same_share s s' \<and> (\<forall>n. r = Ok (Inr n) \<longrightarrow> sn_key (n_data n) = k)"
    if "give (Inr m) t = (r, s')" "sn_key (n_data m) = k" for m
    using that statNode_same [OF st] by (auto simp: give_def)
  have "search_entries h k dir (e # es) queue s =
      (if he_inode e \<noteq> Some (fst k, fst (snd k)) then search_entries h k dir es queue' s
       else case x of Ok n \<Rightarrow> if sn_key (n_data n) = k then give (Inr n) t else search_entries h k dir es queue' t
            | _ \<Rightarrow> search_entries h k dir es queue' t)"
    unfolding search_entries.simps(2) Let_def st queue'_def [symmetric] by (simp split: outcome.split)
  then have step: "(r, s') = (if he_inode e \<noteq> Some (fst k, fst (snd k)) then search_entries h k dir es queue' s
       else case x of Ok n \<Rightarrow> if sn_key (n_data n) = k then give (Inr n) t else search_entries h k dir es queue' t
            | _ \<Rightarrow> search_entries h k dir es queue' t)"
    using Cons.prems by simp
  show ?case
  proof (cases "he_inode e = Some (fst k, fst (snd k))")
    case True
    with step consider "search_entries h k dir es queue' t = (r, s')"
      | m where "give (Inr m) t = (r, s')" "sn_key (n_data m) = k"
      by (cases x) (auto split: if_splits)
    then show ?thesis using rest found by cases blast+
  next
    case False
    then show ?thesis using step rest [of s, OF _ disjI1 [OF refl]] by argo
  qed
qed (auto simp: give_def same_share_def)

lemma search_queue_found:
  "search_queue fuel h k queue s = (r, s') \<Longrightarrow> same_share s s' \<and> (\<forall>n. r = Ok n \<longrightarrow> sn_key (n_data n) = k)"
proof (induction fuel h k queue s arbitrary: r s' rule: search_queue.induct)
  case (3 fuel h k dir queue s)
  show ?case
  proof (cases "h_ReadDir h dir (sf_host s)")
    case (Inl e)
    then show ?thesis using 3 by (simp add: same_share_touch)
  next
    case (Inr q)
    obtain ents err where q: "q = (ents, err)" by fastforce
    obtain r' t where se: "search_entries h k dir ents queue (touch [dir] s) = (r', t)" by fastforce
    note found = search_entries_found [OF se]
    show ?thesis
    proof (cases r')
      case (Ok x)
      then show ?thesis
        using 3 Inr q se found same_share_trans [of s t] by (cases x) (auto simp: doing_def give_def same_share_touch)
    qed (use 3 Inr q se found in \<open>auto simp: doing_def same_share_touch\<close>)
  qed
qed (auto simp: fail_with_def same_share_def)


lemma search_found:
  assumes "share_search fuel h k s = (r, s')"
  shows "same_share s s' \<and> (\<forall>n. r = Ok n \<longrightarrow> sn_key (n_data n) = k)"
proof -
  obtain x t where st: "statNode h [dot] s = (x, t)" by fastforce
  from assms st consider "search_queue fuel h k [[dot]] t = (r, s')"
    | m where "give m t = (r, s')" "sn_key (n_data m) = k"
    unfolding share_search_def by (cases x) (auto split: if_splits)
  then show ?thesis
  proof cases
    case 1
    then show ?thesis using search_queue_found [OF 1] same_share_trans [OF statNode_same [OF st]] by blast
  next
    case 2
    then show ?thesis using statNode_same [OF st] by (auto simp: give_def)
  qed
qed

text \<open>A table that can be in use: ids and paths match, and ids fit in a filehandle.\<close>

definition tables_ok :: "'h share \<Rightarrow> bool" where
  "tables_ok s \<longleftrightarrow> (\<forall>t. sf_table s = Some t \<longrightarrow> tab_ok (pf_tab t) \<and> pt_next (pf_tab t) < 2 ^ 64)"

lemma idFor_listed: "tab_ok (pf_tab t) \<Longrightarrow> tab_path i t = Some rel \<Longrightarrow> idFor rel t = (Some i, t)"
  using tab_okD(4) [of "pf_tab t" i rel] by (simp add: idFor_def tab_path_def)

lemma idFor_lists: "tab_ok (pf_tab t) \<Longrightarrow> idFor rel t = (Some i, t') \<Longrightarrow> tab_path i t' = Some rel \<and> tab_ok (pf_tab t') \<and> i \<le> pt_next (pf_tab t)"
proof -
  assume ok: "tab_ok (pf_tab t)" and i: "idFor rel t = (Some i, t')"
  show ?thesis
  proof (cases "map_of (pt_byPath (pf_tab t)) rel")
    case (Some j)
    then show ?thesis using i ok tab_okD(4,5) [OF ok, of j rel] by (simp add: idFor_def tab_path_def)
  next
    case None
    then have "map_of (pt_byID (pf_tab t)) j \<noteq> Some rel" for j using tab_okD(4) [OF ok, of j rel] by simp
    then have "tab_ok (tab_set (pt_next (pf_tab t)) rel (pf_tab t))" by (intro tab_ok_set [OF ok]) auto
    then show ?thesis using i None by (auto simp: idFor_def Let_def tab_path_def split: if_splits)
  qed
qed

lemma node_for_upd [simp]:
  "node_for (s\<lparr>sf_log := l\<rparr>) = node_for s" "node_for (s\<lparr>sf_cache := c\<rparr>) = node_for s" "node_for (s\<lparr>sf_table := t\<rparr>) = node_for s"
  by (simp_all add: node_for_def node_attr_def fun_eq_iff)

lemma key_node_for [simp]: "sn_key (n_data (node_for s rel st k)) = k" "path_of (node_for s rel st k) = rel"
  by (simp_all add: node_for_def Let_def)

text \<open>Looking a file up again, with nothing changed, gives the same node.\<close>

lemma statNode_again:
  assumes "statNode h rel s = (Ok n, s1)" and "tables_ok s"
  shows "fst (statNode h rel s1) = Ok n"
    and "case sf_table s1 of Some t \<Rightarrow> tab_path (unat (fst (snd (sn_key (n_data n))))) t = Some rel
         | None \<Rightarrow> sf_cache s1 (sn_key (n_data n)) = Some rel"
proof -
  obtain st where st: "h_Lstat h rel (sf_host s) = Inr st" and d: "describe rel st (touch [rel] s) = (Ok n, s1)"
    using assms(1) by (auto simp: statNode_cases split: sum.splits)
  note same = statNode_same [OF assms(1)]
  have s1: "statNode h rel s1 = describe rel st (touch [rel] s1)"
    using st same by (simp add: statNode_cases same_share_def)
  show "fst (statNode h rel s1) = Ok n"
      "case sf_table s1 of Some t \<Rightarrow> tab_path (unat (fst (snd (sn_key (n_data n))))) t = Some rel
         | None \<Rightarrow> sf_cache s1 (sn_key (n_data n)) = Some rel"
  proof (atomize (full), cases "sf_table s")
    case None
    then show "fst (statNode h rel s1) = Ok n \<and> (case sf_table s1 of Some t \<Rightarrow> tab_path (unat (fst (snd (sn_key (n_data n))))) t = Some rel
         | None \<Rightarrow> sf_cache s1 (sn_key (n_data n)) = Some rel)"
      using d by (auto simp: s1 describe_def touch_def Let_def)
  next
    case (Some t)
    then obtain i t' where i: "idFor rel t = (Some i, t')" and n: "n = node_for (touch [rel] s) rel st (0, of_nat i, 0)"
      and s1': "s1 = (touch [rel] s)\<lparr>sf_table := Some t'\<rparr>"
      using d by (auto simp: describe_def touch_def split: prod.splits option.splits)
    have ok: "tab_ok (pf_tab t)" and lt: "pt_next (pf_tab t) < 2 ^ 64" using assms(2) Some by (simp_all add: tables_ok_def)
    note l = idFor_lists [OF ok i]
    then have "unat (of_nat i :: u64) = i" using lt by (simp add: unat_of_nat take_bit_eq_mod)
    then show "fst (statNode h rel s1) = Ok n \<and> (case sf_table s1 of Some t \<Rightarrow> tab_path (unat (fst (snd (sn_key (n_data n))))) t = Some rel
         | None \<Rightarrow> sf_cache s1 (sn_key (n_data n)) = Some rel)"
      using l idFor_listed [of t' i rel] unfolding s1 unfolding s1' by (auto simp: n describe_def touch_def)
  qed
qed


lemma NodeByHandle_Handle:
  assumes "statNode h rel s = (Ok n, s1)" and "tables_ok s"
  shows "fst (share_NodeByHandle fuel h (share_Handle s1 n) s1) = Ok n"
proof -
  note again = statNode_again [OF assms]
  obtain s2 where s2: "statNode h rel s1 = (Ok n, s2)" using again(1) by (cases "statNode h rel s1") auto
  have fmt: "share_format s1 = fmtInode \<or> share_format s1 = fmtTable" by (simp add: share_format_def)
  show ?thesis
    using again(2) fmt s2
    by (auto simp: share_NodeByHandle_def Handle_head Handle_head(2) [simplified] handle_key_Handle Let_def give_def split: option.splits)
qed

lemma NodeByHandle_well_formed:
  assumes "share_NodeByHandle fuel h fh s = (Ok n, s')"
  shows "length fh = 32 \<and> fh ! 1 = 0 \<and> fh ! 2 = 0 \<and> fh ! 3 = 0 \<and> fh ! 0 = share_format s \<and> word_at fh 4 = sf_exportID s"
  using assms by (simp add: share_NodeByHandle_def fail_with_def or_eq_0_iff split: if_splits)

lemma NodeByHandle_stale:
  assumes "\<not> (length fh \<noteq> 32 \<or> fh ! 1 OR fh ! 2 OR fh ! 3 \<noteq> 0 \<or> (fh ! 0 \<noteq> fmtInode \<and> fh ! 0 \<noteq> fmtTable))"
    and "fh ! 0 \<noteq> share_format s \<or> word_at fh 4 \<noteq> sf_exportID s"
  shows "share_NodeByHandle fuel h fh s = (Err ErrStale, s)"
  unfolding share_NodeByHandle_def if_not_P [OF assms(1)] if_P [OF assms(2)] by (simp add: fail_with_def)

lemma NodeByHandle_found:
  assumes "share_NodeByHandle fuel h fh s = (Ok n, s')" and "tables_ok s"
  shows "same_share s s'" and "fst (snd (sn_key (n_data n))) = fst (snd (handle_key fh))"
    and "sf_table s = None \<Longrightarrow> sn_key (n_data n) = handle_key fh"
proof (atomize (full), cases "sf_table s")
  case None
  from NodeByHandle_well_formed [OF assms(1)]
  have eq: "share_NodeByHandle fuel h fh s = (case sf_cache s (handle_key fh) of
      None \<Rightarrow> share_search fuel h (handle_key fh) s
    | Some rel \<Rightarrow> (case statNode h rel s of
        (Ok n, s') \<Rightarrow> if sn_key (n_data n) = handle_key fh then give n s' else share_search fuel h (handle_key fh) s'
      | (_, s') \<Rightarrow> share_search fuel h (handle_key fh) s'))"
    using None by (simp add: share_NodeByHandle_def Let_def share_format_def)
  consider "share_search fuel h (handle_key fh) s = (Ok n, s')"
    | rel x t where "statNode h rel s = (x, t)" "share_search fuel h (handle_key fh) t = (Ok n, s')"
    | rel where "statNode h rel s = (Ok n, s')" "sn_key (n_data n) = handle_key fh"
    using assms(1) unfolding eq
    by (auto simp: give_def split: option.splits prod.splits outcome.splits if_splits)
  then show "same_share s s' \<and> fst (snd (sn_key (n_data n))) = fst (snd (handle_key fh)) \<and>
      (sf_table s = None \<longrightarrow> sn_key (n_data n) = handle_key fh)"
    by cases (use search_found statNode_same same_share_trans in metis)+
next
  case (Some t)
  from NodeByHandle_well_formed [OF assms(1)] assms(1) Some
  obtain rel where rel: "tab_path (unat (fst (snd (handle_key fh)))) t = Some rel" and st: "statNode h rel s = (Ok n, s')"
    by (auto simp: share_NodeByHandle_def Let_def fail_with_def share_format_def
        split: option.splits prod.splits outcome.splits nfs_err.splits)
  have "tab_ok (pf_tab t)" using assms(2) Some by (simp add: tables_ok_def)
  from idFor_listed [OF this rel] st Some
  have "sn_key (n_data n) = (0, fst (snd (handle_key fh)), 0)"
    by (auto simp: statNode_cases describe_def touch_def split: sum.splits)
  then show "same_share s s' \<and> fst (snd (sn_key (n_data n))) = fst (snd (handle_key fh)) \<and>
      (sf_table s = None \<longrightarrow> sn_key (n_data n) = handle_key fh)"
    using statNode_same [OF st] Some by simp
qed


section \<open>A host to try it on\<close>

text \<open>A directory that is empty until the file \<open>a\<close> is made in it; its state says whether it is there.\<close>

definition try_stat :: "u32 \<Rightarrow> u64 \<Rightarrow> stat" where
  "try_stat mode ino =
     \<lparr>st_mode = mode, st_nlink = 1, st_size = 0, st_used = 0, st_atime = \<lparr>t_Unix = 0, t_Nanosecond = 0\<rparr>,
      st_mtime = \<lparr>t_Unix = 0, t_Nanosecond = 0\<rparr>, st_ctime = \<lparr>t_Unix = 0, t_Nanosecond = 0\<rparr>, st_dev = 1, st_ino = ino, st_gen = 7\<rparr>"

definition try_host :: "bool host" where
  "try_host =
     \<lparr>h_Lstat = (\<lambda>p made. if p = [dot] then Inr (try_stat 0x41ed 2)
                else if p = str ''a'' \<and> made then Inr (try_stat 0x89a4 3) else Inl HNotExist),
      h_ReadDir = (\<lambda>p made. if p = [dot] \<and> made then Inr ([\<lparr>he_Name = str ''a'', he_IsDir = False, he_inode = Some (1, 3)\<rparr>], None)
                  else if p = [dot] then Inr ([], None) else Inl (HErrno ENOTDIR)),
      h_ReadAt = (\<lambda>p off len made. Inr ([], None)), h_Readlink = (\<lambda>p made. Inl (HErrno EINVAL)),
      h_Truncate = (\<lambda>p n made. (None, made)), h_WriteAt = (\<lambda>p b off made. (None, made)),
      h_Chmod = (\<lambda>p m made. (None, made)), h_Chtimes = (\<lambda>p at mt made. (None, made)),
      h_Create = (\<lambda>p excl m made. if p = str ''a'' then (None, True) else (Some (HErrno EACCES), made)),
      h_Mkdir = (\<lambda>p m made. (Some (HErrno EACCES), made)), h_Symlink = (\<lambda>t p made. (Some (HErrno EACCES), made)),
      h_Remove = (\<lambda>p made. if p = str ''a'' \<and> made then (None, False) else (Some HNotExist, made)),
      h_Rename = (\<lambda>p q made. (Some (HErrno EACCES), made)), h_Space = (\<lambda>made. Inl (HOther 0))\<rparr>"

definition try_share :: "bool share" where
  "try_share = \<lparr>sf_name = str ''s'', sf_exportID = fnv32a (str ''s''), sf_badNameChars = [], sf_filter = None,
     sf_host = False, sf_table = None, sf_cache = Map.empty, sf_log = []\<rparr>"

definition try_root :: snode where
  "try_root = node_for try_share [dot] (try_stat 0x41ed 2) (1, 2, 7)"

definition try_file :: snode where
  "try_file = node_for try_share (str ''a'') (try_stat 0x89a4 3) (1, 3, 7)"

definition try_call1 :: "(nfs_err, snode list) outcome \<times> bool share" where
  "try_call1 = do_call 9 try_host (CMount (str ''/s'')) try_share"

definition try_call2 :: "(nfs_err, snode list) outcome \<times> bool share" where
  "try_call2 = do_call 9 try_host (CCreate try_root (str ''a'') Unchecked
     \<lparr>sa_Mode = None, sa_Size = None, sa_Atime = None, sa_Mtime = None\<rparr> []) (snd try_call1)"

definition try_call3 :: "(nfs_err, snode list) outcome \<times> bool share" where
  "try_call3 = do_call 9 try_host (CLookup try_root (str ''..'')) (snd try_call2)"

lemma lists_plain_try: "lists_plain try_host"
  by (auto simp: lists_plain_def try_host_def plain_name_def plain_part_def str_def dot_def slash_def split: if_splits)

lemma try_calls:
  "new_nodes (fst try_call1) = [try_root]" "new_nodes (fst try_call2) = [try_file]" "new_nodes (fst try_call3) = [try_root]"
  by code_simp+

lemma try_log: "sf_log (snd try_call3) = [str ''.'', str ''a'', str ''a'', str ''a'', str ''a'', str ''a'', str ''.'']"
  by code_simp

lemma try_run: "share_run 9 try_host try_share (snd try_call3) [try_root, try_file, try_root]"
proof -
  have "share_run 9 try_host try_share (snd try_call1) ([] @ new_nodes (fst try_call1))"
    by (rule share_run.called [OF share_run.opened, where c = "CMount (str ''/s'')"]) (simp_all add: try_call1_def)
  then have "share_run 9 try_host try_share (snd try_call2) ([try_root] @ new_nodes (fst try_call2))"
    unfolding try_call2_def by (intro share_run.called [OF _ _ surjective_pairing]) (simp_all add: try_calls)
  then have "share_run 9 try_host try_share (snd try_call3) ([try_root, try_file] @ new_nodes (fst try_call3))"
    unfolding try_call3_def by (intro share_run.called [OF _ _ surjective_pairing]) (simp_all add: try_calls)
  then show ?thesis by (simp add: try_calls)
qed

section \<open>Properties of shares\<close>

text \<open>C4: However a client calls a share, in any order and with any names, paths and filehandles, while other
  programs change the host directory in any way, every path the share gives to the host names the share's root or a
  file below it (no element is empty, ``.'' or ``..'', and there is no NUL), and every node the client was given has
  such a path and shows no setuid bit.\<close>

theorem share_confined:
  assumes "lists_plain h" and "sf_log s0 = []" and "sf_filter s0 = None" and "sf_cache s0 = Map.empty"
    and "\<And>t. sf_table s0 = Some t \<Longrightarrow> table_inside t" and "share_run fuel h s0 s known"
  shows "(\<forall>p \<in> set (sf_log s). inside p) \<and> (\<forall>n \<in> set known. inside (path_of n) \<and> n_Mode n AND 0x800 = 0)"
  using share_run_ok [OF assms(6,1)] assms(2-5) by (auto simp: share_ok_def node_ok_def list_all_iff)

theorem share_confined_witness:
  "share_run 9 try_host try_share (snd try_call3) [try_root, try_file, try_root] \<and> length (sf_log (snd try_call3)) = 7 \<and>
   list_all inside (sf_log (snd try_call3)) \<and> n_Mode try_file = 0x81a4 \<and> inside (path_of try_file)"
proof -
  have "n_Mode try_file = 0x81a4" by code_simp
  moreover have "list_all inside (sf_log (snd try_call3)) \<and> inside (path_of try_file)"
    using share_confined [OF lists_plain_try _ _ _ _ try_run] by (simp add: try_share_def list_all_iff)
  ultimately show ?thesis using try_run try_log by simp
qed




end
