(* ===== verification/Sharefs_Multi.thy ===== *)
theory Sharefs_Multi
  imports Sharefs_Calls
begin

text \<open>
  Several shares behind one server (src/internal/sharefs/multi.go). The state is the
  list of shares; the maps by id and by name are searches of it, and the share
  pointer a node carries is its share's id, which OpenMulti keeps distinct.
\<close>

section \<open>Model\<close>

datatype multi_err = GivenTwice bytes | SameID bytes bytes | NoShares

type_synonym ('h, 'a) multi_act = "'h share list \<Rightarrow> (nfs_err, 'a) outcome \<times> 'h share list"

fun multi_index :: "('h share \<Rightarrow> bool) \<Rightarrow> 'h share list \<Rightarrow> nat option" where
  "multi_index P [] = None"
| "multi_index P (s # ss) = (if P s then Some 0 else map_option Suc (multi_index P ss))"

abbreviation byName :: "bytes \<Rightarrow> 'h share list \<Rightarrow> nat option" where
  "byName nm \<equiv> multi_index (\<lambda>s. sf_name s = nm)"

abbreviation byID :: "u32 \<Rightarrow> 'h share list \<Rightarrow> nat option" where
  "byID i \<equiv> multi_index (\<lambda>s. sf_exportID s = i)"

fun open_shares :: "'h share list \<Rightarrow> 'h share list \<Rightarrow> multi_err option" where
  "open_shares seen [] = None"
| "open_shares seen (s # ss) =
     (case byName (sf_name s) seen of
        Some i \<Rightarrow> Some (GivenTwice (sf_name s))
      | None \<Rightarrow>
          (case byID (sf_exportID s) seen of
             Some i \<Rightarrow> Some (SameID (sf_name (seen ! i)) (sf_name s))
           | None \<Rightarrow> open_shares (seen @ [s]) ss))"

definition OpenMulti :: "'h share list \<Rightarrow> multi_err + 'h share list" where
  "OpenMulti shares =
     (case open_shares [] shares of
        Some e \<Rightarrow> Inl e
      | None \<Rightarrow> if shares = [] then Inl NoShares else Inr shares)"

definition at_share :: "nat \<Rightarrow> ('h, 'a) act \<Rightarrow> ('h, 'a) multi_act" where
  "at_share i m ms = (case m (ms ! i) of (r, s') \<Rightarrow> (r, ms[i := s']))"

definition multi_of :: "snode \<Rightarrow> 'h share list \<Rightarrow> nat option" where
  "multi_of n ms = byID (sn_fs (n_data n)) ms"

definition via_node :: "snode \<Rightarrow> ('h, 'a) act \<Rightarrow> ('h, 'a) multi_act" where
  "via_node n m ms =
     (case multi_of n ms of
        None \<Rightarrow> (Err ErrStale, ms)
      | Some i \<Rightarrow> at_share i m ms)"

definition cutPath :: "bytes \<Rightarrow> bytes" where
  "cutPath p = takeWhile (\<lambda>c. c \<noteq> slash) (dropWhile (\<lambda>c. c = slash) p)"

definition multi_Exports :: "'h share list \<Rightarrow> bytes list" where
  "multi_Exports ms = concat (map share_Exports ms)"

definition multi_Space :: "'h host \<Rightarrow> ('h, Space) multi_act" where
  "multi_Space h = at_share 0 (share_Space h)"

definition multi_MountRoot :: "'h host \<Rightarrow> bytes \<Rightarrow> ('h, snode) multi_act" where
  "multi_MountRoot h p ms =
     (case byName (cutPath p) ms of
        None \<Rightarrow> (Err ErrNotFound, ms)
      | Some i \<Rightarrow> at_share i (share_MountRoot h p) ms)"

definition multi_Handle :: "snode \<Rightarrow> 'h share list \<Rightarrow> bytes" where
  "multi_Handle n ms =
     (case multi_of n ms of None \<Rightarrow> replicate 32 0 | Some i \<Rightarrow> share_Handle (ms ! i) n)"

definition multi_NodeByHandle :: "nat \<Rightarrow> 'h host \<Rightarrow> bytes \<Rightarrow> ('h, snode) multi_act" where
  "multi_NodeByHandle fuel h fh ms =
     (if length fh \<noteq> 32 then (Err ErrBadHandle, ms)
      else
        case byID (word_at fh 4) ms of
          None \<Rightarrow>
            (case at_share 0 (share_NodeByHandle fuel h fh) ms of
               (Err ErrBadHandle, ms') \<Rightarrow> (Err ErrBadHandle, ms')
             | (_, ms') \<Rightarrow> (Err ErrStale, ms'))
        | Some i \<Rightarrow> at_share i (share_NodeByHandle fuel h fh) ms)"

definition multi_Lookup :: "'h host \<Rightarrow> snode \<Rightarrow> bytes \<Rightarrow> ('h, snode) multi_act" where
  "multi_Lookup h dir name = via_node dir (share_Lookup h dir name)"

definition multi_ReadDir :: "'h host \<Rightarrow> snode \<Rightarrow> ('h, share_node DirEntry list) multi_act" where
  "multi_ReadDir h dir = via_node dir (share_ReadDir h dir)"

definition multi_ReadAt :: "'h host \<Rightarrow> snode \<Rightarrow> nat \<Rightarrow> int \<Rightarrow> ('h, bytes \<times> nfs_err option) multi_act" where
  "multi_ReadAt h n len off = via_node n (share_ReadAt h n len off)"

definition multi_Readlink :: "'h host \<Rightarrow> snode \<Rightarrow> ('h, bytes) multi_act" where
  "multi_Readlink h n = via_node n (share_Readlink h n)"

definition multi_SetAttr :: "'h host \<Rightarrow> snode \<Rightarrow> SetAttr \<Rightarrow> ('h, unit) multi_act" where
  "multi_SetAttr h n a = via_node n (share_SetAttr h n a)"

definition multi_WriteAt :: "'h host \<Rightarrow> snode \<Rightarrow> bytes \<Rightarrow> int \<Rightarrow> ('h, unit) multi_act" where
  "multi_WriteAt h n p off = via_node n (share_WriteAt h n p off)"

definition multi_Create :: "'h host \<Rightarrow> snode \<Rightarrow> bytes \<Rightarrow> CreateHow \<Rightarrow> SetAttr \<Rightarrow> bytes \<Rightarrow> ('h, snode) multi_act" where
  "multi_Create h dir name how a verf = via_node dir (share_Create h dir name how a verf)"

definition multi_Mkdir :: "'h host \<Rightarrow> snode \<Rightarrow> bytes \<Rightarrow> SetAttr \<Rightarrow> ('h, snode) multi_act" where
  "multi_Mkdir h dir name a = via_node dir (share_Mkdir h dir name a)"

definition multi_Symlink :: "'h host \<Rightarrow> snode \<Rightarrow> bytes \<Rightarrow> bytes \<Rightarrow> ('h, snode) multi_act" where
  "multi_Symlink h dir name target = via_node dir (share_Symlink h dir name target)"

definition multi_Remove :: "'h host \<Rightarrow> snode \<Rightarrow> bytes \<Rightarrow> bool \<Rightarrow> ('h, unit) multi_act" where
  "multi_Remove h dir name wantDir = via_node dir (share_remove h dir name wantDir)"

definition multi_Rename :: "'h host \<Rightarrow> snode \<Rightarrow> bytes \<Rightarrow> snode \<Rightarrow> bytes \<Rightarrow> ('h, unit) multi_act" where
  "multi_Rename h fromDir fromName toDir toName ms =
     (case (multi_of fromDir ms, multi_of toDir ms) of
        (Some i, Some j) \<Rightarrow>
          if i \<noteq> j then (Err ErrXDev, ms) else at_share i (share_Rename h fromDir fromName toDir toName) ms
      | _ \<Rightarrow> (Err ErrStale, ms))"

section \<open>Routing\<close>

lemma multi_index_Some: "multi_index P ms = Some i \<Longrightarrow> i < length ms \<and> P (ms ! i)"
  by (induction ms arbitrary: i) (auto split: if_splits)

lemma multi_index_None: "multi_index P ms = None \<longleftrightarrow> (\<forall>s \<in> set ms. \<not> P s)"
  by (induction ms) auto

lemma multi_index_at:
  assumes "distinct (map f ms)" and "i < length ms"
  shows "multi_index (\<lambda>s. f s = f (ms ! i)) ms = Some i"
  using assms
proof (induction ms arbitrary: i)
  case (Cons s ms)
  show ?case
  proof (cases i)
    case (Suc j)
    then have "f s \<noteq> f (ms ! j)" using Cons.prems by (auto simp: image_iff)
    then show ?thesis using Cons Suc by simp
  qed simp
qed simp

lemma open_shares_distinct:
  "open_shares seen ms = None \<Longrightarrow> distinct (map sf_name seen) \<Longrightarrow> distinct (map sf_exportID seen) \<Longrightarrow>
   distinct (map sf_name (seen @ ms)) \<and> distinct (map sf_exportID (seen @ ms))"
proof (induction seen ms rule: open_shares.induct)
  case (2 seen s ms)
  then have "byName (sf_name s) seen = None" "byID (sf_exportID s) seen = None" by (auto split: option.splits)
  moreover from this have "sf_name s \<notin> sf_name ` set seen" "sf_exportID s \<notin> sf_exportID ` set seen"
    by (auto simp: multi_index_None image_iff)
  ultimately show ?case using 2 by simp
qed simp

lemma OpenMulti_distinct:
  "OpenMulti shares = Inr ms \<Longrightarrow> ms = shares \<and> ms \<noteq> [] \<and> distinct (map sf_name ms) \<and> distinct (map sf_exportID ms)"
  using open_shares_distinct [of "[]" shares] by (auto simp: OpenMulti_def split: option.splits if_splits)

text \<open>A mount path picks the share it names, whatever slashes surround it.\<close>

lemma cutPath_hd: "cutPath p = hd (split_on slash (trim_byte slash p))"
proof -
  have hd_split: "hd (split_on c b) = takeWhile (\<lambda>x. x \<noteq> c) b" for c and b :: bytes
  proof (induction b)
    case (Cons x b)
    then show ?case using split_on_not_Nil [of c b] by (cases "split_on c b") auto
  qed simp
  have cut: "takeWhile (\<lambda>x. x \<noteq> slash) (b @ e) = takeWhile (\<lambda>x. x \<noteq> slash) b" if "\<forall>x \<in> set e. x = slash" for b e :: bytes
    using that by (induction b) (cases e, auto)
  have tw: "takeWhile (\<lambda>x. x \<noteq> slash) (rev (dropWhile (\<lambda>x. x = slash) (rev b))) = takeWhile (\<lambda>x. x \<noteq> slash) b" for b :: bytes
  proof -
    have "b = rev (dropWhile (\<lambda>x. x = slash) (rev b)) @ rev (takeWhile (\<lambda>x. x = slash) (rev b))"
      by (metis rev_append rev_rev_ident takeWhile_dropWhile_id)
    moreover have "\<forall>x \<in> set (rev (takeWhile (\<lambda>x. x = slash) (rev b))). x = slash" by (auto dest: set_takeWhileD)
    ultimately show ?thesis using cut by metis
  qed
  show ?thesis by (simp add: cutPath_def hd_split trim_byte_def tw)
qed


lemma at_share_unchanged: "i < length ms \<Longrightarrow> m (ms ! i) = (r, ms ! i) \<Longrightarrow> at_share i m ms = (r, ms)"
  by (simp add: at_share_def)

lemma foreign_handle:
  assumes "ms \<noteq> []" and "length fh = 32" and "byID (word_at fh 4) ms = None"
  shows "multi_NodeByHandle fuel h fh ms = (Err ErrBadHandle, ms) \<or> multi_NodeByHandle fuel h fh ms = (Err ErrStale, ms)"
proof -
  have "word_at fh 4 \<noteq> sf_exportID (ms ! 0)" using assms(1,3) by (auto simp: multi_index_None)
  then have "share_NodeByHandle fuel h fh (ms ! 0) = (Err ErrBadHandle, ms ! 0) \<or>
      share_NodeByHandle fuel h fh (ms ! 0) = (Err ErrStale, ms ! 0)"
    by (simp add: share_NodeByHandle_def fail_with_def)
  then show ?thesis
    using assms at_share_unchanged [of 0 ms "share_NodeByHandle fuel h fh"] by (auto simp: multi_NodeByHandle_def)
qed

section \<open>Property\<close>


text \<open>Two shares, the second with files named by a path table.\<close>

definition try_other :: "bool share" where
  "try_other = try_share\<lparr>sf_name := str ''t'', sf_exportID := fnv32a (str ''t''), sf_table := openPathTable True []\<rparr>"


end
