(* ===== verification/Shell_Output.thy ===== *)
theory Shell_Output
  imports Go_Prelude "HOL-Library.Sublist"
begin

text \<open>
  The output of the shell that inst drives (src/internal/instcmd/shell.go,
  coalescedOutput and its wrappers). The connection is a pair of write functions
  on a state \<open>'w\<close>, for standard output and standard error; a write returns the
  number of bytes written and possibly an error. A method that holds the lock is
  one step; the unlocked write of a large block is the last thing Write does.
\<close>

section \<open>Model\<close>

definition smallWrite :: nat where "smallWrite = 512"
definition coalesceBuffer :: nat where "coalesceBuffer = 16384"

record 'w conn =
  cn_out :: "bytes \<Rightarrow> 'w \<Rightarrow> (nat \<times> nat option) \<times> 'w"
  cn_err :: "bytes \<Rightarrow> 'w \<Rightarrow> (nat \<times> nat option) \<times> 'w"

record 'w coalescedOutput =
  co_buf :: bytes
  co_direct :: bool
  co_w :: 'w

definition newCoalescedOutput :: "'w \<Rightarrow> 'w coalescedOutput" where
  "newCoalescedOutput w = \<lparr>co_buf = [], co_direct = False, co_w = w\<rparr>"

definition flushLocked :: "'w conn \<Rightarrow> 'w coalescedOutput \<Rightarrow> nat option \<times> 'w coalescedOutput" where
  "flushLocked cn o1 =
     (if co_buf o1 = [] then (None, o1)
      else
        case cn_out cn (co_buf o1) (co_w o1) of
          ((_, err), w') \<Rightarrow> (err, o1\<lparr>co_buf := [], co_w := w'\<rparr>))"

definition co_Write :: "'w conn \<Rightarrow> bytes \<Rightarrow> 'w coalescedOutput \<Rightarrow> (nat \<times> nat option) \<times> 'w coalescedOutput" where
  "co_Write cn p o1 =
     (let direct = (co_direct o1 \<or> length p \<ge> smallWrite);
          (err, o2) = (if direct \<or> length (co_buf o1) + length p > coalesceBuffer then flushLocked cn o1 else (None, o1))
      in case err of
           Some e \<Rightarrow> ((0, Some e), o2)
         | None \<Rightarrow>
             if \<not> direct then ((length p, None), o2\<lparr>co_buf := co_buf o2 @ p\<rparr>)
             else case cn_out cn p (co_w o2) of (r, w') \<Rightarrow> (r, o2\<lparr>co_w := w'\<rparr>))"

definition co_Flush :: "'w conn \<Rightarrow> 'w coalescedOutput \<Rightarrow> nat option \<times> 'w coalescedOutput" where
  "co_Flush cn o1 = flushLocked cn o1"

definition passThrough :: "'w conn \<Rightarrow> 'w coalescedOutput \<Rightarrow> nat option \<times> 'w coalescedOutput" where
  "passThrough cn o1 = flushLocked cn (o1\<lparr>co_direct := True\<rparr>)"

text \<open>\<open>flushBeforeWrite\<close> around standard error, and \<open>flushBeforeRead\<close> around the shell's input.\<close>

definition err_Write :: "'w conn \<Rightarrow> bytes \<Rightarrow> 'w coalescedOutput \<Rightarrow> (nat \<times> nat option) \<times> 'w coalescedOutput" where
  "err_Write cn p o1 =
     (case co_Flush cn o1 of
        (Some e, o2) \<Rightarrow> ((0, Some e), o2)
      | (None, o2) \<Rightarrow> (case cn_err cn p (co_w o2) of (r, w') \<Rightarrow> (r, o2\<lparr>co_w := w'\<rparr>)))"

definition in_Read :: "'w conn \<Rightarrow> ('w \<Rightarrow> bytes \<times> nat option \<times> 'w) \<Rightarrow> 'w coalescedOutput \<Rightarrow> (bytes \<times> nat option) \<times> 'w coalescedOutput" where
  "in_Read cn rd o1 =
     (case co_Flush cn o1 of
        (Some e, o2) \<Rightarrow> (([], Some e), o2)
      | (None, o2) \<Rightarrow> (case rd (co_w o2) of (b, e, w') \<Rightarrow> ((b, e), o2\<lparr>co_w := w'\<rparr>)))"

section \<open>Sessions\<close>

text \<open>
  A connection that remembers every write it was given, in order and with its
  stream, and answers as an arbitrary function of that history says.
\<close>

datatype stream = Stdout | Stderr

type_synonym wire = "(stream \<times> bytes) list"

definition recorded :: "(wire \<Rightarrow> nat \<times> nat option) \<Rightarrow> wire conn" where
  "recorded answer =
     \<lparr>cn_out = (\<lambda>p w. (answer (w @ [(Stdout, p)]), w @ [(Stdout, p)])),
      cn_err = (\<lambda>p w. (answer (w @ [(Stderr, p)]), w @ [(Stderr, p)]))\<rparr>"

datatype out_op = OWrite bytes | OErr bytes | ORead | OFlush | OPass

text \<open>What one operation does; its error is whether the bytes it carries were refused before they were taken.\<close>

fun out_step :: "(wire \<Rightarrow> nat \<times> nat option) \<Rightarrow> out_op \<Rightarrow> wire coalescedOutput \<Rightarrow> nat option \<times> wire coalescedOutput" where
  "out_step answer (OWrite p) s = map_prod snd (\<lambda>x. x) (co_Write (recorded answer) p s)"
| "out_step answer (OErr p) s = map_prod snd (\<lambda>x. x) (err_Write (recorded answer) p s)"
| "out_step answer ORead s = map_prod snd (\<lambda>x. x) (in_Read (recorded answer) (\<lambda>w. ([], None, w)) s)"
| "out_step answer OFlush s = co_Flush (recorded answer) s"
| "out_step answer OPass s = passThrough (recorded answer) s"

fun out_steps :: "(wire \<Rightarrow> nat \<times> nat option) \<Rightarrow> out_op list \<Rightarrow> wire coalescedOutput \<Rightarrow> wire coalescedOutput" where
  "out_steps answer [] s = s"
| "out_steps answer (p # ps) s = out_steps answer ps (snd (out_step answer p s))"

text \<open>The bytes an operation carries, each with its stream; those on the wire; those on the wire or held.\<close>

definition tagged :: "stream \<Rightarrow> bytes \<Rightarrow> (stream \<times> byte) list" where
  "tagged st p = map (Pair st) p"

fun op_bytes :: "out_op \<Rightarrow> (stream \<times> byte) list" where
  "op_bytes (OWrite p) = tagged Stdout p"
| "op_bytes (OErr p) = tagged Stderr p"
| "op_bytes ORead = []"
| "op_bytes OFlush = []"
| "op_bytes OPass = []"

definition on_wire :: "wire \<Rightarrow> (stream \<times> byte) list" where
  "on_wire w = concat (map (\<lambda>(st, p). tagged st p) w)"

definition sent_or_held :: "wire coalescedOutput \<Rightarrow> (stream \<times> byte) list" where
  "sent_or_held s = on_wire (co_w s) @ tagged Stdout (co_buf s)"

definition out_ok :: "'w coalescedOutput \<Rightarrow> bool" where
  "out_ok s \<longleftrightarrow> length (co_buf s) \<le> coalesceBuffer \<and> (co_direct s \<longrightarrow> co_buf s = [])"

lemma tagged_simps [simp]: "tagged st [] = []" "tagged st (p @ q) = tagged st p @ tagged st q"
  by (simp_all add: tagged_def)

lemma on_wire_simps [simp]: "on_wire [] = []" "on_wire (w @ v) = on_wire w @ on_wire v" "on_wire [(st, p)] = tagged st p"
  by (simp_all add: on_wire_def)

lemma recorded_simps [simp]:
  "cn_out (recorded answer) p w = (answer (w @ [(Stdout, p)]), w @ [(Stdout, p)])"
  "cn_err (recorded answer) p w = (answer (w @ [(Stderr, p)]), w @ [(Stderr, p)])"
  by (simp_all add: recorded_def)

lemma flush_recorded:
  assumes "flushLocked (recorded answer) s = (e, s')"
  shows "sent_or_held s' = sent_or_held s" and "co_buf s' = []" and "co_direct s' = co_direct s"
    and "co_w s' = (if co_buf s = [] then co_w s else co_w s @ [(Stdout, co_buf s)])"
    and "e = (if co_buf s = [] then None else snd (answer (co_w s @ [(Stdout, co_buf s)])))"
  using assms by (auto simp: flushLocked_def sent_or_held_def split: if_splits prod.splits)

text \<open>The four ways of a write: held, refused because the held bytes could not be sent, held after them, sent after them.\<close>

lemma co_Write_cases:
  assumes "co_Write (recorded answer) p s = (r, s')" and "flushLocked (recorded answer) s = (e, s1)"
  obtains "\<not> co_direct s" "length (co_buf s) + length p \<le> coalesceBuffer" "s' = s\<lparr>co_buf := co_buf s @ p\<rparr>" "snd r = None"
  | "e \<noteq> None" "snd r = e" "s' = s1"
  | "e = None" "\<not> co_direct s" "length p < smallWrite" "s' = s1\<lparr>co_buf := co_buf s1 @ p\<rparr>" "snd r = None"
  | "e = None" "r = answer (co_w s1 @ [(Stdout, p)])" "s' = s1\<lparr>co_w := co_w s1 @ [(Stdout, p)]\<rparr>"
proof (cases "co_direct s \<or> length p \<ge> smallWrite")
  case True
  then have "co_Write (recorded answer) p s =
      (case e of Some x \<Rightarrow> ((0, Some x), s1) | None \<Rightarrow> (answer (co_w s1 @ [(Stdout, p)]), s1\<lparr>co_w := co_w s1 @ [(Stdout, p)]\<rparr>))"
    by (simp add: co_Write_def assms(2) Let_def split: option.split)
  then show thesis using assms(1) that(2,4) by (cases e) auto
next
  case small: False
  show thesis
  proof (cases "length (co_buf s) + length p > coalesceBuffer")
    case True
    then have "co_Write (recorded answer) p s =
        (case e of Some x \<Rightarrow> ((0, Some x), s1) | None \<Rightarrow> ((length p, None), s1\<lparr>co_buf := co_buf s1 @ p\<rparr>))"
      using small by (simp add: co_Write_def assms(2) Let_def split: option.split)
    then show thesis using assms(1) that(2,3) small by (cases e) auto
  next
    case False
    then have "co_Write (recorded answer) p s = ((length p, None), s\<lparr>co_buf := co_buf s @ p\<rparr>)"
      using small by (simp add: co_Write_def Let_def)
    then show thesis using assms(1) that(1) small False by auto
  qed
qed

text \<open>Every operation keeps the order: its bytes come last, or are not taken at all and it fails.\<close>

lemma out_step_order:
  assumes "out_ok s" and "out_step answer p s = (e, s')"
  shows "out_ok s' \<and> (sent_or_held s' = sent_or_held s @ op_bytes p \<or> (sent_or_held s' = sent_or_held s \<and> e \<noteq> None)) \<and>
    ((\<forall>q. p \<noteq> OWrite q) \<longrightarrow> co_buf s' = [])"
proof -
  obtain e1 s1 where f: "flushLocked (recorded answer) s = (e1, s1)" by fastforce
  obtain e2 s2 where g: "flushLocked (recorded answer) (s\<lparr>co_direct := True\<rparr>) = (e2, s2)" by fastforce
  note F = flush_recorded [OF f] and G = flush_recorded [OF g]
  show ?thesis
  proof (cases p)
    case (OWrite q)
    then obtain r where w: "co_Write (recorded answer) q s = (r, s')" and e: "e = snd r"
      using assms(2) by (cases "co_Write (recorded answer) q s") auto
    from w f show ?thesis
    proof (cases rule: co_Write_cases)
      case 1
      then show ?thesis using assms(1) OWrite by (simp add: out_ok_def sent_or_held_def)
    next
      case 2
      then show ?thesis using assms(1) OWrite F e by (simp add: out_ok_def)
    next
      case 3
      then show ?thesis
        using OWrite F by (simp add: out_ok_def sent_or_held_def smallWrite_def coalesceBuffer_def)
    next
      case 4
      then show ?thesis using OWrite F by (simp add: out_ok_def sent_or_held_def)
    qed
  next
    case (OErr q)
    then show ?thesis
      using assms F
      by (auto simp: err_Write_def co_Flush_def f out_ok_def sent_or_held_def
          split: option.splits prod.splits)
  next
    case ORead
    then show ?thesis
      using assms F
      by (auto simp: in_Read_def co_Flush_def f out_ok_def sent_or_held_def split: option.splits prod.splits)
  next
    case OFlush
    then show ?thesis using assms F by (auto simp: co_Flush_def f out_ok_def)
  next
    case OPass
    then show ?thesis using assms G by (auto simp: passThrough_def g out_ok_def sent_or_held_def)
  qed
qed


section \<open>Property\<close>

lemma out_steps_order:
  assumes "out_ok s"
  shows "out_ok (out_steps answer ops s) \<and>
    (\<exists>taken. subseq taken (map op_bytes ops) \<and> sent_or_held (out_steps answer ops s) = sent_or_held s @ concat taken) \<and>
    ((\<forall>w. snd (answer w) = None) \<longrightarrow> sent_or_held (out_steps answer ops s) = sent_or_held s @ concat (map op_bytes ops))"
  using assms
proof (induction ops arbitrary: s)
  case (Cons p ops)
  obtain e s' where st: "out_step answer p s = (e, s')" by fastforce
  note O = out_step_order [OF Cons.prems st]
  then obtain taken where t: "subseq taken (map op_bytes ops)" "sent_or_held (out_steps answer ops s') = sent_or_held s' @ concat taken"
    using Cons.IH by blast
  have some: "\<exists>taken. subseq taken (map op_bytes (p # ops)) \<and> sent_or_held (out_steps answer ops s') = sent_or_held s @ concat taken"
  proof (cases "sent_or_held s' = sent_or_held s @ op_bytes p")
    case True
    then show ?thesis using t by (intro exI [of _ "op_bytes p # taken"]) simp
  next
    case False
    then show ?thesis using t O by (intro exI [of _ taken]) auto
  qed
  have no_error: "e = None" if "\<forall>w. snd (answer w) = None"
  proof -
    have "x = None" if "answer w = (n, x)" for w n x using that \<open>\<forall>w. snd (answer w) = None\<close> by (metis snd_conv)
    then show ?thesis
      using st that
      by (cases p) (auto simp: co_Write_def err_Write_def in_Read_def co_Flush_def passThrough_def flushLocked_def Let_def
          split: if_splits prod.splits option.splits)
  qed
  from some no_error O Cons.IH [of s'] show ?case by (auto simp: st)
qed (auto intro: exI [of _ "[]"])

lemma out_steps_append: "out_steps answer (ps @ qs) s = out_steps answer qs (out_steps answer ps s)"
  by (induction ps arbitrary: s) simp_all

text \<open>C21: Holding back small writes never shows. Over any sequence of writes to standard output and error, reads of
  input, flushes and the switch to direct writes, and however writes fail, what the connection was given plus what is
  held are bytes of the writes in the order they were made, each write whole or not at all; while no write fails, they are all of
  them. Nothing is held after a write to standard error, a read, a flush or once writes are direct, so then the
  connection has everything; and never more than the buffer is held.\<close>

theorem coalesced_output_order:
  assumes "s = out_steps answer ops (newCoalescedOutput [])"
  shows "length (co_buf s) \<le> coalesceBuffer \<and>
    (\<exists>taken. subseq taken (map op_bytes ops) \<and> sent_or_held s = concat taken) \<and>
    ((\<forall>w. snd (answer w) = None) \<longrightarrow> sent_or_held s = concat (map op_bytes ops)) \<and>
    (co_direct s \<or> (\<exists>ps p. ops = ps @ [p] \<and> (\<forall>q. p \<noteq> OWrite q)) \<longrightarrow> sent_or_held s = on_wire (co_w s))"
proof -
  have ok: "out_ok (newCoalescedOutput [] :: wire coalescedOutput)" by (simp add: out_ok_def newCoalescedOutput_def)
  have start: "sent_or_held (newCoalescedOutput []) = []" by (simp add: sent_or_held_def newCoalescedOutput_def)
  note O = out_steps_order [OF ok, of answer ops, folded assms, unfolded start append_Nil]
  have "co_buf s = []" if "ops = ps @ [p]" "\<forall>q. p \<noteq> OWrite q" for ps p
  proof -
    let ?t = "out_steps answer ps (newCoalescedOutput [])"
    obtain e s' where st: "out_step answer p ?t = (e, s')" by fastforce
    have "out_ok ?t" using out_steps_order [OF ok] by blast
    from out_step_order [OF this st] that st show ?thesis by (simp add: assms out_steps_append)
  qed
  with O show ?thesis by (auto simp: out_ok_def sent_or_held_def)
qed

theorem coalesced_output_order_witness:
  "sent_or_held (out_steps (\<lambda>w. (0, None)) [OWrite [1, 2], OErr [3], OWrite [4]] (newCoalescedOutput [])) =
     [(Stdout, 1), (Stdout, 2), (Stderr, 3), (Stdout, 4)] \<and>
   co_w (out_steps (\<lambda>w. (0, None)) [OWrite [1, 2], OErr [3], OWrite [4]] (newCoalescedOutput [])) =
     [(Stdout, [1, 2]), (Stderr, [3])]"
proof -
  have "co_w (out_steps (\<lambda>w. (0, None)) [OWrite [1, 2], OErr [3], OWrite [4]] (newCoalescedOutput [])) =
     [(Stdout, [1, 2]), (Stderr, [3])]" by code_simp
  with coalesced_output_order [OF refl, of "\<lambda>w. (0, None)" "[OWrite [1, 2], OErr [3], OWrite [4]]"]
  show ?thesis by (simp add: tagged_def)
qed

end
