(* ===== verification/Shell_Transfers.thy ===== *)
theory Shell_Transfers
  imports Main
begin

text \<open>
  The controller that lets the interrupt key stop a file transfer
  (src/internal/instcmd/shell.go, transferInterruptController). Its goroutine is a
  step relation: a step reads one signal byte or serves one action, and the
  lock makes each of them atomic. \<open>tc_signals\<close> holds the bytes waiting in the
  signal channel. SetWriteDeadline may fail when a deadline is set; \<open>tc_expired\<close> is
  the connection's own state, whether writes fail at once.
\<close>

section \<open>Model\<close>

record controller =
  tc_active :: int
  tc_interrupted :: bool
  tc_disabled :: bool
  tc_suspended :: bool
  tc_deadlineSet :: bool
  tc_closed :: bool
  tc_stopped :: bool
  tc_deadline :: bool
  tc_signals :: "nat list option"
  tc_expired :: bool

definition newController :: "bool \<Rightarrow> bool \<Rightarrow> controller" where
  "newController signals deadline =
     \<lparr>tc_active = 0, tc_interrupted = False, tc_disabled = False, tc_suspended = False, tc_deadlineSet = False,
      tc_closed = False, tc_stopped = False, tc_deadline = deadline, tc_signals = (if signals then Some [] else None),
      tc_expired = False\<rparr>"

definition clearDeadlineLocked :: "controller \<Rightarrow> controller" where
  "clearDeadlineLocked c =
     (if tc_deadlineSet c \<and> tc_deadline c then c\<lparr>tc_expired := False, tc_deadlineSet := False\<rparr> else c)"

definition finishLocked :: "controller \<Rightarrow> controller" where
  "finishLocked c =
     (let c = c\<lparr>tc_active := tc_active c - 1\<rparr>
      in if tc_active c = 0 then clearDeadlineLocked (c\<lparr>tc_interrupted := False\<rparr>) else c)"

text \<open>\<open>interrupt\<close>; \<open>ok\<close> says whether SetWriteDeadline succeeds.\<close>

definition tc_interrupt :: "bool \<Rightarrow> nat \<Rightarrow> controller \<Rightarrow> controller" where
  "tc_interrupt ok sig c =
     (if sig \<noteq> 2 then c
      else if \<not> tc_closed c \<and> \<not> tc_disabled c \<and> \<not> tc_suspended c \<and> tc_active c > 0 \<and> \<not> tc_interrupted c then
        let c = c\<lparr>tc_interrupted := True\<rparr>
        in if tc_deadline c \<and> ok then c\<lparr>tc_expired := True, tc_deadlineSet := True\<rparr> else c
      else c)"

text \<open>The actions the goroutine serves; begin also says whether the transfer was accepted.\<close>

definition do_disable :: "controller \<Rightarrow> controller" where
  "do_disable c = clearDeadlineLocked (c\<lparr>tc_disabled := True, tc_interrupted := False\<rparr>)"

definition do_suspend :: "bool \<Rightarrow> controller \<Rightarrow> controller" where
  "do_suspend b c = c\<lparr>tc_suspended := b\<rparr>"

definition do_begin :: "controller \<Rightarrow> bool \<times> controller" where
  "do_begin c =
     (let accepted = \<not> tc_closed c;
          c = (if accepted \<and> tc_active c = 0
               then c\<lparr>tc_signals := map_option (\<lambda>_. []) (tc_signals c)\<rparr> else c)
      in (accepted, if accepted then c\<lparr>tc_active := tc_active c + 1\<rparr> else c))"

text \<open>The two halves of \<open>close\<close>: before the goroutine has returned, and after.\<close>

definition close_start :: "controller \<Rightarrow> controller" where
  "close_start c = c\<lparr>tc_closed := True\<rparr>"

definition close_end :: "controller \<Rightarrow> controller" where
  "close_end c = (if tc_active c = 0 then clearDeadlineLocked (c\<lparr>tc_interrupted := False\<rparr>) else c)"

definition interruptedNow :: "bool \<Rightarrow> controller \<Rightarrow> bool" where
  "interruptedNow active c \<longleftrightarrow> active \<and> tc_interrupted c"

section \<open>Steps\<close>

text \<open>
  A session is the controller with the number of transfers that are running, those
  whose \<open>active\<close> is set. A transfer that begins when the goroutine is gone, or
  after close began, never becomes active.
\<close>

datatype tc_event =
    Arrive nat
  | HangUp
  | Read bool
  | Begin
  | Finish
  | Disable
  | Suspend bool
  | CloseStart
  | Stop
  | CloseEnd

inductive tc_step :: "controller \<times> nat \<Rightarrow> tc_event \<Rightarrow> controller \<times> nat \<Rightarrow> bool" where
  arrive: "tc_signals c = Some q \<Longrightarrow>
    tc_step (c, k) (Arrive b) (c\<lparr>tc_signals := Some (q @ [b])\<rparr>, k)"
| hang_up: "tc_signals c = Some [] \<Longrightarrow> tc_step (c, k) HangUp (c\<lparr>tc_signals := None\<rparr>, k)"
| signal: "\<not> tc_stopped c \<Longrightarrow> tc_signals c = Some (x # q) \<Longrightarrow>
    tc_step (c, k) (Read ok) (tc_interrupt ok x (c\<lparr>tc_signals := Some q\<rparr>), k)"
| start: "\<not> tc_stopped c \<Longrightarrow> do_begin c = (accepted, c') \<Longrightarrow>
    tc_step (c, k) Begin (c', if accepted then k + 1 else k)"
| start_late: "tc_stopped c \<Longrightarrow> tc_step (c, k) Begin (c, k)"
| finish: "tc_step (c, Suc k) Finish (finishLocked c, k)"
| disable: "\<not> tc_stopped c \<Longrightarrow> tc_step (c, k) Disable (do_disable c, k)"
| suspend: "\<not> tc_stopped c \<Longrightarrow> tc_step (c, k) (Suspend b) (do_suspend b c, k)"
| late: "tc_stopped c \<Longrightarrow> e = Disable \<or> e = Suspend b \<Longrightarrow> tc_step (c, k) e (c, k)"
| close_start: "\<not> tc_closed c \<Longrightarrow> tc_step (c, k) CloseStart (close_start c, k)"
| stop: "tc_closed c \<Longrightarrow> tc_step (c, k) Stop (c\<lparr>tc_stopped := True\<rparr>, k)"
| close_end: "tc_stopped c \<Longrightarrow> tc_step (c, k) CloseEnd (close_end c, k)"

inductive tc_run :: "controller \<times> nat \<Rightarrow> tc_event list \<Rightarrow> controller \<times> nat \<Rightarrow> bool" for x where
  none: "tc_run x [] x"
| step: "tc_run x es y \<Longrightarrow> tc_step y e z \<Longrightarrow> tc_run x (es @ [e]) z"

section \<open>The invariant\<close>

text \<open>Byte \<open>b\<close> arrived at a moment of the run when a transfer was running.\<close>

definition arrived_during :: "controller \<times> nat \<Rightarrow> nat \<Rightarrow> tc_event list \<Rightarrow> bool" where
  "arrived_during x b es \<longleftrightarrow> (\<exists>pre post y. es = pre @ Arrive b # post \<and> tc_run x pre y \<and> 0 < snd y)"

lemma arrived_during_append: "arrived_during x b es \<Longrightarrow> arrived_during x b (es @ [e])"
  unfolding arrived_during_def by force

definition tc_inv :: "controller \<times> nat \<Rightarrow> tc_event list \<Rightarrow> controller \<times> nat \<Rightarrow> bool" where
  "tc_inv x es y \<longleftrightarrow>
     (case y of (c, k) \<Rightarrow>
        tc_active c = int k \<and>
        (tc_interrupted c \<longrightarrow> 0 < k \<and> \<not> tc_disabled c \<and> arrived_during x 2 es) \<and>
        (tc_deadlineSet c \<longrightarrow> tc_interrupted c \<and> tc_deadline c) \<and>
        (tc_expired c \<longleftrightarrow> tc_deadlineSet c) \<and>
        (Disable \<in> set es \<longrightarrow> tc_disabled c \<or> tc_stopped c) \<and>
        (0 < k \<longrightarrow> (\<forall>q. tc_signals c = Some q \<longrightarrow> (\<forall>b \<in> set q. arrived_during x b es))))"

lemma tc_inv_append: "tc_inv x es y \<Longrightarrow> e \<noteq> Disable \<Longrightarrow> tc_inv x (es @ [e]) y"
  by (cases y) (auto simp: tc_inv_def intro: arrived_during_append)

lemma tc_inv_step:
  assumes "tc_run x es y" and "tc_step y e z" and "tc_inv x es y"
  shows "tc_inv x (es @ [e]) z"
  using assms(2)
proof (cases rule: tc_step.cases)
  case (arrive c q k b)
  have "arrived_during x b (es @ [e])" if "0 < k"
    unfolding arrived_during_def using assms(1) arrive that by force
  then show ?thesis using tc_inv_append [OF assms(3), of e] arrive by (auto simp: tc_inv_def)
next
  case (signal c b q k ok)
  then show ?thesis using tc_inv_append [OF assms(3), of e] by (auto simp: tc_inv_def tc_interrupt_def Let_def)
next
  case (start c accepted c' k)
  then show ?thesis
    using tc_inv_append [OF assms(3), of e] by (auto simp: tc_inv_def do_begin_def Let_def split: if_splits)
next
  case (finish c k)
  then show ?thesis
    using tc_inv_append [OF assms(3), of e] by (auto simp: tc_inv_def finishLocked_def clearDeadlineLocked_def Let_def)
next
  case (disable c k)
  then show ?thesis
    using assms(3) by (auto simp: tc_inv_def do_disable_def clearDeadlineLocked_def intro: arrived_during_append)
next
  case (late c b k)
  then show ?thesis using assms(3) by (auto simp: tc_inv_def intro: arrived_during_append)
next
  case (close_end c k)
  then show ?thesis
    using tc_inv_append [OF assms(3), of e] by (auto simp: tc_inv_def close_end_def clearDeadlineLocked_def)
qed (use tc_inv_append [OF assms(3), of e] in \<open>auto simp: tc_inv_def do_suspend_def close_start_def\<close>)

lemma tc_inv_run: "tc_run (newController signals deadline, 0) es y \<Longrightarrow> tc_inv (newController signals deadline, 0) es y"
proof (induction rule: tc_run.induct)
  case none
  then show ?case by (simp add: tc_inv_def newController_def)
next
  case (step es y e z)
  then show ?case by (blast intro: tc_inv_step)
qed

section \<open>Property\<close>

text \<open>C22: Interrupts of file transfers. Whenever a transfer counts as interrupted, a transfer is running and an
  interrupt byte (2) arrived while transfers were running: bytes that came while the shell was idle never stop a
  later transfer. The connection's write deadline is in the past only then, so once the last transfer has finished the
  shell can write again; after a command line with background work nothing is interrupted any more while the controller runs.
  The count of active transfers is the number of transfers begun and not finished.\<close>

theorem transfer_interrupts:
  assumes "tc_run (newController signals deadline, 0) es (c, k)"
  shows "tc_active c = int k \<and>
    (tc_interrupted c \<longrightarrow> 0 < k \<and>
       (\<exists>pre post y. es = pre @ Arrive 2 # post \<and> tc_run (newController signals deadline, 0) pre y \<and> 0 < snd y)) \<and>
    (tc_expired c \<longrightarrow> tc_interrupted c) \<and>
    (k = 0 \<longrightarrow> \<not> tc_expired c \<and> \<not> interruptedNow True c) \<and>
    (Disable \<in> set es \<and> \<not> tc_stopped c \<longrightarrow> \<not> tc_interrupted c)"
  using tc_inv_run [OF assms] by (auto simp: tc_inv_def arrived_during_def interruptedNow_def)

text \<open>A byte that was waiting is dropped when a transfer begins; the next one interrupts it.\<close>

theorem transfer_interrupts_witness:
  "\<exists>c. tc_run (newController True True, 0) [Arrive 2, Begin, Arrive 2, Read True] (c, 1) \<and> tc_expired c \<and> tc_active c = 1 \<and>
     (\<exists>pre post y. [Arrive 2, Begin, Arrive 2, Read True] = pre @ Arrive 2 # post \<and>
        tc_run (newController True True, 0) pre y \<and> 0 < snd y)"
proof -
  let ?c0 = "newController True True"
  define c2 where "c2 = ?c0\<lparr>tc_active := 1\<rparr>"
  define c4 where "c4 = c2\<lparr>tc_interrupted := True, tc_expired := True, tc_deadlineSet := True\<rparr>"
  have s1: "tc_step (?c0, 0) (Arrive 2) (?c0\<lparr>tc_signals := Some [2]\<rparr>, 0)"
    using tc_step.arrive [of ?c0 "[]" 0 2] by (simp add: newController_def)
  have s2: "tc_step (?c0\<lparr>tc_signals := Some [2]\<rparr>, 0) Begin (c2, 1)"
    using tc_step.start [of "?c0\<lparr>tc_signals := Some [2]\<rparr>" True c2 0] by (simp add: newController_def do_begin_def c2_def)
  have s3: "tc_step (c2, 1) (Arrive 2) (c2\<lparr>tc_signals := Some [2]\<rparr>, 1)"
    using tc_step.arrive [of c2 "[]" 1 2] by (simp add: newController_def c2_def)
  have s4: "tc_step (c2\<lparr>tc_signals := Some [2]\<rparr>, 1) (Read True) (c4, 1)"
    using tc_step.signal [of "c2\<lparr>tc_signals := Some [2]\<rparr>" 2 "[]" 1 True]
    by (simp add: newController_def c2_def c4_def tc_interrupt_def)
  have "tc_run (?c0, 0) ((([] @ [Arrive 2]) @ [Begin]) @ [Arrive 2] @ [Read True]) (c4, 1)"
    using tc_run.step [OF tc_run.step [OF tc_run.step [OF tc_run.step [OF tc_run.none s1] s2] s3] s4] by simp
  then have run: "tc_run (?c0, 0) [Arrive 2, Begin, Arrive 2, Read True] (c4, 1)" by simp
  have "tc_interrupted c4 \<and> tc_expired c4" by (simp add: c4_def)
  with transfer_interrupts [OF run] run show ?thesis by auto
qed

end
