(* ===== verification/Shell_Env.thy ===== *)
theory Shell_Env
  imports Go_Strings Efs
begin

text \<open>
  What the commands of the shell inst runs share (src/internal/instcmd/instcmd.go
  and shell.go): the tree they read, the session's working directory, and how an
  operand becomes a path of the tree. \<open>e_asked\<close> records every path given to
  the tree. An error of the tree is its text.
\<close>

section \<open>Model\<close>

record inst_File =
  if_ReadAt :: reader_at
  if_Size :: int

record FileInfo =
  in_Ino :: u64
  in_IsDir :: bool
  in_Perm :: u32
  in_Nlink :: int
  in_UID :: u32
  in_GID :: u32
  in_Size :: int
  in_Mtime :: "int option"

record FileSystem =
  fsys_Open :: "bytes \<Rightarrow> bytes + inst_File"
  fsys_ReadDir :: "bytes \<Rightarrow> bytes + bytes list"
  fsys_Stat :: "bytes \<Rightarrow> bytes + FileInfo"

record shellEnv =
  e_cwd :: bytes
  e_refused :: bool
  e_asked :: "bytes list"

definition newShellEnv :: shellEnv where
  "newShellEnv = \<lparr>e_cwd = [slash], e_refused = False, e_asked = []\<rparr>"

definition ask :: "bytes \<Rightarrow> shellEnv \<Rightarrow> shellEnv" where
  "ask p env = env\<lparr>e_asked := e_asked env @ [p]\<rparr>"

definition refuse :: "shellEnv \<Rightarrow> shellEnv" where
  "refuse env = env\<lparr>e_refused := True\<rparr>"

definition shell_resolve :: "shellEnv \<Rightarrow> bytes \<Rightarrow> bytes" where
  "shell_resolve env p =
     (let p = (if p = [] then [dot] else p);
          p = (if IsAbs p then p else e_cwd env @ [slash] @ p)
      in path_Clean p)"

definition fsPath :: "shellEnv \<Rightarrow> bytes \<Rightarrow> bytes" where
  "fsPath env p = trim_prefix slash (shell_resolve env p)"

text \<open>\<open>strings.TrimSuffix\<close> with one slash.\<close>

definition trim_suffix :: "byte \<Rightarrow> bytes \<Rightarrow> bytes" where
  "trim_suffix c p = (if p \<noteq> [] \<and> List.last p = c then butlast p else p)"

text \<open>What a command did: its status, and what it wrote, line by line, to its output and to standard error.\<close>

record report =
  rp_status :: nat
  rp_out :: "bytes list"
  rp_err :: "bytes list"
  rp_env :: shellEnv

section \<open>Paths stay in the tree\<close>

definition clean_rel :: "bytes \<Rightarrow> bool" where
  "clean_rel p \<longleftrightarrow> p = [] \<or> (\<forall>e \<in> set (split_on slash p). plain_part e)"

definition clean_abs :: "bytes \<Rightarrow> bool" where
  "clean_abs p \<longleftrightarrow> (\<exists>ps. p = slash # join_with [slash] ps \<and> (\<forall>e \<in> set ps. plain_part e))"

lemma clean_rooted:
  assumes "\<forall>e \<in> set es. slash \<notin> set e" and "\<forall>e \<in> set out. plain_part e"
  shows "\<forall>e \<in> set (fold (clean_step True) es out). plain_part e"
  using assms
proof (induction es arbitrary: out)
  case (Cons e es)
  have "\<forall>e \<in> set (clean_step True e out). plain_part e"
    using Cons.prems by (auto simp: clean_step_def plain_part_def dest: in_set_butlastD)
  then show ?case using Cons by simp
qed simp

lemma path_Clean_abs: "IsAbs p \<Longrightarrow> clean_abs (path_Clean p)"
  using clean_rooted [of "split_on slash p" "[]"] split_on_parts [of _ slash p]
  by (auto simp: clean_abs_def path_Clean_def Let_def)

lemma clean_abs_IsAbs: "clean_abs p \<Longrightarrow> IsAbs p"
  by (auto simp: clean_abs_def IsAbs_def)

lemma resolve_clean: "IsAbs (e_cwd env) \<Longrightarrow> clean_abs (shell_resolve env p)"
  unfolding shell_resolve_def Let_def by (rule path_Clean_abs) (auto simp: IsAbs_def)

lemma trim_clean: "clean_abs p \<Longrightarrow> clean_rel (trim_prefix slash p)"
proof -
  assume "clean_abs p"
  then obtain ps where p: "p = slash # join_with [slash] ps" and ps: "\<forall>e \<in> set ps. plain_part e"
    by (auto simp: clean_abs_def)
  show ?thesis
  proof (cases "ps = []")
    case False
    then have "split_on slash (join_with [slash] ps) = ps" using ps by (intro split_join) (auto simp: plain_part_def)
    then show ?thesis using p ps by (simp add: clean_rel_def trim_prefix_def)
  qed (simp add: p clean_rel_def trim_prefix_def)
qed

lemma fsPath_clean: "IsAbs (e_cwd env) \<Longrightarrow> clean_rel (fsPath env p)"
  unfolding fsPath_def by (intro trim_clean resolve_clean)

text \<open>A name listed in a directory gives a path below it.\<close>

lemma child_clean:
  assumes "clean_abs p" and "plain_part n"
  shows "clean_rel (trim_prefix slash (trim_suffix slash p @ [slash] @ n))"
proof -
  obtain ps where p: "p = slash # join_with [slash] ps" and ps: "\<forall>e \<in> set ps. plain_part e"
    using assms(1) by (auto simp: clean_abs_def)
  have n: "split_on slash n = [n]" using assms(2) split_join [of "[n]" slash] by (simp add: plain_part_def)
  show ?thesis
  proof (cases "ps = []")
    case True
    then show ?thesis using p n assms(2) by (simp add: trim_suffix_def trim_prefix_def clean_rel_def)
  next
    case False
    obtain qs b where b: "ps = qs @ [b]" using False by (metis rev_exhaust)
    then have "b \<noteq> []" "slash \<notin> set b" using ps by (auto simp: plain_part_def)
    then have "List.last b \<noteq> slash" by (metis last_in_set)
    moreover have "List.last (join_with [slash] ps) = List.last b" "join_with [slash] ps \<noteq> []"
      using b \<open>b \<noteq> []\<close> join_with_append [of qs "[b]" slash] by (cases "qs = []"; simp)+
    ultimately have "trim_suffix slash p = p" using p by (simp add: trim_suffix_def)
    then have path: "trim_prefix slash (trim_suffix slash p @ [slash] @ n) = join_with [slash] (ps @ [n])"
      using p False join_with_append [of ps "[n]" slash] by (simp add: trim_prefix_def)
    have "split_on slash (join_with [slash] (ps @ [n])) = ps @ [n]"
      using ps assms(2) by (intro split_join) (auto simp: plain_part_def)
    then show ?thesis unfolding path clean_rel_def using ps assms(2) by auto
  qed
qed

end
