(* ===== verification/Shell_Copy.thy ===== *)
theory Shell_Copy
  imports Shell_Env "HOL-Library.Signed_Division" "HOL-Library.Sublist"
begin

text \<open>
  The file transfers of the shell inst runs (src/internal/instcmd/shell.go, shDD, shCat
  and copyFileTransfer; parseSize of instcmd.go), with the readers of package io
  they use. The writer is a \<open>sink\<close>: Write, Flush and the check for an interrupt are
  functions of its state, so writes may fail and an interrupt may come at any of the
  points where the code looks for one. int64 arithmetic on operands wraps. The
  loops carry fuel, the number of rounds they may take; the largest slice
  \<open>make\<close> can allocate is a parameter.
\<close>

section \<open>Model: readers\<close>

type_synonym 's rdfun = "nat \<Rightarrow> 's \<Rightarrow> (unit, bytes \<times> io_error option \<times> 's) outcome"

text \<open>\<open>io.SectionReader\<close>: its state is the offset and the limit.\<close>

definition NewSectionReader :: "int \<Rightarrow> int \<Rightarrow> int \<times> int" where
  "NewSectionReader off n = (off, if off \<le> wrap64 (2 ^ 63 - 1 - n) then wrap64 (n + off) else 2 ^ 63 - 1)"

definition section_Read :: "reader_at \<Rightarrow> (int \<times> int) rdfun" where
  "section_Read f n = (\<lambda>(off, lim).
     if off \<ge> lim then Ok ([], Some EOF, (off, lim))
     else
       let k = (if int n > lim - off then nat (lim - off) else n);
           (b, e) = f off k
       in Ok (b, e, (off + int (length b), lim)))"

definition limit_Read :: "'s rdfun \<Rightarrow> (int \<times> 's) rdfun" where
  "limit_Read rd n = (\<lambda>(lim, s).
     if lim \<le> 0 then Ok ([], Some EOF, (lim, s))
     else
       let k = (if int n > lim then nat lim else n)
       in and_then (rd k s) (\<lambda>(b, e, s'). Ok (b, e, (lim - int (length b), s'))))"

text \<open>\<open>io.ReadFull\<close> of \<open>n\<close> more bytes after \<open>acc\<close>.\<close>

fun readFull :: "nat \<Rightarrow> 's rdfun \<Rightarrow> bytes \<Rightarrow> 's rdfun" where
  "readFull fuel rd acc n s =
     (if n = 0 then Ok (acc, None, s)
      else
        case fuel of
          0 \<Rightarrow> Diverge
        | Suc fuel \<Rightarrow>
            and_then (rd n s) (\<lambda>(b, e, s').
              if length b \<ge> n then Ok (acc @ b, None, s')
              else
                case e of
                  None \<Rightarrow> readFull fuel rd (acc @ b) (n - length b) s'
                | Some err \<Rightarrow> Ok (acc @ b, Some (if err = EOF \<and> acc @ b \<noteq> [] then UnexpectedEOF else err), s')))"

section \<open>Model: copying\<close>

record 'w sink =
  sk_Write :: "bytes \<Rightarrow> 'w \<Rightarrow> (nat \<times> nat option) \<times> 'w"
  sk_Flush :: "'w \<Rightarrow> nat option \<times> 'w"
  sk_poll :: "'w \<Rightarrow> bool \<times> 'w"

datatype copy_err = WriteFailed nat | ShortWrite | ClosedPipe | SourceErr io_error

text \<open>How a round ends: go on, stop normally, or fail.\<close>

datatype copy_end = Copied | CopyFailed copy_err

fun copyFileTransfer :: "nat \<Rightarrow> 'w sink \<Rightarrow> 's rdfun \<Rightarrow> 's \<Rightarrow> 'w \<Rightarrow> (unit, copy_end \<times> 'w) outcome" where
  "copyFileTransfer 0 sk rd s w = Diverge"
| "copyFileTransfer (Suc fuel) sk rd s w =
     (case sk_poll sk w of
        (True, w) \<Rightarrow> Ok (CopyFailed ClosedPipe, w)
      | (False, w) \<Rightarrow>
          and_then (rd 32768 s) (\<lambda>(b, err, s).
            let after = (\<lambda>w.
                  case err of
                    Some EOF \<Rightarrow>
                      (case sk_Flush sk w of
                         (None, w) \<Rightarrow> Ok (Copied, w)
                       | (Some e, w) \<Rightarrow> Ok (CopyFailed (WriteFailed e), w))
                  | Some e \<Rightarrow> Ok (CopyFailed (SourceErr e), w)
                  | None \<Rightarrow> copyFileTransfer fuel sk rd s w)
            in if b = [] then after w
               else
                 case sk_Write sk b w of
                   ((written, Some e), w) \<Rightarrow> Ok (CopyFailed (WriteFailed e), w)
                 | ((written, None), w) \<Rightarrow>
                     (case sk_poll sk w of
                        (True, w) \<Rightarrow> Ok (CopyFailed ClosedPipe, w)
                      | (False, w) \<Rightarrow>
                          if written \<noteq> length b then Ok (CopyFailed ShortWrite, w) else after w)))"

datatype cmd_end = Exit nat | Failed copy_err

text \<open>Why dd refuses its operands; \<open>DDWrite\<close> and \<open>DDNotSupported\<close> are refusals by policy.\<close>

datatype dd_refusal = DDOperand bytes | DDSize bytes bytes | DDValue bytes bytes | DDWrite | DDNotSupported bytes

datatype diag = Text bytes | NoOpen bytes bytes bytes | DDRefused dd_refusal | DDRead io_error | DDSkip io_error

record 'w copied =
  cp_end :: cmd_end
  cp_err :: "diag list"
  cp_env :: shellEnv
  cp_done :: "(int \<times> int) list"
  cp_w :: 'w

abbreviation copy_stop :: "cmd_end \<Rightarrow> diag list \<Rightarrow> shellEnv \<Rightarrow> (int \<times> int) list \<Rightarrow> 'w \<Rightarrow> 'w copied" where
  "copy_stop e msgs env moved w \<equiv> \<lparr>cp_end = e, cp_err = msgs, cp_env = env, cp_done = moved, cp_w = w\<rparr>"

text \<open>\<open>cat\<close> of files, in order; \<open>cp_done\<close> lists the ranges reported as transferred.\<close>

fun cat_files :: "nat \<Rightarrow> 'w sink \<Rightarrow> FileSystem \<Rightarrow> bytes list \<Rightarrow> shellEnv \<Rightarrow> (int \<times> int) list \<Rightarrow> 'w \<Rightarrow> (unit, 'w copied) outcome" where
  "cat_files fuel sk fsys [] env moved w = Ok (copy_stop (Exit 0) [] env moved w)"
| "cat_files fuel sk fsys (p # ps) env moved w =
     (let path = fsPath env p; env = ask path env in
      case fsys_Open fsys path of
        Inl e \<Rightarrow> Ok (copy_stop (Exit 1) [NoOpen (str ''cat'') p e] env moved w)
      | Inr f \<Rightarrow>
          and_then (copyFileTransfer fuel sk (section_Read (if_ReadAt f)) (NewSectionReader 0 (if_Size f)) w) (\<lambda>(r, w).
          case sk_poll sk w of
            (True, w) \<Rightarrow> Ok (copy_stop (Exit 130) [] env moved w)
          | (False, w) \<Rightarrow>
              (case r of
                 CopyFailed e \<Rightarrow> Ok (copy_stop (Failed e) [] env moved w)
               | Copied \<Rightarrow> cat_files fuel sk fsys ps env (moved @ [(0, if_Size f)]) w)))"

text \<open>\<open>io.Copy\<close> from standard input, whose errors cat ignores.\<close>

fun io_Copy :: "nat \<Rightarrow> 'w sink \<Rightarrow> 's rdfun \<Rightarrow> 's \<Rightarrow> 'w \<Rightarrow> (unit, 's \<times> 'w) outcome" where
  "io_Copy 0 sk rd s w = Diverge"
| "io_Copy (Suc fuel) sk rd s w =
     and_then (rd 32768 s) (\<lambda>(b, err, s).
       let (failed, w) = (if b = [] then (False, w)
                          else case sk_Write sk b w of ((written, e), w) \<Rightarrow> (e \<noteq> None \<or> written \<noteq> length b, w))
       in if failed \<or> err \<noteq> None then Ok (s, w) else io_Copy fuel sk rd s w)"

definition shCat :: "nat \<Rightarrow> 'w sink \<Rightarrow> FileSystem \<Rightarrow> 's rdfun \<Rightarrow> 's \<Rightarrow> bytes list \<Rightarrow> shellEnv \<Rightarrow> 'w \<Rightarrow> (unit, 'w copied) outcome" where
  "shCat fuel sk fsys rd stdin args env w =
     (if args = [] then and_then (io_Copy fuel sk rd stdin w) (\<lambda>(s, w). Ok (copy_stop (Exit 0) [] env [] w))
      else cat_files fuel sk fsys args env [] w)"

section \<open>Model: dd\<close>

definition parseSize :: "bytes \<Rightarrow> int option" where
  "parseSize s =
     (let (mult, s) =
            (if s \<noteq> [] \<and> List.last s = 0x6b then (1024, butlast s)
             else if s \<noteq> [] \<and> List.last s = 0x62 then (512, butlast s)
             else if s \<noteq> [] \<and> List.last s = 0x77 then (2, butlast s)
             else if s \<noteq> [] \<and> List.last s = 0x6d then (1024 * 1024, butlast s)
             else (1, s))
      in case ParseInt s of
           None \<Rightarrow> None
         | Some n \<Rightarrow> if n \<le> 0 then None else Some (wrap64 (n * mult)))"

record dd_opts =
  dd_file :: bytes
  dd_bs :: int
  dd_ibs :: int
  dd_skip :: int
  dd_count :: "int option"

definition dd_default :: dd_opts where
  "dd_default = \<lparr>dd_file = [], dd_bs = -1, dd_ibs = 512, dd_skip = 0, dd_count = None\<rparr>"

definition nonneg :: "bytes \<Rightarrow> int option" where
  "nonneg v = (case ParseInt v of None \<Rightarrow> None | Some n \<Rightarrow> if n < 0 then None else Some n)"

definition dd_operand :: "bytes \<Rightarrow> dd_opts \<Rightarrow> dd_refusal + dd_opts" where
  "dd_operand a opts =
     (if 0x3d \<notin> set a then Inl (DDOperand a)
      else
        let k = takeWhile (\<lambda>c. c \<noteq> 0x3d) a; v = tl (dropWhile (\<lambda>c. c \<noteq> 0x3d) a) in
        if k = str ''if'' then Inr (opts\<lparr>dd_file := v\<rparr>)
        else if k = str ''of'' then Inl DDWrite
        else if k = str ''bs'' then
          (case parseSize v of None \<Rightarrow> Inl (DDSize k v) | Some n \<Rightarrow> Inr (opts\<lparr>dd_bs := n\<rparr>))
        else if k = str ''ibs'' then
          (case parseSize v of None \<Rightarrow> Inl (DDSize k v) | Some n \<Rightarrow> Inr (opts\<lparr>dd_ibs := n\<rparr>))
        else if k = str ''obs'' then
          (case parseSize v of None \<Rightarrow> Inl (DDSize k v) | Some n \<Rightarrow> Inr opts)
        else if k = str ''skip'' \<or> k = str ''iseek'' then
          (case nonneg v of None \<Rightarrow> Inl (DDValue k v) | Some n \<Rightarrow> Inr (opts\<lparr>dd_skip := n\<rparr>))
        else if k = str ''seek'' \<or> k = str ''oseek'' then
          (case nonneg v of None \<Rightarrow> Inl (DDValue k v) | Some n \<Rightarrow> Inr opts)
        else if k = str ''count'' then
          (case nonneg v of None \<Rightarrow> Inl (DDValue k v) | Some n \<Rightarrow> Inr (opts\<lparr>dd_count := Some n\<rparr>))
        else Inl (DDNotSupported k))"

fun dd_operands :: "bytes list \<Rightarrow> dd_opts \<Rightarrow> dd_refusal + dd_opts" where
  "dd_operands [] opts = Inr opts"
| "dd_operands (a # as) opts = (case dd_operand a opts of Inl e \<Rightarrow> Inl e | Inr opts \<Rightarrow> dd_operands as opts)"

record dd_acc =
  da_full :: int
  da_partial :: int
  da_copied :: int

text \<open>The copying loop of dd with a buffer of \<open>k\<close> bytes. \<open>Inl\<close> is an early return, \<open>Inr\<close> the end of the loop.\<close>

fun dd_loop :: "nat \<Rightarrow> 'w sink \<Rightarrow> 's rdfun \<Rightarrow> int \<Rightarrow> nat \<Rightarrow> dd_acc \<Rightarrow> 's \<Rightarrow> 'w \<Rightarrow>
    (unit, (cmd_end \<times> diag list + dd_acc) \<times> 'w) outcome" where
  "dd_loop 0 sk rd ibs k acc s w = Diverge"
| "dd_loop (Suc fuel) sk rd ibs k acc s w =
     (case sk_poll sk w of
        (True, w) \<Rightarrow> Ok (Inl (Exit 130, []), w)
      | (False, w) \<Rightarrow>
          and_then (readFull (Suc k) rd [] k s) (\<lambda>(b, err, s).
            let after = (\<lambda>acc w.
                  if err = Some EOF \<or> err = Some UnexpectedEOF then Ok (Inr acc, w)
                  else
                    case err of
                      Some e \<Rightarrow> Ok (Inl (Exit 1, [DDRead e]), w)
                    | None \<Rightarrow> dd_loop fuel sk rd ibs k acc s w)
            in if b = [] then after acc w
               else
                 case sk_Write sk b w of
                   ((written, Some e), w) \<Rightarrow>
                     (case sk_poll sk w of
                        (True, w) \<Rightarrow> Ok (Inl (Exit 130, []), w)
                      | (False, w) \<Rightarrow> Ok (Inl (Failed (WriteFailed e), []), w))
                 | ((written, None), w) \<Rightarrow>
                     (case sk_poll sk w of
                        (True, w) \<Rightarrow> Ok (Inl (Exit 130, []), w)
                      | (False, w) \<Rightarrow>
                          if written \<noteq> length b then Ok (Inl (Failed ShortWrite, []), w)
                          else
                            after (acc\<lparr>da_full := da_full acc + int (length b) sdiv ibs, da_copied := da_copied acc + int (length b),
                                       da_partial := da_partial acc + (if int (length b) smod ibs \<noteq> 0 then 1 else 0)\<rparr>) w)))"

definition boolToInt :: "bool \<Rightarrow> int" where
  "boolToInt b = (if b then 1 else 0)"

definition records_text :: "int \<Rightarrow> int \<Rightarrow> bytes" where
  "records_text full p =
     (let n = itoa full @ str ''+'' @ itoa p in n @ str '' records in'' @ [0x0a] @ n @ str '' records out'')"

definition dd_records :: "dd_acc \<Rightarrow> bytes" where
  "dd_records acc = records_text (da_full acc) (boolToInt (da_partial acc > 0))"

text \<open>The size of the buffer; a block size of zero divides by zero, and \<open>make\<close> rejects what it cannot allocate.\<close>

definition dd_bufSize :: "int \<Rightarrow> int \<Rightarrow> (unit, nat) outcome" where
  "dd_bufSize maxAlloc ibs =
     (if ibs < 32768 \<and> ibs = 0 then Panic
      else
        let n = (if ibs < 32768 then wrap64 ((32768 sdiv ibs) * ibs) else ibs)
        in if n < 0 \<or> n > maxAlloc then Panic else Ok (nat n))"

definition dd_copy :: "nat \<Rightarrow> int \<Rightarrow> 'w sink \<Rightarrow> 's rdfun \<Rightarrow> int \<Rightarrow> 's \<Rightarrow> 'w \<Rightarrow> (unit, (cmd_end \<times> diag list + dd_acc) \<times> 'w) outcome" where
  "dd_copy fuel maxAlloc sk rd ibs s w =
     and_then (dd_bufSize maxAlloc ibs) (\<lambda>k.
     and_then (dd_loop fuel sk rd ibs k \<lparr>da_full = 0, da_partial = 0, da_copied = 0\<rparr> s w) (\<lambda>(r, w).
     case r of
       Inl e \<Rightarrow> Ok (Inl e, w)
     | Inr acc \<Rightarrow>
         (case sk_Flush sk w of
            (Some e, w) \<Rightarrow>
              (case sk_poll sk w of
                 (True, w) \<Rightarrow> Ok (Inl (Exit 130, []), w)
               | (False, w) \<Rightarrow> Ok (Inl (Failed (WriteFailed e), []), w))
          | (None, w) \<Rightarrow> Ok (Inr acc, w))))"


text \<open>\<open>io.CopyN\<close> to \<open>io.Discard\<close>: the error other than end of file.\<close>

fun discard :: "nat \<Rightarrow> 's rdfun \<Rightarrow> 's \<Rightarrow> (unit, io_error option \<times> 's) outcome" where
  "discard 0 rd s = Diverge"
| "discard (Suc fuel) rd s =
     and_then (rd 8192 s) (\<lambda>(b, err, s).
       case err of
         None \<Rightarrow> discard fuel rd s
       | Some EOF \<Rightarrow> Ok (None, s)
       | Some e \<Rightarrow> Ok (Some e, s))"

definition dd_finish :: "shellEnv \<Rightarrow> (int \<times> int) list \<Rightarrow> (cmd_end \<times> diag list + dd_acc) \<times> 'w \<Rightarrow> 'w copied" where
  "dd_finish env moved r =
     (case r of
        (Inl (e, msgs), w) \<Rightarrow> copy_stop e msgs env [] w
      | (Inr acc, w) \<Rightarrow> copy_stop (Exit 0) [Text (dd_records acc)] env (map (\<lambda>(off, _). (off, da_copied acc)) moved) w)"

definition dd_file_copy :: "nat \<Rightarrow> int \<Rightarrow> 'w sink \<Rightarrow> inst_File \<Rightarrow> int \<Rightarrow> int \<Rightarrow> int option \<Rightarrow> shellEnv \<Rightarrow> 'w \<Rightarrow> (unit, 'w copied) outcome" where
  "dd_file_copy fuel maxAlloc sk f ibs skip cnt env w =
     (let off = wrap64 (skip * ibs);
          size = wrap64 (if_Size f - off);
          src = NewSectionReader off (if size < 0 then 0 else size)
      in and_then
           (case cnt of
              None \<Rightarrow> dd_copy fuel maxAlloc sk (section_Read (if_ReadAt f)) ibs src w
            | Some n \<Rightarrow> dd_copy fuel maxAlloc sk (limit_Read (section_Read (if_ReadAt f))) ibs (wrap64 (n * ibs), src) w)
           (\<lambda>r. Ok (dd_finish env [(off, 0)] r)))"

definition dd_stdin_copy :: "nat \<Rightarrow> int \<Rightarrow> 'w sink \<Rightarrow> 's rdfun \<Rightarrow> 's \<Rightarrow> int \<Rightarrow> int \<Rightarrow> int option \<Rightarrow> shellEnv \<Rightarrow> 'w \<Rightarrow> (unit, 'w copied) outcome" where
  "dd_stdin_copy fuel maxAlloc sk rd s ibs skip cnt env w =
     and_then (if skip > 0 then discard fuel (limit_Read rd) (wrap64 (skip * ibs), s) else Ok (None, (0, s))) (\<lambda>(e, _, s).
     case e of
       Some e \<Rightarrow> Ok (copy_stop (Exit 1) [DDSkip e] env [] w)
     | None \<Rightarrow>
         and_then
           (case cnt of
              None \<Rightarrow> dd_copy fuel maxAlloc sk rd ibs s w
            | Some n \<Rightarrow> dd_copy fuel maxAlloc sk (limit_Read rd) ibs (wrap64 (n * ibs), s) w)
           (\<lambda>r. Ok (dd_finish env [] r)))"

definition shDD :: "nat \<Rightarrow> int \<Rightarrow> 'w sink \<Rightarrow> FileSystem \<Rightarrow> 's rdfun \<Rightarrow> 's \<Rightarrow> bytes list \<Rightarrow> shellEnv \<Rightarrow> 'w \<Rightarrow> (unit, 'w copied) outcome" where
  "shDD fuel maxAlloc sk fsys rd stdin args env w =
     (case dd_operands args dd_default of
        Inl e \<Rightarrow>
          Ok (copy_stop (Exit 1) [DDRefused e] (case e of DDWrite \<Rightarrow> refuse env | DDNotSupported k \<Rightarrow> refuse env | _ \<Rightarrow> env) [] w)
      | Inr opts \<Rightarrow>
          let ibs = (if dd_bs opts > 0 then dd_bs opts else dd_ibs opts) in
          if dd_file opts \<noteq> [] then
            (let path = fsPath env (dd_file opts); env = ask path env in
             case fsys_Open fsys path of
               Inl e \<Rightarrow> Ok (copy_stop (Exit 1) [NoOpen (str ''dd'') (dd_file opts) e] env [] w)
             | Inr f \<Rightarrow> dd_file_copy fuel maxAlloc sk f ibs (dd_skip opts) (dd_count opts) env w)
          else dd_stdin_copy fuel maxAlloc sk rd stdin ibs (dd_skip opts) (dd_count opts) env w)"

section \<open>Sources that end\<close>

text \<open>
  What the copying loops rely on of a reader: it delivers \<open>content\<close> and then end of file.
\<close>

locale eof_source =
  fixes rd :: "'s rdfun" and content :: "'s \<Rightarrow> bytes" and ok :: "'s \<Rightarrow> bool"
  assumes src_read: "ok s \<Longrightarrow> 0 < n \<Longrightarrow> \<exists>b e s'. rd n s = Ok (b, e, s') \<and> ok s' \<and> length b \<le> n \<and> content s = b @ content s' \<and>
    (e = None \<and> b \<noteq> [] \<or> e = Some EOF \<and> content s' = [])"
begin

lemma readFull_eof:
  assumes "ok s" and "n \<le> fuel"
  shows "\<exists>s'. readFull fuel rd acc n s =
      Ok (acc @ take n (content s),
          if n \<le> length (content s) then None else if acc @ content s = [] then Some EOF else Some UnexpectedEOF, s') \<and>
    ok s' \<and> content s' = drop n (content s)"
  using assms
proof (induction fuel arbitrary: acc n s)
  case (Suc fuel)
  show ?case
  proof (cases "n = 0")
    case False
    then obtain b e s' where r: "rd n s = Ok (b, e, s')" "ok s'" "length b \<le> n" "content s = b @ content s'"
      "e = None \<and> b \<noteq> [] \<or> e = Some EOF \<and> content s' = []" using src_read [OF Suc.prems(1), of n] by blast
    show ?thesis
    proof (cases "length b = n")
      case True
      then show ?thesis using r False by (auto simp: go_outcome)
    next
      case short: False
      then have lt: "length b < n" using r(3) by simp
      show ?thesis
      proof (cases e)
        case None
        then have "n - length b \<le> fuel" using Suc.prems(2) r(5) by (cases b) auto
        from Suc.IH [OF r(2) this, of "acc @ b"] None r False lt show ?thesis by (auto simp: go_outcome)
      next
        case (Some err)
        then show ?thesis using r False lt by (auto simp: go_outcome)
      qed
    qed
  qed (use Suc.prems in simp)
qed simp

end


text \<open>A reader limited to a number of bytes is such a source, and so is a section of a file that is all there.\<close>

context eof_source
begin

lemma limited: "eof_source (limit_Read rd) (\<lambda>(lim, s). take (nat lim) (content s)) (\<lambda>(lim, s). ok s)"
proof (unfold_locales, goal_cases)
  case (1 x n)
  obtain lim s where x: "x = (lim, s)" by fastforce
  have s: "ok s" and n: "0 < n" using 1 x by simp_all
  show ?case
  proof (cases "lim \<le> 0")
    case True
    then show ?thesis using s by (simp add: x limit_Read_def)
  next
    case False
    let ?k = "if int n > lim then nat lim else n"
    have k: "0 < ?k" "?k \<le> n" "?k \<le> nat lim" using False n by auto
    obtain b e s' where r: "rd ?k s = Ok (b, e, s')" "ok s'" "length b \<le> ?k" "content s = b @ content s'"
      "e = None \<and> b \<noteq> [] \<or> e = Some EOF \<and> content s' = []" using src_read [OF s k(1)] by blast
    have run: "limit_Read rd n (lim, s) = Ok (b, e, (lim - int (length b), s'))"
      using False r(1) by (simp add: limit_Read_def)
    have cut: "take (nat lim) (content s) = b @ take (nat (lim - int (length b))) (content s')"
      using r(3,4) k by (simp add: nat_diff_distrib)
    have "length b \<le> n" using r(3) k(2) by simp
    with r(2,5) cut show ?thesis unfolding x run by (intro exI conjI; (rule refl)?) auto
  qed
qed

end

context solid_image
begin

lemma section_source:
  "eof_source (section_Read rd) (\<lambda>(off, lim). take (nat (lim - off)) (drop (nat off) content))
     (\<lambda>(off, lim). 0 \<le> off \<and> (off < lim \<longrightarrow> lim \<le> int (length content)))"
proof (unfold_locales, goal_cases)
  case (1 x n)
  obtain off lim where x: "x = (off, lim)" by fastforce
  have off: "0 \<le> off" and lim: "off < lim \<longrightarrow> lim \<le> int (length content)" and n: "0 < n" using 1 x by simp_all
  define c where "c = (\<lambda>(off, lim). take (nat (lim - off)) (drop (nat off) content))"
  have "\<exists>b e s'. section_Read rd n (off, lim) = Ok (b, e, s') \<and>
      (case s' of (off, lim) \<Rightarrow> 0 \<le> off \<and> (off < lim \<longrightarrow> lim \<le> int (length content))) \<and> length b \<le> n \<and>
      c (off, lim) = b @ c s' \<and> (e = None \<and> b \<noteq> [] \<or> e = Some EOF \<and> c s' = [])"
  proof (cases "off < lim")
    case False
    then show ?thesis using off by (simp add: section_Read_def c_def)
  next
    case True
    define k where "k = (if int n > lim - off then nat (lim - off) else n)"
    have k: "0 < k" "k \<le> n" "nat off + k \<le> length content" "int k \<le> lim - off" using True lim n off by (auto simp: k_def)
    then have "rd off k = (take k (drop (nat off) content), None)" by (intro rd_inside [OF off]) auto
    then have run: "section_Read rd n (off, lim) = Ok (take k (drop (nat off) content), None, (off + int k, lim))"
      using True k by (simp add: section_Read_def Let_def k_def [symmetric])
    have len: "nat (lim - off) = k + nat (lim - (off + int k))" using k(4) by simp
    have "take (nat (lim - off)) (drop (nat off) content) =
        take k (drop (nat off) content) @ take (nat (lim - (off + int k))) (drop k (drop (nat off) content))"
      unfolding len by (rule take_add)
    moreover have "drop k (drop (nat off) content) = drop (nat (off + int k)) content"
      using off by (simp add: nat_add_distrib add.commute)
    ultimately have "c (off, lim) = take k (drop (nat off) content) @ c (off + int k, lim)" by (simp only: c_def prod.case)
    moreover have "take k (drop (nat off) content) \<noteq> []" "length (take k (drop (nat off) content)) \<le> n" using k by auto
    ultimately show ?thesis unfolding run using off lim True by (intro exI conjI; (rule refl)?) auto
  qed
  then show ?case unfolding x c_def by simp
qed

end

interpretation bytes_section: eof_source "section_Read (bytes_ReadAt b)"
  "\<lambda>(off, lim). take (nat (lim - off)) (drop (nat off) b)" "\<lambda>(off, lim). 0 \<le> off \<and> (off < lim \<longrightarrow> lim \<le> int (length b))" for b
  by (rule bytes_image.section_source)


section \<open>The copying loop\<close>

text \<open>
  A sink that records the chunks it was given and counts the checks for an
  interrupt; how writes, flushes and checks turn out are arbitrary functions of that.
\<close>

definition logged :: "(bytes list \<Rightarrow> nat \<times> nat option) \<Rightarrow> (bytes list \<Rightarrow> nat option) \<Rightarrow> (nat \<Rightarrow> bool) \<Rightarrow> (bytes list \<times> nat) sink" where
  "logged ans fl intr =
     \<lparr>sk_Write = (\<lambda>b (h, q). (ans (h @ [b]), (h @ [b], q))), sk_Flush = (\<lambda>(h, q). (fl h, (h, q))),
      sk_poll = (\<lambda>(h, q). (intr q, (h, Suc q)))\<rparr>"

definition reliable :: "(bytes list \<Rightarrow> nat \<times> nat option) \<Rightarrow> (bytes list \<Rightarrow> nat option) \<Rightarrow> (nat \<Rightarrow> bool) \<Rightarrow> bool" where
  "reliable ans fl intr \<longleftrightarrow> (\<forall>h b. ans (h @ [b]) = (length b, None)) \<and> (\<forall>h. fl h = None) \<and> (\<forall>q. \<not> intr q)"

lemma logged_simps [simp]:
  "sk_Write (logged ans fl intr) b (h, q) = (ans (h @ [b]), (h @ [b], q))"
  "sk_Flush (logged ans fl intr) (h, q) = (fl h, (h, q))"
  "sk_poll (logged ans fl intr) (h, q) = (intr q, (h, Suc q))"
  by (simp_all add: logged_def)

definition dd_add :: "int \<Rightarrow> nat \<Rightarrow> dd_acc \<Rightarrow> dd_acc" where
  "dd_add ibs n acc =
     acc\<lparr>da_full := da_full acc + int n div ibs, da_copied := da_copied acc + int n,
         da_partial := da_partial acc + (if int n mod ibs \<noteq> 0 then 1 else 0)\<rparr>"

lemma dd_add_0 [simp]: "dd_add ibs 0 acc = acc"
  by (simp add: dd_add_def)

lemma dd_add_block: "0 < ibs \<Longrightarrow> ibs dvd int k \<Longrightarrow> dd_add ibs n (dd_add ibs k acc) = dd_add ibs (k + n) acc"
proof -
  assume ibs: "0 < ibs" and k: "ibs dvd int k"
  from k have "int (k + n) div ibs = int k div ibs + int n div ibs" "int (k + n) mod ibs = int n mod ibs" "int k mod ibs = 0"
    by (simp_all add: div_plus_div_distrib_dvd_left mod_add_left_eq [symmetric])
  then show ?thesis by (simp add: dd_add_def)
qed

lemma sdiv_pos: "0 < b \<Longrightarrow> int n sdiv b = int n div b" "0 < b \<Longrightarrow> int n smod b = int n mod b"
  by (cases n; simp add: signed_divide_int_def signed_modulo_int_def)+

lemma dd_bufSize_Ok:
  assumes "0 < ibs" and "ibs \<le> maxAlloc" and "32768 \<le> maxAlloc"
  obtains k where "dd_bufSize maxAlloc ibs = Ok k" and "0 < k" and "ibs dvd int k"
proof (cases "ibs < 32768")
  case True
  define n where "n = 32768 div ibs * ibs"
  have "0 < 32768 div ibs" using True assms(1) by (simp add: pos_imp_zdiv_pos_iff)
  moreover have "32768 div ibs * ibs \<le> 32768" using assms(1) using div_mult_mod_eq [of 32768 ibs] pos_mod_sign [of ibs 32768] by linarith
  ultimately have n: "0 < n" "n \<le> 32768" "ibs dvd n" using assms(1) by (simp_all add: n_def)
  have "32768 sdiv ibs = 32768 div ibs" using sdiv_pos(1) [of ibs 32768] assms(1) by simp
  then have "dd_bufSize maxAlloc ibs = Ok (nat n)"
    using True assms n by (simp add: dd_bufSize_def n_def [symmetric] wrap64_def Let_def)
  then show thesis using that n by simp
next
  case False
  then have "dd_bufSize maxAlloc ibs = Ok (nat ibs)" using assms by (simp add: dd_bufSize_def)
  then show thesis using that False by simp
qed

declare dd_loop.simps [simp del]

context eof_source
begin

text \<open>What one round of dd does: the next buffer of the content goes out, or the loop ends.\<close>

lemma dd_round:
  assumes "ok s" and "0 < k" and "0 < ibs"
  obtains s' where "ok s'" and "content s' = drop k (content s)"
    and "dd_loop (Suc fuel) (logged ans fl intr) rd ibs k acc s (h, q) =
      (if intr q then Ok (Inl (Exit 130, []), (h, Suc q))
       else if content s = [] then Ok (Inr acc, (h, Suc q))
       else
         let b = take k (content s) in
         case ans (h @ [b]) of
           (_, Some e) \<Rightarrow> Ok (Inl (if intr (Suc q) then Exit 130 else Failed (WriteFailed e), []), (h @ [b], Suc (Suc q)))
         | (written, None) \<Rightarrow>
             if intr (Suc q) then Ok (Inl (Exit 130, []), (h @ [b], Suc (Suc q)))
             else if written \<noteq> length b then Ok (Inl (Failed ShortWrite, []), (h @ [b], Suc (Suc q)))
             else if k \<le> length (content s)
             then dd_loop fuel (logged ans fl intr) rd ibs k (dd_add ibs k acc) s' (h @ [b], Suc (Suc q))
             else Ok (Inr (dd_add ibs (length (content s)) acc), (h @ [b], Suc (Suc q))))"
proof -
  obtain s' where r: "readFull (Suc k) rd [] k s =
      Ok (take k (content s), if k \<le> length (content s) then None else if content s = [] then Some EOF else Some UnexpectedEOF, s')"
    and s': "ok s'" "content s' = drop k (content s)" using readFull_eof [OF assms(1), of k "Suc k" "[]"] by auto
  have "min (length (content s)) k = (if k \<le> length (content s) then k else length (content s))" by simp
  with assms(2,3) have "dd_loop (Suc fuel) (logged ans fl intr) rd ibs k acc s (h, q) =
      (if intr q then Ok (Inl (Exit 130, []), (h, Suc q))
       else if content s = [] then Ok (Inr acc, (h, Suc q))
       else
         let b = take k (content s) in
         case ans (h @ [b]) of
           (_, Some e) \<Rightarrow> Ok (Inl (if intr (Suc q) then Exit 130 else Failed (WriteFailed e), []), (h @ [b], Suc (Suc q)))
         | (written, None) \<Rightarrow>
             if intr (Suc q) then Ok (Inl (Exit 130, []), (h @ [b], Suc (Suc q)))
             else if written \<noteq> length b then Ok (Inl (Failed ShortWrite, []), (h @ [b], Suc (Suc q)))
             else if k \<le> length (content s)
             then dd_loop fuel (logged ans fl intr) rd ibs k (dd_add ibs k acc) s' (h @ [b], Suc (Suc q))
             else Ok (Inr (dd_add ibs (length (content s)) acc), (h @ [b], Suc (Suc q))))"
    unfolding dd_loop.simps(2) logged_simps prod.case r and_then.simps
    by (cases "intr q"; cases "content s = []")
      (auto simp: Let_def sdiv_pos dd_add_def split: option.split prod.split)
  with s' show thesis by (rule that)
qed


lemma dd_loop_copies:
  assumes "ok s" and "0 < k" and "0 < ibs" and "ibs dvd int k" and "length (content s) < fuel"
  shows "\<exists>r hs q'. dd_loop fuel (logged ans fl intr) rd ibs k acc s (h, q) = Ok (r, (h @ hs, q')) \<and> prefix (concat hs) (content s) \<and>
    (\<forall>acc'. r = Inr acc' \<longrightarrow> concat hs = content s \<and> acc' = dd_add ibs (length (content s)) acc) \<and>
    (\<forall>e m. r = Inl (e, m) \<longrightarrow> e \<noteq> Exit 0) \<and> (reliable ans fl intr \<longrightarrow> (\<exists>acc'. r = Inr acc'))"
  using assms(1,5)
proof (induction fuel arbitrary: acc s h q)
  case (Suc fuel)
  obtain s' where s': "ok s'" "content s' = drop k (content s)"
    and round: "dd_loop (Suc fuel) (logged ans fl intr) rd ibs k acc s (h, q) =
      (if intr q then Ok (Inl (Exit 130, []), (h, Suc q))
       else if content s = [] then Ok (Inr acc, (h, Suc q))
       else
         let b = take k (content s) in
         case ans (h @ [b]) of
           (_, Some e) \<Rightarrow> Ok (Inl (if intr (Suc q) then Exit 130 else Failed (WriteFailed e), []), (h @ [b], Suc (Suc q)))
         | (written, None) \<Rightarrow>
             if intr (Suc q) then Ok (Inl (Exit 130, []), (h @ [b], Suc (Suc q)))
             else if written \<noteq> length b then Ok (Inl (Failed ShortWrite, []), (h @ [b], Suc (Suc q)))
             else if k \<le> length (content s)
             then dd_loop fuel (logged ans fl intr) rd ibs k (dd_add ibs k acc) s' (h @ [b], Suc (Suc q))
             else Ok (Inr (dd_add ibs (length (content s)) acc), (h @ [b], Suc (Suc q))))"
    by (rule dd_round [OF Suc.prems(1) assms(2,3)])
  define b where "b = take k (content s)"
  have pre: "prefix b (content s)" by (simp add: b_def take_is_prefix)
  consider (stop) "intr q" | (empty) "\<not> intr q" "content s = []"
    | (error) e n where "\<not> intr q" "content s \<noteq> []" "ans (h @ [b]) = (n, Some e)"
    | (cut) n where "\<not> intr q" "content s \<noteq> []" "ans (h @ [b]) = (n, None)" "intr (Suc q) \<or> n \<noteq> length b"
    | (final) "\<not> intr q" "content s \<noteq> []" "ans (h @ [b]) = (length b, None)" "\<not> intr (Suc q)" "length (content s) < k"
    | (go) "\<not> intr q" "content s \<noteq> []" "ans (h @ [b]) = (length b, None)" "\<not> intr (Suc q)" "k \<le> length (content s)"
    by (cases "ans (h @ [b])"; cases "snd (ans (h @ [b]))"; fastforce)
  then show ?case
  proof cases
    case stop
    then have "dd_loop (Suc fuel) (logged ans fl intr) rd ibs k acc s (h, q) = Ok (Inl (Exit 130, []), (h @ [], Suc q))"
      by (simp add: round)
    moreover have "\<not> reliable ans fl intr" using stop by (auto simp: reliable_def)
    ultimately show ?thesis by (intro exI conjI) auto
  next
    case empty
    then show ?thesis unfolding round by (intro exI [of _ "Inr acc"] exI [of _ "[]"]) simp
  next
    case error
    then have "dd_loop (Suc fuel) (logged ans fl intr) rd ibs k acc s (h, q) =
        Ok (Inl (if intr (Suc q) then Exit 130 else Failed (WriteFailed e), []), (h @ [b], Suc (Suc q)))"
      by (simp add: round b_def [symmetric] Let_def)
    moreover have "\<not> reliable ans fl intr" using error by (auto simp: reliable_def)
    ultimately show ?thesis using pre by (intro exI conjI) (auto split: if_splits)
  next
    case cut
    then have "\<exists>e. dd_loop (Suc fuel) (logged ans fl intr) rd ibs k acc s (h, q) = Ok (Inl (e, []), (h @ [b], Suc (Suc q))) \<and> e \<noteq> Exit 0"
      by (auto simp: round b_def [symmetric] Let_def)
    moreover have "\<not> reliable ans fl intr" using cut by (auto simp: reliable_def)
    ultimately show ?thesis using pre by auto
  next
    case final
    then have "dd_loop (Suc fuel) (logged ans fl intr) rd ibs k acc s (h, q) =
        Ok (Inr (dd_add ibs (length (content s)) acc), (h @ [b], Suc (Suc q)))"
      by (simp add: round b_def [symmetric] Let_def)
    moreover have "b = content s" using final by (simp add: b_def)
    ultimately show ?thesis by (intro exI conjI) auto
  next
    case go
    then have step: "dd_loop (Suc fuel) (logged ans fl intr) rd ibs k acc s (h, q) =
        dd_loop fuel (logged ans fl intr) rd ibs k (dd_add ibs k acc) s' (h @ [b], Suc (Suc q))"
      by (simp add: round b_def [symmetric] Let_def)
    have "length (content s') < fuel" using s'(2) Suc.prems(2) assms(2) go(2) by (cases "content s") auto
    from Suc.IH [OF s'(1) this, of "dd_add ibs k acc" "h @ [b]" "Suc (Suc q)"]
    obtain r hs q' where ih: "dd_loop fuel (logged ans fl intr) rd ibs k (dd_add ibs k acc) s' (h @ [b], Suc (Suc q)) = Ok (r, ((h @ [b]) @ hs, q'))"
      "prefix (concat hs) (content s')" "\<forall>acc'. r = Inr acc' \<longrightarrow> concat hs = content s' \<and> acc' = dd_add ibs (length (content s')) (dd_add ibs k acc)"
      "\<forall>e m. r = Inl (e, m) \<longrightarrow> e \<noteq> Exit 0" "reliable ans fl intr \<longrightarrow> (\<exists>acc'. r = Inr acc')" by blast
    have whole: "content s = b @ content s'" by (simp add: b_def s'(2))
    have "length (content s) = k + length (content s')" using go(5) s'(2) by simp
    then have add: "dd_add ibs (length (content s')) (dd_add ibs k acc) = dd_add ibs (length (content s)) acc"
      by (simp add: dd_add_block [OF assms(3,4)])
    show ?thesis
      unfolding step using ih add whole by (intro exI [of _ r] exI [of _ "b # hs"] exI [of _ q']) auto
  qed
qed simp


lemma dd_copy_copies:
  assumes "ok s" and "0 < ibs" and "ibs \<le> maxAlloc" and "32768 \<le> maxAlloc" and "length (content s) < fuel"
  shows "\<exists>r hs q'. dd_copy fuel maxAlloc (logged ans fl intr) rd ibs s ([], q) = Ok (r, (hs, q')) \<and> prefix (concat hs) (content s) \<and>
    (\<forall>acc'. r = Inr acc' \<longrightarrow>
       concat hs = content s \<and> acc' = dd_add ibs (length (content s)) \<lparr>da_full = 0, da_partial = 0, da_copied = 0\<rparr>) \<and>
    (\<forall>e m. r = Inl (e, m) \<longrightarrow> e \<noteq> Exit 0) \<and> (reliable ans fl intr \<longrightarrow> (\<exists>acc'. r = Inr acc'))"
proof -
  define acc0 where "acc0 = \<lparr>da_full = 0, da_partial = 0, da_copied = 0\<rparr>"
  obtain k where k: "dd_bufSize maxAlloc ibs = Ok k" "0 < k" "ibs dvd int k" by (rule dd_bufSize_Ok [OF assms(2-4)])
  from dd_loop_copies [OF assms(1) k(2) assms(2) k(3) assms(5), of ans fl intr acc0 "[]" q]
  obtain r hs q' where l: "dd_loop fuel (logged ans fl intr) rd ibs k acc0 s ([], q) = Ok (r, (hs, q'))" "prefix (concat hs) (content s)"
    "\<forall>acc'. r = Inr acc' \<longrightarrow> concat hs = content s \<and> acc' = dd_add ibs (length (content s)) acc0"
    "\<forall>e m. r = Inl (e, m) \<longrightarrow> e \<noteq> Exit 0" "reliable ans fl intr \<longrightarrow> (\<exists>acc'. r = Inr acc')" by auto
  show ?thesis
  proof (cases r)
    case (Inl e)
    then have "dd_copy fuel maxAlloc (logged ans fl intr) rd ibs s ([], q) = Ok (Inl e, (hs, q'))"
      by (simp add: dd_copy_def k(1) acc0_def [symmetric] l(1))
    then show ?thesis using l Inl by auto
  next
    case (Inr acc')
    then have "dd_copy fuel maxAlloc (logged ans fl intr) rd ibs s ([], q) =
        (case fl hs of
           Some e \<Rightarrow> Ok (Inl (if intr q' then Exit 130 else Failed (WriteFailed e), []), (hs, Suc q'))
         | None \<Rightarrow> Ok (Inr acc', (hs, q')))"
      by (simp add: dd_copy_def k(1) acc0_def [symmetric] l(1) split: option.split)
    then show ?thesis using l Inr unfolding acc0_def by (cases "fl hs") (auto simp: reliable_def)
  qed
qed

end

section \<open>Copying a file\<close>

definition dd_range :: "int \<Rightarrow> int \<Rightarrow> int option \<Rightarrow> bytes \<Rightarrow> bytes" where
  "dd_range ibs skip cnt data =
     (case cnt of None \<Rightarrow> drop (nat (skip * ibs)) data | Some n \<Rightarrow> take (nat (n * ibs)) (drop (nat (skip * ibs)) data))"

lemma dd_file_copies:
  assumes f: "solid_image (if_ReadAt f) data" "if_Size f = int (length data)" "int (length data) < 2 ^ 63"
    and ibs: "0 < ibs" "ibs \<le> maxAlloc" "32768 \<le> maxAlloc"
    and skip: "0 \<le> skip" "skip * ibs < 2 ^ 63" and cnt: "\<And>n. cnt = Some n \<Longrightarrow> 0 \<le> n \<and> n * ibs < 2 ^ 63"
    and fuel: "length data < fuel"
  shows "\<exists>c hs q. dd_file_copy fuel maxAlloc (logged ans fl intr) f ibs skip cnt env ([], 0) = Ok c \<and>
    cp_w c = (hs, q) \<and> cp_env c = env \<and> prefix (concat hs) (dd_range ibs skip cnt data) \<and>
    (cp_end c = Exit 0 \<longrightarrow> concat hs = dd_range ibs skip cnt data \<and>
       cp_err c = [Text (records_text (int (length (dd_range ibs skip cnt data)) div ibs)
                           (if int (length (dd_range ibs skip cnt data)) mod ibs = 0 then 0 else 1))] \<and>
       cp_done c = [(skip * ibs, int (length (dd_range ibs skip cnt data)))]) \<and>
    (reliable ans fl intr \<longrightarrow> cp_end c = Exit 0)"
proof -
  define off where "off = skip * ibs"
  define R where "R = dd_range ibs skip cnt data"
  have off: "0 \<le> off" "off < 2 ^ 63" using skip ibs(1) by (simp_all add: off_def)
  then have wrap: "wrap64 off = off" by (simp add: wrap64_id)
  define lim where "lim = max off (int (length data))"
  have size: "wrap64 (if_Size f - off) = int (length data) - off" using f(2,3) off by (simp add: wrap64_id)
  have "NewSectionReader off (if int (length data) - off < 0 then 0 else int (length data) - off) = (off, lim)"
    using off f(3) by (auto simp: NewSectionReader_def lim_def wrap64_id)
  note src = this
  let ?ok = "\<lambda>(o1, l). 0 \<le> o1 \<and> (o1 < l \<longrightarrow> l \<le> int (length data))"
  let ?c = "\<lambda>(o1, l). take (nat (l - o1)) (drop (nat o1) data)"
  note sec = solid_image.section_source [OF f(1)]
  have ok: "?ok (off, lim)" using off by (simp add: lim_def)
  have c: "?c (off, lim) = drop (nat off) data" using off by (simp add: lim_def)
  have "\<exists>r hs q'. (case cnt of
        None \<Rightarrow> dd_copy fuel maxAlloc (logged ans fl intr) (section_Read (if_ReadAt f)) ibs (off, lim) ([], 0)
      | Some n \<Rightarrow> dd_copy fuel maxAlloc (logged ans fl intr) (limit_Read (section_Read (if_ReadAt f))) ibs
          (wrap64 (n * ibs), (off, lim)) ([], 0)) = Ok (r, (hs, q')) \<and> prefix (concat hs) R \<and>
    (\<forall>acc'. r = Inr acc' \<longrightarrow> concat hs = R \<and> acc' = dd_add ibs (length R) \<lparr>da_full = 0, da_partial = 0, da_copied = 0\<rparr>) \<and>
    (\<forall>e m. r = Inl (e, m) \<longrightarrow> e \<noteq> Exit 0) \<and> (reliable ans fl intr \<longrightarrow> (\<exists>acc'. r = Inr acc'))"
  proof (cases cnt)
    case None
    then have "R = drop (nat off) data" by (simp add: R_def dd_range_def off_def)
    then have R: "?c (off, lim) = R" using c by simp
    have "length R < fuel" using fuel None by (simp add: R_def dd_range_def)
    then show ?thesis
      using eof_source.dd_copy_copies [OF sec ok ibs, of fuel ans fl intr 0] unfolding R None option.case by blast
  next
    case (Some n)
    have "0 \<le> n * ibs" "n * ibs < 2 ^ 63" using cnt [OF Some] ibs(1) by simp_all
    then have n: "0 \<le> n * ibs" "wrap64 (n * ibs) = n * ibs" by (simp_all add: wrap64_id)
    have R: "(\<lambda>(l, s). take (nat l) (?c s)) (wrap64 (n * ibs), (off, lim)) = R"
      using c n(2) by (simp add: R_def dd_range_def Some off_def [symmetric])
    have ok': "(\<lambda>(l, s). ?ok s) (wrap64 (n * ibs), (off, lim))" using ok by simp
    have "length R < fuel" using fuel Some by (simp add: R_def dd_range_def)
    then show ?thesis
      using eof_source.dd_copy_copies [OF eof_source.limited [OF sec] ok' ibs, of fuel ans fl intr 0] unfolding R Some option.case by blast
  qed
  then obtain r hs q where r: "(case cnt of
        None \<Rightarrow> dd_copy fuel maxAlloc (logged ans fl intr) (section_Read (if_ReadAt f)) ibs (off, lim) ([], 0)
      | Some n \<Rightarrow> dd_copy fuel maxAlloc (logged ans fl intr) (limit_Read (section_Read (if_ReadAt f))) ibs
          (wrap64 (n * ibs), (off, lim)) ([], 0)) = Ok (r, (hs, q))" "prefix (concat hs) R"
    "\<forall>acc'. r = Inr acc' \<longrightarrow> concat hs = R \<and> acc' = dd_add ibs (length R) \<lparr>da_full = 0, da_partial = 0, da_copied = 0\<rparr>"
    "\<forall>e m. r = Inl (e, m) \<longrightarrow> e \<noteq> Exit 0" "reliable ans fl intr \<longrightarrow> (\<exists>acc'. r = Inr acc')" by blast
  have run: "dd_file_copy fuel maxAlloc (logged ans fl intr) f ibs skip cnt env ([], 0) = Ok (dd_finish env [(off, 0)] (r, (hs, q)))"
    using r(1) by (simp only: dd_file_copy_def Let_def off_def [symmetric] wrap size src and_then.simps)
  show ?thesis
    unfolding run off_def [symmetric] R_def [symmetric]
    using r(2-5) by (cases r) (auto simp: dd_finish_def dd_records_def dd_add_def boolToInt_def)
qed


lemma nonneg_ge: "nonneg v = Some n \<Longrightarrow> 0 \<le> n"
  by (auto simp: nonneg_def split: option.splits if_splits)

lemma dd_operand_nonneg:
  assumes "dd_operand a opts = Inr opts'" and "0 \<le> dd_skip opts" and "\<And>n. dd_count opts = Some n \<Longrightarrow> 0 \<le> n"
  shows "0 \<le> dd_skip opts' \<and> (\<forall>n. dd_count opts' = Some n \<longrightarrow> 0 \<le> n)"
  using assms nonneg_ge by (auto simp: dd_operand_def Let_def split: if_splits option.splits)

lemma dd_operands_nonneg:
  "dd_operands args opts = Inr opts' \<Longrightarrow> 0 \<le> dd_skip opts \<Longrightarrow> (\<And>n. dd_count opts = Some n \<Longrightarrow> 0 \<le> n) \<Longrightarrow>
   0 \<le> dd_skip opts' \<and> (\<forall>n. dd_count opts' = Some n \<longrightarrow> 0 \<le> n)"
proof (induction args arbitrary: opts)
  case (Cons a args)
  then obtain o1 where o1: "dd_operand a opts = Inr o1" "dd_operands args o1 = Inr opts'" by (auto split: sum.splits)
  from Cons.IH [OF o1(2)] dd_operand_nonneg [OF o1(1) Cons.prems(2,3)] show ?case by blast
qed simp

section \<open>Copying with cat\<close>

context eof_source
begin

lemma copy_round:
  assumes "ok s"
  obtains b e s' where "ok s'" and "content s = b @ content s'" and "e = None \<and> b \<noteq> [] \<or> e = Some EOF \<and> content s' = []"
    and "copyFileTransfer (Suc fuel) (logged ans fl intr) rd s (h, q) =
      (let after = (\<lambda>w. case e of
             Some x \<Rightarrow> (case fl (fst w) of None \<Rightarrow> Ok (Copied, w) | Some e' \<Rightarrow> Ok (CopyFailed (WriteFailed e'), w))
           | None \<Rightarrow> copyFileTransfer fuel (logged ans fl intr) rd s' w) in
       if intr q then Ok (CopyFailed ClosedPipe, (h, Suc q))
       else if b = [] then after (h, Suc q)
       else
         case ans (h @ [b]) of
           (_, Some x) \<Rightarrow> Ok (CopyFailed (WriteFailed x), (h @ [b], Suc q))
         | (written, None) \<Rightarrow>
             if intr (Suc q) then Ok (CopyFailed ClosedPipe, (h @ [b], Suc (Suc q)))
             else if written \<noteq> length b then Ok (CopyFailed ShortWrite, (h @ [b], Suc (Suc q)))
             else after (h @ [b], Suc (Suc q)))"
proof -
  obtain b e s' where r: "rd 32768 s = Ok (b, e, s')" "ok s'" "content s = b @ content s'"
      "e = None \<and> b \<noteq> [] \<or> e = Some EOF \<and> content s' = []" using src_read [OF assms, of 32768] by auto
  show thesis
    by (rule that [OF r(2-4)])
      (use r(4) in \<open>auto simp: r(1) Let_def split: option.split prod.split\<close>)
qed

declare copyFileTransfer.simps [simp del]

lemma copy_copies:
  assumes "ok s" and "length (content s) < fuel"
  shows "\<exists>r hs q'. copyFileTransfer fuel (logged ans fl intr) rd s (h, q) = Ok (r, (h @ hs, q')) \<and> prefix (concat hs) (content s) \<and>
    (r = Copied \<longrightarrow> concat hs = content s) \<and> (reliable ans fl intr \<longrightarrow> r = Copied)"
  using assms
proof (induction fuel arbitrary: s h q)
  case (Suc fuel)
  show ?case
  proof (rule copy_round [OF Suc.prems(1), of fuel ans fl intr h q])
    fix b e s'
    assume s': "ok s'" and c: "content s = b @ content s'" and e: "e = None \<and> b \<noteq> [] \<or> e = Some EOF \<and> content s' = []"
    define after where "after = (\<lambda>w. case e of
             Some x \<Rightarrow> (case fl (fst w) of None \<Rightarrow> Ok (Copied, w) | Some e' \<Rightarrow> Ok (CopyFailed (WriteFailed e'), w))
           | None \<Rightarrow> copyFileTransfer fuel (logged ans fl intr) rd s' w)"
    assume round: "copyFileTransfer (Suc fuel) (logged ans fl intr) rd s (h, q) =
      (let after = (\<lambda>w. case e of
             Some x \<Rightarrow> (case fl (fst w) of None \<Rightarrow> Ok (Copied, w) | Some e' \<Rightarrow> Ok (CopyFailed (WriteFailed e'), w))
           | None \<Rightarrow> copyFileTransfer fuel (logged ans fl intr) rd s' w) in
       if intr q then Ok (CopyFailed ClosedPipe, (h, Suc q))
       else if b = [] then after (h, Suc q)
       else
         case ans (h @ [b]) of
           (_, Some x) \<Rightarrow> Ok (CopyFailed (WriteFailed x), (h @ [b], Suc q))
         | (written, None) \<Rightarrow>
             if intr (Suc q) then Ok (CopyFailed ClosedPipe, (h @ [b], Suc (Suc q)))
             else if written \<noteq> length b then Ok (CopyFailed ShortWrite, (h @ [b], Suc (Suc q)))
             else after (h @ [b], Suc (Suc q)))"
    have rest: "\<exists>r hs q'. after (g, p) = Ok (r, (g @ hs, q')) \<and> prefix (concat hs) (content s') \<and>
        (r = Copied \<longrightarrow> concat hs = content s') \<and> (reliable ans fl intr \<longrightarrow> r = Copied)" for g p
    proof (cases e)
      case None
      then have "length (content s') < fuel" using e c Suc.prems(2) by (cases b) auto
      then show ?thesis using Suc.IH [OF s'] None by (simp add: after_def)
    next
      case (Some x)
      then have "after (g, p) = (case fl g of None \<Rightarrow> Ok (Copied, (g @ [], p)) | Some e' \<Rightarrow> Ok (CopyFailed (WriteFailed e'), (g @ [], p)))"
        by (simp add: after_def split: option.split)
      then show ?thesis using e Some by (cases "fl g") (auto simp: reliable_def)
    qed
    define P where "P x \<longleftrightarrow> (\<exists>r hs q'. x = Ok (r, (h @ hs, q')) \<and> prefix (concat hs) (content s) \<and>
        (r = Copied \<longrightarrow> concat hs = content s) \<and> (reliable ans fl intr \<longrightarrow> r = Copied))" for x :: "(unit, copy_end \<times> bytes list \<times> nat) outcome"
    have fail: "P (Ok (CopyFailed x, (h @ hs, p)))" if "hs = [] \<or> hs = [b]" "\<not> reliable ans fl intr" for x hs p
      unfolding P_def using that c by auto
    have go: "P (after (h @ hs, p))" if "hs = [] \<and> b = [] \<or> hs = [b]" for hs p
    proof -
      obtain r hs' q' where r: "after (h @ hs, p) = Ok (r, ((h @ hs) @ hs', q'))" "prefix (concat hs') (content s')"
        "r = Copied \<longrightarrow> concat hs' = content s'" "reliable ans fl intr \<longrightarrow> r = Copied" using rest by blast
      then show ?thesis
        unfolding P_def using that c by (intro exI [of _ r] exI [of _ "hs @ hs'"] exI [of _ q']) auto
    qed
    have "P (copyFileTransfer (Suc fuel) (logged ans fl intr) rd s (h, q))"
    proof -
      obtain n x where a: "ans (h @ [b]) = (n, x)" by fastforce
      have rel: "\<not> intr q \<and> \<not> intr (Suc q) \<and> n = length b \<and> x = None" if "reliable ans fl intr"
        using that a by (simp add: reliable_def)
      show ?thesis
        unfolding round after_def [symmetric] Let_def a
        using fail [where hs = "[]"] fail [where hs = "[b]"] go [where hs = "[]"] go [where hs = "[b]"] rel
        by (cases "intr q"; cases "b = []"; cases x; cases "intr (Suc q)"; cases "n = length b") auto
    qed
    then show ?thesis unfolding P_def .
  qed
qed simp

end


lemma NewSectionReader_all: "0 \<le> n \<Longrightarrow> n < 2 ^ 63 \<Longrightarrow> NewSectionReader 0 n = (0, n)"
  by (simp add: NewSectionReader_def wrap64_def)

text \<open>The files named by the operands, all there.\<close>

definition cat_ready :: "FileSystem \<Rightarrow> shellEnv \<Rightarrow> nat \<Rightarrow> bytes \<Rightarrow> bytes \<Rightarrow> bool" where
  "cat_ready fsys env fuel p data \<longleftrightarrow>
     (\<exists>f. fsys_Open fsys (fsPath env p) = Inr f \<and> solid_image (if_ReadAt f) data \<and> if_Size f = int (length data) \<and>
        int (length data) < 2 ^ 63 \<and> length data < fuel)"

lemma fsPath_ask [simp]: "fsPath (ask p env) = fsPath env"
  by (simp add: fun_eq_iff fsPath_def shell_resolve_def ask_def Let_def)

lemma cat_copies:
  assumes "list_all2 (cat_ready fsys env fuel) ps datas"
  shows "\<exists>c hs q'. cat_files fuel (logged ans fl intr) fsys ps env moved (h, q) = Ok c \<and> cp_w c = (h @ hs, q') \<and>
    prefix (concat hs) (concat datas) \<and>
    (cp_end c = Exit 0 \<longrightarrow> concat hs = concat datas \<and> cp_done c = moved @ map (\<lambda>d. (0, int (length d))) datas) \<and>
    (reliable ans fl intr \<longrightarrow> cp_end c = Exit 0)"
  using assms
proof (induction ps arbitrary: datas env moved h q)
  case (Cons p ps)
  then obtain data rest where d: "datas = data # rest" "cat_ready fsys env fuel p data" "list_all2 (cat_ready fsys env fuel) ps rest"
    by (auto simp: list_all2_Cons1)
  then obtain f where f: "fsys_Open fsys (fsPath env p) = Inr f" "solid_image (if_ReadAt f) data" "if_Size f = int (length data)"
    "int (length data) < 2 ^ 63" "length data < fuel" by (auto simp: cat_ready_def)
  define env' where "env' = ask (fsPath env p) env"
  have rest: "list_all2 (cat_ready fsys env' fuel) ps rest"
    using d(3) by (simp add: env'_def cat_ready_def [abs_def])
  note sec = solid_image.section_source [OF f(2)]
  have c: "(\<lambda>(o1, l). take (nat (l - o1)) (drop (nat o1) data)) (0, int (length data)) = data" by simp
  have "\<exists>r hs q'. copyFileTransfer fuel (logged ans fl intr) (section_Read (if_ReadAt f)) (0, int (length data)) (h, q) = Ok (r, (h @ hs, q')) \<and>
      prefix (concat hs) data \<and> (r = Copied \<longrightarrow> concat hs = data) \<and> (reliable ans fl intr \<longrightarrow> r = Copied)"
    using eof_source.copy_copies [OF sec, of "(0, int (length data))" fuel ans fl intr h q] f(5) unfolding c by simp
  then obtain r hs q1 where r: "copyFileTransfer fuel (logged ans fl intr) (section_Read (if_ReadAt f)) (0, int (length data)) (h, q) = Ok (r, (h @ hs, q1))"
      "prefix (concat hs) data" "r = Copied \<longrightarrow> concat hs = data" "reliable ans fl intr \<longrightarrow> r = Copied" by blast
  have run: "cat_files fuel (logged ans fl intr) fsys (p # ps) env moved (h, q) =
      (if intr q1 then Ok (copy_stop (Exit 130) [] env' moved (h @ hs, Suc q1))
       else case r of CopyFailed e \<Rightarrow> Ok (copy_stop (Failed e) [] env' moved (h @ hs, Suc q1))
            | Copied \<Rightarrow> cat_files fuel (logged ans fl intr) fsys ps env' (moved @ [(0, int (length data))]) (h @ hs, Suc q1))"
    using f(3,4) by (simp add: Let_def f(1) env'_def NewSectionReader_all r(1) split: copy_end.split)
  show ?case
  proof (cases "intr q1 \<or> r \<noteq> Copied")
    case True
    then have "\<not> reliable ans fl intr" using r(4) by (auto simp: reliable_def)
    with True r(2) show ?thesis unfolding run d(1) by (cases r) auto
  next
    case False
    from Cons.IH [OF rest, of "moved @ [(0, int (length data))]" "h @ hs" "Suc q1"]
    obtain c hs' q' where ih: "cat_files fuel (logged ans fl intr) fsys ps env' (moved @ [(0, int (length data))]) (h @ hs, Suc q1) = Ok c"
      "cp_w c = ((h @ hs) @ hs', q')" "prefix (concat hs') (concat rest)"
      "cp_end c = Exit 0 \<longrightarrow> concat hs' = concat rest \<and> cp_done c = (moved @ [(0, int (length data))]) @ map (\<lambda>d. (0, int (length d))) rest"
      "reliable ans fl intr \<longrightarrow> cp_end c = Exit 0" by blast
    then show ?thesis
      unfolding run using False r(3) d(1) by (intro exI [of _ c] exI [of _ "hs @ hs'"] exI [of _ q']) auto
  qed
qed simp

section \<open>Properties\<close>

text \<open>C15: dd moves exactly the bytes it was asked for. For a file that is all there and sizes that do not overflow,
  however writes fail and whenever the transfer is interrupted, dd returns, and what it wrote is a prefix of the bytes
  from \<open>skip\<close> blocks on, at most \<open>count\<close> blocks. It exits with 0 only when it wrote them all, and then reports the right
  number of full and partial records and the range it transferred; without failures and interrupts it does exit with 0.
  The size of the buffer never shows.\<close>

theorem dd_copies_range:
  assumes "dd_operands args dd_default = Inr opts" and "dd_file opts \<noteq> []"
    and "ibs = (if dd_bs opts > 0 then dd_bs opts else dd_ibs opts)" and "0 < ibs" and "ibs \<le> maxAlloc" and "32768 \<le> maxAlloc"
    and "fsys_Open fsys (fsPath env (dd_file opts)) = Inr f" and "solid_image (if_ReadAt f) data"
    and "if_Size f = int (length data)" and "int (length data) < 2 ^ 63" and "length data < fuel"
    and "dd_skip opts * ibs < 2 ^ 63" and "\<And>n. dd_count opts = Some n \<Longrightarrow> n * ibs < 2 ^ 63"
    and "R = dd_range ibs (dd_skip opts) (dd_count opts) data"
  shows "\<exists>c hs q. shDD fuel maxAlloc (logged ans fl intr) fsys rd stdin args env ([], 0) = Ok c \<and> cp_w c = (hs, q) \<and>
    prefix (concat hs) R \<and>
    (cp_end c = Exit 0 \<longrightarrow> concat hs = R \<and>
       cp_err c = [Text (records_text (int (length R) div ibs) (if int (length R) mod ibs = 0 then 0 else 1))] \<and>
       cp_done c = [(dd_skip opts * ibs, int (length R))]) \<and>
    (reliable ans fl intr \<longrightarrow> cp_end c = Exit 0)"
proof -
  have nn: "0 \<le> dd_skip opts" "\<And>n. dd_count opts = Some n \<Longrightarrow> 0 \<le> n"
    using dd_operands_nonneg [OF assms(1)] by (simp_all add: dd_default_def)
  have run: "shDD fuel maxAlloc (logged ans fl intr) fsys rd stdin args env ([], 0) =
      dd_file_copy fuel maxAlloc (logged ans fl intr) f ibs (dd_skip opts) (dd_count opts) (ask (fsPath env (dd_file opts)) env) ([], 0)"
    using assms(1,2,7) by (simp add: shDD_def Let_def assms(3))
  show ?thesis
    unfolding run assms(14)
    using dd_file_copies [OF assms(8-10,4-6) nn(1) assms(12) _ assms(11), of "dd_count opts" ans fl intr "ask (fsPath env (dd_file opts)) env"]
      nn(2) assms(13) by blast
qed


lemmas dd_eval = dd_operand_def parseSize_def nonneg_def ParseInt_def parse_digits_def digits_value_def is_digit_def wrap64_def

definition try_fsys :: FileSystem where
  "try_fsys = \<lparr>fsys_Open = (\<lambda>p. if p = str ''d/a'' then Inr \<lparr>if_ReadAt = bytes_ReadAt [1, 2, 3, 4, 5], if_Size = 5\<rparr> else Inl (str ''not found'')),
     fsys_ReadDir = (\<lambda>p. if p = str ''d'' then Inr [str ''a''] else if p = [] then Inr [str ''d''] else Inl (str ''not found'')),
     fsys_Stat = (\<lambda>p. if p = str ''d/a'' then Inr \<lparr>in_Ino = 3, in_IsDir = False, in_Perm = 0x1a4, in_Nlink = 1, in_UID = 0, in_GID = 0, in_Size = 5, in_Mtime = None\<rparr>
       else if p = str ''d'' \<or> p = [] then Inr \<lparr>in_Ino = 2, in_IsDir = True, in_Perm = 0x1ed, in_Nlink = 2, in_UID = 0, in_GID = 0, in_Size = 0, in_Mtime = None\<rparr>
       else Inl (str ''not found''))\<rparr>"

definition try_opts :: dd_opts where
  "try_opts = \<lparr>dd_file = str ''/d/a'', dd_bs = 2, dd_ibs = 512, dd_skip = 1, dd_count = Some 1\<rparr>"

theorem dd_copies_range_witness:
  "\<exists>c hs q. shDD 9 65536 (logged (\<lambda>h. (length (List.last h), None)) (\<lambda>h. None) (\<lambda>q. False)) try_fsys (\<lambda>n s. Ok ([], Some EOF, s)) ()
      [str ''if=/d/a'', str ''bs=2'', str ''skip=1'', str ''count=1''] newShellEnv ([], 0) = Ok c \<and> cp_w c = (hs, q) \<and>
    concat hs = [3, 4] \<and> cp_end c = Exit 0 \<and> cp_done c = [(2, 2)]"
proof -
  have opts: "dd_operands [str ''if=/d/a'', str ''bs=2'', str ''skip=1'', str ''count=1''] dd_default = Inr try_opts"
    by (simp add: dd_eval try_opts_def dd_default_def)
  have path: "fsPath newShellEnv (dd_file try_opts) = str ''d/a''" by code_simp
  then have f: "fsys_Open try_fsys (fsPath newShellEnv (dd_file try_opts)) = Inr \<lparr>if_ReadAt = bytes_ReadAt [1, 2, 3, 4, 5], if_Size = 5\<rparr>"
    by (simp add: try_fsys_def)
  have ibs: "(2 :: int) = (if dd_bs try_opts > 0 then dd_bs try_opts else dd_ibs try_opts)" by (simp add: try_opts_def)
  have R: "[3, 4] = dd_range 2 (dd_skip try_opts) (dd_count try_opts) [1, 2, 3, 4, 5]" by (simp add: dd_range_def try_opts_def)
  have img: "solid_image (bytes_ReadAt [1, 2, 3, 4, 5]) [1, 2, 3, 4, 5]" by (rule bytes_image.solid_image_axioms)
  have good: "reliable (\<lambda>h. (length (List.last h), None)) (\<lambda>h. None) (\<lambda>q. False)" by (simp add: reliable_def)
  have side: "dd_file try_opts \<noteq> []" "dd_skip try_opts * 2 < 2 ^ 63" "\<And>n. dd_count try_opts = Some n \<Longrightarrow> n * 2 < 2 ^ 63"
    "if_Size \<lparr>if_ReadAt = bytes_ReadAt [1, 2, 3, 4, 5], if_Size = 5\<rparr> = int (length [1, 2, 3, 4, 5 :: byte])"
    "int (length [1, 2, 3, 4, 5 :: byte]) < 2 ^ 63" "length [1, 2, 3, 4, 5 :: byte] < 9"
    by (simp_all add: try_opts_def)
  have img': "solid_image (if_ReadAt \<lparr>if_ReadAt = bytes_ReadAt [1, 2, 3, 4, 5], if_Size = 5\<rparr>) [1, 2, 3, 4, 5]" using img by simp
  have two: "(0 :: int) < 2" "(2 :: int) \<le> 65536" "(32768 :: int) \<le> 65536" by simp_all
  have moved: "(dd_skip try_opts * 2, int (length [3, 4 :: byte])) = (2, 2)" by (simp add: try_opts_def)
  from dd_copies_range [OF opts side(1) ibs two f img' side(4-6) side(2,3) R,
      of "\<lambda>h. (length (List.last h), None)" "\<lambda>h. None" "\<lambda>q. False" "\<lambda>n s. Ok ([], Some EOF, s)" "()"] good
  show ?thesis unfolding moved by blast
qed

text \<open>C40: Sizes that overflow break dd. A block size that wraps to 0 makes it divide by zero, whatever the tree, the
  input and the output; one that wraps to a large negative number leaves it with an empty buffer that it reads into for ever.\<close>

theorem dd_overflow:
  "shDD fuel maxAlloc sk fsys rd stdin [str ''ibs=18014398509481984k''] env w = Panic \<and>
   (0 \<le> maxAlloc \<longrightarrow> shDD fuel maxAlloc (logged ans fl (\<lambda>q. False)) fsys rd stdin [str ''ibs=9007199254740993k''] env ([], q) = Diverge)"
proof -
  have o1: "dd_operands [str ''ibs=18014398509481984k''] dd_default = Inr (dd_default\<lparr>dd_ibs := 0\<rparr>)" by (simp add: dd_eval)
  have o2: "dd_operands [str ''ibs=9007199254740993k''] dd_default = Inr (dd_default\<lparr>dd_ibs := - 9223372036854774784\<rparr>)"
    by (simp add: dd_eval)
  have zero: "32768 sdiv (- 9223372036854774784 :: int) = 0" by (simp add: signed_divide_int_def)
  have "dd_loop fuel (logged ans fl (\<lambda>q. False)) rd ibs 0 acc s (h, q) = Diverge" for acc s h q ibs
    by (induction fuel arbitrary: q) (simp_all add: dd_loop.simps)
  moreover have "dd_bufSize maxAlloc (- 9223372036854774784) = Ok 0" if "0 \<le> maxAlloc"
    using that by (simp add: dd_bufSize_def zero wrap64_def)
  ultimately have "dd_copy fuel maxAlloc (logged ans fl (\<lambda>q. False)) rd (- 9223372036854774784) stdin ([], q) = Diverge" if "0 \<le> maxAlloc"
    using that by (simp add: dd_copy_def)
  then show ?thesis
    unfolding shDD_def o1 o2 sum.case
    by (simp add: dd_default_def Let_def dd_stdin_copy_def dd_copy_def dd_bufSize_def [of _ 0])
qed

theorem dd_overflow_witness:
  "shDD 9 65536 (logged (\<lambda>h. (0, None)) (\<lambda>h. None) (\<lambda>q. False)) try_fsys (\<lambda>n s. Ok ([], Some EOF, s)) ()
     [str ''ibs=9007199254740993k''] newShellEnv ([], 0) = Diverge"
  by (rule mp [OF conjunct2 [OF dd_overflow]]) simp

end
