(* ===== verification/Shell_Commands.thy ===== *)
theory Shell_Commands
  imports Shell_Copy
begin

text \<open>
  The other commands of the shell inst runs and the handlers the interpreter calls
  (src/internal/instcmd/shell.go): echo, trap, test, cd, grep, ls, the dispatch of
  commands, and opening, listing and stating files for redirections and globs.
  The interpreter itself is a third-party package. These commands ignore errors of their
  output, so what they write is a list of chunks, one for each write. A
  compiled regular expression is a parameter, and so are the calendar fields of
  a time and the clock. grep takes the bytes a file yields as one read. Logging
  and the capture session are left out.
\<close>

section \<open>Model: echo, trap and test\<close>

definition backslash :: byte where "backslash = 0x5c"

text \<open>The text echo writes, and whether \<open>\c\<close> ended it early.\<close>

fun echo_text :: "bytes \<Rightarrow> bytes \<times> bool" where
  "echo_text [] = ([], False)"
| "echo_text [c] = ([c], False)"
| "echo_text (c # d # s) =
     (if c \<noteq> backslash then map_prod (Cons c) (\<lambda>x. x) (echo_text (d # s))
      else if d = 0x63 then ([], True)
      else
        let out = (if d = 0x6e then [0x0a] else if d = 0x74 then [0x09] else if d = 0x72 then [0x0d]
                   else if d = 0x61 then [0x07] else if d = 0x62 then [0x08] else if d = 0x66 then [0x0c]
                   else if d = 0x76 then [0x0b] else if d = backslash then [backslash] else [backslash, d])
        in map_prod (append out) (\<lambda>x. x) (echo_text s))"

definition shEcho :: "bytes list \<Rightarrow> bytes" where
  "shEcho args = (case echo_text (join_with [0x20] args) of (t, True) \<Rightarrow> t | (t, False) \<Rightarrow> t @ [0x0a])"

definition passthroughTrap :: "bytes list \<Rightarrow> bool" where
  "passthroughTrap rest =
     (let sigs = (case rest of [] \<Rightarrow> [] | [s] \<Rightarrow> [s] | _ # sigs \<Rightarrow> sigs)
      in list_all (\<lambda>s. s = str ''EXIT'' \<or> s = str ''ERR'') sigs)"

datatype test_err = UnsupportedExpr "bytes list" | TestNotSupported bytes | IntegerExpected bytes bytes bytes

definition statAt :: "FileSystem \<Rightarrow> bytes \<Rightarrow> shellEnv \<Rightarrow> (bytes + FileInfo) \<times> shellEnv" where
  "statAt fsys p env = (fsys_Stat fsys p, ask p env)"

definition unaryTest :: "FileSystem \<Rightarrow> bytes \<Rightarrow> bytes \<Rightarrow> shellEnv \<Rightarrow> (test_err + bool) \<times> shellEnv" where
  "unaryTest fsys op operand env =
     (let (r, env') = statAt fsys (fsPath env operand) env;
          having = (\<lambda>P. (Inr (case r of Inl e \<Rightarrow> False | Inr info \<Rightarrow> P info), env'))
      in if op = str ''-z'' then (Inr (operand = []), env)
         else if op = str ''-n'' then (Inr (operand \<noteq> []), env)
         else if op = str ''-f'' then having (\<lambda>info. \<not> in_IsDir info)
         else if op = str ''-d'' then having in_IsDir
         else if op = str ''-e'' then having (\<lambda>info. True)
         else if op = str ''-s'' then having (\<lambda>info. in_Size info > 0)
         else (Inl (TestNotSupported op), env))"

text \<open>\<open>strings.TrimSpace\<close> for ASCII.\<close>

definition binaryTest :: "bytes \<Rightarrow> bytes \<Rightarrow> bytes \<Rightarrow> test_err + bool" where
  "binaryTest a op b =
     (if op = str ''='' \<or> op = str ''=='' then Inr (a = b)
      else if op = str ''!='' then Inr (a \<noteq> b)
      else if op \<in> {str ''-eq'', str ''-ne'', str ''-lt'', str ''-le'', str ''-gt'', str ''-ge''} then
        (case (ParseInt (trim_space a), ParseInt (trim_space b)) of
           (Some an, Some bn) \<Rightarrow>
             Inr (if op = str ''-eq'' then an = bn
                  else if op = str ''-ne'' then an \<noteq> bn
                  else if op = str ''-lt'' then an < bn
                  else if op = str ''-le'' then an \<le> bn
                  else if op = str ''-gt'' then an > bn
                  else an \<ge> bn)
         | _ \<Rightarrow> Inl (IntegerExpected a op b))
      else Inl (TestNotSupported op))"

fun runTest :: "FileSystem \<Rightarrow> bytes list \<Rightarrow> shellEnv \<Rightarrow> (bool \<times> test_err option) \<times> shellEnv" where
  "runTest fsys [] env = ((False, None), env)"
| "runTest fsys [a] env = ((a \<noteq> [], None), env)"
| "runTest fsys [a, b] env =
     (if a = str ''!'' then ((b = [], None), env)
      else case unaryTest fsys a b env of
             (Inl e, env) \<Rightarrow> ((False, Some e), env)
           | (Inr ok, env) \<Rightarrow> ((ok, None), env))"
| "runTest fsys [a, op, b] env =
     (case binaryTest a op b of Inl e \<Rightarrow> ((False, Some e), env) | Inr ok \<Rightarrow> ((ok, None), env))"
| "runTest fsys (a # b # c # d # as) env = ((False, Some (UnsupportedExpr (a # b # c # d # as))), env)"

text \<open>The verdict of \<open>test\<close> or \<open>[\<close>, and whether it wrote a diagnostic.\<close>

datatype test_diag = MissingBracket | TestDiag test_err

definition evalTest :: "FileSystem \<Rightarrow> bytes list \<Rightarrow> shellEnv \<Rightarrow> (bool \<times> test_diag option) \<times> shellEnv" where
  "evalTest fsys args env =
     (let operands = tl args in
      if hd args = str ''['' \<and> (operands = [] \<or> List.last operands \<noteq> str '']'') then ((False, Some MissingBracket), env)
      else
        let operands = (if hd args = str ''['' then butlast operands else operands);
            ((ok, err), env) = runTest fsys operands env
        in ((ok, map_option TestDiag err), env))"

section \<open>Model: the call handler\<close>

text \<open>What the interpreter runs instead, what was written, and the session afterwards.\<close>

datatype call_diag = CdNotDir bytes | CallNotSupported bytes | FromTest test_diag

record called =
  cl_args :: "bytes list"
  cl_out :: "bytes list"
  cl_diag :: "call_diag option"
  cl_env :: shellEnv

definition shell_cd :: "FileSystem \<Rightarrow> bytes list \<Rightarrow> shellEnv \<Rightarrow> called" where
  "shell_cd fsys args env =
     (let target = (if length args > 1 then List.last args else [slash]);
          abs = shell_resolve env target;
          (r, env) = statAt fsys (trim_prefix slash abs) env;
          no = \<lparr>cl_args = [str ''false''], cl_out = [], cl_diag = Some (CdNotDir target), cl_env = env\<rparr>
      in case r of
           Inl e \<Rightarrow> no
         | Inr info \<Rightarrow>
             if \<not> in_IsDir info then no
             else \<lparr>cl_args = [str ''true''], cl_out = [], cl_diag = None, cl_env = env\<lparr>e_cwd := abs\<rparr>\<rparr>)"

definition callHandler :: "FileSystem \<Rightarrow> bytes list \<Rightarrow> shellEnv \<Rightarrow> called" where
  "callHandler fsys args env =
     (let name = path_Base (hd args);
          through = \<lparr>cl_args = args, cl_out = [], cl_diag = None, cl_env = env\<rparr>;
          nothing = \<lparr>cl_args = [str '':''], cl_out = [], cl_diag = None, cl_env = env\<rparr>
      in if name = str ''echo'' then nothing\<lparr>cl_out := [shEcho (tl args)]\<rparr>
         else if name = str ''trap'' then if passthroughTrap (tl args) then through else nothing
         else if name = str ''test'' \<or> name = str ''['' then
           (case evalTest fsys args env of
              ((ok, d), env) \<Rightarrow>
                \<lparr>cl_args = [if ok then str ''true'' else str ''false''], cl_out = [], cl_diag = map_option FromTest d, cl_env = env\<rparr>)
         else if name = str ''cd'' then shell_cd fsys args env
         else if name = str ''source'' \<or> name = str ''.'' then
           \<lparr>cl_args = [str ''false''], cl_out = [], cl_diag = Some (CallNotSupported (hd args)), cl_env = refuse env\<rparr>
         else through)"


section \<open>Model: grep\<close>

record grep_opts =
  gp_invert :: bool
  gp_ignore :: bool
  gp_pattern :: "bytes option"
  gp_files :: "bytes list"

text \<open>One cluster of flags: the options so far, the arguments still to come, or the flag that is not supported.\<close>

fun grep_flags :: "bytes \<Rightarrow> bytes list \<Rightarrow> grep_opts \<Rightarrow> byte + bytes list \<times> grep_opts" where
  "grep_flags [] rest g = Inr (rest, g)"
| "grep_flags (c # cs) rest g =
     (if c = 0x76 then grep_flags cs rest (g\<lparr>gp_invert := True\<rparr>)
      else if c = 0x69 then grep_flags cs rest (g\<lparr>gp_ignore := True\<rparr>)
      else if c = 0x65 then
        (case rest of [] \<Rightarrow> grep_flags cs rest g | p # rest' \<Rightarrow> grep_flags cs rest' (g\<lparr>gp_pattern := Some p\<rparr>))
      else Inl c)"

lemma grep_flags_shorter: "grep_flags cs rest g = Inr (rest', g') \<Longrightarrow> length rest' \<le> length rest"
  by (induction cs rest g arbitrary: rest' g' rule: grep_flags.induct) (fastforce split: if_splits list.splits)+

function grep_args :: "bytes list \<Rightarrow> grep_opts \<Rightarrow> byte + grep_opts" where
  "grep_args [] g = Inr g"
| "grep_args (a # as) g =
     (if gp_pattern g = None \<and> length a > 1 \<and> hd a = 0x2d then
        (case grep_flags (tl a) as g of Inl c \<Rightarrow> Inl c | Inr (as', g') \<Rightarrow> grep_args as' g')
      else if gp_pattern g = None then grep_args as (g\<lparr>gp_pattern := Some a\<rparr>)
      else grep_args as (g\<lparr>gp_files := gp_files g @ [a]\<rparr>))"
  by pat_completeness auto
termination
  by (relation "measure (\<lambda>(as, g). length as)") (auto dest!: grep_flags_shorter)

text \<open>\<open>strings.Contains\<close>.\<close>

text \<open>The lines bufio.Scanner yields: without the newline and one carriage return before it; a line longer than its buffer ends the scan.\<close>

definition maxLine :: nat where "maxLine = 8 * 1024 * 1024"

definition drop_cr :: "bytes \<Rightarrow> bytes" where
  "drop_cr l = (if l \<noteq> [] \<and> List.last l = 0x0d then butlast l else l)"

definition scan_lines :: "bytes \<Rightarrow> bytes list" where
  "scan_lines data =
     (let parts = split_on 0x0a data; ls = (if List.last parts = [] then butlast parts else parts)
      in map drop_cr (takeWhile (\<lambda>l. length l < maxLine) ls))"

text \<open>What grep matches lines with; \<open>None\<close> is a pattern that does not compile.\<close>

definition grep_match :: "(bytes \<Rightarrow> (bytes \<Rightarrow> bool) option) \<Rightarrow> bytes \<Rightarrow> grep_opts \<Rightarrow> bytes \<Rightarrow> (bytes \<Rightarrow> bool) option" where
  "grep_match regexp name g pattern =
     (if name = str ''fgrep'' then
        let needle = (if gp_ignore g then ToLower pattern else pattern)
        in Some (\<lambda>line. contains (if gp_ignore g then ToLower line else line) needle)
      else regexp (if gp_ignore g then str ''(?i)'' @ pattern else pattern))"

datatype grep_diag = FlagNotSupported byte | NoPattern | BadPattern bytes | GrepOpen bytes bytes

definition file_bytes :: "inst_File \<Rightarrow> bytes" where
  "file_bytes f = fst (if_ReadAt f 0 (nat (if_Size f)))"

fun grep_sources :: "FileSystem \<Rightarrow> bytes list \<Rightarrow> shellEnv \<Rightarrow> (bytes \<times> bytes) list \<times> grep_diag list \<times> shellEnv" where
  "grep_sources fsys [] env = ([], [], env)"
| "grep_sources fsys (p # ps) env =
     (let path = fsPath env p; (srcs, ds, env') = grep_sources fsys ps (ask path env) in
      case fsys_Open fsys path of
        Inl e \<Rightarrow> (srcs, GrepOpen p e # ds, env')
      | Inr f \<Rightarrow> ((p, file_bytes f) # srcs, ds, env'))"

record grepped =
  gr_status :: nat
  gr_out :: "bytes list"
  gr_diag :: "grep_diag list"
  gr_env :: shellEnv

definition grep_lines :: "(bytes \<Rightarrow> bool) \<Rightarrow> bool \<Rightarrow> bool \<Rightarrow> (bytes \<times> bytes) list \<Rightarrow> bytes list" where
  "grep_lines mat invert many srcs =
     concat (map (\<lambda>(nm, data).
       map (\<lambda>l. (if many then nm @ [0x3a] @ l else l) @ [0x0a]) (filter (\<lambda>l. mat l \<noteq> invert) (scan_lines data))) srcs)"

definition shGrep :: "(bytes \<Rightarrow> (bytes \<Rightarrow> bool) option) \<Rightarrow> FileSystem \<Rightarrow> bytes \<Rightarrow> bytes \<Rightarrow> bytes list \<Rightarrow> shellEnv \<Rightarrow> grepped" where
  "shGrep regexp fsys stdin name args env =
     (let stop = (\<lambda>d env. \<lparr>gr_status = 2, gr_out = [], gr_diag = [d], gr_env = env\<rparr>) in
      case grep_args args \<lparr>gp_invert = False, gp_ignore = False, gp_pattern = None, gp_files = []\<rparr> of
        Inl c \<Rightarrow> stop (FlagNotSupported c) (refuse env)
      | Inr g \<Rightarrow>
          (case gp_pattern g of
             None \<Rightarrow> stop NoPattern env
           | Some pattern \<Rightarrow>
               (case grep_match regexp name g pattern of
                  None \<Rightarrow> stop (BadPattern pattern) env
                | Some mat \<Rightarrow>
                    let (srcs, ds, env) = (if gp_files g = [] then ([(str ''(standard input)'', stdin)], [], env)
                                           else grep_sources fsys (gp_files g) env);
                        out = grep_lines mat (gp_invert g) (length (gp_files g) > 1) srcs
                    in \<lparr>gr_status = (if out = [] then 1 else 0), gr_out = out, gr_diag = ds, gr_env = env\<rparr>)))"

section \<open>Model: ls\<close>

definition permString :: "bool \<Rightarrow> u32 \<Rightarrow> bytes" where
  "permString isDir perm =
     (if isDir then 0x64 else 0x2d) #
     map (\<lambda>i. if bit perm (8 - i) then str ''rwxrwxrwx'' ! i else 0x2d) [0..<9]"

text \<open>\<open>%nd\<close>: right-justified in \<open>n\<close> columns.\<close>

definition pad :: "nat \<Rightarrow> bytes \<Rightarrow> bytes" where
  "pad n s = replicate (n - length s) 0x20 @ s"

text \<open>\<open>%02d\<close>.\<close>

definition pad0 :: "nat \<Rightarrow> bytes \<Rightarrow> bytes" where
  "pad0 n s = replicate (n - length s) 0x30 @ s"

text \<open>The fields of a time in its location.\<close>

record civil =
  cv_Month :: bytes
  cv_Day :: int
  cv_Year :: int
  cv_Hour :: int
  cv_Minute :: int

definition lsDate :: "(int \<Rightarrow> civil) \<Rightarrow> int \<Rightarrow> int option \<Rightarrow> bytes" where
  "lsDate cal now t =
     (let t = (case t of None \<Rightarrow> 0 | Some t \<Rightarrow> t); age = now - t; d = cal t
      in if age > 182 * 24 * 3600 * 1000000000 \<or> age < 0
         then cv_Month d @ str '' '' @ pad 2 (itoa (cv_Day d)) @ str ''  '' @ pad 4 (itoa (cv_Year d))
         else cv_Month d @ str '' '' @ pad 2 (itoa (cv_Day d)) @ str '' '' @ pad0 2 (itoa (cv_Hour d)) @ str '':'' @ pad0 2 (itoa (cv_Minute d)))"

definition lsLongLine :: "(int option \<Rightarrow> bytes) \<Rightarrow> bool \<Rightarrow> bytes \<Rightarrow> FileInfo \<Rightarrow> bytes" where
  "lsLongLine date withInode name info =
     (let line = permString (in_IsDir info) (in_Perm info) @ str '' '' @ pad 3 (itoa (in_Nlink info)) @ str '' '' @
            pad 5 (itoa (uint (in_UID info))) @ str '' '' @ pad 5 (itoa (uint (in_GID info))) @ str '' '' @
            pad 8 (itoa (in_Size info)) @ str '' '' @ date (in_Mtime info) @ str '' '' @ name
      in if withInode then itoa (uint (in_Ino info)) @ str '' '' @ line else line)"

record ls_opts =
  lo_i :: bool
  lo_l :: bool
  lo_d :: bool
  lo_target :: bytes

definition ls_arg :: "bytes \<Rightarrow> ls_opts \<Rightarrow> ls_opts" where
  "ls_arg a g =
     (if length a > 1 \<and> hd a = 0x2d
      then g\<lparr>lo_i := lo_i g \<or> 0x69 \<in> set (tl a), lo_l := lo_l g \<or> 0x6c \<in> set (tl a), lo_d := lo_d g \<or> 0x64 \<in> set (tl a)\<rparr>
      else g\<lparr>lo_target := a\<rparr>)"

fun ls_long :: "(int option \<Rightarrow> bytes) \<Rightarrow> FileSystem \<Rightarrow> bool \<Rightarrow> bytes \<Rightarrow> bytes list \<Rightarrow> shellEnv \<Rightarrow> bytes list \<times> shellEnv" where
  "ls_long date fsys ino bas [] env = ([], env)"
| "ls_long date fsys ino bas (n # ns) env =
     (let path = trim_prefix slash (bas @ [slash] @ n); (out, env') = ls_long date fsys ino bas ns (ask path env) in
      case fsys_Stat fsys path of
        Inl e \<Rightarrow> (out, env')
      | Inr info \<Rightarrow> ((lsLongLine date ino n info @ [0x0a]) # out, env'))"

definition shLs :: "(int option \<Rightarrow> bytes) \<Rightarrow> FileSystem \<Rightarrow> bytes list \<Rightarrow> shellEnv \<Rightarrow> report" where
  "shLs date fsys args env =
     (let g = fold ls_arg args \<lparr>lo_i = False, lo_l = False, lo_d = False, lo_target = [dot]\<rparr>;
          abs = shell_resolve env (lo_target g); path = trim_prefix slash abs;
          fail = (\<lambda>e env. \<lparr>rp_status = 1, rp_out = [], rp_err = [str ''ls: '' @ lo_target g @ str '': '' @ e], rp_env = env\<rparr>);
          say = (\<lambda>out env. \<lparr>rp_status = 0, rp_out = out, rp_err = [], rp_env = env\<rparr>);
          env = ask path env
      in case fsys_Stat fsys path of
           Inl e \<Rightarrow> fail e env
         | Inr info \<Rightarrow>
             if lo_d g \<or> \<not> in_IsDir info then
               say [(if lo_l g then lsLongLine date (lo_i g) (lo_target g) info else lo_target g) @ [0x0a]] env
             else
               case fsys_ReadDir fsys path of
                 Inl e \<Rightarrow> fail e (ask path env)
               | Inr names \<Rightarrow>
                   if \<not> lo_l g then say (map (\<lambda>n. n @ [0x0a]) names) (ask path env)
                   else
                     case ls_long date fsys (lo_i g) (trim_suffix slash abs) names (ask path env) of
                       (out, env) \<Rightarrow> say out env)"

section \<open>Model: the other handlers\<close>

definition dev_null :: bytes where "dev_null = str ''/dev/null''"

datatype shell_opened = DevNull | ROFile inst_File

datatype shell_open_err = ReadOnly | OpenErr bytes

text \<open>\<open>writes\<close> says whether the flags ask for anything but reading.\<close>

definition openHandler :: "FileSystem \<Rightarrow> bytes \<Rightarrow> bool \<Rightarrow> shellEnv \<Rightarrow> (shell_open_err + shell_opened) \<times> shellEnv" where
  "openHandler fsys path writes env =
     (if path = dev_null then (Inr DevNull, env)
      else if writes then (Inl ReadOnly, refuse env)
      else
        let p = fsPath env path; env = ask p env in
        case fsys_Open fsys p of
          Inl e \<Rightarrow> (Inl (OpenErr e), env)
        | Inr f \<Rightarrow> (Inr (ROFile f), env))"

definition no_info :: FileInfo where
  "no_info = \<lparr>in_Ino = 0, in_IsDir = False, in_Perm = 0, in_Nlink = 0, in_UID = 0, in_GID = 0, in_Size = 0, in_Mtime = None\<rparr>"

fun readdir_entries :: "FileSystem \<Rightarrow> bytes \<Rightarrow> bytes list \<Rightarrow> shellEnv \<Rightarrow> (bytes \<times> FileInfo) list \<times> shellEnv" where
  "readdir_entries fsys bas [] env = ([], env)"
| "readdir_entries fsys bas (n # ns) env =
     (let path = trim_prefix slash (bas @ [slash] @ n); (out, env') = readdir_entries fsys bas ns (ask path env)
      in ((n, case fsys_Stat fsys path of Inl e \<Rightarrow> no_info | Inr info \<Rightarrow> info) # out, env'))"

definition readDirHandler :: "FileSystem \<Rightarrow> bytes \<Rightarrow> shellEnv \<Rightarrow> (bytes + (bytes \<times> FileInfo) list) \<times> shellEnv" where
  "readDirHandler fsys path env =
     (let abs = shell_resolve env path; p = trim_prefix slash abs; env = ask p env in
      case fsys_ReadDir fsys p of
        Inl e \<Rightarrow> (Inl e, env)
      | Inr names \<Rightarrow> (case readdir_entries fsys (trim_suffix slash abs) names env of (es, env) \<Rightarrow> (Inr es, env)))"

definition statHandler :: "FileSystem \<Rightarrow> bytes \<Rightarrow> shellEnv \<Rightarrow> (bytes + bytes \<times> FileInfo) \<times> shellEnv" where
  "statHandler fsys path env =
     (let abs = shell_resolve env path; p = trim_prefix slash abs; env = ask p env in
      case fsys_Stat fsys p of
        Inl e \<Rightarrow> (Inl e, env)
      | Inr info \<Rightarrow>
          let name = trim_suffix slash abs
          in (Inr (rev (takeWhile (\<lambda>c. c \<noteq> slash) (rev name)), info), env))"


text \<open>
  \<open>execHandler\<close>: only these commands exist. \<open>'w\<close> is the state behind standard output;
  diagnostics on standard error are left out here. The context carries what a
  command gets from its surroundings.
\<close>

record ('w, 's) surroundings =
  sr_fuel :: nat
  sr_maxAlloc :: int
  sr_sink :: "'w sink"
  sr_stdin :: "'s rdfun"
  sr_regexp :: "bytes \<Rightarrow> (bytes \<Rightarrow> bool) option"
  sr_date :: "int option \<Rightarrow> bytes"

definition write_all :: "'w sink \<Rightarrow> bytes list \<Rightarrow> 'w \<Rightarrow> 'w" where
  "write_all sk chunks w = fold (\<lambda>c w. snd (sk_Write sk c w)) chunks w"

definition execHandler :: "('w, 's) surroundings \<Rightarrow> FileSystem \<Rightarrow> 's \<Rightarrow> bytes \<Rightarrow> bytes list \<Rightarrow> shellEnv \<Rightarrow> 'w \<Rightarrow>
    (unit, cmd_end \<times> shellEnv \<times> 'w) outcome" where
  "execHandler sr fsys stdin piped args env w =
     (let name = path_Base (hd args) in
      if name = str ''dd'' then
        and_then (shDD (sr_fuel sr) (sr_maxAlloc sr) (sr_sink sr) fsys (sr_stdin sr) stdin (tl args) env w) (\<lambda>c.
        Ok (cp_end c, cp_env c, cp_w c))
      else if name = str ''ls'' then
        (let r = shLs (sr_date sr) fsys (tl args) env
         in Ok (Exit (rp_status r), rp_env r, write_all (sr_sink sr) (rp_out r) w))
      else if name = str ''cat'' then
        and_then (shCat (sr_fuel sr) (sr_sink sr) fsys (sr_stdin sr) stdin (tl args) env w) (\<lambda>c.
        Ok (cp_end c, cp_env c, cp_w c))
      else if name = str ''grep'' \<or> name = str ''fgrep'' \<or> name = str ''egrep'' then
        (let r = shGrep (sr_regexp sr) fsys piped name (tl args) env
         in Ok (Exit (gr_status r), gr_env r, write_all (sr_sink sr) (gr_out r) w))
      else Ok (Exit 1, refuse env, w))"

section \<open>The session stays in the tree\<close>

definition env_ok :: "FileSystem \<Rightarrow> shellEnv \<Rightarrow> bool" where
  "env_ok fsys env \<longleftrightarrow>
     clean_abs (e_cwd env) \<and> list_all clean_rel (e_asked env) \<and>
     (e_cwd env = [slash] \<or> (\<exists>info. fsys_Stat fsys (trim_prefix slash (e_cwd env)) = Inr info \<and> in_IsDir info))"

definition lists_names :: "FileSystem \<Rightarrow> bool" where
  "lists_names fsys \<longleftrightarrow> (\<forall>p ns n. fsys_ReadDir fsys p = Inr ns \<and> n \<in> set ns \<longrightarrow> plain_part n)"

named_theorems stays

lemma env_ok_ask [stays]: "env_ok fsys env \<Longrightarrow> clean_rel p \<Longrightarrow> env_ok fsys (ask p env)"
  by (simp add: env_ok_def ask_def)

lemma env_ok_refuse [stays]: "env_ok fsys env \<Longrightarrow> env_ok fsys (refuse env)"
  by (simp add: env_ok_def refuse_def)

lemma env_ok_fsPath [stays]: "env_ok fsys env \<Longrightarrow> clean_rel (fsPath env p)"
  by (simp add: env_ok_def fsPath_clean clean_abs_IsAbs)

lemma env_ok_resolve [stays]:
  assumes "env_ok fsys env"
  shows "clean_abs (shell_resolve env p)" and "clean_rel (trim_prefix slash (shell_resolve env p))"
  using assms by (simp_all add: env_ok_def resolve_clean trim_clean clean_abs_IsAbs)

lemma unaryTest_ok: "env_ok fsys env \<Longrightarrow> unaryTest fsys op operand env = (r, env') \<Longrightarrow> env_ok fsys env'"
  by (auto simp: unaryTest_def statAt_def Let_def split: if_splits intro: stays)

lemma runTest_ok: "env_ok fsys env \<Longrightarrow> runTest fsys args env = (r, env') \<Longrightarrow> env_ok fsys env'"
  by (cases "(fsys, args, env)" rule: runTest.cases) (auto split: if_splits prod.splits sum.splits dest: unaryTest_ok)

lemma evalTest_ok: "env_ok fsys env \<Longrightarrow> evalTest fsys args env = (r, env') \<Longrightarrow> env_ok fsys env'"
  by (auto simp: evalTest_def Let_def split: if_splits prod.splits dest: runTest_ok)

lemma cd_ok: "env_ok fsys env \<Longrightarrow> env_ok fsys (cl_env (shell_cd fsys args env))"
  using env_ok_resolve [of fsys env] env_ok_ask [of fsys env]
  by (auto simp: shell_cd_def statAt_def Let_def env_ok_def ask_def split: sum.split)

lemma callHandler_ok: "env_ok fsys env \<Longrightarrow> env_ok fsys (cl_env (callHandler fsys args env))"
proof -
  assume env: "env_ok fsys env"
  obtain ok d e where ev: "evalTest fsys args env = ((ok, d), e)" by (metis prod.collapse)
  have either: "env_ok fsys (cl_env x) \<Longrightarrow> env_ok fsys (cl_env y) \<Longrightarrow> env_ok fsys (cl_env (if b then x else y))" for b x y
    by simp
  show ?thesis
    unfolding callHandler_def Let_def ev prod.case
    by (intro either cd_ok [OF env]) (simp_all only: called.simps env env_ok_refuse [OF env] evalTest_ok [OF env ev])
qed

lemma grep_sources_ok: "env_ok fsys env \<Longrightarrow> grep_sources fsys ps env = (srcs, ds, env') \<Longrightarrow> env_ok fsys env'"
proof (induction ps arbitrary: env srcs ds env')
  case (Cons p ps)
  obtain a b c where g: "grep_sources fsys ps (ask (fsPath env p) env) = (a, b, c)" by (metis prod_cases3)
  have "env_ok fsys (ask (fsPath env p) env)" using Cons.prems(1) by (intro stays)
  from Cons.IH [OF this g] Cons.prems(2) show ?case by (auto simp: Let_def g split: sum.splits)
qed simp

lemma shGrep_ok: "env_ok fsys env \<Longrightarrow> env_ok fsys (gr_env (shGrep regexp fsys stdin name args env))"
proof -
  assume env: "env_ok fsys env"
  have srcs: "env_ok fsys (snd (snd (grep_sources fsys ps env)))" for ps
    using grep_sources_ok [OF env, of ps] by (metis prod.collapse)
  define g0 where "g0 = \<lparr>gp_invert = False, gp_ignore = False, gp_pattern = None, gp_files = []\<rparr>"
  show ?thesis
  proof (cases "grep_args args g0")
    case (Inl c)
    then show ?thesis by (simp add: shGrep_def g0_def [symmetric] env_ok_refuse [OF env])
  next
    case (Inr g)
    have run: "gr_env (shGrep regexp fsys stdin name args env) =
        (case gp_pattern g of None \<Rightarrow> env | Some pattern \<Rightarrow>
          (case grep_match regexp name g pattern of None \<Rightarrow> env
           | Some mat \<Rightarrow> if gp_files g = [] then env else snd (snd (grep_sources fsys (gp_files g) env))))"
      using Inr by (simp add: shGrep_def g0_def [symmetric] Let_def split_beta split: option.split)
    show ?thesis unfolding run using env srcs by (simp split: option.split)
  qed
qed

lemma children_ok:
  assumes "clean_abs p" and "\<forall>n \<in> set ns. plain_part n"
  shows "env_ok fsys env \<Longrightarrow> ls_long date fsys ino (trim_suffix slash p) ns env = (out, env') \<Longrightarrow> env_ok fsys env'"
    and "env_ok fsys env \<Longrightarrow> readdir_entries fsys (trim_suffix slash p) ns env = (es, env') \<Longrightarrow> env_ok fsys env'"
  using assms(2)
proof (induction ns arbitrary: env out es env')
  case (Cons n ns)
  let ?path = "trim_prefix slash (trim_suffix slash p @ [slash] @ n)"
  {
    case 1
    obtain a b where g: "ls_long date fsys ino (trim_suffix slash p) ns (ask ?path env) = (a, b)" by fastforce
    have "env_ok fsys (ask ?path env)" using 1 child_clean [OF assms(1), of n] by (intro stays) simp_all
    with Cons.IH(1) [OF _ g] 1 show ?case by (auto simp: Let_def g simp del: append_Cons append_Nil split: sum.splits)
  next
    case 2
    obtain a b where g: "readdir_entries fsys (trim_suffix slash p) ns (ask ?path env) = (a, b)" by fastforce
    have "env_ok fsys (ask ?path env)" using 2 child_clean [OF assms(1), of n] by (intro stays) simp_all
    with Cons.IH(2) [OF _ g] 2 show ?case by (auto simp: Let_def g simp del: append_Cons append_Nil)
  }
qed simp_all


lemma shLs_ok: "env_ok fsys env \<Longrightarrow> lists_names fsys \<Longrightarrow> env_ok fsys (rp_env (shLs date fsys args env))"
proof -
  assume env: "env_ok fsys env" and names: "lists_names fsys"
  define g where "g = fold ls_arg args \<lparr>lo_i = False, lo_l = False, lo_d = False, lo_target = [dot]\<rparr>"
  define a where "a = shell_resolve env (lo_target g)"
  have a: "clean_abs a" "clean_rel (trim_prefix slash a)" using env_ok_resolve [OF env] by (simp_all add: a_def)
  have e1: "env_ok fsys (ask (trim_prefix slash a) env)" by (intro env_ok_ask env a(2))
  then have e2: "env_ok fsys (ask (trim_prefix slash a) (ask (trim_prefix slash a) env))" by (rule env_ok_ask [OF _ a(2)])
  have long: "env_ok fsys (snd (ls_long date fsys ino (trim_suffix slash a) ns (ask (trim_prefix slash a) (ask (trim_prefix slash a) env))))"
    if "fsys_ReadDir fsys (trim_prefix slash a) = Inr ns" for ino ns
    using children_ok(1) [OF a(1) _ e2, of ns date ino] names that by (metis lists_names_def prod.collapse)
  show ?thesis
    using e1 e2 long
    by (simp add: shLs_def g_def [symmetric] a_def [symmetric] Let_def split_beta split: sum.split)
qed

lemma openHandler_ok: "env_ok fsys env \<Longrightarrow> openHandler fsys path writes env = (r, env') \<Longrightarrow> env_ok fsys env'"
  by (auto simp: openHandler_def Let_def split: if_splits sum.splits intro: stays)

lemma statHandler_ok: "env_ok fsys env \<Longrightarrow> statHandler fsys path env = (r, env') \<Longrightarrow> env_ok fsys env'"
  by (auto simp: statHandler_def Let_def split: sum.splits intro: stays)

lemma readDirHandler_ok:
  assumes "env_ok fsys env" and "lists_names fsys" and "readDirHandler fsys path env = (r, env')"
  shows "env_ok fsys env'"
proof -
  let ?a = "shell_resolve env path"
  have e: "env_ok fsys (ask (trim_prefix slash ?a) env)" using assms(1) by (intro stays)
  show ?thesis
  proof (cases "fsys_ReadDir fsys (trim_prefix slash ?a)")
    case (Inl x)
    then show ?thesis using assms(3) e by (simp add: readDirHandler_def Let_def)
  next
    case (Inr ns)
    obtain es e2 where es: "readdir_entries fsys (trim_suffix slash ?a) ns (ask (trim_prefix slash ?a) env) = (es, e2)" by fastforce
    have "\<forall>n \<in> set ns. plain_part n" using assms(2) Inr by (auto simp: lists_names_def)
    from children_ok(2) [OF env_ok_resolve(1) [OF assms(1)] this e es] assms(3) Inr es show ?thesis
      by (simp add: readDirHandler_def Let_def)
  qed
qed

lemma dd_finish_env [simp]: "cp_env (dd_finish env moved r) = env"
  by (auto simp: dd_finish_def split: prod.split sum.split)

lemma dd_copy_env:
  "dd_file_copy fuel maxAlloc sk f ibs skip cnt env w = Ok c \<Longrightarrow> cp_env c = env"
  "dd_stdin_copy fuel maxAlloc sk rd s ibs skip cnt env w = Ok c \<Longrightarrow> cp_env c = env"
  by (auto simp: dd_file_copy_def dd_stdin_copy_def Let_def go_outcome split: option.splits)

lemma shDD_ok: "env_ok fsys env \<Longrightarrow> shDD fuel maxAlloc sk fsys rd stdin args env w = Ok c \<Longrightarrow> env_ok fsys (cp_env c)"
proof -
  assume env: "env_ok fsys env" and run: "shDD fuel maxAlloc sk fsys rd stdin args env w = Ok c"
  have asked: "env_ok fsys (ask (fsPath env p) env)" for p using env by (intro stays)
  from run consider "cp_env c = env" | "cp_env c = refuse env" | p where "cp_env c = ask (fsPath env p) env"
    by (auto simp: shDD_def Let_def split: sum.splits if_splits dd_refusal.splits dest!: dd_copy_env)
  then show ?thesis using env asked env_ok_refuse [OF env] by cases simp_all
qed

lemma cat_files_ok: "env_ok fsys env \<Longrightarrow> cat_files fuel sk fsys ps env moved w = Ok c \<Longrightarrow> env_ok fsys (cp_env c)"
proof (induction ps arbitrary: env moved w)
  case (Cons p ps)
  have e: "env_ok fsys (ask (fsPath env p) env)" using Cons.prems(1) by (intro stays)
  show ?case
  proof (cases "fsys_Open fsys (fsPath env p)")
    case (Inl x)
    then show ?thesis using Cons.prems(2) e by (auto simp: Let_def)
  next
    case (Inr f)
    obtain r w1 where cp: "copyFileTransfer fuel sk (section_Read (if_ReadAt f)) (NewSectionReader 0 (if_Size f)) w = Ok (r, w1)"
      using Cons.prems(2) Inr by (auto simp: Let_def go_outcome)
    obtain b w2 where poll: "sk_poll sk w1 = (b, w2)" by fastforce
    show ?thesis using Cons.prems(2) Cons.IH [OF e] e Inr cp poll by (cases b; cases r) (auto simp: Let_def)
  qed
qed auto

lemma execHandler_ok:
  assumes "env_ok fsys env" and "lists_names fsys" and "execHandler sr fsys stdin piped args env w = Ok (r, env', w')"
  shows "env_ok fsys env'"
  using assms shLs_ok [OF assms(1,2), of "sr_date sr" "tl args"]
    shGrep_ok [OF assms(1), of "sr_regexp sr" piped "path_Base (hd args)" "tl args"] env_ok_refuse [OF assms(1)]
  by (auto simp: execHandler_def shCat_def Let_def go_outcome split: if_splits dest: shDD_ok [OF assms(1)] cat_files_ok [OF assms(1)])


section \<open>Property\<close>

text \<open>
  A session: the interpreter calls the handlers in any order with any
  arguments. Before each line the flag for a refusal is cleared.
\<close>

inductive shell_run :: "('w, 's) surroundings \<Rightarrow> FileSystem \<Rightarrow> shellEnv \<Rightarrow> bool" for sr fsys where
  start: "shell_run sr fsys newShellEnv"
| line: "shell_run sr fsys env \<Longrightarrow> shell_run sr fsys (env\<lparr>e_refused := False\<rparr>)"
| call: "shell_run sr fsys env \<Longrightarrow> shell_run sr fsys (cl_env (callHandler fsys args env))"
| exec: "shell_run sr fsys env \<Longrightarrow> execHandler sr fsys stdin piped args env w = Ok (r, env', w') \<Longrightarrow> shell_run sr fsys env'"
| redirect: "shell_run sr fsys env \<Longrightarrow> openHandler fsys path writes env = (x, env') \<Longrightarrow> shell_run sr fsys env'"
| glob: "shell_run sr fsys env \<Longrightarrow> readDirHandler fsys path env = (y, env') \<Longrightarrow> shell_run sr fsys env'"
| stat: "shell_run sr fsys env \<Longrightarrow> statHandler fsys path env = (z, env') \<Longrightarrow> shell_run sr fsys env'"

lemma shell_run_ok:
  assumes "shell_run sr fsys env" and "lists_names fsys"
  shows "env_ok fsys env"
  using assms(1)
proof (induction rule: shell_run.induct)
  case start
  show ?case by (auto simp: env_ok_def newShellEnv_def clean_abs_def intro: exI [of _ "[]"])
next
  case (line env)
  then show ?case by (simp add: env_ok_def)
next
  case (call env args)
  show ?case by (rule callHandler_ok [OF call.IH])
next
  case exec
  show ?case by (rule execHandler_ok [OF exec.IH assms(2) exec.hyps(2)])
next
  case redirect
  show ?case by (rule openHandler_ok [OF redirect.IH redirect.hyps(2)])
next
  case glob
  show ?case by (rule readDirHandler_ok [OF glob.IH assms(2) glob.hyps(2)])
next
  case stat
  show ?case by (rule statHandler_ok [OF stat.IH stat.hyps(2)])
qed

text \<open>C14: The shell is confined to the tree it serves. In any session, whatever commands, redirections, globs and
  changes of directory a client sends, every path given to the tree is relative and has no empty, ``.'' or ``..''
  element, and the working directory is a clean absolute path of a directory of the tree. A redirection that would
  write is refused before the tree is asked, and a command other than dd, ls, cat and the greps is refused and changes nothing else.\<close>

theorem shell_confined:
  assumes "lists_names fsys" and "shell_run sr fsys env"
  shows "list_all clean_rel (e_asked env) \<and> clean_abs (e_cwd env) \<and>
    (e_cwd env = [slash] \<or> (\<exists>info. fsys_Stat fsys (trim_prefix slash (e_cwd env)) = Inr info \<and> in_IsDir info)) \<and>
    (\<forall>path. path \<noteq> dev_null \<longrightarrow> openHandler fsys path True env = (Inl ReadOnly, refuse env)) \<and>
    (\<forall>stdin piped args w. path_Base (hd args) \<notin> {str ''dd'', str ''ls'', str ''cat'', str ''grep'', str ''fgrep'', str ''egrep''} \<longrightarrow>
       execHandler sr fsys stdin piped args env w = Ok (Exit 1, refuse env, w))"
  using shell_run_ok [OF assms(2,1)] by (simp add: env_ok_def openHandler_def execHandler_def Let_def)

definition try_surroundings :: "(bytes list \<times> nat, unit) surroundings" where
  "try_surroundings = \<lparr>sr_fuel = 9, sr_maxAlloc = 65536, sr_sink = logged (\<lambda>h. (length (List.last h), None)) (\<lambda>h. None) (\<lambda>q. False),
     sr_stdin = (\<lambda>n s. Ok ([], Some EOF, s)), sr_regexp = (\<lambda>p. None), sr_date = (\<lambda>t. [])\<rparr>"

text \<open>cd d; test -f ../../d/a.\<close>

theorem shell_confined_witness:
  "\<exists>env. shell_run try_surroundings try_fsys env \<and> e_cwd env = str ''/d'' \<and> e_asked env = [str ''d'', str ''d/a''] \<and>
     list_all clean_rel (e_asked env)"
proof -
  define e1 where "e1 = cl_env (callHandler try_fsys [str ''cd'', str ''d''] newShellEnv)"
  define e2 where "e2 = cl_env (callHandler try_fsys [str ''test'', str ''-f'', str ''../../d/a''] e1)"
  have names: "lists_names try_fsys"
    by (auto simp: lists_names_def try_fsys_def plain_part_def dot_def slash_def split: if_splits)
  have run: "shell_run try_surroundings try_fsys e2"
    unfolding e2_def e1_def by (intro shell_run.call shell_run.start)
  have "e_cwd e2 = str ''/d''" "e_asked e2 = [str ''d'', str ''d/a'']"
    unfolding e2_def e1_def by code_simp+
  with shell_confined [OF names run] run show ?thesis by auto
qed

end
