(* ===== verification/Source_Cache.thy ===== *)
theory Source_Cache
  imports Efs
begin

text \<open>
  The chunk cache between an image and the network
  (src/internal/source/cachingreaderat.go). Reads are served from aligned chunks,
  fetched on a miss and dropped least recently used first once they exceed a
  budget. The element of the recency list that the map of the code points to is
  the entry itself, and entries are told apart by their chunk number. int64
  arithmetic that the size of the object could overflow is wrapped; positions are
  never negative and the chunk size is a positive constant, so the code's division is \<open>div\<close>.

  Concurrent reads are a step relation: each goroutine runs the loop of ReadAt,
  and the lookup and the insertion of a chunk, which the code does under its
  lock, are single steps between which other goroutines run. The sequential
  \<open>cc_ReadAt\<close> is composed of the same operations.
\<close>

section \<open>Model\<close>

datatype 'e cc_err = CcNegative int | CcEOF | CcShort int "'e option"

type_synonym chunkEntry = "int \<times> bytes"

record cachingReaderAt =
  cc_size :: int
  cc_chunk :: int
  cc_budget :: int
  cc_cache :: "int \<rightharpoonup> chunkEntry"
  cc_lru :: "chunkEntry list"
  cc_resident :: int

definition newCachingReaderAt :: "int \<Rightarrow> int \<Rightarrow> int \<Rightarrow> cachingReaderAt" where
  "newCachingReaderAt sz chunk budget =
     \<lparr>cc_size = sz, cc_chunk = chunk, cc_budget = budget, cc_cache = Map.empty, cc_lru = [], cc_resident = 0\<rparr>"

definition moveToFront :: "chunkEntry \<Rightarrow> chunkEntry list \<Rightarrow> chunkEntry list" where
  "moveToFront e l = e # remove1 e l"

text \<open>The loop of evictLocked, over the recency list.\<close>

function evict_loop :: "cachingReaderAt \<Rightarrow> cachingReaderAt" where
  "evict_loop c =
     (if cc_resident c > cc_budget c \<and> length (cc_lru c) > 1
      then let e = last (cc_lru c)
           in evict_loop (c\<lparr>cc_lru := butlast (cc_lru c), cc_cache := (cc_cache c)(fst e := None),
                            cc_resident := cc_resident c - int (length (snd e))\<rparr>)
      else c)"
  by auto
termination by (relation "measure (\<lambda>c. length (cc_lru c))") (auto simp: Let_def)

declare evict_loop.simps [simp del]

definition evictLocked :: "cachingReaderAt \<Rightarrow> cachingReaderAt" where
  "evictLocked c = (if cc_budget c \<le> 0 then c else evict_loop c)"

text \<open>The two critical sections of chunkAt: before the fetch and after it.\<close>

definition chunk_lookup :: "int \<Rightarrow> cachingReaderAt \<Rightarrow> bytes option \<times> cachingReaderAt" where
  "chunk_lookup i c =
     (case cc_cache c i of
        Some e \<Rightarrow> (Some (snd e), c\<lparr>cc_lru := moveToFront e (cc_lru c)\<rparr>)
      | None \<Rightarrow> (None, c))"

definition chunk_insert :: "int \<Rightarrow> bytes \<Rightarrow> cachingReaderAt \<Rightarrow> bytes \<times> cachingReaderAt" where
  "chunk_insert i data c =
     (case cc_cache c i of
        Some e \<Rightarrow> (snd e, c\<lparr>cc_lru := moveToFront e (cc_lru c)\<rparr>)
      | None \<Rightarrow>
          (data, evictLocked (c\<lparr>cc_lru := (i, data) # cc_lru c, cc_cache := (cc_cache c)(i \<mapsto> (i, data)),
                                cc_resident := cc_resident c + int (length data)\<rparr>)))"

text \<open>fetch: the range asked of the underlying reader, and what its answer means.\<close>

definition fetch_range :: "cachingReaderAt \<Rightarrow> int \<Rightarrow> int \<times> int" where
  "fetch_range c i =
     (let lo = wrap64 (i * cc_chunk c)
      in (lo, if wrap64 (lo + cc_chunk c) > cc_size c then wrap64 (cc_size c - lo) else cc_chunk c))"

definition fetch_result :: "int \<Rightarrow> int \<Rightarrow> bytes \<times> 'e option \<Rightarrow> 'e cc_err + bytes" where
  "fetch_result i n = (\<lambda>(got, err). if int (length got) \<noteq> n then Inl (CcShort i err) else Inr got)"

text \<open>
  The underlying reader: its state, the offset and the length of the buffer.
  \<open>make\<close> panics on a negative length.
\<close>

type_synonym ('e, 'w) under = "'w \<Rightarrow> int \<Rightarrow> nat \<Rightarrow> (bytes \<times> 'e option) \<times> 'w"

definition cc_fetch :: "('e, 'w) under \<Rightarrow> cachingReaderAt \<Rightarrow> int \<Rightarrow> 'w \<Rightarrow> (unit, ('e cc_err + bytes) \<times> 'w) outcome" where
  "cc_fetch r c i w =
     (let (lo, n) = fetch_range c i
      in if n < 0 then Panic
         else let (res, w') = r w lo (nat n) in Ok (fetch_result i n res, w'))"

definition chunkAt :: "('e, 'w) under \<Rightarrow> int \<Rightarrow> cachingReaderAt \<Rightarrow> 'w \<Rightarrow> (unit, ('e cc_err + bytes) \<times> cachingReaderAt \<times> 'w) outcome" where
  "chunkAt r i c w =
     (case chunk_lookup i c of
        (Some data, c') \<Rightarrow> Ok (Inr data, c', w)
      | (None, c') \<Rightarrow>
          and_then (cc_fetch r c' i w) (\<lambda>(res, w').
            case res of
              Inl e \<Rightarrow> Ok (Inl e, c', w')
            | Inr data \<Rightarrow> let (data', c'') = chunk_insert i data c' in Ok (Inr data', c'', w')))"

text \<open>What one round of the loop of ReadAt takes from a chunk: the new position and the bytes.\<close>

definition cc_copy :: "int \<Rightarrow> int \<Rightarrow> int \<Rightarrow> bytes \<Rightarrow> (unit, int \<times> bytes) outcome" where
  "cc_copy chunk end pos data =
     (let start = pos - (pos div chunk) * chunk;
          avail = int (length data) - start;
          want = (if avail < end - pos then avail else end - pos)
      in if want < 0 \<or> start > int (length data) then Panic
         else Ok (pos + want, take (nat want) (drop (nat start) data)))"

fun cc_read_loop :: "nat \<Rightarrow> ('e, 'w) under \<Rightarrow> int \<Rightarrow> int \<Rightarrow> bytes \<Rightarrow> cachingReaderAt \<Rightarrow> 'w \<Rightarrow>
    (unit, (bytes \<times> 'e cc_err option) \<times> cachingReaderAt \<times> 'w) outcome" where
  "cc_read_loop fuel r end pos acc c w =
     (if pos < end then
        (case fuel of
           0 \<Rightarrow> Diverge
         | Suc fuel' \<Rightarrow>
             if cc_chunk c = 0 then Panic
             else and_then (chunkAt r (pos div cc_chunk c) c w) (\<lambda>(res, c', w').
               case res of
                 Inl e \<Rightarrow> Ok ((acc, Some e), c', w')
               | Inr data \<Rightarrow>
                   and_then (cc_copy (cc_chunk c) end pos data) (\<lambda>(pos', got).
                     cc_read_loop fuel' r end pos' (acc @ got) c' w')))
      else Ok ((acc, None), c, w))"

declare cc_read_loop.simps [simp del]

definition read_end :: "cachingReaderAt \<Rightarrow> int \<Rightarrow> nat \<Rightarrow> int" where
  "read_end c off n = (let e = wrap64 (off + int n) in if e > cc_size c then cc_size c else e)"

definition finish_read :: "nat \<Rightarrow> bytes \<times> 'e cc_err option \<Rightarrow> bytes \<times> 'e cc_err option" where
  "finish_read n = (\<lambda>(got, err).
     if err \<noteq> None then (got, err) else if length got < n then (got, Some CcEOF) else (got, None))"

definition cc_ReadAt :: "nat \<Rightarrow> ('e, 'w) under \<Rightarrow> int \<Rightarrow> nat \<Rightarrow> cachingReaderAt \<Rightarrow> 'w \<Rightarrow>
    (unit, (bytes \<times> 'e cc_err option) \<times> cachingReaderAt \<times> 'w) outcome" where
  "cc_ReadAt fuel r off n c w =
     (if off < 0 then Ok (([], Some (CcNegative off)), c, w)
      else if off \<ge> cc_size c then Ok (([], Some CcEOF), c, w)
      else and_then (cc_read_loop fuel r (read_end c off n) off [] c w) (\<lambda>(res, c', w').
             Ok (finish_read n res, c', w')))"

section \<open>Model: concurrent reads\<close>

datatype 'e cc_pc = Look | Fetch | Insert bytes | Finished "bytes \<times> 'e cc_err option" | Crashed

record 'e goroutine =
  g_off :: int
  g_len :: nat
  g_pos :: int
  g_acc :: bytes
  g_pc :: "'e cc_pc"

type_synonym 'e cc_state = "cachingReaderAt \<times> (nat \<rightharpoonup> 'e goroutine)"

definition g_index :: "cachingReaderAt \<Rightarrow> 'e goroutine \<Rightarrow> int" where
  "g_index c g = g_pos g div cc_chunk c"

definition at_loop :: "cachingReaderAt \<Rightarrow> 'e goroutine \<Rightarrow> 'e goroutine" where
  "at_loop c g = g\<lparr>g_pc := if g_pos g < read_end c (g_off g) (g_len g) then Look
                          else Finished (finish_read (g_len g) (g_acc g, None))\<rparr>"

definition g_start :: "cachingReaderAt \<Rightarrow> int \<Rightarrow> nat \<Rightarrow> 'e goroutine" where
  "g_start c off n =
     (let g = \<lparr>g_off = off, g_len = n, g_pos = off, g_acc = [], g_pc = Look\<rparr>
      in if off < 0 then g\<lparr>g_pc := Finished ([], Some (CcNegative off))\<rparr>
         else if off \<ge> cc_size c then g\<lparr>g_pc := Finished ([], Some CcEOF)\<rparr>
         else at_loop c g)"

definition g_advance :: "cachingReaderAt \<Rightarrow> bytes \<Rightarrow> 'e goroutine \<Rightarrow> 'e goroutine" where
  "g_advance c data g =
     (case cc_copy (cc_chunk c) (read_end c (g_off g) (g_len g)) (g_pos g) data of
        Ok (pos', got) \<Rightarrow> at_loop c (g\<lparr>g_pos := pos', g_acc := g_acc g @ got\<rparr>)
      | _ \<Rightarrow> g\<lparr>g_pc := Crashed\<rparr>)"

text \<open>\<open>answers lo n a\<close>: the underlying reader may answer \<open>a\<close> when asked for \<open>n\<close> bytes at \<open>lo\<close>.\<close>

inductive cc_step :: "(int \<Rightarrow> nat \<Rightarrow> bytes \<times> 'e option \<Rightarrow> bool) \<Rightarrow> 'e cc_state \<Rightarrow> 'e cc_state \<Rightarrow> bool"
  for answers where
  start: "gs t = None \<Longrightarrow> cc_step answers (c, gs) (c, gs(t \<mapsto> g_start c off n))"
| hit: "gs t = Some g \<Longrightarrow> g_pc g = Look \<Longrightarrow> chunk_lookup (g_index c g) c = (Some data, c') \<Longrightarrow>
    cc_step answers (c, gs) (c', gs(t \<mapsto> g_advance c' data g))"
| miss: "gs t = Some g \<Longrightarrow> g_pc g = Look \<Longrightarrow> chunk_lookup (g_index c g) c = (None, c') \<Longrightarrow>
    cc_step answers (c, gs) (c', gs(t \<mapsto> g\<lparr>g_pc := Fetch\<rparr>))"
| panic: "gs t = Some g \<Longrightarrow> g_pc g = Fetch \<Longrightarrow> fetch_range c (g_index c g) = (lo, n) \<Longrightarrow> n < 0 \<Longrightarrow>
    cc_step answers (c, gs) (c, gs(t \<mapsto> g\<lparr>g_pc := Crashed\<rparr>))"
| fetched: "gs t = Some g \<Longrightarrow> g_pc g = Fetch \<Longrightarrow> fetch_range c (g_index c g) = (lo, n) \<Longrightarrow> 0 \<le> n \<Longrightarrow>
    answers lo (nat n) a \<Longrightarrow> fetch_result (g_index c g) n a = Inr data \<Longrightarrow>
    cc_step answers (c, gs) (c, gs(t \<mapsto> g\<lparr>g_pc := Insert data\<rparr>))"
| failed: "gs t = Some g \<Longrightarrow> g_pc g = Fetch \<Longrightarrow> fetch_range c (g_index c g) = (lo, n) \<Longrightarrow> 0 \<le> n \<Longrightarrow>
    answers lo (nat n) a \<Longrightarrow> fetch_result (g_index c g) n a = Inl e \<Longrightarrow>
    cc_step answers (c, gs) (c, gs(t \<mapsto> g\<lparr>g_pc := Finished (g_acc g, Some e)\<rparr>))"
| insert: "gs t = Some g \<Longrightarrow> g_pc g = Insert data \<Longrightarrow> chunk_insert (g_index c g) data c = (data', c') \<Longrightarrow>
    cc_step answers (c, gs) (c', gs(t \<mapsto> g_advance c' data' g))"

section \<open>The invariant of the cache\<close>

definition chunk_bytes :: "bytes \<Rightarrow> int \<Rightarrow> int \<Rightarrow> bytes" where
  "chunk_bytes content chunk i = take (nat chunk) (drop (nat (i * chunk)) content)"

definition entry_lens :: "chunkEntry list \<Rightarrow> int" where
  "entry_lens l = (\<Sum>e\<leftarrow>l. int (length (snd e)))"

text \<open>The map and the recency list agree, and the count of resident bytes is theirs.\<close>

definition cc_shape :: "cachingReaderAt \<Rightarrow> bool" where
  "cc_shape c \<longleftrightarrow> distinct (map fst (cc_lru c)) \<and>
     (\<forall>i e. cc_cache c i = Some e \<longleftrightarrow> e \<in> set (cc_lru c) \<and> fst e = i) \<and>
     cc_resident c = entry_lens (cc_lru c)"

definition cc_fits :: "cachingReaderAt \<Rightarrow> bool" where
  "cc_fits c \<longleftrightarrow> cc_budget c \<le> 0 \<or> cc_resident c \<le> cc_budget c \<or> length (cc_lru c) \<le> 1"

definition cc_ok :: "bytes \<Rightarrow> cachingReaderAt \<Rightarrow> bool" where
  "cc_ok content c \<longleftrightarrow> cc_shape c \<and> cc_fits c \<and> 0 < cc_chunk c \<and> cc_size c = int (length content) \<and>
     cc_size c + cc_chunk c < 2 ^ 63 \<and>
     (\<forall>e \<in> set (cc_lru c). 0 \<le> fst e \<and> fst e * cc_chunk c < cc_size c \<and> snd e = chunk_bytes content (cc_chunk c) (fst e))"

lemma cc_ok_new:
  "0 < chunk \<Longrightarrow> int (length content) + chunk < 2 ^ 63 \<Longrightarrow> cc_ok content (newCachingReaderAt (int (length content)) chunk budget)"
  by (simp add: cc_ok_def newCachingReaderAt_def cc_shape_def cc_fits_def entry_lens_def)

lemma entry_lens_simps [simp]:
  "entry_lens [] = 0"
  "entry_lens (e # l) = int (length (snd e)) + entry_lens l"
  "entry_lens (l @ l') = entry_lens l + entry_lens l'"
  by (simp_all add: entry_lens_def)

lemma entry_lens_remove1: "e \<in> set l \<Longrightarrow> entry_lens (remove1 e l) = entry_lens l - int (length (snd e))"
  by (induction l) auto

lemma shape_entry: "cc_shape c \<Longrightarrow> cc_cache c i = Some e \<Longrightarrow> e \<in> set (cc_lru c) \<and> fst e = i"
  unfolding cc_shape_def by blast

lemma shape_iff: "cc_shape c \<Longrightarrow> cc_cache c j = Some e \<longleftrightarrow> e \<in> set (cc_lru c) \<and> fst e = j"
  unfolding cc_shape_def by blast

lemma shape_distinct: "cc_shape c \<Longrightarrow> distinct (cc_lru c)"
  by (simp add: cc_shape_def distinct_map)

lemma set_moveToFront: "e \<in> set l \<Longrightarrow> set (moveToFront e l) = set l"
  by (induction l) (auto simp: moveToFront_def)

lemma length_moveToFront: "e \<in> set l \<Longrightarrow> length (moveToFront e l) = length l"
  using length_pos_if_in_set [of e l] by (simp add: moveToFront_def length_remove1)

lemma shape_moveToFront:
  assumes "cc_shape c" and "cc_cache c i = Some e"
  shows "cc_shape (c\<lparr>cc_lru := moveToFront e (cc_lru c)\<rparr>)"
proof -
  have e: "e \<in> set (cc_lru c)" using shape_entry [OF assms] by simp
  have d: "distinct (map fst (cc_lru c))" using assms(1) by (simp add: cc_shape_def)
  have "distinct (map fst (moveToFront e (cc_lru c)))"
    using d shape_distinct [OF assms(1)] e by (auto simp: moveToFront_def distinct_map inj_on_def)
  moreover have "entry_lens (moveToFront e (cc_lru c)) = entry_lens (cc_lru c)"
    using e by (simp add: moveToFront_def entry_lens_remove1)
  ultimately show ?thesis using assms(1) by (simp add: cc_shape_def set_moveToFront [OF e])
qed

lemma cc_ok_moveToFront:
  assumes "cc_ok content c" and "cc_cache c i = Some e"
  shows "cc_ok content (c\<lparr>cc_lru := moveToFront e (cc_lru c)\<rparr>)"
proof -
  have s: "cc_shape c" using assms(1) by (simp add: cc_ok_def)
  have e: "e \<in> set (cc_lru c)" using shape_entry [OF s assms(2)] by simp
  show ?thesis using assms(1) shape_moveToFront [OF s assms(2)]
    by (auto simp: cc_ok_def cc_fits_def set_moveToFront [OF e] length_moveToFront [OF e])
qed

lemma evict_loop_ok:
  assumes "cc_shape c" and "0 < cc_budget c"
  shows "cc_shape (evict_loop c) \<and> cc_fits (evict_loop c) \<and> set (cc_lru (evict_loop c)) \<subseteq> set (cc_lru c) \<and>
    cc_size (evict_loop c) = cc_size c \<and> cc_chunk (evict_loop c) = cc_chunk c \<and> cc_budget (evict_loop c) = cc_budget c \<and>
    (cc_lru c \<noteq> [] \<longrightarrow> cc_lru (evict_loop c) \<noteq> [] \<and> hd (cc_lru (evict_loop c)) = hd (cc_lru c))"
  using assms
proof (induction c rule: evict_loop.induct)
  case (1 c)
  show ?case
  proof (cases "cc_resident c > cc_budget c \<and> length (cc_lru c) > 1")
    case False
    then show ?thesis using 1 by (subst (1 2 3 4 5 6 7 8) evict_loop.simps) (auto simp: cc_fits_def)
  next
    case True
    then obtain l e where l: "cc_lru c = l @ [e]" "l \<noteq> []" by (cases "cc_lru c" rule: rev_cases) auto
    define c' where "c' = c\<lparr>cc_lru := l, cc_cache := (cc_cache c)(fst e := None), cc_resident := cc_resident c - int (length (snd e))\<rparr>"
    have step: "evict_loop c = evict_loop c'" using True l by (subst evict_loop.simps) (simp add: c'_def)
    have "fst e \<notin> fst ` set l" using 1(2) by (simp add: cc_shape_def l)
    then have ne: "fst x \<noteq> fst e" if "x \<in> set l" for x using that by (metis imageI)
    have "cc_shape c'" unfolding cc_shape_def
    proof (intro conjI allI)
      show "cc_cache c' j = Some x \<longleftrightarrow> x \<in> set (cc_lru c') \<and> fst x = j" for j x
        using shape_iff [OF 1(2), of j x] ne [of x] by (auto simp: c'_def l)
    qed (use 1(2) in \<open>simp_all add: cc_shape_def c'_def l\<close>)
    moreover have "0 < cc_budget c'" using 1(3) by (simp add: c'_def)
    moreover have "cc_shape c' \<Longrightarrow> 0 < cc_budget c' \<Longrightarrow> ?thesis" unfolding step
      using 1(1) [OF True refl] l unfolding c'_def by auto
    ultimately show ?thesis by blast
  qed
qed

lemma evictLocked_ok:
  assumes "cc_shape c"
  shows "cc_shape (evictLocked c) \<and> cc_fits (evictLocked c) \<and> set (cc_lru (evictLocked c)) \<subseteq> set (cc_lru c) \<and>
    cc_size (evictLocked c) = cc_size c \<and> cc_chunk (evictLocked c) = cc_chunk c \<and> cc_budget (evictLocked c) = cc_budget c \<and>
    (cc_lru c \<noteq> [] \<longrightarrow> cc_lru (evictLocked c) \<noteq> [] \<and> hd (cc_lru (evictLocked c)) = hd (cc_lru c))"
  using assms evict_loop_ok [OF assms] by (auto simp: evictLocked_def cc_fits_def)

section \<open>Looking up, fetching and inserting a chunk\<close>

text \<open>Chunk \<open>i\<close> exists; the operations on it keep the invariant and yield its bytes.\<close>

definition chunk_exists :: "cachingReaderAt \<Rightarrow> int \<Rightarrow> bool" where
  "chunk_exists c i \<longleftrightarrow> 0 \<le> i \<and> i * cc_chunk c < cc_size c"

definition same_object :: "cachingReaderAt \<Rightarrow> cachingReaderAt \<Rightarrow> bool" where
  "same_object c c' \<longleftrightarrow> cc_size c' = cc_size c \<and> cc_chunk c' = cc_chunk c \<and> cc_budget c' = cc_budget c"

lemma same_object_refl [simp]: "same_object c c"
  by (simp add: same_object_def)

lemma same_object_trans: "same_object c c' \<Longrightarrow> same_object c' c'' \<Longrightarrow> same_object c c''"
  by (simp add: same_object_def)

lemma cc_entry_bytes:
  assumes "cc_ok content c" and "cc_cache c i = Some e"
  shows "snd e = chunk_bytes content (cc_chunk c) i"
proof -
  have "cc_shape c" using assms(1) by (simp add: cc_ok_def)
  from shape_entry [OF this assms(2)] show ?thesis using assms(1) by (auto simp: cc_ok_def)
qed

lemma chunk_lookup_ok:
  assumes "cc_ok content c" and "chunk_lookup i c = (found, c')"
  shows "cc_ok content c' \<and> same_object c c' \<and> (\<forall>data. found = Some data \<longrightarrow> data = chunk_bytes content (cc_chunk c) i)"
  using assms cc_ok_moveToFront [OF assms(1), of i] cc_entry_bytes [OF assms(1), of i]
  by (auto simp: chunk_lookup_def same_object_def split: option.splits)

lemma shape_insert:
  assumes "cc_shape c" and "cc_cache c i = None"
  shows "cc_shape (c\<lparr>cc_lru := (i, data) # cc_lru c, cc_cache := (cc_cache c)(i \<mapsto> (i, data)),
                      cc_resident := cc_resident c + int (length data)\<rparr>)" (is "cc_shape ?c")
  unfolding cc_shape_def
proof (intro conjI allI)
  note iff = shape_iff [OF assms(1)]
  have fresh: "fst e \<noteq> i" if "e \<in> set (cc_lru c)" for e using iff [of i e] assms(2) that by auto
  show "distinct (map fst (cc_lru ?c))" using assms(1) fresh by (auto simp: cc_shape_def)
  show "cc_cache ?c j = Some e \<longleftrightarrow> e \<in> set (cc_lru ?c) \<and> fst e = j" for j e
    using iff [of j e] fresh [of e] by auto
  show "cc_resident ?c = entry_lens (cc_lru ?c)" using assms(1) by (simp add: cc_shape_def)
qed

lemma chunk_insert_ok:
  assumes "cc_ok content c" and "chunk_exists c i" and "data = chunk_bytes content (cc_chunk c) i"
    and "chunk_insert i data c = (data', c')"
  shows "cc_ok content c' \<and> same_object c c' \<and> data' = data"
proof (cases "cc_cache c i")
  case None
  have "cc_shape c" using assms(1) by (simp add: cc_ok_def)
  note ev = evictLocked_ok [OF shape_insert [OF this None, of data]]
  have c': "data' = data" "c' = evictLocked (c\<lparr>cc_lru := (i, data) # cc_lru c, cc_cache := (cc_cache c)(i \<mapsto> (i, data)),
      cc_resident := cc_resident c + int (length data)\<rparr>)" using None assms(4) by (auto simp: chunk_insert_def)
  have sub: "set (cc_lru c') \<subseteq> insert (i, data) (set (cc_lru c))" using ev by (simp add: c')
  have "0 \<le> fst e \<and> fst e * cc_chunk c < cc_size c \<and> snd e = chunk_bytes content (cc_chunk c) (fst e)" if "e \<in> set (cc_lru c')" for e
  proof (cases "e = (i, data)")
    case True
    then show ?thesis using assms(2,3) by (simp add: chunk_exists_def)
  next
    case False
    with sub that have "e \<in> set (cc_lru c)" by auto
    then show ?thesis using assms(1) unfolding cc_ok_def by blast
  qed
  then show ?thesis using ev assms(1) c'(1) by (simp add: cc_ok_def same_object_def c'(2) [symmetric])
next
  case (Some e)
  then show ?thesis using assms cc_ok_moveToFront [OF assms(1) Some] cc_entry_bytes [OF assms(1) Some]
    by (auto simp: chunk_insert_def same_object_def)
qed

lemma fetch_range_ok:
  assumes ok: "cc_ok content c" and ex: "chunk_exists c i" and r: "fetch_range c i = (lo, n)"
  shows "lo = i * cc_chunk c \<and> n = int (length (chunk_bytes content (cc_chunk c) i)) \<and> 0 < n \<and> lo + n \<le> cc_size c \<and>
    0 \<le> lo \<and> nat lo + nat n \<le> length content"
proof -
  have b: "0 < cc_chunk c" "cc_size c + cc_chunk c < 2 ^ 63" "cc_size c = int (length content)" "0 \<le> i" "i * cc_chunk c < cc_size c"
    using ok ex by (auto simp: cc_ok_def chunk_exists_def)
  define q where "q = i * cc_chunk c"
  have q: "0 \<le> q" "q < cc_size c" using b by (simp_all add: q_def)
  then have "wrap64 q = q" "wrap64 (q + cc_chunk c) = q + cc_chunk c" "wrap64 (cc_size c - q) = cc_size c - q"
    using b by (auto intro!: wrap64_id)
  then show ?thesis using b q r unfolding fetch_range_def chunk_bytes_def q_def [symmetric] Let_def by (auto split: if_splits)
qed

section \<open>Reading\<close>

text \<open>What an underlying reader of \<open>content\<close> may answer: never bytes that are not there.\<close>

definition truthful :: "bytes \<Rightarrow> int \<Rightarrow> nat \<Rightarrow> bytes \<times> 'e option \<Rightarrow> bool" where
  "truthful content lo n a \<longleftrightarrow> (\<exists>k \<le> n. fst a = take k (drop (nat lo) content))"

lemma fetch_result_ok:
  assumes "cc_ok content c" and "chunk_exists c i" and "fetch_range c i = (lo, n)"
    and "truthful content lo (nat n) a" and "fetch_result i n a = Inr data"
  shows "data = chunk_bytes content (cc_chunk c) i"
proof -
  note r = fetch_range_ok [OF assms(1-3)]
  obtain k where k: "k \<le> nat n" "fst a = take k (drop (nat lo) content)" using assms(4) by (auto simp: truthful_def)
  have "data = fst a" "int (length data) = n" using assms(5) by (auto simp: fetch_result_def split: prod.splits if_splits)
  moreover from this k have "data = take (nat n) (drop (nat lo) content)" by (cases "k = nat n") auto
  moreover have "take (nat n) (drop (nat lo) content) = take (nat n) (chunk_bytes content (cc_chunk c) i)"
    using r by (simp add: chunk_bytes_def)
  ultimately show ?thesis using r by simp
qed

lemma fetch_result_err: "fetch_result i n a = Inl e \<Longrightarrow> \<exists>err. e = CcShort i err"
  by (auto simp: fetch_result_def split: prod.splits if_splits)

text \<open>The position of a read after a chunk was copied.\<close>

lemma cc_copy_ok:
  assumes ok: "cc_ok content c" and pos: "0 \<le> pos" "pos < e" "e \<le> cc_size c"
  shows "\<exists>pos' got. cc_copy (cc_chunk c) e pos (chunk_bytes content (cc_chunk c) (pos div cc_chunk c)) = Ok (pos', got) \<and>
    pos < pos' \<and> pos' \<le> e \<and> got = take (nat (pos' - pos)) (drop (nat pos) content)"
proof -
  let ?k = "cc_chunk c" and ?i = "pos div cc_chunk c"
  have b: "0 < ?k" "cc_size c = int (length content)" using ok by (auto simp: cc_ok_def)
  have "0 \<le> pos mod ?k" "pos mod ?k < ?k" using b by simp_all
  moreover have "?i * ?k = pos - pos mod ?k" by (simp add: minus_mod_eq_div_mult)
  ultimately have i: "?i * ?k \<le> pos" "pos < ?i * ?k + ?k" "0 \<le> ?i" using b pos by (auto simp: pos_imp_zdiv_nonneg_iff)
  define start where "start = pos - ?i * ?k"
  let ?d = "chunk_bytes content ?k ?i"
  have lo: "0 \<le> ?i * ?k" using i b by simp
  have "int (length (take (nat k) (drop (nat q) content))) = min k (int (length content) - q)"
    if "0 \<le> q" "q \<le> int (length content)" "0 < k" for q k using that by auto
  from this [of "?i * ?k" ?k] have len: "int (length ?d) = min ?k (cc_size c - ?i * ?k)"
    using b lo i pos unfolding chunk_bytes_def by linarith
  have s: "0 \<le> start" "start < int (length ?d)" using i pos by (auto simp: start_def len)
  define want where "want = min (int (length ?d) - start) (e - pos)"
  have w: "0 < want" "pos + want \<le> e" using s pos by (auto simp: want_def)
  have "take (nat want) (drop (nat start) ?d) = take (nat want) (drop (nat pos) content)"
  proof -
    have "drop (nat start) ?d = take (nat ?k - nat start) (drop (nat start + nat (?i * ?k)) content)"
      by (simp add: chunk_bytes_def drop_take)
    moreover have "nat start + nat (?i * ?k) = nat pos" using s lo by (simp add: start_def nat_add_distrib [symmetric])
    moreover have "nat want \<le> nat ?k - nat start" using s len by (auto simp: want_def)
    ultimately show ?thesis by simp
  qed
  moreover have "cc_copy ?k e pos ?d = Ok (pos + want, take (nat want) (drop (nat start) ?d))"
    using s w unfolding cc_copy_def Let_def start_def [symmetric] want_def by (auto simp: min_def)
  ultimately show ?thesis using w by (intro exI [of _ "pos + want"]) simp
qed

text \<open>What a read of \<open>n\<close> bytes at \<open>off\<close> may return: bytes of the object from there on, all that were
  asked for without an error, all that are left with io.EOF.\<close>

definition read_result :: "bytes \<Rightarrow> int \<Rightarrow> nat \<Rightarrow> bytes \<times> 'e cc_err option \<Rightarrow> bool" where
  "read_result content off n res \<longleftrightarrow>
     (if off < 0 then res = ([], Some (CcNegative off))
      else (\<exists>k \<le> n. fst res = take k (drop (nat off) content)) \<and>
        (case snd res of
           None \<Rightarrow> fst res = take n (drop (nat off) content) \<and> length (fst res) = n
         | Some CcEOF \<Rightarrow> fst res = take n (drop (nat off) content) \<and> (length (fst res) < n \<or> int (length content) \<le> off)
         | Some (CcShort i e) \<Rightarrow> length (fst res) < n
         | Some (CcNegative i) \<Rightarrow> False))"

text \<open>A goroutine inside ReadAt: the bytes before its position are copied.\<close>

definition reading :: "bytes \<Rightarrow> cachingReaderAt \<Rightarrow> int \<Rightarrow> nat \<Rightarrow> int \<Rightarrow> bytes \<Rightarrow> bool" where
  "reading content c off n pos acc \<longleftrightarrow> 0 \<le> off \<and> off < cc_size c \<and> off + int n < 2 ^ 63 \<and> off \<le> pos \<and>
     pos \<le> read_end c off n \<and> acc = take (nat (pos - off)) (drop (nat off) content)"

lemma read_end_ok: "0 \<le> off \<Longrightarrow> off + int n < 2 ^ 63 \<Longrightarrow> read_end c off n = min (off + int n) (cc_size c)"
  by (auto simp: read_end_def Let_def wrap64_id min_def)

lemma reading_exists:
  assumes "cc_ok content c" and "reading content c off n pos acc" and "pos < read_end c off n"
  shows "chunk_exists c (pos div cc_chunk c)"
proof -
  have "0 < cc_chunk c" "0 \<le> pos" "pos < cc_size c" using assms read_end_ok [of off n c] by (auto simp: cc_ok_def reading_def)
  moreover from this have "pos div cc_chunk c * cc_chunk c \<le> pos"
    by (simp add: minus_mod_eq_div_mult [symmetric])
  ultimately show ?thesis by (auto simp: chunk_exists_def pos_imp_zdiv_nonneg_iff)
qed

lemma reading_copy:
  assumes ok: "cc_ok content c" and rd: "reading content c off n pos acc" and lt: "pos < read_end c off n"
  shows "\<exists>pos' got. cc_copy (cc_chunk c) (read_end c off n) pos (chunk_bytes content (cc_chunk c) (pos div cc_chunk c)) = Ok (pos', got) \<and>
    pos < pos' \<and> reading content c off n pos' (acc @ got)"
proof -
  have e: "read_end c off n \<le> cc_size c" "0 \<le> pos" using rd by (auto simp: reading_def read_end_ok)
  obtain pos' got where c: "cc_copy (cc_chunk c) (read_end c off n) pos (chunk_bytes content (cc_chunk c) (pos div cc_chunk c)) = Ok (pos', got)"
    "pos < pos'" "pos' \<le> read_end c off n" "got = take (nat (pos' - pos)) (drop (nat pos) content)"
    using cc_copy_ok [OF ok e(2) lt e(1)] by auto
  have "nat pos = nat (pos - off) + nat off" "nat (pos' - off) = nat (pos - off) + nat (pos' - pos)"
    using rd c by (auto simp: reading_def)
  then have "acc @ got = take (nat (pos' - off)) (drop (nat off) content)"
    using rd c(4) by (simp add: reading_def take_add)
  then show ?thesis using c rd by (auto simp: reading_def)
qed

lemma reading_finish:
  assumes ok: "cc_ok content c" and rd: "reading content c off n pos acc" and ge: "\<not> pos < read_end c off n"
  shows "read_result content off n (finish_read n (acc, None))"
proof -
  have p: "0 \<le> off" "pos = min (off + int n) (cc_size c)" "acc = take (nat (pos - off)) (drop (nat off) content)"
    "cc_size c = int (length content)" "off < cc_size c"
    using ok rd ge by (auto simp: reading_def read_end_ok cc_ok_def)
  have "acc = take n (drop (nat off) content)"
  proof (cases "off + int n \<le> cc_size c")
    case True
    then show ?thesis using p by simp
  next
    case False
    then show ?thesis using p by simp
  qed
  then show ?thesis using p(1) by (auto simp: read_result_def finish_read_def intro: exI [of _ n])
qed

lemma reading_short:
  assumes "cc_ok content c" and "reading content c off n pos acc" and "pos < read_end c off n"
  shows "read_result content off n (acc, Some (CcShort i e))"
proof -
  have "0 \<le> off" "acc = take (nat (pos - off)) (drop (nat off) content)" "nat (pos - off) < n"
    using assms by (auto simp: reading_def read_end_ok)
  then show ?thesis by (auto simp: read_result_def intro: exI [of _ "nat (pos - off)"])
qed

lemma finish_read_err [simp]: "finish_read n (acc, Some e) = (acc, Some e)"
  by (simp add: finish_read_def)

section \<open>One read\<close>

text \<open>Somewhere inside the object the reader returns less than asked for.\<close>

definition falls_short :: "('e, 'w) under \<Rightarrow> bytes \<Rightarrow> bool" where
  "falls_short r content \<longleftrightarrow> (\<exists>w lo n. 0 \<le> lo \<and> 0 < n \<and> nat lo + n \<le> length content \<and> length (fst (fst (r w lo n))) \<noteq> n)"

locale truthful_reader =
  fixes r :: "('e, 'w) under" and content :: bytes
  assumes r_truthful: "0 \<le> lo \<Longrightarrow> 0 < n \<Longrightarrow> nat lo + n \<le> length content \<Longrightarrow> truthful content lo n (fst (r w lo n))"
begin

lemma cc_fetch_ok:
  assumes "cc_ok content c" and "chunk_exists c i"
  shows "\<exists>res w'. cc_fetch r c i w = Ok (res, w') \<and>
    (case res of Inr d \<Rightarrow> d = chunk_bytes content (cc_chunk c) i | Inl e \<Rightarrow> (\<exists>err. e = CcShort i err) \<and> falls_short r content)"
proof -
  obtain lo n where f: "fetch_range c i = (lo, n)" by force
  note g = fetch_range_ok [OF assms f]
  then have lo: "0 \<le> lo" "0 < nat n" "nat lo + nat n \<le> length content" by auto
  then have t: "truthful content lo (nat n) (fst (r w lo (nat n)))" by (rule r_truthful)
  obtain a w' where a: "r w lo (nat n) = (a, w')" by (cases "r w lo (nat n)")
  have "case fetch_result i n a of Inr d \<Rightarrow> d = chunk_bytes content (cc_chunk c) i | Inl e \<Rightarrow> (\<exists>err. e = CcShort i err) \<and> falls_short r content"
  proof (cases "fetch_result i n a")
    case (Inl e)
    then have "length (fst a) \<noteq> nat n" using g by (auto simp: fetch_result_def split: prod.splits if_splits)
    then have "falls_short r content" using lo a unfolding falls_short_def by (metis fst_conv)
    then show ?thesis using Inl fetch_result_err [of i n a] by simp
  next
    case (Inr d)
    then show ?thesis using fetch_result_ok [OF assms f t] by (simp add: a)
  qed
  moreover have "\<not> n < 0" using g by simp
  then have "cc_fetch r c i w = Ok (fetch_result i n a, w')" by (simp add: cc_fetch_def f a)
  ultimately show ?thesis by blast
qed

lemma chunkAt_ok:
  assumes ok: "cc_ok content c" and ex: "chunk_exists c i"
  shows "\<exists>res c' w'. chunkAt r i c w = Ok (res, c', w') \<and> cc_ok content c' \<and> same_object c c' \<and>
    (case res of Inr d \<Rightarrow> d = chunk_bytes content (cc_chunk c) i | Inl e \<Rightarrow> (\<exists>err. e = CcShort i err) \<and> falls_short r content)"
proof -
  obtain found c1 where l: "chunk_lookup i c = (found, c1)" by force
  note l' = chunk_lookup_ok [OF ok l]
  have ex1: "chunk_exists c1 i" using l' ex by (simp add: same_object_def chunk_exists_def)
  show ?thesis
  proof (cases found)
    case (Some d)
    then show ?thesis using l l' by (simp add: chunkAt_def)
  next
    case None
    obtain res w' where f: "cc_fetch r c1 i w = Ok (res, w')"
      "case res of Inr d \<Rightarrow> d = chunk_bytes content (cc_chunk c1) i | Inl e \<Rightarrow> (\<exists>err. e = CcShort i err) \<and> falls_short r content"
      using cc_fetch_ok [OF _ ex1] l' by blast
    show ?thesis
    proof (cases res)
      case (Inl e)
      then show ?thesis using None l l' f by (simp add: chunkAt_def)
    next
      case (Inr d)
      obtain d' c2 where i: "chunk_insert i d c1 = (d', c2)" by force
      have "cc_ok content c2 \<and> same_object c1 c2 \<and> d' = d"
        by (rule chunk_insert_ok [OF _ ex1 _ i]) (use l' f(2) Inr in auto)
      then show ?thesis using None l l' f Inr i by (auto simp: chunkAt_def same_object_def)
    qed
  qed
qed

lemma reading_same: "same_object c c' \<Longrightarrow> reading content c off n pos acc = reading content c' off n pos acc"
  unfolding reading_def same_object_def read_end_def Let_def by simp

lemma read_loop_ok:
  assumes "cc_ok content c" and "reading content c off n pos acc" and "nat (read_end c off n - pos) \<le> fuel"
  shows "\<exists>res c' w'. cc_read_loop fuel r (read_end c off n) pos acc c w = Ok (res, c', w') \<and> cc_ok content c' \<and> same_object c c' \<and>
    read_result content off n (finish_read n res) \<and> (snd res \<noteq> None \<longrightarrow> falls_short r content)"
  using assms
proof (induction fuel arbitrary: pos acc c w)
  case 0
  then show ?case using reading_finish [OF 0(1,2)] by (subst cc_read_loop.simps) auto
next
  case (Suc fuel)
  show ?case
  proof (cases "pos < read_end c off n")
    case False
    then show ?thesis using Suc.prems reading_finish [OF Suc.prems(1,2)] by (subst cc_read_loop.simps) auto
  next
    case True
    let ?i = "pos div cc_chunk c"
    have pos: "cc_chunk c \<noteq> 0" using Suc.prems by (simp add: cc_ok_def)
    obtain res c' w' where a: "chunkAt r ?i c w = Ok (res, c', w')" "cc_ok content c'" "same_object c c'"
      "case res of Inr d \<Rightarrow> d = chunk_bytes content (cc_chunk c) ?i | Inl e \<Rightarrow> (\<exists>err. e = CcShort ?i err) \<and> falls_short r content"
      using chunkAt_ok [OF Suc.prems(1) reading_exists [OF Suc.prems(1,2) True]] by blast
    show ?thesis
    proof (cases res)
      case (Inl e)
      then show ?thesis using True pos a reading_short [OF Suc.prems(1,2) True]
        by (subst cc_read_loop.simps) auto
    next
      case (Inr d)
      obtain pos' got where c: "cc_copy (cc_chunk c) (read_end c off n) pos d = Ok (pos', got)" "pos < pos'"
        "reading content c off n pos' (acc @ got)" using reading_copy [OF Suc.prems(1,2) True] a(4) Inr by auto
      have e: "read_end c' off n = read_end c off n" using a(3) by (simp add: read_end_def same_object_def Let_def)
      have rd: "reading content c' off n pos' (acc @ got)" using c(3) reading_same [OF a(3)] by simp
      have "nat (read_end c' off n - pos') \<le> fuel" using c(2) Suc.prems(3) True e by linarith
      from Suc.IH [OF a(2) rd this, of w'] obtain res2 c2 w2 where
        "cc_read_loop fuel r (read_end c off n) pos' (acc @ got) c' w' = Ok (res2, c2, w2)" "cc_ok content c2"
        "same_object c' c2" "read_result content off n (finish_read n res2)" "snd res2 \<noteq> None \<longrightarrow> falls_short r content" unfolding e by blast
      then show ?thesis using True pos a Inr c same_object_trans [OF a(3)]
        by (subst cc_read_loop.simps) auto
    qed
  qed
qed

text \<open>A read returns, keeps the invariant and returns bytes of the object, whatever the reader's failures.\<close>

lemma ReadAt_ok:
  assumes "cc_ok content c" and "off + int n < 2 ^ 63" and "n \<le> fuel"
  shows "\<exists>res c' w'. cc_ReadAt fuel r off n c w = Ok (res, c', w') \<and> cc_ok content c' \<and> same_object c c' \<and> read_result content off n res \<and>
    (snd res \<noteq> None \<longrightarrow> falls_short r content \<or> snd res = Some CcEOF \<or> off < 0)"
proof (cases "0 \<le> off \<and> off < cc_size c")
  case False
  then show ?thesis using assms by (auto simp: cc_ReadAt_def read_result_def cc_ok_def intro: exI [of _ 0])
next
  case True
  then have "reading content c off n off []" "nat (read_end c off n - off) \<le> fuel"
    using assms by (auto simp: reading_def read_end_ok min_def)
  from read_loop_ok [OF assms(1) this, of w] obtain res c' w' where
    "cc_read_loop fuel r (read_end c off n) off [] c w = Ok (res, c', w')" "cc_ok content c'" "same_object c c'"
    "read_result content off n (finish_read n res)" "snd res \<noteq> None \<longrightarrow> falls_short r content" by blast
  then show ?thesis using True by (auto simp: cc_ReadAt_def finish_read_def split: prod.splits if_splits)
qed

end

section \<open>Concurrent reads\<close>

lemmas cc_step_intros = cc_step.intros
inductive_cases cc_stepE: "cc_step answers s s'"

definition g_ok :: "bytes \<Rightarrow> cachingReaderAt \<Rightarrow> 'e goroutine \<Rightarrow> bool" where
  "g_ok content c g \<longleftrightarrow>
     (case g_pc g of
        Finished res \<Rightarrow> read_result content (g_off g) (g_len g) res
      | Crashed \<Rightarrow> False
      | pc \<Rightarrow> reading content c (g_off g) (g_len g) (g_pos g) (g_acc g) \<and> g_pos g < read_end c (g_off g) (g_len g) \<and>
          (\<forall>data. pc = Insert data \<longrightarrow> data = chunk_bytes content (cc_chunk c) (g_index c g)))"

text \<open>Reads that a buffer in memory can be asked for: the end of the range is an int64.\<close>

definition bounded_reads :: "'e cc_state \<Rightarrow> bool" where
  "bounded_reads s \<longleftrightarrow> (\<forall>t g. snd s t = Some g \<longrightarrow> g_off g + int (g_len g) < 2 ^ 63)"

definition cc_inv :: "bytes \<Rightarrow> 'e cc_state \<Rightarrow> bool" where
  "cc_inv content s \<longleftrightarrow> cc_ok content (fst s) \<and> (\<forall>t g. snd s t = Some g \<longrightarrow> g_ok content (fst s) g)"

lemma same_object_end: "same_object c c' \<Longrightarrow> read_end c' off n = read_end c off n"
  by (simp add: same_object_def read_end_def Let_def)

lemma reading_same_object: "same_object c c' \<Longrightarrow> reading content c' off n pos acc = reading content c off n pos acc"
  by (simp add: reading_def same_object_end) (simp add: same_object_def)

lemma g_ok_same: "same_object c c' \<Longrightarrow> g_ok content c' g = g_ok content c g"
  by (simp add: g_ok_def same_object_end reading_same_object g_index_def split: cc_pc.split) (simp add: same_object_def)

lemma cc_inv_update:
  assumes "cc_inv content (c, gs)" and "cc_ok content c'" and "same_object c c'" and "g_ok content c' g"
  shows "cc_inv content (c', gs(t \<mapsto> g))"
  using assms by (auto simp: cc_inv_def g_ok_same [OF assms(3)])

lemma at_loop_ok:
  assumes "cc_ok content c" and "reading content c (g_off g) (g_len g) (g_pos g) (g_acc g)"
  shows "g_ok content c (at_loop c g)"
  using assms(2) reading_finish [OF assms]
  by (cases "g_pos g < read_end c (g_off g) (g_len g)") (simp_all add: g_ok_def at_loop_def)

lemma g_start_ok:
  assumes "cc_ok content c" and "off + int n < 2 ^ 63"
  shows "g_ok content c (g_start c off n)"
proof (cases "0 \<le> off \<and> off < cc_size c")
  case False
  then show ?thesis using assms(1) by (auto simp: g_start_def g_ok_def read_result_def cc_ok_def Let_def intro: exI [of _ 0])
next
  case True
  then show ?thesis using assms unfolding g_start_def Let_def
    by (auto intro!: at_loop_ok simp: reading_def read_end_ok)
qed

lemma g_advance_ok:
  assumes "cc_ok content c" and "reading content c (g_off g) (g_len g) (g_pos g) (g_acc g)"
    and "g_pos g < read_end c (g_off g) (g_len g)" and "data = chunk_bytes content (cc_chunk c) (g_index c g)"
  shows "g_ok content c (g_advance c data g)"
  using reading_copy [OF assms(1-3)] assms(4) by (auto simp: g_advance_def g_index_def intro!: at_loop_ok [OF assms(1)])

lemma g_ok_reading:
  assumes "g_ok content c g" and "\<forall>res. g_pc g \<noteq> Finished res"
  shows "reading content c (g_off g) (g_len g) (g_pos g) (g_acc g) \<and> g_pos g < read_end c (g_off g) (g_len g)"
  using assms by (cases "g_pc g") (simp_all add: g_ok_def)

lemma g_ok_exists:
  assumes "cc_ok content c" and "g_ok content c g" and "\<forall>res. g_pc g \<noteq> Finished res"
  shows "chunk_exists c (g_index c g)"
  using g_ok_reading [OF assms(2,3)] unfolding g_index_def by (blast intro: reading_exists [OF assms(1)])

lemma g_advance_same:
  assumes "g_ok content c g" and "\<forall>res. g_pc g \<noteq> Finished res" and "cc_ok content c'" and same: "same_object c c'"
    and "data = chunk_bytes content (cc_chunk c) (g_index c g)"
  shows "g_ok content c' (g_advance c' data g)"
proof -
  have "g_ok content c' g" using assms(1) by (simp add: g_ok_same [OF same])
  note g = g_ok_reading [OF this assms(2)]
  have "data = chunk_bytes content (cc_chunk c') (g_index c' g)" using assms(5) same by (simp add: g_index_def same_object_def)
  from g_advance_ok [OF assms(3) g [THEN conjunct1] g [THEN conjunct2] this] show ?thesis .
qed

lemma g_advance_range: "g_off (g_advance c data g) = g_off g \<and> g_len (g_advance c data g) = g_len g"
  by (simp add: g_advance_def at_loop_def split: outcome.split)

lemma g_start_range [simp]: "g_off (g_start c off n) = off" "g_len (g_start c off n) = n"
  by (simp_all add: g_start_def at_loop_def Let_def)

lemma cc_step_range:
  assumes "cc_step answers s s'" and "snd s t = Some g"
  shows "\<exists>g'. snd s' t = Some g' \<and> g_off g' = g_off g \<and> g_len g' = g_len g"
  using assms by (cases rule: cc_step.cases) (auto simp: g_advance_range)

lemma bounded_reads_back: "cc_step answers s s' \<Longrightarrow> bounded_reads s' \<Longrightarrow> bounded_reads s"
  unfolding bounded_reads_def by (metis cc_step_range)

lemma cc_step_inv:
  assumes step: "cc_step answers s s'" and inv: "cc_inv content s" and bd: "bounded_reads s'"
    and honest: "\<And>lo n a. answers lo n a \<Longrightarrow> 0 \<le> lo \<Longrightarrow> 0 < n \<Longrightarrow> nat lo + n \<le> length content \<Longrightarrow> truthful content lo n a"
  shows "cc_inv content s'"
  using step
proof (cases rule: cc_step.cases)
  case (start gs t c off n)
  have "off + int n < 2 ^ 63" using bd [unfolded bounded_reads_def, rule_format, of t "g_start c off n"] start by simp
  then show ?thesis using start inv by (auto intro!: cc_inv_update g_start_ok simp: cc_inv_def)
next
  case (hit gs t g c data c')
  have ok: "cc_ok content c" "g_ok content c g" using hit inv by (auto simp: cc_inv_def)
  note l = chunk_lookup_ok [OF ok(1) hit(5)]
  have "g_ok content c' (g_advance c' data g)"
    using hit(4) l by (intro g_advance_same [OF ok(2)]) auto
  then show ?thesis using hit inv l by (auto intro: cc_inv_update)
next
  case (miss gs t g c c')
  have ok: "cc_ok content c" "g_ok content c g" using miss inv by (auto simp: cc_inv_def)
  note l = chunk_lookup_ok [OF ok(1) miss(5)]
  have "g_ok content c' (g\<lparr>g_pc := Fetch\<rparr>)" using g_ok_reading [OF ok(2)] miss(4) l g_ok_same [of c c' content "g\<lparr>g_pc := Fetch\<rparr>"] by (simp add: g_ok_def)
  then show ?thesis using miss inv l by (auto intro: cc_inv_update)
next
  case (panic gs t g c lo n)
  then have ok: "cc_ok content c" "g_ok content c g" using inv by (auto simp: cc_inv_def)
  then have "chunk_exists c (g_index c g)" using panic(4) g_ok_exists [OF ok] by simp
  then show ?thesis using fetch_range_ok [OF ok(1) _ panic(5)] panic(6) by simp
next
  case (fetched gs t g c lo n a data)
  then have ok: "cc_ok content c" "g_ok content c g" using inv by (auto simp: cc_inv_def)
  then have ex: "chunk_exists c (g_index c g)" using fetched(4) g_ok_exists [OF ok] by simp
  note f = fetch_range_ok [OF ok(1) ex fetched(5)]
  then have "0 \<le> lo" "0 < nat n" "nat lo + nat n \<le> length content" by auto
  then have "truthful content lo (nat n) a" by (rule honest [OF fetched(7)])
  from fetch_result_ok [OF ok(1) ex fetched(5) this fetched(8)]
  have "g_ok content c (g\<lparr>g_pc := Insert data\<rparr>)" using ok(2) fetched(4) by (simp add: g_ok_def g_index_def)
  then show ?thesis using fetched inv ok by (auto intro: cc_inv_update)
next
  case (failed gs t g c lo n a e)
  then have ok: "cc_ok content c" "g_ok content c g" using inv by (auto simp: cc_inv_def)
  then have "g_ok content c (g\<lparr>g_pc := Finished (g_acc g, Some e)\<rparr>)"
    using failed(4) fetch_result_err [OF failed(8)] by (auto simp: g_ok_def intro: reading_short)
  then show ?thesis using failed inv ok by (auto intro: cc_inv_update)
next
  case (insert gs t g data c data' c')
  then have ok: "cc_ok content c" "g_ok content c g" using inv by (auto simp: cc_inv_def)
  then have ex: "chunk_exists c (g_index c g)" and d: "data = chunk_bytes content (cc_chunk c) (g_index c g)"
    using insert(4) g_ok_exists [OF ok] by (simp_all add: g_ok_def)
  note i = chunk_insert_ok [OF ok(1) ex d insert(5)]
  have "g_ok content c' (g_advance c' data' g)"
    using insert(4) i d by (intro g_advance_same [OF ok(2)]) auto
  then show ?thesis using insert inv i by (auto intro: cc_inv_update)
qed

lemma cc_reach_inv:
  assumes "(cc_step answers)\<^sup>*\<^sup>* s s'" and "cc_inv content s" and "bounded_reads s'"
    and "\<And>lo n a. answers lo n a \<Longrightarrow> 0 \<le> lo \<Longrightarrow> 0 < n \<Longrightarrow> nat lo + n \<le> length content \<Longrightarrow> truthful content lo n a"
  shows "cc_inv content s'"
  using assms
proof (induction rule: rtranclp_induct)
  case (step y z)
  then show ?case using cc_step_inv [OF step(2) _ step(5)] bounded_reads_back [OF step(2,5)] by simp
qed simp

lemma cc_resident_bound:
  assumes "cc_ok content c" and "0 < cc_budget c"
  shows "cc_resident c \<le> max (cc_budget c) (cc_chunk c)"
proof (cases "cc_resident c \<le> cc_budget c")
  case False
  then have "length (cc_lru c) \<le> 1" using assms by (auto simp: cc_ok_def cc_fits_def)
  moreover have "int (length (snd e)) \<le> cc_chunk c" if "e \<in> set (cc_lru c)" for e
  proof -
    have "snd e = chunk_bytes content (cc_chunk c) (fst e)" "0 < cc_chunk c" using assms(1) that unfolding cc_ok_def by blast+
    then show ?thesis by (simp add: chunk_bytes_def)
  qed
  moreover have "cc_resident c = entry_lens (cc_lru c)" "0 < cc_chunk c" using assms by (auto simp: cc_ok_def cc_shape_def)
  ultimately show ?thesis by (cases "cc_lru c") auto
qed simp

text \<open>C6: Caching never shows. However many goroutines read at once, in every interleaving of their lookups, fetches and
  insertions, and whatever the underlying reader fails at or answers short, no read panics and every finished one
  returned bytes of the object at its offset: all it asked for without an error, all that is left with io.EOF, fewer
  only with the error of a fetch. The recency list and the map agree, and the resident bytes stay within the
  budget, or one chunk.\<close>

theorem cached_reads:
  fixes answers :: "int \<Rightarrow> nat \<Rightarrow> bytes \<times> 'e option \<Rightarrow> bool"
  assumes honest: "\<And>lo n a. answers lo n a \<Longrightarrow> 0 \<le> lo \<Longrightarrow> 0 < n \<Longrightarrow> nat lo + n \<le> length content \<Longrightarrow> truthful content lo n a"
    and "0 < chunk" and "int (length content) + chunk < 2 ^ 63"
    and reach: "(cc_step answers)\<^sup>*\<^sup>* (newCachingReaderAt (int (length content)) chunk budget, Map.empty) (c, gs)"
    and "\<And>t g. gs t = Some g \<Longrightarrow> g_off g + int (g_len g) < 2 ^ 63"
  shows "(\<forall>t g. gs t = Some g \<longrightarrow> g_pc g \<noteq> Crashed \<and>
        (\<forall>res. g_pc g = Finished res \<longrightarrow> read_result content (g_off g) (g_len g) res)) \<and>
    cc_shape c \<and> (0 < cc_budget c \<longrightarrow> cc_resident c \<le> max (cc_budget c) (cc_chunk c))"
proof -
  have "cc_inv content (newCachingReaderAt (int (length content)) chunk budget, Map.empty :: nat \<rightharpoonup> 'e goroutine)"
    using cc_ok_new [OF assms(2,3)] by (simp add: cc_inv_def)
  moreover have "bounded_reads (c, gs)" using assms(5) by (simp add: bounded_reads_def)
  ultimately have inv: "cc_inv content (c, gs)" using cc_reach_inv [OF reach _ _ honest] by blast
  then have ok: "cc_ok content c" by (simp add: cc_inv_def)
  have "g_pc g \<noteq> Crashed \<and> (\<forall>res. g_pc g = Finished res \<longrightarrow> read_result content (g_off g) (g_len g) res)" if "gs t = Some g" for t g
  proof -
    have "g_ok content c g" using inv that by (simp add: cc_inv_def)
    then show ?thesis by (auto simp: g_ok_def)
  qed
  then show ?thesis using ok cc_resident_bound [OF ok] by (auto simp: cc_ok_def)
qed

text \<open>Two goroutines racing for the same chunk of a three-byte object.\<close>

definition race_content :: bytes where "race_content = [1, 2, 3]"

definition race_answers :: "int \<Rightarrow> nat \<Rightarrow> bytes \<times> unit option \<Rightarrow> bool" where
  "race_answers lo n a \<longleftrightarrow> a = (take n (drop (nat lo) race_content), None)"

definition race_cache :: cachingReaderAt where
  "race_cache = \<lparr>cc_size = 3, cc_chunk = 2, cc_budget = 2, cc_cache = [0 \<mapsto> (0, [1, 2])], cc_lru = [(0, [1, 2])], cc_resident = 2\<rparr>"

definition racer :: "unit cc_pc \<Rightarrow> int \<Rightarrow> bytes \<Rightarrow> unit goroutine" where
  "racer pc pos acc = \<lparr>g_off = 0, g_len = 2, g_pos = pos, g_acc = acc, g_pc = pc\<rparr>"

definition race_start :: cachingReaderAt where
  "race_start = newCachingReaderAt 3 2 2"

lemmas race_defs = race_start_def newCachingReaderAt_def race_cache_def racer_def race_answers_def race_content_def
  g_start_def g_advance_def at_loop_def g_index_def read_end_def fetch_range_def fetch_result_def chunk_lookup_def
  chunk_insert_def evictLocked_def evict_loop.simps cc_copy_def finish_read_def moveToFront_def wrap64_def

lemma race_steps:
  "cc_step race_answers (race_start, Map.empty) (race_start, [0 \<mapsto> racer Look 0 []])"
  "cc_step race_answers (race_start, [0 \<mapsto> racer Look 0 []]) (race_start, [0 \<mapsto> racer Look 0 [], 1 \<mapsto> racer Look 0 []])"
  "cc_step race_answers (race_start, [0 \<mapsto> racer Look 0 [], 1 \<mapsto> racer Look 0 []]) (race_start, [0 \<mapsto> racer Fetch 0 [], 1 \<mapsto> racer Look 0 []])"
  "cc_step race_answers (race_start, [0 \<mapsto> racer Fetch 0 [], 1 \<mapsto> racer Look 0 []]) (race_start, [0 \<mapsto> racer Fetch 0 [], 1 \<mapsto> racer Fetch 0 []])"
  "cc_step race_answers (race_start, [0 \<mapsto> racer Fetch 0 [], 1 \<mapsto> racer Fetch 0 []]) (race_start, [0 \<mapsto> racer (Insert [1, 2]) 0 [], 1 \<mapsto> racer Fetch 0 []])"
  "cc_step race_answers (race_start, [0 \<mapsto> racer (Insert [1, 2]) 0 [], 1 \<mapsto> racer Fetch 0 []])
     (race_start, [0 \<mapsto> racer (Insert [1, 2]) 0 [], 1 \<mapsto> racer (Insert [1, 2]) 0 []])"
  "cc_step race_answers (race_start, [0 \<mapsto> racer (Insert [1, 2]) 0 [], 1 \<mapsto> racer (Insert [1, 2]) 0 []])
     (race_cache, [0 \<mapsto> racer (Finished ([1, 2], None)) 2 [1, 2], 1 \<mapsto> racer (Insert [1, 2]) 0 []])"
  "cc_step race_answers (race_cache, [0 \<mapsto> racer (Finished ([1, 2], None)) 2 [1, 2], 1 \<mapsto> racer (Insert [1, 2]) 0 []])
     (race_cache, [0 \<mapsto> racer (Finished ([1, 2], None)) 2 [1, 2], 1 \<mapsto> racer (Finished ([1, 2], None)) 2 [1, 2]])"
proof -
  let ?A = race_answers and ?c = race_start and ?f = "racer (Finished ([1, 2], None)) 2 [1, 2]"
  show "cc_step ?A (?c, Map.empty) (?c, [0 \<mapsto> racer Look 0 []])"
    using cc_step.start [of Map.empty 0 ?A ?c 0 2] by (simp add: race_defs)
  show "cc_step ?A (?c, [0 \<mapsto> racer Look 0 []]) (?c, [0 \<mapsto> racer Look 0 [], 1 \<mapsto> racer Look 0 []])"
    using cc_step.start [of "[0 \<mapsto> racer Look 0 []]" 1 ?A ?c 0 2] by (simp add: race_defs)
  show "cc_step ?A (?c, [0 \<mapsto> racer Look 0 [], 1 \<mapsto> racer Look 0 []]) (?c, [0 \<mapsto> racer Fetch 0 [], 1 \<mapsto> racer Look 0 []])"
    using cc_step.miss [of "[0 \<mapsto> racer Look 0 [], 1 \<mapsto> racer Look 0 []]" 0 "racer Look 0 []" ?c ?c ?A]
    by (simp add: race_defs fun_upd_twist)
  show "cc_step ?A (?c, [0 \<mapsto> racer Fetch 0 [], 1 \<mapsto> racer Look 0 []]) (?c, [0 \<mapsto> racer Fetch 0 [], 1 \<mapsto> racer Fetch 0 []])"
    using cc_step.miss [of "[0 \<mapsto> racer Fetch 0 [], 1 \<mapsto> racer Look 0 []]" 1 "racer Look 0 []" ?c ?c ?A]
    by (simp add: race_defs fun_upd_twist)
  show "cc_step ?A (?c, [0 \<mapsto> racer Fetch 0 [], 1 \<mapsto> racer Fetch 0 []]) (?c, [0 \<mapsto> racer (Insert [1, 2]) 0 [], 1 \<mapsto> racer Fetch 0 []])"
    using cc_step.fetched [of "[0 \<mapsto> racer Fetch 0 [], 1 \<mapsto> racer Fetch 0 []]" 0 "racer Fetch 0 []" ?c 0 2 ?A "([1, 2], None)" "[1, 2]"]
    by (simp add: race_defs fun_upd_twist)
  show "cc_step ?A (?c, [0 \<mapsto> racer (Insert [1, 2]) 0 [], 1 \<mapsto> racer Fetch 0 []])
     (?c, [0 \<mapsto> racer (Insert [1, 2]) 0 [], 1 \<mapsto> racer (Insert [1, 2]) 0 []])"
    using cc_step.fetched [of "[0 \<mapsto> racer (Insert [1, 2]) 0 [], 1 \<mapsto> racer Fetch 0 []]" 1 "racer Fetch 0 []" ?c 0 2 ?A "([1, 2], None)" "[1, 2]"]
    by (simp add: race_defs fun_upd_twist)
  show "cc_step ?A (?c, [0 \<mapsto> racer (Insert [1, 2]) 0 [], 1 \<mapsto> racer (Insert [1, 2]) 0 []])
     (race_cache, [0 \<mapsto> ?f, 1 \<mapsto> racer (Insert [1, 2]) 0 []])"
    using cc_step.insert [of "[0 \<mapsto> racer (Insert [1, 2]) 0 [], 1 \<mapsto> racer (Insert [1, 2]) 0 []]" 0
        "racer (Insert [1, 2]) 0 []" "[1, 2]" ?c "[1, 2]" race_cache ?A]
    by (simp add: race_defs fun_upd_twist)
  show "cc_step ?A (race_cache, [0 \<mapsto> ?f, 1 \<mapsto> racer (Insert [1, 2]) 0 []]) (race_cache, [0 \<mapsto> ?f, 1 \<mapsto> ?f])"
    using cc_step.insert [of "[0 \<mapsto> ?f, 1 \<mapsto> racer (Insert [1, 2]) 0 []]" 1
        "racer (Insert [1, 2]) 0 []" "[1, 2]" race_cache "[1, 2]" race_cache ?A]
    by (simp add: race_defs fun_upd_twist)
qed

lemmas race_then = converse_rtranclp_into_rtranclp [where r = "cc_step race_answers"]

lemma race_reach:
  "(cc_step race_answers)\<^sup>*\<^sup>* (newCachingReaderAt (int (length race_content)) 2 2, Map.empty)
     (race_cache, [0 \<mapsto> racer (Finished ([1, 2], None)) 2 [1, 2], 1 \<mapsto> racer (Finished ([1, 2], None)) 2 [1, 2]])"
proof -
  have "newCachingReaderAt (int (length race_content)) 2 2 = race_start" by (simp add: race_start_def race_content_def)
  then show ?thesis by (simp only:) (intro race_then [OF race_steps(1)] race_then [OF race_steps(2)]
      race_then [OF race_steps(3)] race_then [OF race_steps(4)]
      race_then [OF race_steps(5)] race_then [OF race_steps(6)]
      race_then [OF race_steps(7)] r_into_rtranclp [where r = "cc_step race_answers", OF race_steps(8)])
qed

theorem cached_reads_witness: "read_result race_content 0 2 ([1, 2], None :: unit cc_err option) \<and> cc_resident race_cache \<le> 2"
proof -
  let ?f = "racer (Finished ([1, 2], None)) 2 [1, 2]" and ?gs = "[0 :: nat \<mapsto> racer (Finished ([1, 2], None)) 2 [1, 2], 1 \<mapsto> racer (Finished ([1, 2], None)) 2 [1, 2]]"
  have honest: "\<And>lo n a. race_answers lo n a \<Longrightarrow> 0 \<le> lo \<Longrightarrow> 0 < n \<Longrightarrow> nat lo + n \<le> length race_content \<Longrightarrow> truthful race_content lo n a"
    by (auto simp: race_answers_def truthful_def)
  have bound: "\<And>t g. ?gs t = Some g \<Longrightarrow> g_off g + int (g_len g) < 2 ^ 63" by (auto simp: racer_def split: if_splits)
  have "(\<forall>t g. ?gs t = Some g \<longrightarrow> g_pc g \<noteq> Crashed \<and>
        (\<forall>res. g_pc g = Finished res \<longrightarrow> read_result race_content (g_off g) (g_len g) res)) \<and>
    cc_shape race_cache \<and> (0 < cc_budget race_cache \<longrightarrow> cc_resident race_cache \<le> max (cc_budget race_cache) (cc_chunk race_cache))"
    by (rule cached_reads [OF honest _ _ race_reach bound]) (simp_all add: race_content_def)
  then have c: "\<forall>t g. ?gs t = Some g \<longrightarrow> (\<forall>res. g_pc g = Finished res \<longrightarrow> read_result race_content (g_off g) (g_len g) res)"
    "cc_resident race_cache \<le> max (cc_budget race_cache) (cc_chunk race_cache)" by (auto simp: race_cache_def)
  have "read_result race_content (g_off ?f) (g_len ?f) ([1, 2], None :: unit cc_err option)" using c(1) [rule_format, of 0 ?f "([1, 2], None)"] by (simp add: racer_def)
  then show ?thesis using c by (simp add: racer_def race_cache_def)
qed

end
