(* ===== verification/Source_Range.thy ===== *)
theory Source_Range
  imports Source_Cache
begin

text \<open>
  Reading a remote image by byte range (src/internal/source/rangereader.go,
  cachestore.go, probe.go) and how resolveRaw of source.go puts the chunk cache on top.

  The HTTP client and the server are outside: what one request meets is a value
  of type \<open>attempt\<close>, given by an oracle for every request number and range. It
  holds the response or the client's rr_failure and what the code observes of time
  around it: whether the idle timer fired, whether the caller's context or the
  budget of the read ran out, whether the pause before the next attempt was slept
  through, and what the disk does to the fallback file. So every behaviour of
  server, network and clocks is some oracle. The parser of Content-Range is a
  third-party package and a parameter. A reader only uses its fallback file when it has one. Logging and the texts of errors are left out.
\<close>

section \<open>Model: the fallback file\<close>

datatype disk = Writable | NoFile | FullAfter nat

record cacheStore =
  cs_f :: "bytes option"
  cs_size :: int

definition newCacheStore :: cacheStore where
  "newCacheStore = \<lparr>cs_f = None, cs_size = 0\<rparr>"

definition store_Close :: "cacheStore \<Rightarrow> cacheStore" where
  "store_Close s = (case cs_f s of None \<Rightarrow> s | Some _ \<Rightarrow> s\<lparr>cs_f := None, cs_size := 0\<rparr>)"

text \<open>\<open>broken\<close> tells that the body ends with an error instead of io.EOF.\<close>

definition store_ReadFrom :: "disk \<Rightarrow> bytes \<Rightarrow> bool \<Rightarrow> cacheStore \<Rightarrow> (int \<times> bool) \<times> cacheStore" where
  "store_ReadFrom d body broken s =
     (let s1 = store_Close s
      in case d of
           NoFile \<Rightarrow> ((0, False), s1)
         | Writable \<Rightarrow> ((int (length body), \<not> broken), \<lparr>cs_f = Some body, cs_size = int (length body)\<rparr>)
         | FullAfter k \<Rightarrow>
             let b = take k body
             in ((int (length b), length body \<le> k \<and> \<not> broken), \<lparr>cs_f = Some b, cs_size = int (length b)\<rparr>))"

section \<open>Model: errors and responses\<close>

datatype do_err = TooManyRedirects | BadCertificate | HostNotFound | DoOther nat

datatype range_err = RNegative | REOF | RChanged | RNoRange | RStatus int | RBadRange bytes | RNoSize bytes
  | RDifferent int int int int | RDo do_err | RBody | RAnswered200 | RLess int int int int | RTruncated | RStore nat
  | RGaveUp int range_err

datatype get_err = Final range_err | Transient range_err int

record response =
  rs_status :: int
  rs_crange :: bytes
  rs_etag :: bytes
  rs_modified :: bytes
  rs_retryAfter :: bytes
  rs_length :: int
  rs_body :: bytes
  rs_broken :: bool

record attempt =
  at_do :: "do_err + response"
  at_cancelled :: bool
  at_fired :: bool
  at_expired :: bool
  at_slept :: bool
  at_disk :: disk

type_synonym crange_parser = "bytes \<Rightarrow> (int \<times> int \<times> int) option"

definition store_ReadAt :: "cacheStore \<Rightarrow> nat \<Rightarrow> int \<Rightarrow> bytes \<times> range_err option" where
  "store_ReadAt s n off =
     (case cs_f s of
        None \<Rightarrow> ([], None)
      | Some b \<Rightarrow>
          if off < 0 then ([], Some (RStore 0))
          else let got = take n (drop (nat off) b) in (got, if length got < n then Some REOF else None))"

section \<open>Model: the reader\<close>

record range_retryPolicy =
  p_attempts :: int
  p_base :: int
  p_max :: int

definition defaultRetryPolicy :: range_retryPolicy where
  "defaultRetryPolicy = \<lparr>p_attempts = 5, p_base = 500000000, p_max = 8000000000\<rparr>"

record rangeReader =
  rr_store :: "cacheStore option"
  rr_size :: int
  rr_etag :: bytes
  rr_modified :: bytes
  rr_useStore :: bool

definition remember :: "response \<Rightarrow> int \<Rightarrow> rangeReader \<Rightarrow> rangeReader" where
  "remember resp sz rr = rr\<lparr>rr_size := sz, rr_etag := rs_etag resp, rr_modified := rs_modified resp\<rparr>"

definition validate :: "response \<Rightarrow> int \<Rightarrow> rangeReader \<Rightarrow> bool" where
  "validate resp sz rr \<longleftrightarrow> sz = rr_size rr \<and> rs_etag resp = rr_etag rr \<and> rs_modified resp = rr_modified rr"

definition statusFailure :: "response \<Rightarrow> get_err" where
  "statusFailure resp =
     (if rs_status resp = 408 \<or> rs_status resp = 429 \<or> rs_status resp \<ge> 500
      then Transient (RStatus (rs_status resp))
             (case ParseInt (rs_retryAfter resp) of Some s \<Rightarrow> if s > 0 then wrap64 (s * 1000000000) else 0 | None \<Rightarrow> 0)
      else Final (RStatus (rs_status resp)))"

definition rr_failure :: "attempt \<Rightarrow> range_err \<Rightarrow> get_err" where
  "rr_failure a err =
     (if at_cancelled a then Final err
      else if at_fired a then Transient err 0
      else if err \<in> {RDo TooManyRedirects, RDo BadCertificate, RDo HostNotFound} then Final err
      else Transient err 0)"

definition fallback :: "attempt \<Rightarrow> response \<Rightarrow> rangeReader \<Rightarrow> (bytes \<times> get_err option) \<times> rangeReader" where
  "fallback a resp rr =
     (case rr_store rr of
        None \<Rightarrow> (([], Some (Final RNoRange)), rr)
      | Some st \<Rightarrow>
          let ((n, ok), st') = store_ReadFrom (at_disk a) (rs_body resp) (rs_broken resp) st;
              rr' = rr\<lparr>rr_store := Some st'\<rparr>
          in if \<not> ok then (([], Some (rr_failure a RBody)), rr')
             else if rs_length resp \<ge> 0 \<and> n \<noteq> rs_length resp then (([], Some (Transient RTruncated 0)), rr')
             else (([], None), (remember resp n rr')\<lparr>rr_useStore := True\<rparr>))"

definition get_partial :: "crange_parser \<Rightarrow> attempt \<Rightarrow> response \<Rightarrow> nat \<Rightarrow> int \<Rightarrow> bool \<Rightarrow> rangeReader \<Rightarrow> (bytes \<times> get_err option) \<times> rangeReader" where
  "get_partial parse a resp n first init rr =
     (let last = wrap64 (first + int n - 1)
      in case parse (rs_crange resp) of
           None \<Rightarrow> (([], Some (Final (RBadRange (rs_crange resp)))), rr)
         | Some (f, l, sz) \<Rightarrow>
             if sz < 0 then (([], Some (Final (RNoSize (rs_crange resp)))), rr)
             else if \<not> init \<and> \<not> validate resp sz rr then (([], Some (Final RChanged)), rr)
             else
               let rr' = (if init then remember resp sz rr else rr)
               in if f \<noteq> first \<or> l > last then (([], Some (Final (RDifferent first last f l))), rr')
                  else if l < last then (([], Some (Transient (RLess f l first last) 0)), rr')
                  else if length (rs_body resp) \<ge> n then ((take n (rs_body resp), None), rr')
                  else ((rs_body resp, Some (rr_failure a RBody)), rr'))"

definition rr_get :: "crange_parser \<Rightarrow> attempt \<Rightarrow> nat \<Rightarrow> int \<Rightarrow> bool \<Rightarrow> rangeReader \<Rightarrow> (bytes \<times> get_err option) \<times> rangeReader" where
  "rr_get parse a n first init rr =
     (case at_do a of
        Inl e \<Rightarrow> (([], Some (rr_failure a (RDo e))), rr)
      | Inr resp \<Rightarrow>
          if init \<and> rs_status resp = 416 \<and> parse (rs_crange resp) = Some (- 1, - 1, 0)
          then (([], None), remember resp 0 rr)
          else if rs_status resp = 200 \<and> init then fallback a resp rr
          else if rs_status resp = 200 then (([], Some (Transient RAnswered200 0)), rr)
          else if rs_status resp \<noteq> 206 then (([], Some (statusFailure resp)), rr)
          else get_partial parse a resp n first init rr)"

text \<open>The wait before the next attempt; \<open>jitter\<close> is the random number drawn.\<close>

fun double :: "nat \<Rightarrow> int \<Rightarrow> int \<Rightarrow> int" where
  "double 0 mx d = d"
| "double (Suc i) mx d = (if d < mx then double i mx (d * 2) else d)"

definition backoff :: "range_retryPolicy \<Rightarrow> int \<Rightarrow> int \<Rightarrow> int \<Rightarrow> int" where
  "backoff pol attempt retryAfter jitter =
     (let d = min (double (nat (attempt - 1)) (p_max pol) (p_base pol)) (p_max pol)
      in max (d - jitter) (min retryAfter (p_max pol)))"

text \<open>\<open>ask k\<close> is what request number \<open>k\<close> meets; the number of the next request is returned.\<close>

function rr_retry :: "(attempt \<Rightarrow> 's \<Rightarrow> (bytes \<times> get_err option) \<times> 's) \<Rightarrow> (nat \<Rightarrow> attempt) \<Rightarrow> int \<Rightarrow> int \<Rightarrow> nat \<Rightarrow> 's \<Rightarrow>
    (bytes \<times> range_err option) \<times> 's \<times> nat" where
  "rr_retry act ask attempts attempt k s =
     (let a = ask k; ((n, err), s') = act a s
      in case err of
           None \<Rightarrow> ((n, None), s', Suc k)
         | Some (Final e) \<Rightarrow> ((n, Some e), s', Suc k)
         | Some (Transient e _) \<Rightarrow>
             if attempt \<ge> attempts \<or> at_expired a \<or> \<not> at_slept a then ((n, Some (RGaveUp attempt e)), s', Suc k)
             else rr_retry act ask attempts (attempt + 1) (Suc k) s')"
  by auto
termination by (relation "measure (\<lambda>(act, ask, attempts, attempt, k, s). nat (attempts - attempt))") auto

declare rr_retry.simps [simp del]

type_synonym network = "nat \<Rightarrow> int \<Rightarrow> int \<Rightarrow> attempt"

definition newRangeReader :: "crange_parser \<Rightarrow> range_retryPolicy \<Rightarrow> network \<Rightarrow> cacheStore option \<Rightarrow> nat \<Rightarrow> (range_err + rangeReader) \<times> nat" where
  "newRangeReader parse pol net store k =
     (let rr = \<lparr>rr_store = store, rr_size = 0, rr_etag = [], rr_modified = [], rr_useStore = False\<rparr>;
          ((_, err), rr', k') = rr_retry (\<lambda>a. rr_get parse a 1 0 True) (\<lambda>k. net k 0 0) (p_attempts pol) 1 k rr
      in (case err of Some e \<Rightarrow> Inl e | None \<Rightarrow> Inr rr', k'))"

definition rr_ReadAt :: "crange_parser \<Rightarrow> range_retryPolicy \<Rightarrow> network \<Rightarrow> rangeReader \<Rightarrow> nat \<Rightarrow> int \<Rightarrow> nat \<Rightarrow> (bytes \<times> range_err option) \<times> nat" where
  "rr_ReadAt parse pol net rr k off n =
     (if off < 0 then (([], Some RNegative), k)
      else if rr_useStore rr then (case rr_store rr of None \<Rightarrow> ([], None) | Some st \<Rightarrow> store_ReadAt st n off, k)
      else if n = 0 then (([], None), k)
      else if off \<ge> rr_size rr then (([], Some REOF), k)
      else
        let short = wrap64 (off + int n) > rr_size rr;
            m = (if short then nat (rr_size rr - off) else n);
            ((got, err), _, k') = rr_retry (\<lambda>a. rr_get parse a m off False) (\<lambda>k. net k off (wrap64 (off + int m - 1))) (p_attempts pol) 1 k rr
        in ((got, if err \<noteq> None then err else if short then Some REOF else None), k'))"

section \<open>Model: the image of a URL\<close>

definition chunkCacheChunk :: int where "chunkCacheChunk = 2 ^ 20"
definition chunkCacheBudget :: int where "chunkCacheBudget = 32 * 2 ^ 20"

definition remote_reader :: "rangeReader \<Rightarrow> cachingReaderAt" where
  "remote_reader rr = newCachingReaderAt (rr_size rr) chunkCacheChunk chunkCacheBudget"

definition remote_under :: "crange_parser \<Rightarrow> range_retryPolicy \<Rightarrow> network \<Rightarrow> rangeReader \<Rightarrow> (range_err, nat) under" where
  "remote_under parse pol net rr k lo n = rr_ReadAt parse pol net rr k lo n"

section \<open>What a server may do\<close>

text \<open>
  The file behind the URL may change at any time, as long as its size, ETag and
  Last-Modified tell its versions apart: \<open>obj\<close> gives the bytes of a version. A
  partial response carries bytes of the version it names, from the position it
  names; it may carry too few, or the wrong range, or fail in any other way.
\<close>

type_synonym versions = "int \<times> bytes \<times> bytes \<Rightarrow> bytes"

definition version_of :: "response \<Rightarrow> int \<Rightarrow> int \<times> bytes \<times> bytes" where
  "version_of resp sz = (sz, rs_etag resp, rs_modified resp)"

definition truthful_server :: "crange_parser \<Rightarrow> versions \<Rightarrow> network \<Rightarrow> bool" where
  "truthful_server parse obj net \<longleftrightarrow> (\<forall>sz etag modified. 0 \<le> sz \<longrightarrow> length (obj (sz, etag, modified)) = nat sz) \<and>
     (\<forall>k first stop resp f l sz. at_do (net k first stop) = Inr resp \<and> rs_status resp = 206 \<and>
        parse (rs_crange resp) = Some (f, l, sz) \<and> 0 \<le> sz \<and> 0 \<le> f \<longrightarrow>
        (\<forall>m. int m \<le> l - f + 1 \<and> m \<le> length (rs_body resp) \<longrightarrow>
           take m (rs_body resp) = take m (drop (nat f) (obj (version_of resp sz)))))"

text \<open>The bytes a reader stands for.\<close>

definition rr_content :: "versions \<Rightarrow> rangeReader \<Rightarrow> bytes" where
  "rr_content obj rr = (if rr_useStore rr then (case rr_store rr of Some st \<Rightarrow> the (cs_f st) | None \<Rightarrow> [])
                        else obj (rr_size rr, rr_etag rr, rr_modified rr))"

definition rr_sound :: "versions \<Rightarrow> rangeReader \<Rightarrow> bool" where
  "rr_sound obj rr \<longleftrightarrow> rr_size rr = int (length (rr_content obj rr)) \<and>
     (rr_useStore rr \<longrightarrow> (\<exists>st. rr_store rr = Some st \<and> cs_f st \<noteq> None))"

lemma get_partial_reads:
  assumes server: "truthful_server parse obj net" and a: "a = net k q1 q2" and resp: "at_do a = Inr resp" "rs_status resp = 206"
    and rr: "\<not> rr_useStore rr" and first: "0 \<le> first" "first + int n < 2 ^ 63" "0 < n"
    and g: "get_partial parse a resp n first False rr = ((got, err), rr')"
  shows "rr' = rr \<and> (\<exists>j \<le> n. got = take j (drop (nat first) (rr_content obj rr)) \<and> (err = None \<longrightarrow> length got = n))"
proof (cases "parse (rs_crange resp)")
  case None
  then show ?thesis using g by (auto simp: get_partial_def Let_def)
next
  case (Some t)
  obtain f l sz where t: "parse (rs_crange resp) = Some (f, l, sz)" using Some by (cases t) auto
  have last: "wrap64 (first + int n - 1) = first + int n - 1" using first by (intro wrap64_id) auto
  show ?thesis
  proof (cases "0 \<le> sz \<and> validate resp sz rr \<and> f = first \<and> l = first + int n - 1")
    case False
    then have "\<exists>e. ((got, err), rr') = (([], Some e), rr)" using g t by (auto simp: get_partial_def last Let_def split: if_splits)
    then show ?thesis by auto
  next
    case True
    then have v: "obj (version_of resp sz) = rr_content obj rr" using rr by (simp add: validate_def version_of_def rr_content_def)
    have "take m (rs_body resp) = take m (drop (nat first) (rr_content obj rr))" if "m \<le> n" "m \<le> length (rs_body resp)" for m
      using server resp t True first that unfolding truthful_server_def a v [symmetric] by auto
    note body = this
    show ?thesis
    proof (cases "n \<le> length (rs_body resp)")
      case True
      then have "((got, err), rr') = ((take n (rs_body resp), None), rr)"
        using g t \<open>0 \<le> sz \<and> _\<close> by (auto simp: get_partial_def last Let_def)
      then have g: "got = take n (rs_body resp)" "length got = n" "rr' = rr" using True by auto
      have "got = take n (drop (nat first) (rr_content obj rr))" using body [of n] True g(1) by simp
      then show ?thesis using g(2,3) by blast
    next
      case False
      then have "\<exists>e. ((got, err), rr') = ((rs_body resp, Some e), rr)"
        using g t \<open>0 \<le> sz \<and> _\<close> by (auto simp: get_partial_def last Let_def)
      then show ?thesis using body [of "length (rs_body resp)"] False by (auto intro!: exI [of _ "length (rs_body resp)"])
    qed
  qed
qed

lemma rr_get_reads:
  assumes server: "truthful_server parse obj net" and rr: "\<not> rr_useStore rr" and first: "0 \<le> first" "first + int n < 2 ^ 63" "0 < n"
    and g: "rr_get parse (net k q1 q2) n first False rr = ((got, err), rr')"
  shows "rr' = rr \<and> (\<exists>j \<le> n. got = take j (drop (nat first) (rr_content obj rr)) \<and> (err = None \<longrightarrow> length got = n))"
proof (cases "\<exists>resp. at_do (net k q1 q2) = Inr resp \<and> rs_status resp = 206")
  case True
  then obtain resp where r: "at_do (net k q1 q2) = Inr resp" "rs_status resp = 206" by blast
  then have "get_partial parse (net k q1 q2) resp n first False rr = ((got, err), rr')" using g by (simp add: rr_get_def)
  from get_partial_reads [OF server refl r rr first this] show ?thesis .
next
  case False
  then have "\<exists>e. ((got, err), rr') = (([], Some e), rr)" using g by (auto simp: rr_get_def split: sum.splits if_splits)
  then show ?thesis by auto
qed

text \<open>The two ways a round of the loop goes on.\<close>

definition stopped :: "int \<Rightarrow> get_err option \<Rightarrow> range_err option" where
  "stopped attempt err =
     (case err of None \<Rightarrow> None | Some (Final e) \<Rightarrow> Some e | Some (Transient e _) \<Rightarrow> Some (RGaveUp attempt e))"

lemma stopped_None [simp]: "stopped attempt err = None \<longleftrightarrow> err = None"
  by (simp add: stopped_def split: option.split get_err.split)

definition goes_on :: "attempt \<Rightarrow> int \<Rightarrow> int \<Rightarrow> get_err option \<Rightarrow> bool" where
  "goes_on a attempts attempt err \<longleftrightarrow> (\<exists>x ra. err = Some (Transient x ra)) \<and> attempt < attempts \<and> \<not> at_expired a \<and> at_slept a"

lemma rr_retry_round:
  assumes "act (ask k) s = ((n, e), s1)"
  shows "rr_retry act ask attempts attempt k s =
    (if goes_on (ask k) attempts attempt e then rr_retry act ask attempts (attempt + 1) (Suc k) s1
     else ((n, stopped attempt e), s1, Suc k))"
  using assms by (subst rr_retry.simps) (auto simp: goes_on_def stopped_def Let_def split: option.split get_err.split)

text \<open>A property of every outcome of the action holds of the outcome of retrying it.\<close>

lemma rr_retry_rule:
  assumes "\<And>k s n err s'. I s \<Longrightarrow> act (ask k) s = ((n, err), s') \<Longrightarrow> (err \<noteq> None \<longrightarrow> I s') \<and> Q n (err = None) s'" and "I s"
    and "rr_retry act ask attempts attempt k s = ((got, err), s', k')"
  shows "Q got (err = None) s'"
  using assms(2,3)
proof (induction "nat (attempts - attempt)" arbitrary: attempt k s rule: less_induct)
  case less
  obtain n e s1 where a: "act (ask k) s = ((n, e), s1)" by (metis surj_pair)
  note q = assms(1) [OF less(2) a]
  show ?case
  proof (cases "goes_on (ask k) attempts attempt e")
    case True
    then show ?thesis using less(1) [of "attempt + 1" s1 "Suc k"] less(3) q by (auto simp: rr_retry_round [of act ask k s, OF a] goes_on_def)
  next
    case False
    then show ?thesis using less(3) q by (auto simp: rr_retry_round [of act ask k s, OF a])
  qed
qed

lemma rr_retry_bound:
  assumes "rr_retry act ask attempts attempt k s = (res, s', k')" and "attempt \<le> max attempts 1"
  shows "k < k' \<and> int k' \<le> int k + max attempts 1 - attempt + 1"
  using assms
proof (induction "nat (attempts - attempt)" arbitrary: attempt k s rule: less_induct)
  case less
  obtain n e s1 where a: "act (ask k) s = ((n, e), s1)" by (metis surj_pair)
  show ?case
  proof (cases "goes_on (ask k) attempts attempt e")
    case True
    then have "attempt + 1 \<le> max attempts 1" by (auto simp: goes_on_def)
    then show ?thesis using less(1) [of "attempt + 1" "Suc k" s1] less(2) True by (auto simp: rr_retry_round [of act ask k s, OF a] goes_on_def)
  next
    case False
    then show ?thesis using less(2,3) by (auto simp: rr_retry_round [of act ask k s, OF a])
  qed
qed

section \<open>Every byte is of one version\<close>

lemma store_ReadFrom_ok:
  assumes "store_ReadFrom d body broken st = ((n, True), st')"
  shows "cs_f st' = Some body \<and> n = int (length body)"
  using assms by (auto simp: store_ReadFrom_def Let_def split: disk.splits)

lemma probe_sound:
  assumes server: "truthful_server parse obj net" and "rr_get parse (net k q1 q2) n 0 True rr = ((got, None), rr')" and "\<not> rr_useStore rr"
  shows "rr_sound obj rr'"
proof -
  have len: "0 \<le> sz \<Longrightarrow> length (obj (sz, etag, modified)) = nat sz" for sz etag modified
    using server by (simp add: truthful_server_def)
  obtain resp where resp: "at_do (net k q1 q2) = Inr resp" using assms(2) by (auto simp: rr_get_def split: sum.splits)
  consider "rr' = remember resp 0 rr" | "fallback (net k q1 q2) resp rr = ((got, None), rr')" | "get_partial parse (net k q1 q2) resp n 0 True rr = ((got, None), rr')"
    using assms(2) resp by (auto simp: rr_get_def split: if_splits)
  then show ?thesis
  proof cases
    case 1
    then show ?thesis using len [of 0] assms(3) by (simp add: rr_sound_def rr_content_def remember_def)
  next
    case 2
    then obtain st m st' where s: "rr_store rr = Some st" "store_ReadFrom (at_disk (net k q1 q2)) (rs_body resp) (rs_broken resp) st = ((m, True), st')"
      "rr' = (remember resp m (rr\<lparr>rr_store := Some st'\<rparr>))\<lparr>rr_useStore := True\<rparr>"
      by (auto simp: fallback_def Let_def split: option.splits prod.splits if_splits)
    then show ?thesis using store_ReadFrom_ok [OF s(2)] by (simp add: rr_sound_def rr_content_def remember_def)
  next
    case 3
    then obtain sz where "\<not> sz < 0" "rr' = remember resp sz rr"
      by (auto simp: get_partial_def Let_def split: option.splits prod.splits if_splits)
    then show ?thesis using len [of sz] assms(3) by (simp add: rr_sound_def rr_content_def remember_def)
  qed
qed

lemma probe_keeps:
  assumes "rr_get parse a n 0 True rr = ((got, Some e), rr')" and "\<not> rr_useStore rr"
  shows "\<not> rr_useStore rr'"
  using assms by (auto simp: rr_get_def fallback_def get_partial_def remember_def Let_def split: sum.splits if_splits option.splits prod.splits)

lemma newRangeReader_sound:
  assumes server: "truthful_server parse obj net" and new: "newRangeReader parse pol net store k = (Inr rr, k')"
  shows "rr_sound obj rr"
proof -
  define rr0 where "rr0 = \<lparr>rr_store = store, rr_size = 0, rr_etag = [], rr_modified = [], rr_useStore = False\<rparr>"
  obtain got where r: "rr_retry (\<lambda>a. rr_get parse a 1 0 True) (\<lambda>k. net k 0 0) (p_attempts pol) 1 k rr0 = ((got, None), rr, k')"
    using new by (auto simp: newRangeReader_def rr0_def [symmetric] Let_def split: prod.splits option.splits)
  have "None = (None :: range_err option) \<longrightarrow> rr_sound obj rr"
  proof (rule rr_retry_rule [where I = "\<lambda>rr. \<not> rr_useStore rr" and Q = "\<lambda>_ ok rr. ok \<longrightarrow> rr_sound obj rr", OF _ _ r])
    fix k rr n err rr'
    assume "\<not> rr_useStore rr" "rr_get parse (net k 0 0) 1 0 True rr = ((n, err), rr')"
    then show "(err \<noteq> None \<longrightarrow> \<not> rr_useStore rr') \<and> (err = None \<longrightarrow> rr_sound obj rr')"
      using probe_sound [OF server] probe_keeps by (cases err) auto
  qed (simp add: rr0_def)
  then show ?thesis by simp
qed

text \<open>What a read returns: bytes of the version, all of them without an error, all that are left with io.EOF.\<close>

definition range_result :: "bytes \<Rightarrow> int \<Rightarrow> nat \<Rightarrow> bytes \<times> range_err option \<Rightarrow> bool" where
  "range_result content off n res \<longleftrightarrow> (\<exists>j \<le> n. fst res = take j (drop (nat off) content)) \<and>
     (snd res = None \<longrightarrow> length (fst res) = n) \<and> (snd res = Some REOF \<longrightarrow> fst res = take n (drop (nat off) content))"

lemma store_ReadAt_range: "0 \<le> off \<Longrightarrow> cs_f st = Some b \<Longrightarrow> range_result b off n (store_ReadAt st n off)"
  by (auto simp: store_ReadAt_def range_result_def Let_def intro: exI [of _ n])

lemma rr_get_no_eof:
  "rr_get parse a n first init rr = ((got, Some (Final e)), rr') \<Longrightarrow> e \<noteq> REOF"
  "rr_get parse a n first init rr = ((got, Some (Transient e ra)), rr') \<Longrightarrow> e \<noteq> REOF"
  by (auto simp: rr_get_def fallback_def get_partial_def statusFailure_def rr_failure_def Let_def
      split: sum.splits if_splits option.splits prod.splits)

lemma rr_retry_no_eof:
  assumes "rr_retry (\<lambda>a. rr_get parse a n first init) ask attempts attempt k s = ((got, err), s', k')"
  shows "err \<noteq> Some REOF"
  using assms
proof (induction "nat (attempts - attempt)" arbitrary: attempt k s rule: less_induct)
  case less
  obtain m e s1 where a: "rr_get parse (ask k) n first init s = ((m, e), s1)" by (metis surj_pair)
  note r = rr_retry_round [of "\<lambda>a. rr_get parse a n first init" ask k s, OF a]
  show ?case
  proof (cases "goes_on (ask k) attempts attempt e")
    case True
    then show ?thesis using less(1) [of "attempt + 1" "Suc k" s1] less(2) by (simp add: r goes_on_def)
  next
    case False
    then show ?thesis using less(2) a by (auto simp: r stopped_def dest: rr_get_no_eof split: option.splits get_err.splits)
  qed
qed

lemma rr_ReadAt_range:
  assumes server: "truthful_server parse obj net" and rr: "rr_sound obj rr" and off: "0 \<le> off" "off + int n < 2 ^ 63"
  shows "range_result (rr_content obj rr) off n (fst (rr_ReadAt parse pol net rr k off n)) \<and>
    int (snd (rr_ReadAt parse pol net rr k off n)) \<le> int k + max (p_attempts pol) 1"
proof (cases "rr_useStore rr \<or> n = 0 \<or> off \<ge> rr_size rr")
  case True
  show ?thesis
  proof (cases "rr_useStore rr")
    case True
    then obtain st b where "rr_store rr = Some st" "cs_f st = Some b" using rr by (auto simp: rr_sound_def)
    then show ?thesis using True off(1) store_ReadAt_range [of off st b n] by (simp add: rr_ReadAt_def rr_content_def)
  next
    case False
    then show ?thesis using True off(1) rr by (auto simp: rr_ReadAt_def range_result_def rr_sound_def)
  qed
next
  case False
  define short where "short \<longleftrightarrow> rr_size rr < off + int n"
  define m where "m = (if short then nat (rr_size rr - off) else n)"
  have m: "0 < m" "m \<le> n" "off + int m < 2 ^ 63" "off + int m \<le> rr_size rr" using False off by (auto simp: m_def short_def)
  have w: "wrap64 (off + int n) = off + int n" using off by (intro wrap64_id) auto
  obtain got err rr' k' where r: "rr_retry (\<lambda>a. rr_get parse a m off False) (\<lambda>k. net k off (wrap64 (off + int m - 1))) (p_attempts pol) 1 k rr =
      ((got, err), rr', k')" by (metis surj_pair)
  have "\<exists>j \<le> m. got = take j (drop (nat off) (rr_content obj rr)) \<and> (err = None \<longrightarrow> length got = m)"
  proof (rule rr_retry_rule [where I = "\<lambda>s. s = rr" and
        Q = "\<lambda>got ok _. \<exists>j \<le> m. got = take j (drop (nat off) (rr_content obj rr)) \<and> (ok \<longrightarrow> length got = m)", OF _ refl r])
    show "(e \<noteq> None \<longrightarrow> s' = rr) \<and> (\<exists>j \<le> m. b = take j (drop (nat off) (rr_content obj rr)) \<and> (e = None \<longrightarrow> length b = m))"
      if "s = rr" "rr_get parse (net k off (wrap64 (off + int m - 1))) m off False s = ((b, e), s')" for k s b e s'
      using rr_get_reads [OF server _ off(1) m(3,1)] that False by blast
  qed
  then obtain j where j: "j \<le> m" "got = take j (drop (nat off) (rr_content obj rr))" "err = None \<longrightarrow> length got = m" by blast
  have "int k' \<le> int k + max (p_attempts pol) 1" using rr_retry_bound [OF r] by auto
  moreover have "range_result (rr_content obj rr) off n (got, if err \<noteq> None then err else if short then Some REOF else None)"
  proof (cases "err = None")
    case False
    then show ?thesis using j m(2) rr_retry_no_eof [OF r] by (auto simp: range_result_def intro!: exI [of _ j])
  next
    case True
    then have "j = m" using j by auto
    moreover have "take m (drop (nat off) (rr_content obj rr)) = take n (drop (nat off) (rr_content obj rr))"
      using rr off(1) by (simp add: m_def short_def rr_sound_def)
    ultimately show ?thesis using True j m(2) by (auto simp: range_result_def m_def)
  qed
  moreover have "rr_ReadAt parse pol net rr k off n = ((got, if err \<noteq> None then err else if short then Some REOF else None), k')"
    using False off(1) r by (simp add: rr_ReadAt_def w short_def [symmetric] m_def [symmetric] Let_def)
  ultimately show ?thesis by simp
qed

lemma remote_truthful:
  assumes "truthful_server parse obj net" and "rr_sound obj rr" and "rr_size rr < 2 ^ 63"
  shows "truthful_reader (remote_under parse pol net rr) (rr_content obj rr)"
proof
  fix lo n w
  assume a: "0 \<le> (lo :: int)" "0 < n" "nat lo + n \<le> length (rr_content obj rr)"
  then have "lo + int n < 2 ^ 63" using assms(2,3) by (auto simp: rr_sound_def)
  from rr_ReadAt_range [OF assms(1,2) a(1) this, of pol w]
  show "truthful (rr_content obj rr) lo n (fst (remote_under parse pol net rr w lo n))"
    by (auto simp: truthful_def remote_under_def range_result_def)
qed

text \<open>The fallback file is such a reader, whatever it holds.\<close>

definition store_under :: "cacheStore \<Rightarrow> (range_err, unit) under" where
  "store_under st w lo n = (store_ReadAt st n lo, w)"

interpretation stored: truthful_reader "store_under \<lparr>cs_f = Some b, cs_size = sz\<rparr>" b
  using store_ReadAt_range [of _ "\<lparr>cs_f = Some b, cs_size = sz\<rparr>" b]
  by unfold_locales (auto simp: store_under_def truthful_def range_result_def)

section \<open>Recovery\<close>

text \<open>
  A request that works answers the range asked for with the version the reader
  knows; one that fails in passing is a failed connection or a busy server, and
  leaves time for another. A server recovers when of any \<open>attempts\<close> requests in a
  row one works after failures in passing only.
\<close>

definition works :: "crange_parser \<Rightarrow> rangeReader \<Rightarrow> int \<Rightarrow> int \<Rightarrow> attempt \<Rightarrow> bool" where
  "works parse rr first stop a \<longleftrightarrow> (\<exists>resp. at_do a = Inr resp \<and> rs_status resp = 206 \<and>
     parse (rs_crange resp) = Some (first, stop, rr_size rr) \<and> validate resp (rr_size rr) rr \<and> stop - first < int (length (rs_body resp)))"

definition passing :: "attempt \<Rightarrow> bool" where
  "passing a \<longleftrightarrow> \<not> at_cancelled a \<and> \<not> at_expired a \<and> at_slept a \<and>
     ((\<exists>i. at_do a = Inl (DoOther i)) \<or> (\<exists>resp. at_do a = Inr resp \<and> (rs_status resp \<in> {408, 429} \<or> rs_status resp \<ge> 500)))"

definition recovers :: "crange_parser \<Rightarrow> range_retryPolicy \<Rightarrow> network \<Rightarrow> rangeReader \<Rightarrow> bool" where
  "recovers parse pol net rr \<longleftrightarrow> (\<forall>k first stop. 0 \<le> first \<and> first \<le> stop \<and> stop < rr_size rr \<longrightarrow> (\<exists>j. int j < p_attempts pol \<and> works parse rr first stop (net (k + j) first stop) \<and>
     (\<forall>i < j. passing (net (k + i) first stop))))"

lemma passing_transient: "passing a \<Longrightarrow> \<exists>n x ra. rr_get parse a m first False rr = ((n, Some (Transient x ra)), rr)"
  by (auto simp: passing_def rr_get_def rr_failure_def statusFailure_def)

lemma works_reads:
  assumes "works parse rr first (first + int m - 1) a" and "0 \<le> rr_size rr" and "0 \<le> first" "first + int m < 2 ^ 63" "0 < m"
  shows "\<exists>n. rr_get parse a m first False rr = ((n, None), rr)"
proof -
  have "wrap64 (first + int m - 1) = first + int m - 1" using assms by (intro wrap64_id) auto
  then show ?thesis using assms by (auto simp: works_def rr_get_def get_partial_def Let_def)
qed

lemma rr_retry_recovers:
  assumes ok: "\<exists>n. act (ask (k + j)) s = ((n, None), s)" and fails: "\<And>i. i < j \<Longrightarrow> passing (ask (k + i)) \<and> (\<exists>n x ra. act (ask (k + i)) s = ((n, Some (Transient x ra)), s))"
    and "attempt + int j \<le> attempts"
  shows "\<exists>n. rr_retry act ask attempts attempt k s = ((n, None), s, Suc (k + j))"
  using assms
proof (induction j arbitrary: k attempt)
  case 0
  then obtain n where "act (ask k) s = ((n, None), s)" by auto
  from rr_retry_round [of act ask k s, OF this] show ?case by (simp add: goes_on_def stopped_def)
next
  case (Suc j)
  obtain n x ra where a: "act (ask k) s = ((n, Some (Transient x ra)), s)" and p: "passing (ask k)" using Suc.prems(2) [of 0] by auto
  have "goes_on (ask k) attempts attempt (Some (Transient x ra))" using p Suc.prems(3) by (auto simp: goes_on_def passing_def)
  then have "rr_retry act ask attempts attempt k s = rr_retry act ask attempts (attempt + 1) (Suc k) s"
    by (simp add: rr_retry_round [of act ask k s, OF a])
  moreover have "\<exists>n. rr_retry act ask attempts (attempt + 1) (Suc k) s = ((n, None), s, Suc (Suc k + j))"
    using Suc.prems(1,3) Suc.prems(2) [of "Suc _"] by (intro Suc.IH) auto
  ultimately show ?case by simp
qed

lemma rr_ReadAt_recovers:
  assumes rec: "recovers parse pol net rr" and rr: "\<not> rr_useStore rr" "0 \<le> rr_size rr" and off: "0 \<le> off" "0 < n" "off + int n \<le> rr_size rr" "rr_size rr < 2 ^ 63"
  shows "snd (fst (rr_ReadAt parse pol net rr k off n)) = None"
proof -
  have w: "wrap64 (off + int n) = off + int n" "wrap64 (off + int n - 1) = off + int n - 1" using off by (auto intro!: wrap64_id)
  obtain j where j: "int j < p_attempts pol" "works parse rr off (off + int n - 1) (net (k + j) off (off + int n - 1))"
    "\<And>i. i < j \<Longrightarrow> passing (net (k + i) off (off + int n - 1))"
    using rec [unfolded recovers_def, rule_format, of off "off + int n - 1" k] off by auto
  have "\<exists>got. rr_retry (\<lambda>a. rr_get parse a n off False) (\<lambda>k. net k off (off + int n - 1)) (p_attempts pol) 1 k rr = ((got, None), rr, Suc (k + j))"
    using works_reads [OF j(2) rr(2) off(1) _ off(2)] off j(1,3) passing_transient by (intro rr_retry_recovers) auto
  then obtain got where "rr_retry (\<lambda>a. rr_get parse a n off False) (\<lambda>k. net k off (off + int n - 1)) (p_attempts pol) 1 k rr = ((got, None), rr, Suc (k + j))"
    by blast
  then show ?thesis using rr off by (simp add: rr_ReadAt_def w Let_def)
qed

section \<open>Reads of a remote image\<close>

text \<open>Reads of the image one after the other, as (offset, length).\<close>

fun remote_reads :: "('e, 'w) under \<Rightarrow> (int \<times> nat) list \<Rightarrow> cachingReaderAt \<Rightarrow> 'w \<Rightarrow> (unit, (bytes \<times> 'e cc_err option) list) outcome" where
  "remote_reads r [] c w = Ok []"
| "remote_reads r ((off, n) # qs) c w =
     and_then (cc_ReadAt n r off n c w) (\<lambda>(res, c', w'). and_then (remote_reads r qs c' w') (\<lambda>rs. Ok (res # rs)))"

definition exact_read :: "bytes \<Rightarrow> int \<times> nat \<Rightarrow> bytes \<times> 'e cc_err option" where
  "exact_read content = (\<lambda>(off, n).
     if off < 0 then ([], Some (CcNegative off))
     else (take n (drop (nat off) content), if nat off + n \<le> length content \<and> nat off < length content then None else Some CcEOF))"

lemma read_result_exact:
  assumes "read_result content off n res" and "snd res = None \<or> snd res = Some CcEOF \<or> off < 0"
    and "off + int n < 2 ^ 63" and "snd res = None \<longrightarrow> off < int (length content)"
  shows "res = exact_read content (off, n)"
proof (cases "off < 0")
  case True
  then show ?thesis using assms(1) by (simp add: read_result_def exact_read_def)
next
  case False
  then consider "snd res = None" | "snd res = Some CcEOF" using assms(2) by auto
  then show ?thesis
  proof cases
    case 1
    note h = assms(1) [unfolded read_result_def if_not_P [OF False] 1 option.case, THEN conjunct2]
    have "fst res = take n (drop (nat off) content)" "length (fst res) = n" by (fact h [THEN conjunct1], fact h [THEN conjunct2])
    moreover from this have "nat off + n \<le> length content \<or> n = 0" by auto
    ultimately show ?thesis using 1 False assms(4) by (cases res) (auto simp: exact_read_def)
  next
    case 2
    note h = assms(1) [unfolded read_result_def if_not_P [OF False] 2 option.case cc_err.case, THEN conjunct2]
    have "fst res = take n (drop (nat off) content)" "length (fst res) < n \<or> int (length content) \<le> off"
      by (fact h [THEN conjunct1], fact h [THEN conjunct2])
    then show ?thesis using 2 False by (cases res) (auto simp: exact_read_def)
  qed
qed

lemma cc_ReadAt_beyond: "cc_ReadAt fuel r off n c w = Ok ((got, None), c', w') \<Longrightarrow> off < cc_size c"
  by (auto simp: cc_ReadAt_def split: if_splits)

context truthful_reader
begin

lemma remote_reads_ok:
  assumes "cc_ok content c" and "\<forall>(off, n) \<in> set qs. off + int n < 2 ^ 63"
  shows "\<exists>rs. remote_reads r qs c w = Ok rs \<and> list_all2 (\<lambda>(off, n). read_result content off n) qs rs \<and>
    (\<not> falls_short r content \<longrightarrow> rs = map (exact_read content) qs)"
  using assms
proof (induction qs arbitrary: c w)
  case (Cons q qs)
  obtain off n where q: "q = (off, n)" by force
  then have b: "off + int n < 2 ^ 63" using Cons.prems(2) by simp
  obtain res c' w' where r: "cc_ReadAt n r off n c w = Ok (res, c', w')" "cc_ok content c'" "read_result content off n res"
    "snd res \<noteq> None \<longrightarrow> falls_short r content \<or> snd res = Some CcEOF \<or> off < 0"
    using ReadAt_ok [OF Cons.prems(1) b order_refl] by blast
  obtain rs where rs: "remote_reads r qs c' w' = Ok rs" "list_all2 (\<lambda>(off, n). read_result content off n) qs rs"
    "\<not> falls_short r content \<longrightarrow> rs = map (exact_read content) qs" using Cons.IH [OF r(2)] Cons.prems(2) by auto
  have "snd res = None \<longrightarrow> off < int (length content)"
    using r(1) Cons.prems(1) cc_ReadAt_beyond [of n r off n c w "fst res" c' w'] by (cases res) (auto simp: cc_ok_def)
  then have "\<not> falls_short r content \<longrightarrow> res = exact_read content (off, n)" using read_result_exact [OF r(3) _ b] r(4) by auto
  then show ?case using q r(1,3) rs by auto
qed simp

end

lemma remote_exact:
  assumes "rr_sound obj rr" and "rr_useStore rr \<or> recovers parse pol net rr" and "rr_size rr < 2 ^ 63"
    and "truthful_server parse obj net"
  shows "\<not> falls_short (remote_under parse pol net rr) (rr_content obj rr)"
proof -
  have "length (fst (fst (rr_ReadAt parse pol net rr k lo n))) = n" if lo: "0 \<le> lo" "0 < n" "nat lo + n \<le> length (rr_content obj rr)" for k lo n
  proof (cases "rr_useStore rr")
    case True
    then obtain st b where "rr_store rr = Some st" "cs_f st = Some b" using assms(1) by (auto simp: rr_sound_def)
    then show ?thesis using True lo by (simp add: rr_ReadAt_def store_ReadAt_def rr_content_def Let_def)
  next
    case False
    have "lo + int n \<le> rr_size rr" "0 \<le> rr_size rr" using assms(1) lo by (auto simp: rr_sound_def)
    moreover from this have "snd (fst (rr_ReadAt parse pol net rr k lo n)) = None"
      using False assms(2,3) lo by (intro rr_ReadAt_recovers) auto
    moreover have "range_result (rr_content obj rr) lo n (fst (rr_ReadAt parse pol net rr k lo n))"
      using rr_ReadAt_range [OF assms(4,1), of lo n pol k] lo(1) calculation(1) assms(3) by simp
    ultimately show ?thesis by (simp add: range_result_def)
  qed
  then show ?thesis unfolding falls_short_def remote_under_def by blast
qed

text \<open>C8: Every byte of a remote image is of one version. Whatever the server, the network and the clocks do, and though the
  file behind the URL may change, every read of the image returns, and returns bytes of the version the first response
  named, at the right place: all asked for without an error, all that are left with io.EOF. No read makes more
  requests than the policy allows.\<close>

theorem remote_reads_one_version:
  assumes "truthful_server parse obj net" and "newRangeReader parse pol net store k0 = (Inr rr, k1)"
    and "rr_size rr + chunkCacheChunk < 2 ^ 63" and "\<forall>(off, n) \<in> set qs. off + int n < 2 ^ 63"
  shows "(\<exists>rs. remote_reads (remote_under parse pol net rr) qs (remote_reader rr) k1 = Ok rs \<and>
      list_all2 (\<lambda>(off, n). read_result (rr_content obj rr) off n) qs rs) \<and>
    (\<forall>k. \<forall>off \<in> {0..<2 ^ 62}. \<forall>n < 2 ^ 62. int (snd (rr_ReadAt parse pol net rr k off n)) \<le> int k + max (p_attempts pol) 1)"
proof -
  have s: "rr_sound obj rr" by (rule newRangeReader_sound [OF assms(1,2)])
  then have ok: "cc_ok (rr_content obj rr) (remote_reader rr)"
    using assms(3) cc_ok_new [of chunkCacheChunk "rr_content obj rr"] by (simp add: remote_reader_def rr_sound_def chunkCacheChunk_def)
  have sz: "rr_size rr < 2 ^ 63" using assms(3) by (simp add: chunkCacheChunk_def)
  from truthful_reader.remote_reads_ok [OF remote_truthful [OF assms(1) s sz] ok assms(4), of pol k1]
  have "\<exists>rs. remote_reads (remote_under parse pol net rr) qs (remote_reader rr) k1 = Ok rs \<and>
      list_all2 (\<lambda>(off, n). read_result (rr_content obj rr) off n) qs rs" by blast
  moreover have "int (snd (rr_ReadAt parse pol net rr k off n)) \<le> int k + max (p_attempts pol) 1"
    if "off \<in> {0..<2 ^ 62}" "n < 2 ^ 62" for k off n using rr_ReadAt_range [OF assms(1) s, of off n pol k] that by simp
  ultimately show ?thesis by blast
qed

text \<open>C16: A flaky server does not show. When the server recovers within the attempts of the policy, or the image was
  buffered whole because the server has no ranges, every read of the image returns exactly what reading its bytes returns.\<close>

theorem remote_reads_recover:
  assumes "truthful_server parse obj net" and "newRangeReader parse pol net store k0 = (Inr rr, k1)"
    and "rr_useStore rr \<or> recovers parse pol net rr"
    and "rr_size rr + chunkCacheChunk < 2 ^ 63" and "\<forall>(off, n) \<in> set qs. off + int n < 2 ^ 63"
  shows "remote_reads (remote_under parse pol net rr) qs (remote_reader rr) k1 = Ok (map (exact_read (rr_content obj rr)) qs)"
proof -
  have s: "rr_sound obj rr" by (rule newRangeReader_sound [OF assms(1,2)])
  then have ok: "cc_ok (rr_content obj rr) (remote_reader rr)"
    using assms(4) cc_ok_new [of chunkCacheChunk "rr_content obj rr"] by (simp add: remote_reader_def rr_sound_def chunkCacheChunk_def)
  have sz: "rr_size rr < 2 ^ 63" using assms(4) by (simp add: chunkCacheChunk_def)
  from truthful_reader.remote_reads_ok [OF remote_truthful [OF assms(1) s sz] ok assms(5), of pol k1] remote_exact [OF s assms(3) sz assms(1)]
  show ?thesis by auto
qed

lemma double_bounds: "0 < d \<Longrightarrow> d \<le> double i mx d \<and> (double i mx d < mx \<longrightarrow> double i mx d = d * 2 ^ i)"
  by (induction i mx d rule: double.induct) (auto simp: algebra_simps)

text \<open>With the server's wish ignored the wait is between half of the doubled base, or of the maximum, and the maximum.\<close>

lemma backoff_bounds:
  assumes "0 < p_base pol" and "p_base pol \<le> p_max pol" and "1 \<le> attempt"
    and "0 \<le> jitter" and "2 * jitter \<le> min (double (nat (attempt - 1)) (p_max pol) (p_base pol)) (p_max pol)"
  shows "p_base pol \<le> 2 * backoff pol attempt retryAfter jitter \<and> backoff pol attempt retryAfter jitter \<le> p_max pol"
proof -
  define d where "d = min (double (nat (attempt - 1)) (p_max pol) (p_base pol)) (p_max pol)"
  have "p_base pol \<le> d" "2 * jitter \<le> d" "d \<le> p_max pol"
    using assms double_bounds [of "p_base pol" "nat (attempt - 1)" "p_max pol"] by (auto simp: d_def)
  moreover have "backoff pol attempt retryAfter jitter = max (d - jitter) (min retryAfter (p_max pol))"
    by (simp add: backoff_def d_def Let_def)
  ultimately show ?thesis using assms(4) by (auto simp: max_def min_def)
qed

text \<open>A server that answers its third request, over a file of three bytes.\<close>

definition try_parse :: crange_parser where
  "try_parse b = (case b of [f, l, s] \<Rightarrow> Some (uint f, uint l, uint s) | _ \<Rightarrow> None)"

definition try_obj :: versions where
  "try_obj = (\<lambda>(sz, etag, modified). if sz = 3 then [10, 20, 30] else replicate (nat sz) 0)"

definition try_net :: network where
  "try_net k first stop =
     \<lparr>at_do = (if k mod 3 < 2 \<or> first < 0 then Inl (DoOther k)
               else Inr \<lparr>rs_status = 206, rs_crange = [of_int first, of_int stop, 3], rs_etag = [], rs_modified = [], rs_retryAfter = [],
                         rs_length = -1, rs_body = take (nat (stop - first + 1)) (drop (nat first) [10, 20, 30]), rs_broken = False\<rparr>),
      at_cancelled = False, at_fired = False, at_expired = False, at_slept = True, at_disk = Writable\<rparr>"

definition try_rr :: rangeReader where
  "try_rr = \<lparr>rr_store = None, rr_size = 3, rr_etag = [], rr_modified = [], rr_useStore = False\<rparr>"

lemma try_truthful: "truthful_server try_parse try_obj try_net"
proof -
  have "take m (take x (drop (nat first) [10, 20, 30 :: byte])) = take m (drop (nat (uint (of_int first :: byte))) [10, 20, 30])"
    if "0 \<le> first" "m \<le> length (take x (drop (nat first) [10, 20, 30 :: byte]))" for m x first
  proof (cases "first < 256")
    case True
    then have "uint (of_int first :: byte) = first" using that(1) by (simp add: word_of_int_inverse uint_word_of_int)
    then show ?thesis using that(2) by simp
  next
    case False
    then show ?thesis using that by (simp add: nat_le_iff)
  qed
  then show ?thesis
    by (auto simp: truthful_server_def try_net_def try_parse_def try_obj_def version_of_def split: if_splits)
qed

lemma try_new: "newRangeReader try_parse defaultRetryPolicy try_net None 0 = (Inr try_rr, 3)"
  by (simp add: newRangeReader_def rr_retry.simps try_net_def try_parse_def rr_get_def get_partial_def rr_failure_def
      defaultRetryPolicy_def remember_def try_rr_def wrap64_def)

lemma try_recovers: "recovers try_parse defaultRetryPolicy try_net try_rr"
proof -
  have w: "works try_parse try_rr first stop (try_net k first stop)" if "k mod 3 = 2" "0 \<le> first" "first \<le> stop" "stop < 3" for k first stop
  proof -
    have "uint (of_int first :: byte) = first" "uint (of_int stop :: byte) = stop" using that by (simp_all add: uint_word_of_int)
    then show ?thesis using that by (auto simp: works_def try_net_def try_parse_def try_rr_def validate_def)
  qed
  have p: "passing (try_net k first stop)" if "k mod 3 < 2" for k first stop using that by (simp add: passing_def try_net_def)
  show ?thesis unfolding recovers_def
  proof (intro allI impI)
    fix k :: nat and first stop
    assume a: "0 \<le> first \<and> first \<le> stop \<and> stop < rr_size try_rr"
    have split: "(k + i) mod 3 = (k mod 3 + i) mod 3" for i by (simp add: mod_add_left_eq)
    have "k mod 3 < 3" by simp
    then have "(k + (2 - k mod 3)) mod 3 = 2" by (subst split) simp
    from w [OF this] a have "works try_parse try_rr first stop (try_net (k + (2 - k mod 3)) first stop)" by (simp add: try_rr_def)
    moreover have "passing (try_net (k + i) first stop)" if "i < 2 - k mod 3" for i
      using that by (intro p) (subst split, simp)
    moreover have "int (2 - k mod 3) < p_attempts defaultRetryPolicy" by (simp add: defaultRetryPolicy_def)
    ultimately show "\<exists>j. int j < p_attempts defaultRetryPolicy \<and> works try_parse try_rr first stop (try_net (k + j) first stop) \<and>
        (\<forall>i<j. passing (try_net (k + i) first stop))"
      by blast
  qed
qed

theorem remote_reads_one_version_witness:
  "\<exists>rs. remote_reads (remote_under try_parse defaultRetryPolicy try_net try_rr) [(0, 2), (1, 5)] (remote_reader try_rr) 3 = Ok rs \<and>
     list_all2 (\<lambda>(off, n). read_result [10, 20, 30] off n) [(0, 2), (1, 5)] rs"
  using remote_reads_one_version [OF try_truthful try_new, of "[(0, 2), (1, 5)]"]
  by (simp add: try_rr_def chunkCacheChunk_def rr_content_def try_obj_def)

theorem remote_reads_recover_witness:
  "remote_reads (remote_under try_parse defaultRetryPolicy try_net try_rr) [(0, 2), (1, 5)] (remote_reader try_rr) 3 =
     Ok [([10, 20], None), ([20, 30], Some CcEOF)]"
  using remote_reads_recover [OF try_truthful try_new _ , of "[(0, 2), (1, 5)]"] try_recovers
  by (simp add: try_rr_def chunkCacheChunk_def rr_content_def try_obj_def exact_read_def)

end
