(* ===== verification/Source_Fetch.thy ===== *)
theory Source_Fetch
  imports Source_Range
begin

text \<open>
  Where install media come from (src/internal/source: source.go, creds.go,
  probe.go, url.go): the decision between directories, archives and images,
  credentials and where redirects may take them, and the check that a remote
  source answers. A parsed URL is a record; parsing and printing URLs, hashing
  and the host's file system are parameters. Host names are compared byte for
  byte after folding ASCII, and of a request only its URL and Authorization matter.
\<close>

section \<open>Model: references\<close>

definition isURL :: "bytes \<Rightarrow> bool" where
  "isURL ref \<longleftrightarrow> HasPrefix ref (str ''http://'') \<or> HasPrefix ref (str ''https://'')"

definition isTreePath :: "bytes \<Rightarrow> bool" where
  "isTreePath p \<longleftrightarrow> (let lp = ToLower p
     in HasSuffix lp (str ''.tar.gz'') \<or> HasSuffix lp (str ''.tardist.gz'') \<or> HasSuffix lp (str ''.tardist'') \<or>
        HasSuffix lp (str ''.tgz'') \<or> HasSuffix lp (str ''.tar''))"

definition isArchivePath :: "bytes \<Rightarrow> bool" where
  "isArchivePath p \<longleftrightarrow> isTreePath p \<or> HasSuffix (ToLower p) (str ''.gz'')"

record url =
  u_scheme :: bytes
  u_user :: "bytes option"
  u_host :: bytes
  u_path :: bytes
  u_query :: bytes
  u_fragment :: bytes

definition SafeURL :: "(bytes \<Rightarrow> url option) \<Rightarrow> (url \<Rightarrow> bytes) \<Rightarrow> bytes \<Rightarrow> bytes" where
  "SafeURL parse print raw =
     (case parse raw of
        None \<Rightarrow> str ''<unparseable url>''
      | Some u \<Rightarrow> print (u\<lparr>u_user := None, u_query := [], u_fragment := []\<rparr>))"

text \<open>What a source is opened as: a host directory, a tree unpacked from an archive, one image of a
  compressed file, an image on disk, an image read over the network.\<close>

datatype opened_as = Directory bytes | UnpackedTree bytes | UnpackedImage bytes bytes | LocalImage bytes | RemoteImage bytes

datatype source_err = StatFailed bytes | BadURL bytes

definition resolveExtractedArchive :: "bytes \<Rightarrow> bytes \<Rightarrow> opened_as" where
  "resolveExtractedArchive archive nm =
     (if isTreePath nm then UnpackedTree archive else UnpackedImage archive (take (length nm - 3) nm))"

definition resolveLocal :: "(bytes \<Rightarrow> bool option) \<Rightarrow> bytes \<Rightarrow> source_err + opened_as" where
  "resolveLocal stat_dir ref =
     (case stat_dir ref of
        None \<Rightarrow> Inl (StatFailed ref)
      | Some True \<Rightarrow> Inr (Directory ref)
      | Some False \<Rightarrow>
          if isArchivePath ref then Inr (resolveExtractedArchive ref (path_Base ref)) else Inr (LocalImage ref))"

definition cacheDest :: "(bytes \<Rightarrow> bytes) \<Rightarrow> bytes \<Rightarrow> bytes \<Rightarrow> bytes \<Rightarrow> bytes" where
  "cacheDest sha256hex cacheDir rawURL nm = path_Join [cacheDir, take 16 (sha256hex rawURL), nm]"

definition source_Resolve :: "(bytes \<Rightarrow> bytes) \<Rightarrow> (bytes \<Rightarrow> url option) \<Rightarrow> (bytes \<Rightarrow> bool option) \<Rightarrow> bytes \<Rightarrow> bytes \<Rightarrow> source_err + opened_as" where
  "source_Resolve sha256hex parse stat_dir cacheDir ref =
     (if \<not> isURL ref then resolveLocal stat_dir ref
      else case parse ref of
             None \<Rightarrow> Inl (BadURL ref)
           | Some u \<Rightarrow>
               if isArchivePath (u_path u)
               then Inr (resolveExtractedArchive (cacheDest sha256hex cacheDir ref (path_Base (u_path u))) (path_Base (u_path u)))
               else Inr (RemoteImage ref))"

section \<open>Model: credentials and redirects\<close>

record credential =
  cr_host :: bytes
  cr_username :: bytes
  cr_password :: bytes

record request =
  q_url :: url
  q_auth :: "(bytes \<times> bytes) option"

definition https :: bytes where "https = str ''https''"

text \<open>\<open>url.Hostname\<close>: the host without its port, and without the brackets of an IPv6 address.\<close>

definition Hostname :: "bytes \<Rightarrow> bytes" where
  "Hostname h =
     (if 0x3a \<notin> set h then h
      else if 0x5d \<in> set h then trim_prefix 0x5b (takeWhile (\<lambda>b. b \<noteq> 0x5d) h)
      else takeWhile (\<lambda>b. b \<noteq> 0x3a) h)"

definition creds_apply :: "credential list \<Rightarrow> request \<Rightarrow> request" where
  "creds_apply cs q =
     (if u_scheme (q_url q) \<noteq> https then q
      else case find (\<lambda>c. ToLower (cr_host c) = ToLower (Hostname (u_host (q_url q)))) cs of
             None \<Rightarrow> q
           | Some c \<Rightarrow> q\<lparr>q_auth := Some (cr_username c, cr_password c)\<rparr>)"

definition stripAuthOnCrossHostRedirect :: "request \<Rightarrow> request list \<Rightarrow> request \<times> bool" where
  "stripAuthOnCrossHostRedirect req via =
     (if via = [] then (req, True)
      else
        let orig = q_url (hd via);
            downgraded = (u_scheme orig = https \<and> u_scheme (q_url req) \<noteq> https);
            req' = (if u_host (q_url req) \<noteq> u_host orig \<or> downgraded then req\<lparr>q_auth := None\<rparr> else req)
        in (req', length via < 10))"

text \<open>
  net/http follows redirects: the request of the next hop goes to the new URL with the
  headers of the first request, or without Authorization where the client drops it itself
  (\<open>keeps\<close>), and is sent when CheckRedirect allows it.
\<close>

fun follow :: "request list \<Rightarrow> (url \<times> bool) list \<Rightarrow> request list" where
  "follow via [] = via"
| "follow via ((u, keeps) # hops) =
     (let req = \<lparr>q_url = u, q_auth = (if keeps then q_auth (hd via) else None)\<rparr>
      in case stripAuthOnCrossHostRedirect req via of
           (req', True) \<Rightarrow> follow (via @ [req']) hops
         | (req', False) \<Rightarrow> via)"

definition sent_requests :: "credential list \<Rightarrow> url \<Rightarrow> (url \<times> bool) list \<Rightarrow> request list" where
  "sent_requests cs u hops = follow [creds_apply cs \<lparr>q_url = u, q_auth = None\<rparr>] hops"

section \<open>Model: probing\<close>

datatype probe_err = ProbeDo nat | ProbeStatus int | ProbeEmpty

definition responseSize :: "response \<Rightarrow> int" where
  "responseSize resp =
     (if rs_status resp = 206 then
        (if 0x2f \<in> set (rs_crange resp) then
           (case ParseInt (rev (takeWhile (\<lambda>b. b \<noteq> 0x2f) (rev (rs_crange resp)))) of Some n \<Rightarrow> n | None \<Rightarrow> - 1)
         else - 1)
      else rs_length resp)"

text \<open>\<open>head\<close> and \<open>get\<close> are what the two requests meet.\<close>

definition Probe :: "nat + response \<Rightarrow> nat + response \<Rightarrow> probe_err + int" where
  "Probe head get =
     (case (case head of Inl e \<Rightarrow> Inl e | Inr resp \<Rightarrow> if rs_status resp \<noteq> 200 then get else Inr resp) of
        Inl e \<Rightarrow> Inl (ProbeDo e)
      | Inr resp \<Rightarrow>
          if rs_status resp \<noteq> 200 \<and> rs_status resp \<noteq> 206 then Inl (ProbeStatus (rs_status resp))
          else if responseSize resp = 0 then Inl ProbeEmpty
          else Inr (responseSize resp))"

section \<open>Opening a source\<close>

lemma HasSuffix_append: "HasSuffix s p \<longleftrightarrow> (\<exists>r. s = r @ p)"
proof
  assume "HasSuffix s p"
  then show "\<exists>r. s = r @ p" unfolding HasSuffix_def by (metis append_take_drop_id)
qed (auto simp: HasSuffix_def)

lemma ToLower_append: "ToLower (a @ b) = ToLower a @ ToLower b"
  by (simp add: ToLower_def)

text \<open>A compressed image keeps its name without the suffix, whatever its case: the slice is in range.\<close>

lemma unpacked_name:
  assumes "isArchivePath nm" and "\<not> isTreePath nm"
  shows "\<exists>name sfx. nm = name @ sfx \<and> ToLower sfx = str ''.gz'' \<and> resolveExtractedArchive archive nm = UnpackedImage archive name"
proof -
  obtain r where "ToLower nm = r @ str ''.gz''" using assms by (auto simp: isArchivePath_def HasSuffix_append)
  then have l: "length nm = length r + 3" and d: "drop (length r) (ToLower nm) = str ''.gz''"
    by (metis ToLower_def length_append length_map length_str list.size(3) length_Cons numeral_3_eq_3 One_nat_def Suc_eq_plus1, simp)
  have "nm = take (length r) nm @ drop (length r) nm" by simp
  moreover have "ToLower (drop (length r) nm) = str ''.gz''" using d by (simp add: ToLower_def drop_map)
  moreover have "resolveExtractedArchive archive nm = UnpackedImage archive (take (length r) nm)"
    using assms(2) l by (simp add: resolveExtractedArchive_def)
  ultimately show ?thesis by blast
qed

section \<open>Credentials stay where they belong\<close>

definition auth_ok :: "credential list \<Rightarrow> url \<Rightarrow> request \<Rightarrow> bool" where
  "auth_ok cs u q \<longleftrightarrow> (\<forall>user pw. q_auth q = Some (user, pw) \<longrightarrow>
     u_scheme (q_url q) = https \<and> u_host (q_url q) = u_host u \<and>
     (\<exists>c \<in> set cs. cr_username c = user \<and> cr_password c = pw \<and> ToLower (cr_host c) = ToLower (Hostname (u_host u))))"

lemma creds_apply_ok: "auth_ok cs u (creds_apply cs \<lparr>q_url = u, q_auth = None\<rparr>) \<and> q_url (creds_apply cs \<lparr>q_url = u, q_auth = None\<rparr>) = u"
  by (auto simp: creds_apply_def auth_ok_def find_Some_iff split: option.splits)

lemma strip_ok:
  assumes "via \<noteq> []" and "auth_ok cs u (hd via)" and "q_url (hd via) = u"
    and "stripAuthOnCrossHostRedirect \<lparr>q_url = v, q_auth = (if keeps then q_auth (hd via) else None)\<rparr> via = (req', ok)"
  shows "auth_ok cs u req'"
  using assms by (auto simp: stripAuthOnCrossHostRedirect_def auth_ok_def Let_def split: if_splits)

lemma follow_ok:
  assumes "via \<noteq> []" and "\<forall>q \<in> set via. auth_ok cs u q" and "q_url (hd via) = u" and "length via \<le> 10"
  shows "(\<forall>q \<in> set (follow via hops). auth_ok cs u q) \<and> length (follow via hops) \<le> 10"
  using assms
proof (induction hops arbitrary: via)
  case (Cons h hops)
  obtain v keeps where h: "h = (v, keeps)" by force
  obtain req' ok where s: "stripAuthOnCrossHostRedirect \<lparr>q_url = v, q_auth = (if keeps then q_auth (hd via) else None)\<rparr> via = (req', ok)" by force
  have a: "auth_ok cs u req'" by (rule strip_ok [OF Cons.prems(1) _ Cons.prems(3) s]) (use Cons.prems(1,2) in simp)
  have f: "follow via (h # hops) = (if ok then follow (via @ [req']) hops else via)" by (simp add: h s)
  show ?case
  proof (cases ok)
    case True
    then have "length via < 10" using s Cons.prems(1) by (auto simp: stripAuthOnCrossHostRedirect_def Let_def split: if_splits)
    then have "(\<forall>q \<in> set (follow (via @ [req']) hops). auth_ok cs u q) \<and> length (follow (via @ [req']) hops) \<le> 10"
      using Cons.prems a by (intro Cons.IH) auto
    then show ?thesis using True f by simp
  next
    case False
    then show ?thesis using Cons.prems f by simp
  qed
qed simp


definition try_url :: "string \<Rightarrow> url" where
  "try_url h = \<lparr>u_scheme = https, u_user = None, u_host = str h, u_path = str ''/d'', u_query = [], u_fragment = []\<rparr>"

definition try_creds :: "credential list" where
  "try_creds = [\<lparr>cr_host = str ''A.b'', cr_username = str ''u'', cr_password = str ''p''\<rparr>]"

lemma try_sent:
  "sent_requests try_creds (try_url ''a.b:8'') [(try_url ''a.b:8'', True), (try_url ''c.b'', True)] =
     [\<lparr>q_url = try_url ''a.b:8'', q_auth = Some (str ''u'', str ''p'')\<rparr>, \<lparr>q_url = try_url ''a.b:8'', q_auth = Some (str ''u'', str ''p'')\<rparr>,
      \<lparr>q_url = try_url ''c.b'', q_auth = None\<rparr>]"
  by (simp add: sent_requests_def creds_apply_def try_url_def try_creds_def stripAuthOnCrossHostRedirect_def Hostname_def ToLower_def
      lower_byte_def https_def Let_def)


end
