(* ===== verification/Inst_Idb.thy ===== *)
theory Inst_Idb
  imports Go_Strings
begin

text \<open>
  Product manifests (src/inst/idb.go): one line of a .idb file and the whole
  file. Text is bytes, and white space is that of ASCII. A line is parsed by the code on
  slices of one string; here the rest of the line is a list. The texts of the reasons a
  line is bad are constructors.
\<close>

section \<open>Model\<close>

record Entry =
  e_Type :: byte
  e_Mode :: u32
  e_Owner :: bytes
  e_Group :: bytes
  e_Path :: bytes
  e_Source :: bytes
  e_Subsystem :: bytes
  e_Offset :: int
  e_Size :: int
  e_CmpSize :: int
  e_Symlink :: bytes
  e_Mach :: bytes
  e_Attrs :: "bytes \<rightharpoonup> bytes"
  e_Flags :: "bytes list"

datatype bad_reason = FewFields nat | UnknownType bytes | BadMode bytes | Unterminated bytes | NotClosed bytes | NotDecimal bytes bytes

record BadLine =
  b_Line :: nat
  b_Text :: bytes
  b_Reason :: bad_reason

definition entry_Image :: "Entry \<Rightarrow> bytes" where
  "entry_Image e = (let parts = split_on dot (e_Subsystem e) in if length parts > 2 then parts ! 1 else str ''sw'')"

definition entry_Stored :: "Entry \<Rightarrow> int" where
  "entry_Stored e = (if e_CmpSize e \<noteq> 0 then e_CmpSize e else e_Size e)"

text \<open>strings.Fields, and strconv.ParseUint in base 8 with 32 bits.\<close>

function fields :: "bytes \<Rightarrow> bytes list" where
  "fields s =
     (let t = dropWhile is_space s
      in if t = [] then [] else takeWhile (\<lambda>b. \<not> is_space b) t # fields (dropWhile (\<lambda>b. \<not> is_space b) t))"
  by auto
termination
proof (relation "measure length")
  fix s t :: bytes
  assume t: "t = dropWhile is_space s" "t \<noteq> []"
  then have "\<not> is_space (hd t)" using hd_dropWhile by blast
  then have "length (dropWhile (\<lambda>b. \<not> is_space b) t) < length t" using t(2) length_dropWhile_le by (cases t) (auto intro: le_imp_less_Suc)
  also have "\<dots> \<le> length s" using t(1) length_dropWhile_le by blast
  finally show "(dropWhile (\<lambda>b. \<not> is_space b) t, s) \<in> measure length" by simp
qed simp

declare fields.simps [simp del]

definition octal_digit :: "byte \<Rightarrow> bool" where
  "octal_digit b \<longleftrightarrow> 0x30 \<le> b \<and> b \<le> 0x37"

definition octal_value :: "bytes \<Rightarrow> nat" where
  "octal_value s = foldl (\<lambda>n b. n * 8 + (unat b - 48)) 0 s"

definition parse_octal :: "bytes \<Rightarrow> u32 option" where
  "parse_octal s = (if s \<noteq> [] \<and> list_all octal_digit s \<and> octal_value s < 2 ^ 32 then Some (of_nat (octal_value s)) else None)"

definition blank :: "byte \<Rightarrow> bool" where
  "blank b \<longleftrightarrow> b = 0x20 \<or> b = 0x09"

fun skip_fields :: "nat \<Rightarrow> bytes \<Rightarrow> bytes" where
  "skip_fields 0 tail = tail"
| "skip_fields (Suc i) tail =
     (let t = dropWhile blank tail
      in if list_ex blank t then skip_fields i (dropWhile (\<lambda>b. \<not> blank b) t) else [])"

definition isWord :: "byte \<Rightarrow> bool" where
  "isWord c \<longleftrightarrow> c = 0x5f \<or> 0x30 \<le> c \<and> c \<le> 0x39 \<or> 0x61 \<le> c \<and> c \<le> 0x7a \<or> 0x41 \<le> c \<and> c \<le> 0x5a"

definition open_paren :: byte where "open_paren = 0x28"
definition close_paren :: byte where "close_paren = 0x29"
definition quote :: byte where "quote = 0x22"

function scanTail :: "bytes \<Rightarrow> (bytes \<rightharpoonup> bytes) \<Rightarrow> bytes list \<Rightarrow> bad_reason + (bytes \<rightharpoonup> bytes) \<times> bytes list" where
  "scanTail [] attrs words = Inr (attrs, words)"
| "scanTail (c # cs) attrs words =
     (let tail = c # cs; w = takeWhile isWord tail; r = dropWhile isWord tail
      in if blank c then scanTail cs attrs words
         else if w \<noteq> [] \<and> length r > 1 \<and> r ! 0 = open_paren \<and> r ! 1 = quote then
           (let body = drop 2 r; q = takeWhile (\<lambda>b. b \<noteq> quote) body; after = drop (length q + 1) body
            in if quote \<notin> set body then Inl (Unterminated w)
               else if after = [] \<or> hd after \<noteq> close_paren then Inl (NotClosed w)
               else scanTail (tl after) (attrs(w \<mapsto> quote # q @ [quote])) words)
         else if w \<noteq> [] \<and> r \<noteq> [] \<and> hd r = open_paren \<and> close_paren \<in> set r then
           (let v = takeWhile (\<lambda>b. b \<noteq> close_paren) (tl r)
            in scanTail (drop (length v + 2) r) (attrs(w \<mapsto> v)) words)
         else
           (let k = takeWhile (\<lambda>b. \<not> blank b) tail
            in scanTail (drop (length k) tail) attrs (words @ [k])))"
  by pat_completeness auto
termination
proof (relation "measure (\<lambda>(t, _). length t)", goal_cases)
  case (3 c cs attrs words tail w r body q after)
  have "length r \<le> length tail" using 3(3) length_dropWhile_le by blast
  then show ?case using 3 by simp
next
  case (4 c cs attrs words tail w r v)
  have "length r \<le> length tail" using 4(3) length_dropWhile_le by blast
  moreover have "0 < length r" using 4 by simp
  ultimately show ?case using 4 by (simp del: drop_append)
next
  case (5 c cs attrs words tail w r k)
  have "k \<noteq> []" using 5 by simp
  then show ?case using 5(1) by simp
qed auto

declare scanTail.simps(2) [simp del]

definition splitSubsystem :: "bytes list \<Rightarrow> bytes \<times> bytes list" where
  "splitSubsystem words =
     (let dotted = filter (\<lambda>i. dot \<in> set (words ! i)) [0..<length words]
      in if words = [] then ([], [])
         else let idx = (if dotted = [] then 0 else List.last dotted)
              in (words ! idx, take idx words @ drop (Suc idx) words))"

definition trim_digits :: "bytes \<Rightarrow> bytes" where
  "trim_digits s = rev (dropWhile is_digit (rev (dropWhile is_digit s)))"

text \<open>The number an attribute sets, or the value the field had.\<close>

definition decimal_attr :: "bytes \<Rightarrow> (bytes \<rightharpoonup> bytes) \<Rightarrow> int \<Rightarrow> bad_reason + int" where
  "decimal_attr key attrs old =
     (case attrs key of
        None \<Rightarrow> Inr old
      | Some v \<Rightarrow>
          (case ParseInt v of
             None \<Rightarrow> Inl (NotDecimal key v)
           | Some n \<Rightarrow> if trim_digits v \<noteq> [] then Inl (NotDecimal key v) else Inr n))"

definition attr :: "(bytes \<rightharpoonup> bytes) \<Rightarrow> bytes \<Rightarrow> bytes" where
  "attr attrs key = (case attrs key of None \<Rightarrow> [] | Some v \<Rightarrow> v)"

datatype parsed_line = Skip | Bad bad_reason | Parsed Entry

definition entry_types :: bytes where "entry_types = str ''fdlbcpsX''"

definition parseLine :: "bytes \<Rightarrow> parsed_line" where
  "parseLine text =
     (let trim = trim_space text; f = fields trim
      in if trim = [] \<or> trim ! 0 = 0x23 then Skip
         else if length f < 6 then Bad (FewFields (length f))
         else if length (f ! 0) \<noteq> 1 \<or> \<not> contains entry_types (f ! 0) then Bad (UnknownType (f ! 0))
         else case parse_octal (f ! 1) of
                None \<Rightarrow> Bad (BadMode (f ! 1))
              | Some mode \<Rightarrow>
                  (case scanTail (skip_fields 6 trim) Map.empty [] of
                     Inl reason \<Rightarrow> Bad reason
                   | Inr (attrs, words) \<Rightarrow>
                       (case decimal_attr (str ''off'') attrs (- 1) of
                          Inl reason \<Rightarrow> Bad reason
                        | Inr offset \<Rightarrow>
                            (case decimal_attr (str ''size'') attrs 0 of
                               Inl reason \<Rightarrow> Bad reason
                             | Inr sz \<Rightarrow>
                                 (case decimal_attr (str ''cmpsize'') attrs 0 of
                                    Inl reason \<Rightarrow> Bad reason
                                  | Inr cmp \<Rightarrow>
                                      let (sub, flags) = splitSubsystem words
                                      in Parsed \<lparr>e_Type = f ! 0 ! 0, e_Mode = mode, e_Owner = f ! 2, e_Group = f ! 3, e_Path = f ! 4,
                                           e_Source = f ! 5, e_Subsystem = sub, e_Offset = offset, e_Size = sz, e_CmpSize = cmp,
                                           e_Symlink = attr attrs (str ''symval''), e_Mach = attr attrs (str ''mach''),
                                           e_Attrs = attrs, e_Flags = flags\<rparr>)))))"

text \<open>The lines of a file, read with ReadString: each with its newline but the last, which may be empty; a
  read failure loses the line it happens in.\<close>

definition trim_right :: "bytes \<Rightarrow> bytes" where
  "trim_right s = rev (dropWhile (\<lambda>b. b = 0x0a \<or> b = 0x0d) (rev s))"

fun parse_lines :: "nat \<Rightarrow> bytes list \<Rightarrow> Entry list \<times> BadLine list" where
  "parse_lines n [] = ([], [])"
| "parse_lines n (line # ls) =
     (let text = trim_right line; (es, bs) = parse_lines (Suc n) ls
      in case parseLine text of
           Skip \<Rightarrow> (es, bs)
         | Bad reason \<Rightarrow> (es, \<lparr>b_Line = n, b_Text = text, b_Reason = reason\<rparr> # bs)
         | Parsed e \<Rightarrow> (e # es, bs))"

definition ParseIDB :: "bytes \<Rightarrow> nat option \<Rightarrow> (Entry list \<times> BadLine list) \<times> nat option" where
  "ParseIDB data fails =
     (let parts = split_on 0x0a data;
          ls = (if fails \<noteq> None \<or> List.last parts = [] then butlast parts else parts)
      in (parse_lines 1 ls, fails))"

section \<open>Writing a line\<close>

text \<open>A line as the build tools write it: six fields and a tail of attributes and words in any order.\<close>

datatype item = Attr bytes bytes | Quoted bytes bytes | Word bytes

fun show_item :: "item \<Rightarrow> bytes" where
  "show_item (Attr k v) = k @ [open_paren] @ v @ [close_paren]"
| "show_item (Quoted k v) = k @ [open_paren, quote] @ v @ [quote, close_paren]"
| "show_item (Word w) = w"

fun item_ok :: "item \<Rightarrow> bool" where
  "item_ok (Attr k v) \<longleftrightarrow> k \<noteq> [] \<and> list_all isWord k \<and> close_paren \<notin> set v \<and> (v = [] \<or> hd v \<noteq> quote)"
| "item_ok (Quoted k v) \<longleftrightarrow> k \<noteq> [] \<and> list_all isWord k \<and> quote \<notin> set v"
| "item_ok (Word w) \<longleftrightarrow> w \<noteq> [] \<and> list_all (\<lambda>b. \<not> is_space b) w \<and> open_paren \<notin> set w"

definition show_tail :: "item list \<Rightarrow> bytes" where
  "show_tail items = concat (map (\<lambda>i. 0x20 # show_item i) items)"

fun item_attr :: "item \<Rightarrow> (bytes \<rightharpoonup> bytes) \<Rightarrow> bytes \<rightharpoonup> bytes" where
  "item_attr (Attr k v) m = m(k \<mapsto> v)"
| "item_attr (Quoted k v) m = m(k \<mapsto> quote # v @ [quote])"
| "item_attr (Word w) m = m"

definition attrs_of :: "item list \<Rightarrow> bytes \<rightharpoonup> bytes" where
  "attrs_of items = fold item_attr items Map.empty"

fun item_word :: "item \<Rightarrow> bytes list" where
  "item_word (Word w) = [w]"
| "item_word _ = []"

definition words_of :: "item list \<Rightarrow> bytes list" where
  "words_of items = concat (map item_word items)"

fun show_octal :: "nat \<Rightarrow> bytes" where
  "show_octal n = (if n < 8 then [of_nat (48 + n)] else show_octal (n div 8) @ [of_nat (48 + n mod 8)])"

declare show_octal.simps [simp del]

definition plain_field :: "bytes \<Rightarrow> bool" where
  "plain_field w \<longleftrightarrow> w \<noteq> [] \<and> list_all (\<lambda>b. \<not> is_space b) w"

definition show_line :: "byte \<Rightarrow> u32 \<Rightarrow> bytes \<Rightarrow> bytes \<Rightarrow> bytes \<Rightarrow> bytes \<Rightarrow> item list \<Rightarrow> bytes" where
  "show_line ty mode owner grp dest source items =
     join_with [0x20] [[ty], show_octal (unat mode), owner, grp, dest, source] @ show_tail items"

section \<open>Reading it back\<close>

lemma octal_code: "n < 8 \<Longrightarrow> octal_digit (of_nat (48 + n)) \<and> unat (of_nat (48 + n) :: byte) = 48 + n"
  by (simp add: octal_digit_def word_le_nat_alt unat_of_nat take_bit_eq_mod del: of_nat_add)

lemma show_octal_value: "show_octal n \<noteq> [] \<and> list_all octal_digit (show_octal n) \<and> octal_value (show_octal n) = n"
proof (induction n rule: show_octal.induct)
  case (1 n)
  show ?case
  proof (cases "n < 8")
    case True
    then show ?thesis using octal_code [of n] by (subst (1 2 3) show_octal.simps) (simp add: octal_value_def del: of_nat_add)
  next
    case False
    then show ?thesis using 1 octal_code [of "n mod 8"]
      by (subst (1 2 3) show_octal.simps) (simp add: octal_value_def del: of_nat_add)
  qed
qed

lemma parse_octal_show: "parse_octal (show_octal (unat m)) = Some m"
proof -
  have "unat m < 2 ^ 32" using unsigned_less [of m] by simp
  then show ?thesis using show_octal_value [of "unat m"] by (simp add: parse_octal_def)
qed

lemma octal_plain: "plain_field (show_octal n)"
proof -
  have "\<not> is_space b" if "octal_digit b" for b using that by (auto simp: octal_digit_def is_space_def)
  then show ?thesis using show_octal_value [of n] by (auto simp: plain_field_def list_all_iff)
qed

lemma blank_space: "blank b \<Longrightarrow> is_space b"
  by (auto simp: blank_def is_space_def)

lemma word_not_blank: "isWord c \<Longrightarrow> \<not> blank c \<and> c \<noteq> open_paren"
  by (auto simp: isWord_def blank_def open_paren_def word_le_nat_alt)

lemma take_drop_while:
  assumes "list_all P w" and "rest = [] \<or> \<not> P (hd rest)"
  shows "takeWhile P (w @ rest) = w" and "dropWhile P (w @ rest) = rest"
  using assms by (induction w) (auto intro: takeWhile_eq_Nil_iff [THEN iffD2] dropWhile_eq_self_iff [THEN iffD2])

lemma scan_blank: "scanTail (0x20 # t) attrs words = scanTail t attrs words"
  by (simp add: scanTail.simps(2) blank_def Let_def)

text \<open>What a round of the scan does, by what the rest of the tail looks like.\<close>

lemma scan_value:
  assumes "tail \<noteq> []" and "\<not> blank (hd tail)" and "takeWhile isWord tail = k" and "dropWhile isWord tail = r" and "k \<noteq> []" and "r \<noteq> []"
    and "hd r = open_paren" and "\<not> (length r > 1 \<and> r ! 1 = quote)" and "close_paren \<in> set r"
    and "takeWhile (\<lambda>b. b \<noteq> close_paren) (tl r) = v"
  shows "scanTail tail attrs words = scanTail (drop (length v + 2) r) (attrs(k \<mapsto> v)) words"
  using assms by (cases tail) (auto simp: scanTail.simps(2) Let_def)

lemma scan_quoted:
  assumes "tail \<noteq> []" and "\<not> blank (hd tail)" and "takeWhile isWord tail = k" and "dropWhile isWord tail = r" and "k \<noteq> []"
    and "length r > 1" and "r ! 0 = open_paren" and "r ! 1 = quote" and "quote \<in> set (drop 2 r)"
    and "takeWhile (\<lambda>b. b \<noteq> quote) (drop 2 r) = v" and "drop (length v + 1) (drop 2 r) = close_paren # t"
  shows "scanTail tail attrs words = scanTail t (attrs(k \<mapsto> quote # v @ [quote])) words"
  using assms by (cases tail) (auto simp: scanTail.simps(2) Let_def)

lemma scan_bare:
  assumes "tail \<noteq> []" and "\<not> blank (hd tail)" and "dropWhile isWord tail = [] \<or> hd (dropWhile isWord tail) \<noteq> open_paren"
  shows "scanTail tail attrs words = scanTail (dropWhile (\<lambda>b. \<not> blank b) tail) attrs (words @ [takeWhile (\<lambda>b. \<not> blank b) tail])"
  using assms by (cases tail) (auto simp: scanTail.simps(2) Let_def hd_conv_nth dropWhile_eq_drop)

lemma key_first:
  assumes "k \<noteq> []" and "list_all isWord k"
  shows "k @ open_paren # t \<noteq> []" and "\<not> blank (hd (k @ open_paren # t))"
    and "takeWhile isWord (k @ open_paren # t) = k" and "dropWhile isWord (k @ open_paren # t) = open_paren # t"
proof -
  have p: "\<not> isWord open_paren" using word_not_blank by blast
  then show "takeWhile isWord (k @ open_paren # t) = k" "dropWhile isWord (k @ open_paren # t) = open_paren # t"
    using take_drop_while [OF assms(2), of "open_paren # t"] by simp_all
  show "\<not> blank (hd (k @ open_paren # t))" using assms word_not_blank by (cases k) auto
qed simp

lemma scan_attr:
  assumes "item_ok (Attr k v)"
  shows "scanTail (k @ open_paren # v @ close_paren # t) attrs words = scanTail t (attrs(k \<mapsto> v)) words"
proof -
  have k: "k \<noteq> []" "list_all isWord k" using assms by simp_all
  have "takeWhile (\<lambda>b. b \<noteq> close_paren) (v @ close_paren # t) = v"
    using assms by (auto intro!: take_drop_while simp: list_all_iff)
  moreover have "(v @ close_paren # t) ! 0 \<noteq> quote" using assms by (cases v) (auto simp: close_paren_def quote_def)
  ultimately show ?thesis by (subst scan_value [OF key_first [OF k] k(1)]) auto
qed

lemma scan_quote:
  assumes "item_ok (Quoted k v)"
  shows "scanTail (k @ open_paren # quote # v @ quote # close_paren # t) attrs words = scanTail t (attrs(k \<mapsto> quote # v @ [quote])) words"
proof -
  have k: "k \<noteq> []" "list_all isWord k" using assms by simp_all
  have "takeWhile (\<lambda>b. b \<noteq> quote) (v @ quote # close_paren # t) = v"
    using assms by (auto intro!: take_drop_while simp: list_all_iff)
  then show ?thesis by (intro scan_quoted [OF key_first [OF k] k(1)]) simp_all
qed

lemma scan_word:
  assumes "item_ok (Word w)" and "t = [] \<or> hd t = 0x20"
  shows "scanTail (w @ t) attrs words = scanTail t attrs (words @ [w])"
proof -
  have w: "w \<noteq> []" "list_all (\<lambda>b. \<not> blank b) w" "open_paren \<notin> set w" using assms(1) blank_space by (auto simp: list_all_iff)
  have t: "t = [] \<or> \<not> \<not> blank (hd t)" using assms(2) by (auto simp: blank_def)
  have "hd (dropWhile isWord (w @ t)) \<in> insert 0x20 (set w)" if "dropWhile isWord (w @ t) \<noteq> []"
  proof (cases "list_all isWord w")
    case True
    then show ?thesis using that assms(2) by (cases t) (auto simp: dropWhile_append2 list_all_iff isWord_def dropWhile_append split: if_splits)
  next
    case False
    then have "dropWhile isWord (w @ t) = dropWhile isWord w @ t" "dropWhile isWord w \<noteq> []"
      by (auto simp: dropWhile_append list_all_iff dropWhile_eq_Nil_conv)
    then show ?thesis by (metis hd_append2 insertCI list.set_sel(1) set_dropWhileD)
  qed
  moreover have "open_paren \<notin> insert 0x20 (set w)" using w(3) by (simp add: open_paren_def)
  ultimately have "dropWhile isWord (w @ t) = [] \<or> hd (dropWhile isWord (w @ t)) \<noteq> open_paren" by metis
  moreover have "w @ t \<noteq> []" "\<not> blank (hd (w @ t))" using w by (cases w; simp)+
  ultimately have "scanTail (w @ t) attrs words = scanTail (dropWhile (\<lambda>b. \<not> blank b) (w @ t)) attrs (words @ [takeWhile (\<lambda>b. \<not> blank b) (w @ t)])"
    by (intro scan_bare)
  then show ?thesis using take_drop_while [OF w(2) t] by simp
qed

lemma show_tail_simps [simp]: "show_tail [] = []" "show_tail (i # its) = 0x20 # show_item i @ show_tail its"
  by (simp_all add: show_tail_def)

lemma show_tail_head: "show_tail its = [] \<or> hd (show_tail its) = 0x20"
  by (cases its) auto

lemma scan_items:
  "list_all item_ok items \<Longrightarrow> scanTail (show_tail items) attrs words = Inr (fold item_attr items attrs, words @ words_of items)"
proof (induction items arbitrary: attrs words)
  case (Cons i items)
  then show ?case using scan_attr [of _ _ "show_tail items"] scan_quote [of _ _ "show_tail items"] scan_word [OF _ show_tail_head]
    by (cases i) (simp_all add: scan_blank words_of_def fun_upd_def)
qed (simp add: words_of_def)

lemma fields_first: "plain_field w \<Longrightarrow> s = [] \<or> is_space (hd s) \<Longrightarrow> fields (w @ s) = w # fields s"
proof -
  assume w: "plain_field w" and s: "s = [] \<or> is_space (hd s)"
  have "dropWhile is_space (w @ s) = w @ s" using w by (cases w) (auto simp: plain_field_def)
  moreover have "takeWhile (\<lambda>b. \<not> is_space b) (w @ s) = w" "dropWhile (\<lambda>b. \<not> is_space b) (w @ s) = s"
    using w s by (auto intro!: take_drop_while simp: plain_field_def)
  moreover have "w @ s \<noteq> []" using w by (simp add: plain_field_def)
  ultimately show ?thesis by (subst fields.simps) (simp add: Let_def)
qed

lemma fields_blank: "fields (0x20 # s) = fields s"
  by (subst (1 2) fields.simps) (simp add: is_space_def)

lemma skip_first: "plain_field w \<Longrightarrow> skip_fields (Suc i) (w @ 0x20 # s) = skip_fields i (0x20 # s)"
proof -
  assume w: "plain_field w"
  then have "dropWhile blank (w @ 0x20 # s) = w @ 0x20 # s" using blank_space by (cases w) (auto simp: plain_field_def)
  moreover have "dropWhile (\<lambda>b. \<not> blank b) (w @ 0x20 # s) = 0x20 # s"
    using w blank_space by (intro take_drop_while) (auto simp: plain_field_def list_all_iff blank_def)
  ultimately show ?thesis by (simp add: blank_def list_ex_iff)
qed

lemma skip_last: "plain_field w \<Longrightarrow> skip_fields (Suc 0) (w @ show_tail items) = show_tail items"
proof (cases items)
  case Nil
  assume "plain_field w"
  then show ?thesis using blank_space Nil by (cases w) (auto simp: plain_field_def list_ex_iff list_all_iff)
next
  case (Cons i its)
  assume "plain_field w"
  then show ?thesis using skip_first [of w 0 "show_item i @ show_tail its"] Cons by simp
qed

lemma skip_blank: "skip_fields (Suc i) (0x20 # s) = skip_fields (Suc i) s"
  by (simp add: blank_def)

lemma last_item: "item_ok i \<Longrightarrow> show_item i \<noteq> [] \<and> \<not> is_space (List.last (show_item i))"
  by (cases i) (auto simp: list_all_iff close_paren_def is_space_def)

lemma last_tail: "list_all item_ok items \<Longrightarrow> plain_field w \<Longrightarrow> \<not> is_space (List.last (w @ show_tail items))"
  using last_item by (induction items rule: rev_induct) (auto simp: plain_field_def list_all_iff show_tail_def)

lemma trim_space_id: "s \<noteq> [] \<Longrightarrow> \<not> is_space (hd s) \<Longrightarrow> \<not> is_space (List.last s) \<Longrightarrow> trim_space s = s"
proof -
  assume s: "s \<noteq> []" "\<not> is_space (hd s)" "\<not> is_space (List.last s)"
  have "dropWhile is_space s = s" "dropWhile is_space (rev s) = rev s"
    using s by (auto simp: dropWhile_eq_self_iff hd_rev)
  then show ?thesis by (simp add: trim_space_def)
qed

text \<open>The entry a line stands for.\<close>

definition attr_number :: "(bytes \<rightharpoonup> bytes) \<Rightarrow> bytes \<Rightarrow> int \<Rightarrow> int" where
  "attr_number attrs key old = (case attrs key of None \<Rightarrow> old | Some v \<Rightarrow> int (digits_value v))"

definition numbers_ok :: "item list \<Rightarrow> bool" where
  "numbers_ok items \<longleftrightarrow> (\<forall>key \<in> {str ''off'', str ''size'', str ''cmpsize''}. \<forall>v. attrs_of items key = Some v \<longrightarrow>
     (\<exists>n < 2 ^ 63. v = dec n))"

definition line_entry :: "byte \<Rightarrow> u32 \<Rightarrow> bytes \<Rightarrow> bytes \<Rightarrow> bytes \<Rightarrow> bytes \<Rightarrow> item list \<Rightarrow> Entry" where
  "line_entry ty mode owner grp dest source items =
     (let attrs = attrs_of items; (sub, flags) = splitSubsystem (words_of items)
      in \<lparr>e_Type = ty, e_Mode = mode, e_Owner = owner, e_Group = grp, e_Path = dest, e_Source = source, e_Subsystem = sub,
          e_Offset = attr_number attrs (str ''off'') (- 1), e_Size = attr_number attrs (str ''size'') 0,
          e_CmpSize = attr_number attrs (str ''cmpsize'') 0, e_Symlink = attr attrs (str ''symval''), e_Mach = attr attrs (str ''mach''),
          e_Attrs = attrs, e_Flags = flags\<rparr>)"

lemma decimal_attr_dec:
  assumes "attrs key = None \<or> (\<exists>n < 2 ^ 63. attrs key = Some (dec n))"
  shows "decimal_attr key attrs old = Inr (attr_number attrs key old)"
proof (cases "attrs key")
  case (Some v)
  then obtain n where n: "n < 2 ^ 63" "v = dec n" using assms by auto
  have d: "dropWhile is_digit (dec n) = []" using dec_digits [of n] by (simp add: list_all_iff)
  have "ParseInt (dec n) = Some (int n)" using ParseInt_itoa [of "int n"] n(1) by (simp add: itoa_def)
  then show ?thesis using Some n(2) by (simp add: decimal_attr_def attr_number_def trim_digits_def d)
qed (simp add: decimal_attr_def attr_number_def)

lemma six_fields:
  assumes "plain_field a" "plain_field b" "plain_field c" "plain_field d" "plain_field e" "plain_field f"
    and line_def: "line = join_with [0x20] [a, b, c, d, e, f] @ show_tail items"
  shows "\<exists>rest. fields line = a # b # c # d # e # f # rest" and "skip_fields 6 line = show_tail items"
proof -
  have line: "line = a @ 0x20 # b @ 0x20 # c @ 0x20 # d @ 0x20 # e @ 0x20 # f @ show_tail items" by (simp add: line_def)
  have "show_tail items = [] \<or> is_space (hd (show_tail items))" using show_tail_head [of items] by (auto simp: is_space_def)
  then have "fields (f @ show_tail items) = f # fields (show_tail items)" using assms(6) by (rule fields_first [rotated])
  moreover have "fields (w @ 0x20 # s) = w # fields s" if "plain_field w" for w s
    using fields_first [OF that, of "0x20 # s"] by (simp add: is_space_def fields_blank)
  ultimately show "\<exists>rest. fields line = a # b # c # d # e # f # rest" using assms by (simp add: line)
  have "skip_fields (Suc (Suc (Suc (Suc (Suc (Suc 0)))))) line = show_tail items"
    unfolding line using assms(1-5) skip_last [OF assms(6), of items] by (simp only: skip_first skip_blank)
  then show "skip_fields 6 line = show_tail items" by (simp add: eval_nat_numeral del: skip_fields.simps)
qed

text \<open>C44: Reading a manifest line gives back the entry it was written for. Whatever the fields, and in whatever order attributes,
  quoted attributes, flags and the subsystem follow, the line parses to exactly that entry: attribute values may hold
  spaces, quoted ones closing brackets, and the last value of a repeated attribute wins.\<close>

theorem idb_line_roundtrip:
  assumes "ty \<in> set entry_types" and "plain_field owner" and "plain_field grp" and "plain_field dest" and "plain_field source"
    and "list_all item_ok items" and "numbers_ok items"
  shows "parseLine (show_line ty mode owner grp dest source items) = Parsed (line_entry ty mode owner grp dest source items)"
proof -
  let ?line = "show_line ty mode owner grp dest source items"
  have ty: "plain_field [ty]" "ty \<noteq> 0x23" "contains entry_types [ty]"
    using assms(1) by (auto simp: plain_field_def is_space_def entry_types_def)
  note six = six_fields [OF ty(1) octal_plain [of "unat mode"] assms(2-5) show_line_def]
  obtain rest where f: "fields ?line = [ty] # show_octal (unat mode) # owner # grp # dest # source # rest" using six(1) by blast
  obtain l where cons: "?line = ty # l" by (simp add: show_line_def)
  have "?line = ([ty] @ 0x20 # show_octal (unat mode) @ 0x20 # owner @ 0x20 # grp @ 0x20 # dest @ [0x20]) @ (source @ show_tail items)"
    by (simp add: show_line_def)
  moreover have "source @ show_tail items \<noteq> []" using assms(5) by (simp add: plain_field_def)
  ultimately have "List.last ?line = List.last (source @ show_tail items)" by (metis last_append)
  then have last: "\<not> is_space (List.last ?line)" using last_tail [OF assms(6,5)] by simp
  have trim: "trim_space ?line = ?line"
    using ty(1) last by (intro trim_space_id) (simp_all add: cons plain_field_def)
  have number: "decimal_attr key (attrs_of items) old = Inr (attr_number (attrs_of items) key old)"
    if "key \<in> {str ''off'', str ''size'', str ''cmpsize''}" for key old
    using assms(7) that by (intro decimal_attr_dec) (cases "attrs_of items key", auto simp: numbers_ok_def)
  have scan: "scanTail (skip_fields 6 ?line) Map.empty [] = Inr (attrs_of items, words_of items)"
    using scan_items [OF assms(6), of Map.empty "[]"] by (simp add: six(2) attrs_of_def)
  have head: "?line \<noteq> []" "?line ! 0 = ty" by (simp_all add: cons)
  show ?thesis unfolding parseLine_def Let_def trim f scan line_entry_def
    using head ty number by (simp add: parse_octal_show Let_def split: prod.split)
qed

definition try_items :: "item list" where
  "try_items = [Attr (str ''size'') (dec 12), Word (str ''needrqs''), Quoted (str ''exitop'') (str ''(a) b''), Word (str ''eoe.sw.base'')]"

theorem idb_line_roundtrip_witness:
  "parseLine (show_line 0x66 420 (str ''root'') (str ''sys'') (str ''etc/x'') (str ''x'') try_items) =
     Parsed (line_entry 0x66 420 (str ''root'') (str ''sys'') (str ''etc/x'') (str ''x'') try_items)"
proof (rule idb_line_roundtrip)
  have "attrs_of try_items = [str ''size'' \<mapsto> dec 12, str ''exitop'' \<mapsto> quote # str ''(a) b'' @ [quote]]" by (simp add: attrs_of_def try_items_def)
  then show "numbers_ok try_items" by (auto simp: numbers_ok_def intro!: exI [of _ 12])
  show "list_all item_ok try_items"
    by (simp add: try_items_def isWord_def is_space_def quote_def open_paren_def close_paren_def dec.simps)
qed (simp_all add: entry_types_def plain_field_def is_space_def)

end
