(* ===== verification/Inst_Dist.thy ===== *)
theory Inst_Dist
  imports Inst_Idb Efs Unixcompress Unixpack "HOL-Library.List_Lexorder"
begin

text \<open>
  Distributions (src/inst/dist.go, src/inst/unwrap.go): finding the products of a
  directory, the offsets of records that a manifest leaves out, archive images and
  the bytes of an entry. The directory is a parameter: its listing, what reading a
  manifest gives, and for an archive its size and how it is read. A section of an
  archive is its start and length. The reader that decompresses an entry is the one
  of Unixcompress over the bytes of the section.
\<close>

section \<open>Model: archives\<close>

definition sigLen :: nat where "sigLen = 13"
definition sigPrefix :: bytes where "sigPrefix = str ''im001''"

record archive =
  a_r :: reader_at
  a_size :: int

text \<open>A file as fs.FS opens it: what Stat says of its size, and how it is read at an offset if it can be.\<close>

record dist_file =
  df_size :: "nat + int"
  df_ReadAt :: "reader_at option"

datatype archive_err = ArchiveOpen nat | ArchiveStat nat | NoReaderAt | ShortArchive int | SigRead io_error | BadSignature bytes

definition open_archive :: "(bytes \<Rightarrow> nat + dist_file) \<Rightarrow> bytes \<Rightarrow> archive_err + archive" where
  "open_archive fsys name =
     (case fsys name of
        Inl e \<Rightarrow> Inl (ArchiveOpen e)
      | Inr f \<Rightarrow>
          (case df_size f of
             Inl e \<Rightarrow> Inl (ArchiveStat e)
           | Inr sz \<Rightarrow>
               (case df_ReadAt f of
                  None \<Rightarrow> Inl NoReaderAt
                | Some ra \<Rightarrow>
                    if sz < int sigLen then Inl (ShortArchive sz)
                    else
                      let (got, err) = ra 0 sigLen; sig = got @ replicate (sigLen - length got) 0
                      in case err of
                           Some e \<Rightarrow> Inl (SigRead e)
                         | None \<Rightarrow>
                             if take (length sigPrefix) sig \<noteq> sigPrefix \<or> sig ! (sigLen - 1) \<noteq> 0 then Inl (BadSignature sig)
                             else Inr \<lparr>a_r = ra, a_size = sz\<rparr>)))"

text \<open>The archives opened so far, failures included.\<close>

record Dist =
  d_fsys :: "bytes \<Rightarrow> nat + dist_file"
  d_archives :: "bytes \<rightharpoonup> archive_err + archive"

definition dist_archive :: "bytes \<Rightarrow> Dist \<Rightarrow> (archive_err + archive) \<times> Dist" where
  "dist_archive name d =
     (case d_archives d name of
        Some a \<Rightarrow> (a, d)
      | None \<Rightarrow> let a = open_archive (d_fsys d) name in (a, d\<lparr>d_archives := (d_archives d)(name \<mapsto> a)\<rparr>))"

text \<open>Closing forgets every archive, so that a failure is tried again; the results of closing the files are left out.\<close>

definition dist_Close :: "Dist \<Rightarrow> Dist" where "dist_Close d = d\<lparr>d_archives := Map.empty\<rparr>"

datatype record_err = NoOffset int | PastEnd int | HeaderRead io_error | NamePastEnd int | NameRead io_error
  | WrongName bytes bytes | DataPastEnd int int

definition archive_record :: "archive \<Rightarrow> Entry \<Rightarrow> record_err + int \<times> int" where
  "archive_record a e =
     (let off = e_Offset e
      in if off < int sigLen then Inl (NoOffset off)
         else if off > a_size a - 2 then Inl (PastEnd off)
         else case a_r a off 2 of
                (_, Some err) \<Rightarrow> Inl (HeaderRead err)
              | (got, None) \<Rightarrow>
                  let hdr = got @ replicate (2 - length got) 0; nlen = int (unat (be16 (hdr ! 0) (hdr ! 1)))
                  in if nlen > a_size a - off - 2 then Inl (NamePastEnd off)
                     else
                       let (got, err) = a_r a (off + 2) (nat nlen); name = got @ replicate (nat nlen - length got) 0
                       in if err \<noteq> None \<and> err \<noteq> Some EOF then Inl (NameRead (the err))
                          else if name \<noteq> e_Path e then Inl (WrongName name (e_Path e))
                          else
                            let start = off + 2 + nlen; n = entry_Stored e
                            in if n < 0 \<or> n > a_size a - start then Inl (DataPastEnd n start) else Inr (start, n))"

datatype dist_err = InArchive archive_err | InRecord record_err | InData lzw_error | DecoderStuck

datatype entry_reader = Plain int int | Decompressed lzw_reader

text \<open>The bytes a section yields to a reader that takes it from the front.\<close>

definition section_src :: "reader_at \<Rightarrow> int \<Rightarrow> int \<Rightarrow> src" where
  "section_src r start n =
     (let (got, err) = r start (nat n)
      in \<lparr>pending = got, failure = (case err of Some (ReadError e) \<Rightarrow> Some e | _ \<Rightarrow> None)\<rparr>)"

definition dist_Open :: "bytes \<Rightarrow> Entry \<Rightarrow> Dist \<Rightarrow> (dist_err + entry_reader) \<times> Dist" where
  "dist_Open product e d =
     (case dist_archive (product @ [dot] @ entry_Image e) d of
        (Inl err, d') \<Rightarrow> (Inl (InArchive err), d')
      | (Inr a, d') \<Rightarrow>
          (case archive_record a e of
             Inl err \<Rightarrow> (Inl (InRecord err), d')
           | Inr (start, n) \<Rightarrow>
               if e_CmpSize e = 0 then (Inr (Plain start n), d')
               else (case lzw_NewReader (section_src (a_r a) start n) of
                       Ok z \<Rightarrow> (Inr (Decompressed z), d')
                     | Err err \<Rightarrow> (Inl (InData err), d')
                     | _ \<Rightarrow> (Inl DecoderStuck, d'))))"

section \<open>Model: products\<close>

text \<open>\<open>next\<close> of the code: where the next record of each image starts, -1 when that is not known.\<close>

definition walk_entry :: "(bytes \<rightharpoonup> int) \<Rightarrow> Entry \<Rightarrow> Entry \<times> int" where
  "walk_entry nxt e =
     (let at = (case nxt (entry_Image e) of Some at \<Rightarrow> at | None \<Rightarrow> int sigLen);
          e' = (if e_Offset e < 0 then e\<lparr>e_Offset := at\<rparr> else e);
          n = 2 + int (length (e_Path e))
      in (e', if e_Offset e' \<ge> 0 \<and> entry_Stored e \<le> 2 ^ 63 - 1 - e_Offset e' - n then e_Offset e' + n + entry_Stored e else - 1))"

fun walk_offsets :: "(bytes \<rightharpoonup> int) \<Rightarrow> Entry list \<Rightarrow> Entry list" where
  "walk_offsets nxt [] = []"
| "walk_offsets nxt (e # es) =
     (if e_Type e \<noteq> 0x66 then e # walk_offsets nxt es
      else case walk_entry nxt e of (e', nx) \<Rightarrow> e' # walk_offsets (nxt(entry_Image e \<mapsto> nx)) es)"

definition walkOffsets :: "Entry list \<Rightarrow> Entry list" where
  "walkOffsets es = walk_offsets Map.empty es"

record Product =
  pr_Name :: bytes
  pr_Entries :: "Entry list"
  pr_Bad :: "BadLine list"

text \<open>The part of a name before its last dot, and the part after it.\<close>

definition last_dot :: "bytes \<Rightarrow> (bytes \<times> bytes) option" where
  "last_dot name =
     (if dot \<in> set name
      then let sfx = rev (takeWhile (\<lambda>b. b \<noteq> dot) (rev name)) in Some (take (length name - length sfx - 1) name, sfx)
      else None)"

definition has_image :: "(bytes \<times> bool) list \<Rightarrow> bytes \<Rightarrow> bool" where
  "has_image names product \<longleftrightarrow> list_ex (\<lambda>(name, is_dir). \<not> is_dir \<and>
     (case last_dot name of
        None \<Rightarrow> False
      | Some (pre, img) \<Rightarrow> pre \<noteq> [] \<and> img \<noteq> [] \<and> img \<noteq> str ''idb'' \<and> pre = product)) names"

definition cut_idb :: "bytes \<Rightarrow> bytes option" where
  "cut_idb name = (if HasSuffix name (str ''.idb'') then Some (take (length name - 4) name) else None)"

datatype open_dist_err = DistList nat | DistOpen nat bytes | DistRead nat bytes

fun read_products :: "(bytes \<Rightarrow> nat + bytes \<times> nat option) \<Rightarrow> (bytes \<times> bool) list \<Rightarrow> (bytes \<times> bool) list \<Rightarrow> open_dist_err + Product list" where
  "read_products manifest names [] = Inr []"
| "read_products manifest names ((name, is_dir) # rest) =
     (case cut_idb name of
        Some product \<Rightarrow>
          if is_dir \<or> \<not> has_image names product then read_products manifest names rest
          else
            (case manifest name of
               Inl e \<Rightarrow> Inl (DistOpen e name)
             | Inr (data, fails) \<Rightarrow>
                 (case ParseIDB data fails of
                    (_, Some e) \<Rightarrow> Inl (DistRead e name)
                  | ((entries, bad), None) \<Rightarrow>
                      (case read_products manifest names rest of
                         Inl e \<Rightarrow> Inl e
                       | Inr ps \<Rightarrow> Inr (\<lparr>pr_Name = product, pr_Entries = walkOffsets entries, pr_Bad = bad\<rparr> # ps))))
      | None \<Rightarrow> read_products manifest names rest)"

definition OpenDist :: "nat + (bytes \<times> bool) list \<Rightarrow> (bytes \<Rightarrow> nat + bytes \<times> nat option) \<Rightarrow> (bytes \<Rightarrow> nat + dist_file) \<Rightarrow>
    open_dist_err + Product list \<times> Dist" where
  "OpenDist listing manifest fsys =
     (case listing of
        Inl e \<Rightarrow> Inl (DistList e)
      | Inr names \<Rightarrow>
          (case read_products manifest names names of
             Inl e \<Rightarrow> Inl e
           | Inr ps \<Rightarrow> Inr (sort_key pr_Name ps, \<lparr>d_fsys = fsys, d_archives = Map.empty\<rparr>)))"

section \<open>Model: installed compression\<close>

datatype unwrapped = AsIs src | Unpacked pack_reader | Uncompressed lzw_reader

datatype unwrap_err = UnwrapPack pack_error | UnwrapCompress lzw_error | UnwrapStuck

definition Unwrap :: "bytes \<Rightarrow> src \<Rightarrow> bytes \<times> (unwrap_err + unwrapped)" where
  "Unwrap name r =
     (let head = take 2 (pending r); short = take (length name - 2) name
      in if HasSuffix name (str ''.z'') \<and> IsPacked head then
           (case pack_NewReader r of
              Ok z \<Rightarrow> (short, Inr (Unpacked z)) | Err e \<Rightarrow> (name, Inl (UnwrapPack e)) | _ \<Rightarrow> (name, Inl UnwrapStuck))
         else if HasSuffix name (str ''.Z'') \<and> IsCompressed head then
           (case lzw_NewReader r of
              Ok z \<Rightarrow> (short, Inr (Uncompressed z)) | Err e \<Rightarrow> (name, Inl (UnwrapCompress e)) | _ \<Rightarrow> (name, Inl UnwrapStuck))
         else (name, Inr (AsIs r)))"

section \<open>Records are found and read back\<close>

text \<open>An image as the build tools write it: the signature, then the records back to back.\<close>

definition rec_bytes :: "bytes \<times> bytes \<Rightarrow> bytes" where
  "rec_bytes = (\<lambda>(p, b). put16 (of_nat (length p)) @ p @ b)"

definition image_bytes :: "bytes \<Rightarrow> (bytes \<times> bytes) list \<Rightarrow> bytes" where
  "image_bytes sig recs = sig @ concat (map rec_bytes recs)"

definition of_image :: "bytes \<Rightarrow> Entry \<Rightarrow> bool" where
  "of_image img e \<longleftrightarrow> e_Type e = 0x66 \<and> entry_Image e = img"

text \<open>The entries list the records in order, with the right offset or none.\<close>

fun listed :: "int \<Rightarrow> Entry list \<Rightarrow> (bytes \<times> bytes) list \<Rightarrow> bool" where
  "listed at [] [] \<longleftrightarrow> True"
| "listed at (e # es) (r # rs) \<longleftrightarrow> e_Path e = fst r \<and> entry_Stored e = int (length (snd r)) \<and> (e_Offset e < 0 \<or> e_Offset e = at) \<and>
     listed (at + int (length (rec_bytes r))) es rs"
| "listed at _ _ \<longleftrightarrow> False"

definition located :: "int \<Rightarrow> Entry list \<Rightarrow> (bytes \<times> bytes) list \<Rightarrow> bool" where
  "located at es rs \<longleftrightarrow> listed at es rs \<and> (\<forall>e \<in> set es. 0 \<le> e_Offset e)"

lemma length_rec_bytes: "length (rec_bytes r) = 2 + length (fst r) + length (snd r)"
  by (simp add: rec_bytes_def put16_def split: prod.split)

lemma walk_offsets_located:
  assumes "listed at (filter (of_image img) es) rs" and "nxt img = Some at \<or> nxt img = None \<and> at = int sigLen"
    and "0 \<le> at" and "at + int (length (concat (map rec_bytes rs))) < 2 ^ 63"
  shows "located at (filter (of_image img) (walk_offsets nxt es)) rs"
  using assms
proof (induction es arbitrary: at nxt rs)
  case (Cons e es)
  show ?case
  proof (cases "of_image img e")
    case False
    then have l: "listed at (filter (of_image img) es) rs" using Cons.prems(1) by simp
    have "\<exists>e' nxt'. walk_offsets nxt (e # es) = e' # walk_offsets nxt' es \<and> \<not> of_image img e' \<and> nxt' img = nxt img"
    proof (cases "e_Type e = 0x66")
      case True
      obtain e' nx where w: "walk_entry nxt e = (e', nx)" by force
      then have "\<not> of_image img e'" using False by (auto simp: walk_entry_def of_image_def entry_Image_def Let_def split: if_splits)
      moreover have "entry_Image e \<noteq> img" using False True by (simp add: of_image_def)
      ultimately show ?thesis using True w by auto
    qed (use False in auto)
    then obtain e' nxt' where w: "walk_offsets nxt (e # es) = e' # walk_offsets nxt' es" "\<not> of_image img e'" "nxt' img = nxt img" by blast
    show ?thesis using Cons.IH [OF l, of nxt'] Cons.prems(2-4) w by simp
  next
    case True
    then obtain r rs' where r: "rs = r # rs'" using Cons.prems(1) by (cases rs) auto
    let ?e = "if e_Offset e < 0 then e\<lparr>e_Offset := at\<rparr> else e"
    have e: "e_Path e = fst r" "entry_Stored e = int (length (snd r))" "e_Offset e < 0 \<or> e_Offset e = at"
      "listed (at + int (length (rec_bytes r))) (filter (of_image img) es) rs'" using Cons.prems(1) True r by auto
    have at: "e_Offset ?e = at" "of_image img ?e" using e(3) True by (auto simp: of_image_def entry_Image_def)
    define nx where "nx = at + int (length (rec_bytes r))"
    have "located nx (filter (of_image img) (walk_offsets (nxt(img \<mapsto> nx)) es)) rs'"
      using Cons.IH [OF e(4)] Cons.prems(3,4) by (simp add: nx_def r)
    moreover have "walk_entry nxt e = (?e, nx)"
      using True Cons.prems(2,3,4) e at(1) by (auto simp: of_image_def walk_entry_def Let_def nx_def r length_rec_bytes)
    then have "walk_offsets nxt (e # es) = ?e # walk_offsets (nxt(img \<mapsto> nx)) es" using True by (simp add: of_image_def)
    moreover have "e_Path ?e = fst r" "entry_Stored ?e = int (length (snd r))" using e(1,2) by (auto simp: entry_Stored_def)
    ultimately show ?thesis using at Cons.prems(3) by (simp add: located_def r nx_def del: walk_offsets.simps)
  qed
qed (simp add: located_def)

lemma archive_record_reads:
  assumes solid: "solid_image rd (pre @ rec_bytes (p, b) @ post)" and a: "a = \<lparr>a_r = rd, a_size = int (length (pre @ rec_bytes (p, b) @ post))\<rparr>"
    and e: "e_Path e = p" "entry_Stored e = int (length b)" "e_Offset e = int (length pre)"
    and p: "p \<noteq> []" "length p < 2 ^ 16" and pre: "sigLen \<le> length pre"
  shows "\<exists>start. archive_record a e = Inr (start, int (length b)) \<and> fst (rd start (length b)) = b \<and>
    (b \<noteq> [] \<longrightarrow> snd (rd start (length b)) = None)"
proof -
  let ?c = "pre @ rec_bytes (p, b) @ post" and ?n = "length pre"
  note inside = solid_image.rd_inside [OF solid]
  have len: "length ?c = ?n + 2 + length p + length b + length post" by (simp add: length_rec_bytes)
  have c: "?c = pre @ put16 (of_nat (length p)) @ p @ b @ post" by (simp add: rec_bytes_def)
  have l2: "length (put16 v) = 2" for v by (simp add: put16_def)
  have r1: "rd (int ?n) 2 = (put16 (of_nat (length p)), None)" using inside [of "int ?n" 2] len by (simp add: c l2)
  have n2: "nat (int ?n + 2) = ?n + 2" by simp
  have r2: "rd (int ?n + 2) (length p) = (p, None)" using inside [of "int ?n + 2" "length p"] p(1) len by (simp add: c l2 n2)
  have n3: "nat (int ?n + 2 + int (length p)) = ?n + 2 + length p" by simp
  have r3: "fst (rd (int ?n + 2 + int (length p)) (length b)) = b \<and> (b \<noteq> [] \<longrightarrow> snd (rd (int ?n + 2 + int (length p)) (length b)) = None)"
  proof (cases "b = []")
    case True
    then show ?thesis using image.rd_length [OF solid_image.axioms(1) [OF solid], of "int ?n + 2 + int (length p)" 0] by simp
  next
    case False
    then show ?thesis using inside [of "int ?n + 2 + int (length p)" "length b"] len by (simp add: c l2 n3)
  qed
  have u: "uint (of_nat (length p) :: u16) = int (length p)" using p(2) by (simp add: unsigned_of_nat take_bit_nat_eq_self)
  have "archive_record a e = Inr (int ?n + 2 + int (length p), int (length b))"
    using pre len e r1 r2 l2 by (simp add: archive_record_def a Let_def sigLen_def be16_put16 [unfolded One_nat_def] u)
  then show ?thesis using r3 by blast
qed

text \<open>What opening an entry gives when its record holds \<open>b\<close>.\<close>

definition opens_to :: "reader_at \<Rightarrow> bytes \<Rightarrow> Entry \<Rightarrow> Dist \<Rightarrow> bytes \<Rightarrow> bool" where
  "opens_to rd product e d b \<longleftrightarrow>
     (if e_CmpSize e = 0 then (\<exists>start n. fst (dist_Open product e d) = Inr (Plain start n) \<and> fst (rd start (nat n)) = b)
      else fst (dist_Open product e d) =
             (case lzw_NewReader \<lparr>pending = b, failure = None\<rparr> of Ok z \<Rightarrow> Inr (Decompressed z) | Err err \<Rightarrow> Inl (InData err) | _ \<Rightarrow> Inl DecoderStuck))"

lemma opens_record:
  assumes "d_archives d (product @ [dot] @ entry_Image e) = Some (Inr a) \<or>
      d_archives d (product @ [dot] @ entry_Image e) = None \<and> open_archive (d_fsys d) (product @ [dot] @ entry_Image e) = Inr a"
    and "archive_record a e = Inr (start, int (length b))" and "fst (a_r a start (length b)) = b"
    and "e_CmpSize e \<noteq> 0 \<Longrightarrow> snd (a_r a start (length b)) = None"
  shows "opens_to (a_r a) product e d b"
proof -
  obtain d' where d: "dist_archive (product @ [dot] @ entry_Image e) d = (Inr a, d')"
    using assms(1) by (auto simp: dist_archive_def Let_def)
  obtain got err where g: "a_r a start (length b) = (got, err)" by force
  show ?thesis
  proof (cases "e_CmpSize e = 0")
    case True
    then show ?thesis using d assms(2,3) by (simp add: opens_to_def dist_Open_def)
  next
    case False
    then have "section_src (a_r a) start (int (length b)) = \<lparr>pending = b, failure = None\<rparr>"
      using g assms(3,4) by (simp add: section_src_def)
    then show ?thesis using False d assms(2) by (auto simp: opens_to_def dist_Open_def split: outcome.split)
  qed
qed

definition holds :: "archive \<Rightarrow> Entry \<Rightarrow> bytes \<times> bytes \<Rightarrow> bool" where
  "holds a e r \<longleftrightarrow> entry_Stored e = int (length (snd r)) \<and> (\<exists>start. archive_record a e = Inr (start, int (length (snd r))) \<and>
     fst (a_r a start (length (snd r))) = snd r \<and> (snd r \<noteq> [] \<longrightarrow> snd (a_r a start (length (snd r))) = None))"

lemma located_records:
  assumes "located (int (length pre)) es rs" and "solid_image rd (pre @ concat (map rec_bytes rs) @ post)"
    and "a = \<lparr>a_r = rd, a_size = int (length (pre @ concat (map rec_bytes rs) @ post))\<rparr>" and "sigLen \<le> length pre"
    and "\<forall>r \<in> set rs. fst r \<noteq> [] \<and> length (fst r) < 2 ^ 16"
  shows "list_all2 (holds a) es rs"
  using assms
proof (induction rs arbitrary: es pre)
  case Nil
  then show ?case by (cases es) (auto simp: located_def)
next
  case (Cons r rs)
  then obtain e es' where es: "es = e # es'" by (cases es) (auto simp: located_def)
  obtain p b where r: "r = (p, b)" by force
  let ?at = "int (length pre) + int (length (rec_bytes r))"
  have e: "e_Path e = p" "entry_Stored e = int (length b)" "e_Offset e = int (length pre)" "located ?at es' rs"
    using Cons.prems(1) by (auto simp: located_def es r)
  have all: "pre @ concat (map rec_bytes (r # rs)) @ post = pre @ rec_bytes (p, b) @ concat (map rec_bytes rs) @ post" by (simp add: r)
  have "\<exists>start. archive_record a e = Inr (start, int (length b)) \<and> fst (rd start (length b)) = b \<and> (b \<noteq> [] \<longrightarrow> snd (rd start (length b)) = None)"
    using Cons.prems(2,3,4,5)
    by (intro archive_record_reads [where pre = pre and post = "concat (map rec_bytes rs) @ post", OF _ _ e(1-3)]) (simp_all add: all r)
  then have "holds a e r" using e(2) Cons.prems(3) by (simp add: holds_def r)
  moreover have "located (int (length (pre @ rec_bytes r))) es' rs" using e(4) by simp
  from Cons.IH [OF this] have "list_all2 (holds a) es' rs" using Cons.prems(2-5) by simp
  ultimately show ?case by (simp add: es)
qed

text \<open>C45: Every file of a distribution is found and read back. When an archive image was laid out from records in the order of the manifest, and the
  manifest gives each file its offset or none, then whatever else the manifest lists, opening each file's entry gives
  exactly the bytes of its record, or starts decompressing exactly these.\<close>

theorem dist_roundtrip:
  assumes "listed (int sigLen) (filter (of_image img) es) rs" and "int (length (image_bytes sig rs)) < 2 ^ 63"
    and "length sig = sigLen" and "take (length sigPrefix) sig = sigPrefix" and "sig ! (sigLen - 1) = 0"
    and "\<forall>r \<in> set rs. fst r \<noteq> [] \<and> length (fst r) < 2 ^ 16"
    and "solid_image rd (image_bytes sig rs)"
    and "d_fsys d (product @ [dot] @ img) = Inr \<lparr>df_size = Inr (int (length (image_bytes sig rs))), df_ReadAt = Some rd\<rparr>"
    and "d_archives d (product @ [dot] @ img) = None"
  shows "list_all2 (\<lambda>e r. opens_to rd product e d (snd r)) (filter (of_image img) (walkOffsets es)) rs"
proof -
  define a where "a = \<lparr>a_r = rd, a_size = int (length (image_bytes sig rs))\<rparr>"
  have "located (int sigLen) (filter (of_image img) (walkOffsets es)) rs"
    using walk_offsets_located [OF assms(1), of Map.empty] assms(2,3) by (simp add: walkOffsets_def image_bytes_def)
  then have all: "list_all2 (holds a) (filter (of_image img) (walkOffsets es)) rs"
    using located_records [of sig _ rs rd "[]" a] assms(3,6,7) by (simp add: image_bytes_def a_def)
  have "rd 0 sigLen = (sig, None)"
    using solid_image.rd_inside [OF assms(7), of 0 sigLen] assms(3) by (simp add: image_bytes_def sigLen_def)
  then have opened: "open_archive (d_fsys d) (product @ [dot] @ img) = Inr a"
    using assms(3,4,5,8) by (simp add: open_archive_def a_def image_bytes_def)
  show ?thesis
  proof (rule list.rel_mono_strong [OF all])
    fix e r
    assume e: "e \<in> set (filter (of_image img) (walkOffsets es))" and h: "holds a e r"
    have rd: "a_r a = rd" by (simp add: a_def)
    obtain start where s: "archive_record a e = Inr (start, int (length (snd r)))" "fst (a_r a start (length (snd r))) = snd r"
      "snd r \<noteq> [] \<longrightarrow> snd (a_r a start (length (snd r))) = None" using h by (auto simp: holds_def)
    have "e_CmpSize e \<noteq> 0 \<Longrightarrow> snd r \<noteq> []" using h by (auto simp: holds_def entry_Stored_def)
    then show "opens_to rd product e d (snd r)"
      using opens_record [of d product e a, OF _ s(1,2)] s(3) e opened assms(9) by (simp add: of_image_def rd)
  qed
qed

text \<open>A record is only opened under its own name and inside the archive, whatever the manifest says.\<close>

lemma record_checked:
  assumes "image (a_r a)" and "archive_record a e = Inr (start, n)"
  shows "int sigLen \<le> e_Offset e \<and> start + n \<le> a_size a \<and> 0 \<le> n \<and>
    (\<exists>got err. a_r a (e_Offset e + 2) (length (e_Path e)) = (got, err) \<and> e_Path e = got @ replicate (length (e_Path e) - length got) 0)"
proof -
  obtain h where h: "a_r a (e_Offset e) 2 = (h, None)"
    using assms(2) by (auto simp: archive_record_def Let_def split: if_splits prod.splits option.splits)
  define nlen where "nlen = unat (be16 ((h @ replicate (2 - length h) 0) ! 0) ((h @ replicate (2 - length h) 0) ! 1))"
  obtain got err where g: "a_r a (e_Offset e + 2) nlen = (got, err)" by force
  have r: "int sigLen \<le> e_Offset e" "start = e_Offset e + 2 + int nlen" "n = entry_Stored e" "0 \<le> n" "n \<le> a_size a - start"
    "got @ replicate (nlen - length got) 0 = e_Path e"
    using assms(2) h g unfolding archive_record_def Let_def nlen_def by (auto split: if_splits)
  have "length got \<le> nlen" using image.rd_length [OF assms(1), of "e_Offset e + 2" nlen] g by simp
  then have "length (e_Path e) = nlen" using arg_cong [OF r(6), of length] by simp
  then show ?thesis using r g by auto
qed

definition try_entry :: "bytes \<Rightarrow> int \<Rightarrow> int \<Rightarrow> Entry" where
  "try_entry p off sz = \<lparr>e_Type = 0x66, e_Mode = 0, e_Owner = [], e_Group = [], e_Path = p, e_Source = [], e_Subsystem = str ''p.sw.a'',
     e_Offset = off, e_Size = sz, e_CmpSize = 0, e_Symlink = [], e_Mach = [], e_Attrs = Map.empty, e_Flags = []\<rparr>"

definition try_recs :: "(bytes \<times> bytes) list" where
  "try_recs = [(str ''a'', [1, 2]), (str ''bc'', [])]"

definition try_sig :: bytes where
  "try_sig = str ''im001V530P00'' @ [0]"

definition try_dist :: Dist where
  "try_dist = \<lparr>d_fsys = (\<lambda>_. Inr \<lparr>df_size = Inr (int (length (image_bytes try_sig try_recs))),
     df_ReadAt = Some (bytes_ReadAt (image_bytes try_sig try_recs))\<rparr>), d_archives = Map.empty\<rparr>"

theorem dist_roundtrip_witness:
  "list_all2 (\<lambda>e r. opens_to (bytes_ReadAt (image_bytes try_sig try_recs)) (str ''p'') e try_dist (snd r))
     (filter (of_image (str ''sw'')) (walkOffsets [try_entry (str ''a'') (- 1) 2, try_entry (str ''bc'') 18 0])) try_recs"
proof (rule dist_roundtrip [where sig = try_sig])
  have "entry_Image (try_entry p off sz) = str ''sw''" for p off sz by (simp add: entry_Image_def try_entry_def dot_def Let_def)
  then have "filter (of_image (str ''sw'')) [try_entry (str ''a'') (- 1) 2, try_entry (str ''bc'') 18 0] =
      [try_entry (str ''a'') (- 1) 2, try_entry (str ''bc'') 18 0]" by (simp add: of_image_def) (simp add: try_entry_def)
  then show "listed (int sigLen) (filter (of_image (str ''sw'')) [try_entry (str ''a'') (- 1) 2, try_entry (str ''bc'') 18 0]) try_recs"
    by (simp add: try_recs_def try_entry_def entry_Stored_def sigLen_def length_rec_bytes)
qed (simp_all add: try_sig_def try_recs_def try_dist_def image_bytes_def length_rec_bytes sigLen_def sigPrefix_def
      bytes_image.solid_image_axioms)

end
