(* ===== verification/Rcmd.thy ===== *)
theory Rcmd
  imports Go_Strings
begin

text \<open>
  The rsh server (src/rcmd/rcmd.go). \<open>rcmd_handle\<close> is one connection: what the
  client sends is a list of bytes, at whose end the connection is closed or idle
  for too long; what the server does is a list of actions in order. Address and
  port of the client, the filter, the dial back and the handler are parameters.
  The second part is the bookkeeping of connections across Serve and Shutdown,
  as a step relation: its critical sections are the steps. Logging and the pump that
  forwards interrupt bytes are left out.
\<close>

section \<open>Model: one connection\<close>

definition maxRequest :: nat where "maxRequest = 4096"

record rcmd_request =
  rq_RemoteUser :: bytes
  rq_LocalUser :: bytes
  rq_Command :: bytes
  rq_Stdin :: bytes
  rq_callback :: "int option"

datatype reject = ByFilter | ByPort

datatype rcmd_act = Rejected reject | Wrote bytes | Dialed int | Ran rcmd_request | WroteErr nat | Hangup

record rcmd_server =
  allowIP :: "(nat \<Rightarrow> bool) option"
  allowHighPorts :: bool
  rcmd_Handler :: "(rcmd_request \<Rightarrow> nat option) option"

definition refusal :: "string \<Rightarrow> rcmd_act" where
  "refusal msg = Wrote (1 # str msg @ [0x0a])"

datatype field_err = FieldShort | FieldTooLong

fun readField :: "bytes \<Rightarrow> bytes \<Rightarrow> (field_err + bytes) \<times> bytes" where
  "readField b [] = (Inl (if length b \<le> maxRequest then FieldShort else FieldTooLong), [])"
| "readField b (ch # rest) =
     (if length b \<le> maxRequest then if ch = 0 then (Inr b, rest) else readField (b @ [ch]) rest
      else (Inl FieldTooLong, ch # rest))"

text \<open>From the stderr port on: the dial back comes before the other fields are read.\<close>

definition rcmd_run :: "rcmd_server \<Rightarrow> bool \<Rightarrow> rcmd_request \<Rightarrow> rcmd_act list" where
  "rcmd_run s ack req =
     (case rcmd_Handler s of
        None \<Rightarrow> [refusal ''no handler'']
      | Some h \<Rightarrow>
          if \<not> ack then [Wrote [0]]
          else [Wrote [0], Ran req] @ (case h req of None \<Rightarrow> [] | Some e \<Rightarrow> [WroteErr e]))"

definition rcmd_fields :: "rcmd_server \<Rightarrow> bool \<Rightarrow> int option \<Rightarrow> bytes \<Rightarrow> rcmd_act list" where
  "rcmd_fields s ack callback inp =
     (let (remuser, inp1) = readField [] inp; (locuser, inp2) = readField [] inp1; (command, inp3) = readField [] inp2
      in case (remuser, locuser, command) of
           (Inr u, Inr l, Inr c) \<Rightarrow>
             rcmd_run s ack \<lparr>rq_RemoteUser = u, rq_LocalUser = l, rq_Command = c, rq_Stdin = inp3, rq_callback = callback\<rparr>
         | _ \<Rightarrow> [refusal ''malformed request''])"

definition rcmd_handle :: "rcmd_server \<Rightarrow> (int \<Rightarrow> bool) \<Rightarrow> bool \<Rightarrow> nat \<Rightarrow> nat \<Rightarrow> bytes \<Rightarrow> rcmd_act list" where
  "rcmd_handle s dial ack ip port inp =
     (if (case allowIP s of Some allow \<Rightarrow> \<not> allow ip | None \<Rightarrow> False) then [Rejected ByFilter, refusal ''permission denied'', Hangup]
      else if \<not> allowHighPorts s \<and> (port \<ge> 1024 \<or> port < 512) then [Rejected ByPort, refusal ''permission denied'', Hangup]
      else
        case readField [] inp of
          (Inl _, _) \<Rightarrow> [refusal ''malformed request'', Hangup]
        | (Inr portField, inp1) \<Rightarrow>
            (case ParseInt portField of
               None \<Rightarrow> [refusal ''bad stderr port'', Hangup]
             | Some errPort \<Rightarrow>
                 if errPort < 0 \<or> errPort > 65535 then [refusal ''bad stderr port'', Hangup]
                 else if errPort \<noteq> 0 then
                   (if dial errPort then Dialed errPort # rcmd_fields s ack (Some errPort) inp1 @ [Hangup]
                    else [Dialed errPort, refusal ''cannot connect stderr'', Hangup])
                 else rcmd_fields s ack None inp1 @ [Hangup]))"

text \<open>The reserved ports tried for the dial back, from the top; \<open>None\<close> is the ephemeral port of the host.\<close>

datatype dial_result = Connected | Denied | InUse | DialFailed nat

fun dial_ports :: "(nat option \<Rightarrow> dial_result) \<Rightarrow> nat \<Rightarrow> nat option \<times> dial_result" where
  "dial_ports try_port 0 = (None, try_port None)"
| "dial_ports try_port (Suc n) =
     (let local = 512 + n
      in case try_port (Some local) of
           Connected \<Rightarrow> (Some local, Connected)
         | Denied \<Rightarrow> (None, try_port None)
         | InUse \<Rightarrow> dial_ports try_port n
         | DialFailed e \<Rightarrow> (Some local, DialFailed e))"

definition dialStderr :: "(nat option \<Rightarrow> dial_result) \<Rightarrow> nat option \<times> dial_result" where
  "dialStderr try_port = dial_ports try_port 512"

section \<open>Model: connections\<close>

record rcmd_state =
  s_conns :: "nat set"
  s_closed :: bool
  s_running :: "nat set"
  s_hungup :: "nat set"

definition rcmd_init :: rcmd_state where
  "rcmd_init = \<lparr>s_conns = {}, s_closed = False, s_running = {}, s_hungup = {}\<rparr>"

text \<open>A handler closes its connection before it stops being tracked, and counts as running until after that.\<close>

datatype rcmd_event = Accept nat | Untrack nat | Finish nat | Shutdown

fun rcmd_step :: "rcmd_event \<Rightarrow> rcmd_state \<Rightarrow> rcmd_state option" where
  "rcmd_step (Accept c) s =
     (if s_closed s then Some (s\<lparr>s_hungup := insert c (s_hungup s)\<rparr>)
      else Some (s\<lparr>s_conns := insert c (s_conns s), s_running := insert c (s_running s)\<rparr>))"
| "rcmd_step (Untrack c) s =
     (if c \<in> s_running s \<and> c \<in> s_conns s then Some (s\<lparr>s_conns := s_conns s - {c}, s_hungup := insert c (s_hungup s)\<rparr>) else None)"
| "rcmd_step (Finish c) s =
     (if c \<in> s_running s \<and> c \<notin> s_conns s then Some (s\<lparr>s_running := s_running s - {c}\<rparr>) else None)"
| "rcmd_step Shutdown s = Some (s\<lparr>s_closed := True, s_hungup := s_hungup s \<union> s_conns s\<rparr>)"

fun rcmd_steps :: "rcmd_event list \<Rightarrow> rcmd_state \<Rightarrow> rcmd_state option" where
  "rcmd_steps [] s = Some s"
| "rcmd_steps (e # es) s = (case rcmd_step e s of None \<Rightarrow> None | Some s' \<Rightarrow> rcmd_steps es s')"

section \<open>One exchange\<close>

lemma readField_ok:
  "readField b inp = (r, rest) \<Longrightarrow> length b \<le> maxRequest \<Longrightarrow>
     (\<forall>f. r = Inr f \<longrightarrow> (\<exists>w. inp = w @ 0 # rest \<and> 0 \<notin> set w \<and> f = b @ w \<and> length f \<le> maxRequest))"
proof (induction b inp rule: readField.induct)
  case (2 b ch rest')
  show ?case
  proof (cases "ch = 0")
    case True
    then show ?thesis using 2 by auto
  next
    case False
    show ?thesis
    proof (cases "length (b @ [ch]) \<le> maxRequest")
      case True
      then have ih: "\<forall>f. r = Inr f \<longrightarrow> (\<exists>w. rest' = w @ 0 # rest \<and> 0 \<notin> set w \<and> f = (b @ [ch]) @ w \<and> length f \<le> maxRequest)"
        using 2 False by auto
      show ?thesis
      proof (intro allI impI)
        fix f
        assume "r = Inr f"
        then obtain w where "rest' = w @ 0 # rest" "0 \<notin> set w" "f = (b @ [ch]) @ w" "length f \<le> maxRequest" using ih by blast
        then show "\<exists>w. ch # rest' = w @ 0 # rest \<and> 0 \<notin> set w \<and> f = b @ w \<and> length f \<le> maxRequest"
          using False by (intro exI [of _ "ch # w"]) simp
      qed
    next
      case long: False
      then have "\<exists>e. r = Inl e" using 2 False by (cases rest') auto
      then show ?thesis by auto
    qed
  qed
qed auto

lemma readField_reads: "0 \<notin> set w \<Longrightarrow> length (b @ w) \<le> maxRequest \<Longrightarrow> readField b (w @ 0 # rest) = (Inr (b @ w), rest)"
  by (induction w arbitrary: b) auto

definition request_head :: "bytes \<Rightarrow> rcmd_request \<Rightarrow> bytes" where
  "request_head pf q = pf @ 0 # rq_RemoteUser q @ 0 # rq_LocalUser q @ 0 # rq_Command q @ [0]"

definition head_ok :: "bytes \<Rightarrow> rcmd_request \<Rightarrow> bool" where
  "head_ok pf q \<longleftrightarrow> (\<forall>f \<in> {pf, rq_RemoteUser q, rq_LocalUser q, rq_Command q}. 0 \<notin> set f \<and> length f \<le> maxRequest)"

definition may_connect :: "rcmd_server \<Rightarrow> nat \<Rightarrow> nat \<Rightarrow> bool" where
  "may_connect s ip port \<longleftrightarrow> (\<forall>allow. allowIP s = Some allow \<longrightarrow> allow ip) \<and> (allowHighPorts s \<or> 512 \<le> port \<and> port < 1024)"

definition callback_of :: "int \<Rightarrow> int option" where
  "callback_of p = (if p = 0 then None else Some p)"

definition dialed :: "int option \<Rightarrow> rcmd_act list" where
  "dialed cb = (case cb of None \<Rightarrow> [] | Some p \<Rightarrow> [Dialed p])"

lemma rcmd_run_Ran: "Ran q \<in> set (rcmd_run s ack req) \<longleftrightarrow> rcmd_Handler s \<noteq> None \<and> ack \<and> q = req"
  by (auto simp: rcmd_run_def refusal_def split: option.splits)

lemma fields_Ran:
  assumes "Ran q \<in> set (rcmd_fields s ack cb inp)"
  shows "inp = rq_RemoteUser q @ 0 # rq_LocalUser q @ 0 # rq_Command q @ 0 # rq_Stdin q \<and> rq_callback q = cb \<and>
    (\<forall>f \<in> {rq_RemoteUser q, rq_LocalUser q, rq_Command q}. 0 \<notin> set f \<and> length f \<le> maxRequest) \<and>
    rcmd_fields s ack cb inp = rcmd_run s ack q \<and> rcmd_Handler s \<noteq> None \<and> ack"
proof -
  obtain u i1 where u: "readField [] inp = (u, i1)" by force
  obtain l i2 where l: "readField [] i1 = (l, i2)" by force
  obtain c i3 where c: "readField [] i2 = (c, i3)" by force
  have bad: "Ran q \<notin> set [refusal ''malformed request'']" by (simp add: refusal_def)
  then obtain u' l' c' where r: "u = Inr u'" "l = Inr l'" "c = Inr c'"
    using assms u l c by (cases u; cases l; cases c) (simp_all add: rcmd_fields_def)
  then have f: "rcmd_fields s ack cb inp =
      rcmd_run s ack \<lparr>rq_RemoteUser = u', rq_LocalUser = l', rq_Command = c', rq_Stdin = i3, rq_callback = cb\<rparr>"
    using u l c by (simp add: rcmd_fields_def)
  then have q: "q = \<lparr>rq_RemoteUser = u', rq_LocalUser = l', rq_Command = c', rq_Stdin = i3, rq_callback = cb\<rparr>"
    using assms by (simp add: rcmd_run_Ran)
  have "inp = u' @ 0 # i1 \<and> 0 \<notin> set u' \<and> length u' \<le> maxRequest" "i1 = l' @ 0 # i2 \<and> 0 \<notin> set l' \<and> length l' \<le> maxRequest"
    "i2 = c' @ 0 # i3 \<and> 0 \<notin> set c' \<and> length c' \<le> maxRequest"
    using readField_ok [OF u] readField_ok [OF l] readField_ok [OF c] r by auto
  then show ?thesis using f q assms by (simp add: rcmd_run_Ran)
qed

lemma fields_head:
  assumes "\<forall>f \<in> {rq_RemoteUser q, rq_LocalUser q, rq_Command q}. 0 \<notin> set f \<and> length f \<le> maxRequest"
  shows "rcmd_fields s ack (rq_callback q) (rq_RemoteUser q @ 0 # rq_LocalUser q @ 0 # rq_Command q @ 0 # rq_Stdin q) = rcmd_run s ack q"
  using assms by (cases q) (simp add: rcmd_fields_def readField_reads [where b = "[]", simplified])

definition good_port :: "bytes \<Rightarrow> int \<Rightarrow> bool" where
  "good_port pf p \<longleftrightarrow> ParseInt pf = Some p \<and> 0 \<le> p \<and> p \<le> 65535"

lemma handle_open:
  assumes "may_connect s ip port" and "0 \<notin> set pf" and "length pf \<le> maxRequest" and "good_port pf p" and "p = 0 \<or> dial p"
  shows "rcmd_handle s dial ack ip port (pf @ 0 # rest) = dialed (callback_of p) @ rcmd_fields s ack (callback_of p) rest @ [Hangup]"
  using assms readField_reads [of pf "[]" rest]
  by (auto simp: rcmd_handle_def may_connect_def good_port_def dialed_def callback_of_def split: option.splits)

lemma handle_Ran:
  assumes "Ran q \<in> set (rcmd_handle s dial ack ip port inp)"
  shows "may_connect s ip port \<and> (\<exists>pf p rest. inp = pf @ 0 # rest \<and> 0 \<notin> set pf \<and> length pf \<le> maxRequest \<and> good_port pf p \<and>
    (p = 0 \<or> dial p) \<and> Ran q \<in> set (rcmd_fields s ack (callback_of p) rest))"
proof -
  have ref: "Ran q \<noteq> refusal m" for m by (simp add: refusal_def)
  have m: "may_connect s ip port" using assms ref by (auto simp: rcmd_handle_def may_connect_def split: option.splits if_splits)
  obtain r rest where f: "readField [] inp = (r, rest)" by force
  obtain pf where r: "r = Inr pf" using assms f m ref by (cases r) (auto simp: rcmd_handle_def may_connect_def split: option.splits if_splits)
  obtain p where p: "good_port pf p" "p = 0 \<or> dial p" "Ran q \<in> set (rcmd_fields s ack (callback_of p) rest)"
    using assms f m r ref by (auto simp: rcmd_handle_def may_connect_def good_port_def callback_of_def split: option.splits if_splits)
  from readField_ok [OF f] r show ?thesis using m p by auto
qed

text \<open>C46: The rsh exchange. A command runs only for a client the filter allows, from a reserved port, after a whole request of bounded fields without
  NULs: the callback to stderr was opened before, exactly one zero byte precedes the command, and the command sees these
  fields and everything after them as its input. Every such request is run. The callback is dialled on the port field alone,
  so a client that waits for it before it sends the rest is not left waiting.\<close>

theorem rcmd_exchange:
  "(\<forall>q. Ran q \<in> set (rcmd_handle s dial ack ip port inp) \<longrightarrow> may_connect s ip port \<and>
      (\<exists>pf p. good_port pf p \<and> head_ok pf q \<and> inp = request_head pf q @ rq_Stdin q \<and> rq_callback q = callback_of p \<and>
         rcmd_handle s dial ack ip port inp = dialed (callback_of p) @ rcmd_run s True q @ [Hangup])) \<and>
   (\<forall>q pf p. may_connect s ip port \<and> good_port pf p \<and> head_ok pf q \<and> (p = 0 \<or> dial p) \<and> rq_callback q = callback_of p \<longrightarrow>
      rcmd_handle s dial ack ip port (request_head pf q @ rq_Stdin q) = dialed (callback_of p) @ rcmd_run s ack q @ [Hangup]) \<and>
   (\<forall>pf p rest. may_connect s ip port \<and> 0 \<notin> set pf \<and> length pf \<le> maxRequest \<and> good_port pf p \<and> p \<noteq> 0 \<longrightarrow>
      (\<exists>acts. rcmd_handle s dial ack ip port (pf @ 0 # rest) = Dialed p # acts))"
proof (intro conjI allI impI)
  fix q
  assume r: "Ran q \<in> set (rcmd_handle s dial ack ip port inp)"
  then show "may_connect s ip port" using handle_Ran by blast
  obtain pf p rest where h: "inp = pf @ 0 # rest" "0 \<notin> set pf" "length pf \<le> maxRequest" "good_port pf p" "p = 0 \<or> dial p"
    "Ran q \<in> set (rcmd_fields s ack (callback_of p) rest)" "may_connect s ip port" using handle_Ran [OF r] by blast
  note f = fields_Ran [OF h(6)]
  have "rcmd_handle s dial ack ip port inp = dialed (callback_of p) @ rcmd_run s True q @ [Hangup]"
  proof -
    have "rcmd_fields s ack (callback_of p) rest = rcmd_run s ack q" "ack = True" using f by blast+
    moreover have "rcmd_handle s dial ack ip port inp = dialed (callback_of p) @ rcmd_fields s ack (callback_of p) rest @ [Hangup]"
      unfolding h(1) by (rule handle_open) (use h in auto)
    ultimately show ?thesis by simp
  qed
  then show "\<exists>pf p. good_port pf p \<and> head_ok pf q \<and> inp = request_head pf q @ rq_Stdin q \<and> rq_callback q = callback_of p \<and>
      rcmd_handle s dial ack ip port inp = dialed (callback_of p) @ rcmd_run s True q @ [Hangup]"
    using f h(1-4) by (intro exI [of _ pf] exI [of _ p]) (simp add: head_ok_def request_head_def)
next
  fix q pf p
  assume h: "may_connect s ip port \<and> good_port pf p \<and> head_ok pf q \<and> (p = 0 \<or> dial p) \<and> rq_callback q = callback_of p"
  then have "rcmd_fields s ack (callback_of p) (rq_RemoteUser q @ 0 # rq_LocalUser q @ 0 # rq_Command q @ 0 # rq_Stdin q) = rcmd_run s ack q"
    using fields_head [of q s ack] by (simp add: head_ok_def)
  then show "rcmd_handle s dial ack ip port (request_head pf q @ rq_Stdin q) = dialed (callback_of p) @ rcmd_run s ack q @ [Hangup]"
    using h handle_open [of s ip port pf p dial ack "rq_RemoteUser q @ 0 # rq_LocalUser q @ 0 # rq_Command q @ 0 # rq_Stdin q"]
    by (simp add: head_ok_def request_head_def)
next
  fix pf p rest
  assume "may_connect s ip port \<and> 0 \<notin> set pf \<and> length pf \<le> maxRequest \<and> good_port pf p \<and> p \<noteq> 0"
  then show "\<exists>acts. rcmd_handle s dial ack ip port (pf @ 0 # rest) = Dialed p # acts"
    using readField_reads [of pf "[]" rest]
    by (auto simp: rcmd_handle_def may_connect_def good_port_def split: option.splits)
qed

definition try_server :: rcmd_server where
  "try_server = \<lparr>allowIP = None, allowHighPorts = False, rcmd_Handler = Some (\<lambda>_. None)\<rparr>"

definition try_request :: rcmd_request where
  "try_request = \<lparr>rq_RemoteUser = str ''guest'', rq_LocalUser = str ''root'', rq_Command = str ''ls'', rq_Stdin = [7], rq_callback = Some 1022\<rparr>"

theorem rcmd_exchange_witness:
  "rcmd_handle try_server (\<lambda>_. True) True 1 1023 (request_head (str ''1022'') try_request @ [7]) =
     [Dialed 1022, Wrote [0], Ran try_request, Hangup]"
proof -
  have "good_port (str ''1022'') 1022"
    by (simp add: good_port_def ParseInt_def parse_digits_def is_digit_def digits_value_def)
  then have "rcmd_handle try_server (\<lambda>_. True) True 1 1023 (request_head (str ''1022'') try_request @ rq_Stdin try_request) =
      dialed (callback_of 1022) @ rcmd_run try_server True try_request @ [Hangup]"
    using rcmd_exchange [of try_server "\<lambda>_. True" True 1 1023 "[]", THEN conjunct2, THEN conjunct1, rule_format, of "str ''1022''" 1022 try_request]
    by (simp add: may_connect_def try_server_def try_request_def head_ok_def callback_of_def maxRequest_def)
  then show ?thesis by (simp add: try_server_def rcmd_run_def callback_of_def dialed_def try_request_def)
qed

section \<open>Shutdown\<close>

definition rcmd_inv :: "rcmd_state \<Rightarrow> bool" where
  "rcmd_inv s \<longleftrightarrow> s_conns s \<subseteq> s_running s \<and> s_running s \<subseteq> s_conns s \<union> s_hungup s \<and> (s_closed s \<longrightarrow> s_running s \<subseteq> s_hungup s)"

lemma rcmd_step_inv: "rcmd_step e s = Some s' \<Longrightarrow> rcmd_inv s \<Longrightarrow> rcmd_inv s' \<and> (s_closed s \<longrightarrow> s_closed s' \<and> s_running s' \<subseteq> s_running s)"
  by (cases e) (auto simp: rcmd_inv_def split: if_splits)

lemma rcmd_steps_inv: "rcmd_steps es s = Some s' \<Longrightarrow> rcmd_inv s \<Longrightarrow> rcmd_inv s' \<and> (s_closed s \<longrightarrow> s_closed s' \<and> s_running s' \<subseteq> s_running s)"
proof (induction es arbitrary: s)
  case (Cons e es)
  then obtain s1 where "rcmd_step e s = Some s1" "rcmd_steps es s1 = Some s'" by (auto split: option.splits)
  then show ?case using Cons.IH [of s1] rcmd_step_inv [of e s s1] Cons.prems(2) by auto
qed simp

text \<open>After Shutdown every connection whose handler still runs is closed, and no handler starts any more.\<close>

lemma shutdown_stops:
  assumes "rcmd_steps (before @ Shutdown # after) rcmd_init = Some s"
  shows "s_running s \<subseteq> s_hungup s \<and> (\<forall>s1. rcmd_steps (before @ [Shutdown]) rcmd_init = Some s1 \<longrightarrow> s_running s \<subseteq> s_running s1)"
proof -
  have split: "rcmd_steps (xs @ ys) t = (case rcmd_steps xs t of None \<Rightarrow> None | Some t' \<Rightarrow> rcmd_steps ys t')" for xs ys t
    by (induction xs arbitrary: t) (auto split: option.splits)
  have inv: "rcmd_inv rcmd_init" by (simp add: rcmd_inv_def rcmd_init_def)
  obtain s0 where s0: "rcmd_steps before rcmd_init = Some s0" using assms by (auto simp: split split: option.splits)
  obtain s1 where s1: "rcmd_step Shutdown s0 = Some s1" by simp
  have "rcmd_inv s1" "s_closed s1" using rcmd_steps_inv [OF s0 inv] rcmd_step_inv [OF s1] s1 by auto
  moreover have "rcmd_steps after s1 = Some s" using assms s0 s1 by (simp add: split)
  ultimately have "rcmd_inv s \<and> s_closed s \<and> s_running s \<subseteq> s_running s1" using rcmd_steps_inv by blast
  then show ?thesis using s0 s1 by (auto simp: split rcmd_inv_def)
qed

end
