(* ===== verification/Qemunet.thy ===== *)
theory Qemunet
  imports Go_Strings "HOL-Library.Sublist"
begin

text \<open>
  Frames on the byte stream to a virtual machine (src/internal/qemunet/framing.go)
  and the loops that move them (readLoop and writeLoop of qemunet.go). The stream
  accepts any part of a write, or fails: an oracle says what it does to each.
  The network stack is a third-party package: it is a queue of outgoing frames, in
  the groups in which the loop finds it filled, and receives frames one by one. The scratch
  buffers the code reuses are not modelled.
\<close>

section \<open>Model: writing\<close>

record stream_state =
  st_wire :: bytes
  st_calls :: nat

text \<open>What the stream does with call number \<open>k\<close> on \<open>n\<close> bytes: a number of bytes taken, and perhaps an error after them.\<close>

type_synonym stream_oracle = "nat \<Rightarrow> nat \<Rightarrow> nat \<times> nat option"

datatype write_err = StreamErr nat | FrameShortWrite

definition stream_Write :: "stream_oracle \<Rightarrow> bytes \<Rightarrow> stream_state \<Rightarrow> nat \<times> nat option \<times> stream_state" where
  "stream_Write orc p s =
     (case orc (st_calls s) (length p) of
        (n, err) \<Rightarrow> (min n (length p), err, s\<lparr>st_wire := st_wire s @ take n p, st_calls := Suc (st_calls s)\<rparr>))"

function writeFull :: "stream_oracle \<Rightarrow> bytes \<Rightarrow> stream_state \<Rightarrow> write_err option \<times> stream_state" where
  "writeFull orc p s =
     (if p = [] then (None, s)
      else case stream_Write orc p s of
             (_, Some e, s') \<Rightarrow> (Some (StreamErr e), s')
           | (n, None, s') \<Rightarrow> if n = 0 then (Some FrameShortWrite, s') else writeFull orc (drop n p) s')"
  by auto
termination by (relation "measure (\<lambda>(orc, p, s). length p)") auto

declare writeFull.simps [simp del]

definition frame_append :: "bytes \<Rightarrow> bytes \<Rightarrow> bytes" where
  "frame_append buf frame = buf @ put32 (of_nat (length frame)) @ frame"

definition frame_flush :: "stream_oracle \<Rightarrow> bytes \<Rightarrow> stream_state \<Rightarrow> write_err option \<times> bytes \<times> stream_state" where
  "frame_flush orc buf s = (case writeFull orc buf s of (err, s') \<Rightarrow> (err, [], s'))"

definition frame_write :: "stream_oracle \<Rightarrow> bytes \<Rightarrow> bytes \<Rightarrow> stream_state \<Rightarrow> write_err option \<times> bytes \<times> stream_state" where
  "frame_write orc frame buf s = frame_flush orc (frame_append buf frame) s"

definition frameBatchSize :: nat where "frameBatchSize = 32"

text \<open>Packets without data are dropped, short frames are padded to the minimum of Ethernet.\<close>

definition pad_frame :: "bytes \<Rightarrow> bytes" where
  "pad_frame data = (if length data < 60 then data @ replicate (60 - length data) 0 else data)"

fun fill_batch :: "nat \<Rightarrow> bytes option list \<Rightarrow> bytes \<Rightarrow> bytes \<times> bytes option list" where
  "fill_batch k [] buf = (buf, [])"
| "fill_batch k (pkt # queue) buf =
     (let buf' = (case pkt of None \<Rightarrow> buf | Some data \<Rightarrow> frame_append buf (pad_frame data))
      in if k = frameBatchSize - 1 then (buf', queue) else fill_batch (Suc k) queue buf')"

lemma fill_batch_shorter: "fill_batch k queue buf = (buf', rest) \<Longrightarrow> length rest \<le> length queue"
  by (induction k queue buf rule: fill_batch.induct) (auto simp: Let_def split: if_splits)

text \<open>
  The queue arrives in groups: a group is what the loop finds queued before the queue is
  momentarily empty, which ends a batch. The loop ends when no more comes (the context is cancelled)
  or a write fails.
\<close>

function writeLoop :: "stream_oracle \<Rightarrow> bytes option list list \<Rightarrow> stream_state \<Rightarrow> write_err option \<times> stream_state" where
  "writeLoop orc [] s = (None, s)"
| "writeLoop orc ([] # groups) s = writeLoop orc groups s"
| "writeLoop orc ((pkt # queue) # groups) s =
     (case fill_batch 0 (pkt # queue) [] of
        (buf, rest) \<Rightarrow>
          (case frame_flush orc buf s of
             (Some e, _, s') \<Rightarrow> (Some e, s')
           | (None, _, s') \<Rightarrow> writeLoop orc (rest # groups) s'))"
  by pat_completeness auto
termination
proof (relation "measure (\<lambda>(orc, q, s). length q + length (concat q))", goal_cases)
  case (3 orc pkt queue)
  then have "fill_batch (Suc 0) queue (case pkt of None \<Rightarrow> [] | Some data \<Rightarrow> frame_append [] (pad_frame data)) = fill_batch 0 (pkt # queue) []"
    by (simp add: frameBatchSize_def Let_def)
  with 3(1) [symmetric] show ?case using fill_batch_shorter [of "Suc 0" queue] by fastforce
qed simp_all

section \<open>Model: reading\<close>

datatype frame_err = FrameIO io_error | FrameTooLong u32

definition frame_read :: "nat \<Rightarrow> src \<Rightarrow> (frame_err + bytes) \<times> src" where
  "frame_read mx s =
     (case read_full 4 s of
        (_, Some e, s1) \<Rightarrow> (Inl (FrameIO e), s1)
      | (hdr, None, s1) \<Rightarrow>
          let n = be32 (hdr ! 0) (hdr ! 1) (hdr ! 2) (hdr ! 3)
          in if unat n > mx then (Inl (FrameTooLong n), s1)
             else case read_full (unat n) s1 of
                    (_, Some e, s2) \<Rightarrow> (Inl (FrameIO (if e = EOF then UnexpectedEOF else e)), s2)
                  | (buf, None, s2) \<Rightarrow> (Inr buf, s2))"

definition maxFrame :: nat where "maxFrame = 65535"

lemma read_full_parts: "read_full n s = (got, e, s') \<Longrightarrow> got = take n (pending s) \<and> s' = s\<lparr>pending := drop n (pending s)\<rparr> \<and> (e = None \<longleftrightarrow> n \<le> length (pending s))"
  by (auto simp: read_full_def Let_def split: if_splits)

lemma frame_read_shorter: "frame_read mx s = (Inr frame, s') \<Longrightarrow> length (pending s') < length (pending s)"
  by (auto simp: frame_read_def Let_def split: prod.splits option.splits if_splits dest!: read_full_parts)

function readLoop :: "src \<Rightarrow> bytes list \<times> frame_err" where
  "readLoop s =
     (case frame_read maxFrame s of
        (Inl e, _) \<Rightarrow> ([], e)
      | (Inr frame, s') \<Rightarrow> (case readLoop s' of (fs, e) \<Rightarrow> (frame # fs, e)))"
  by auto
termination by (relation "measure (\<lambda>s. length (pending s))") (auto dest: frame_read_shorter [OF sym])

declare readLoop.simps [simp del]

section \<open>Model: stopping the pumps\<close>

text \<open>
  The two pumps stop the network once: the first cause is kept, the context is cancelled and the
  stream closed. \<open>nw_done\<close> is the channel that closes when both pumps have returned.
\<close>

datatype stop_cause = ReadFrame frame_err | WriteFrame write_err

record network =
  nw_stopped :: bool
  nw_stopErr :: "stop_cause option"
  nw_closes :: nat
  nw_reading :: bool
  nw_writing :: bool
  nw_torn :: nat

definition net_New :: network where
  "net_New = \<lparr>nw_stopped = False, nw_stopErr = None, nw_closes = 0, nw_reading = True, nw_writing = True, nw_torn = 0\<rparr>"

definition net_stop :: "stop_cause option \<Rightarrow> network \<Rightarrow> network" where
  "net_stop err n = (if nw_stopped n then n else n\<lparr>nw_stopped := True, nw_stopErr := err, nw_closes := Suc (nw_closes n)\<rparr>)"

definition nw_done :: "network \<Rightarrow> bool" where "nw_done n \<longleftrightarrow> \<not> nw_reading n \<and> \<not> nw_writing n"

text \<open>The reader ends on an error of its stream, the writer on a failed write or when the context is cancelled; Close waits for both.\<close>

inductive net_step :: "network \<Rightarrow> network \<Rightarrow> bool" where
  reader_ends: "nw_reading n \<Longrightarrow> net_step n ((net_stop (Some (ReadFrame e)) n)\<lparr>nw_reading := False\<rparr>)"
| writer_fails: "nw_writing n \<Longrightarrow> net_step n ((net_stop (Some (WriteFrame w)) n)\<lparr>nw_writing := False\<rparr>)"
| writer_cancelled: "nw_writing n \<Longrightarrow> nw_stopped n \<Longrightarrow> net_step n (n\<lparr>nw_writing := False\<rparr>)"
| net_Close: "net_step n (net_stop None n)"
| net_Close_waited: "nw_done n \<Longrightarrow> nw_stopped n \<Longrightarrow> net_step n (n\<lparr>nw_torn := 1\<rparr>)"

definition net_inv :: "network \<Rightarrow> bool" where
  "net_inv n \<longleftrightarrow> nw_closes n = (if nw_stopped n then 1 else 0) \<and> (nw_stopped n \<or> (nw_stopErr n = None \<and> nw_reading n \<and> nw_writing n)) \<and>
     (nw_torn n = 0 \<or> nw_done n)"

lemma net_step_inv: "net_step n n' \<Longrightarrow> net_inv n \<Longrightarrow> net_inv n'"
  by (induction rule: net_step.induct) (auto simp: net_inv_def net_stop_def nw_done_def split: if_splits)

text \<open>The stream is closed at most once, a pump that ended has stopped the network, and the stack goes last.\<close>

lemma net_reachable_inv: "net_step\<^sup>*\<^sup>* net_New n \<Longrightarrow> net_inv n"
proof (induction rule: rtranclp_induct)
  case base
  show ?case by (simp add: net_inv_def net_New_def)
next
  case (step y z)
  then show ?case by (blast intro: net_step_inv)
qed

text \<open>The first cause stays.\<close>

lemma net_first_cause: "net_step\<^sup>*\<^sup>* n n' \<Longrightarrow> nw_stopped n \<Longrightarrow> nw_stopped n' \<and> nw_stopErr n' = nw_stopErr n"
proof (induction rule: rtranclp_induct)
  case (step y z)
  from step(2) show ?case using step(3) [OF step(4)] by (cases rule: net_step.cases) (auto simp: net_stop_def)
qed simp

section \<open>Frames cross the stream\<close>

definition encode_frames :: "bytes list \<Rightarrow> bytes" where
  "encode_frames fs = concat (map (\<lambda>f. put32 (of_nat (length f)) @ f) fs)"

definition queued_frames :: "bytes option list \<Rightarrow> bytes list" where
  "queued_frames q = map pad_frame (List.map_filter id q)"

lemma encode_frames_simps [simp]:
  "encode_frames [] = []" "encode_frames (f # fs) = put32 (of_nat (length f)) @ f @ encode_frames fs"
  "encode_frames (fs @ gs) = encode_frames fs @ encode_frames gs"
  by (simp_all add: encode_frames_def)

lemma queued_frames_simps [simp]:
  "queued_frames [] = []" "queued_frames (None # q) = queued_frames q" "queued_frames (Some d # q) = pad_frame d # queued_frames q"
  by (simp_all add: queued_frames_def List.map_filter_simps)

text \<open>Whatever the stream does, it got a prefix of what was to be written, all of it without an error.\<close>

lemma writeFull_prefix:
  "writeFull orc p s = (err, s') \<Longrightarrow> \<exists>k. st_wire s' = st_wire s @ take k p \<and> (err = None \<longrightarrow> take k p = p)"
proof (induction orc p s rule: writeFull.induct)
  case (1 orc p s)
  show ?case
  proof (cases "p = []")
    case True
    then show ?thesis using 1(2) by (auto simp: writeFull.simps)
  next
    case False
    obtain n e s1 where w: "stream_Write orc p s = (n, e, s1)" by (metis prod_cases3)
    have s1: "st_wire s1 = st_wire s @ take n p"
      using w by (auto simp: stream_Write_def min_def split: prod.splits)
    show ?thesis
    proof (cases "e = None \<and> n \<noteq> 0")
      case True
      then have "writeFull orc (drop n p) s1 = (err, s')" using 1(2) False w by (subst (asm) writeFull.simps) simp
      with 1(1) [OF False w [symmetric] refl] True obtain k where
        "st_wire s' = st_wire s1 @ take k (drop n p)" "err = None \<longrightarrow> take k (drop n p) = drop n p" by auto
      then show ?thesis using s1 by (intro exI [of _ "n + k"]) (auto simp: take_add)
    next
      case stop: False
      then have "err \<noteq> None \<and> s' = s1" using 1(2) False w by (subst (asm) writeFull.simps) (auto split: option.splits)
      then show ?thesis using s1 by auto
    qed
  qed
qed

lemma fill_batch_frames:
  "fill_batch k q buf = (buf', rest) \<Longrightarrow> \<exists>done_q. q = done_q @ rest \<and> buf' = buf @ encode_frames (queued_frames done_q)"
proof (induction k q buf rule: fill_batch.induct)
  case (2 k pkt queue buf)
  let ?b = "case pkt of None \<Rightarrow> buf | Some data \<Rightarrow> frame_append buf (pad_frame data)"
  have b: "?b = buf @ encode_frames (queued_frames [pkt])" by (cases pkt) (simp_all add: frame_append_def)
  show ?case
  proof (cases "k = frameBatchSize - 1")
    case True
    then show ?thesis using 2(2) b by (intro exI [of _ "[pkt]"]) (simp add: Let_def)
  next
    case False
    then obtain d where "queue = d @ rest" "buf' = ?b @ encode_frames (queued_frames d)" using 2 by (auto simp: Let_def)
    then show ?thesis using b by (intro exI [of _ "pkt # d"]) (cases pkt, simp_all)
  qed
qed auto

lemma queued_frames_append [simp]: "queued_frames (a @ b) = queued_frames a @ queued_frames b"
  by (induction a rule: induct_list012) (auto simp: queued_frames_def List.map_filter_def)

lemma writeLoop_prefix:
  "writeLoop orc q s = (err, s') \<Longrightarrow> \<exists>k. st_wire s' = st_wire s @ take k (encode_frames (queued_frames (concat q))) \<and>
     (err = None \<longrightarrow> take k (encode_frames (queued_frames (concat q))) = encode_frames (queued_frames (concat q)))"
proof (induction orc q s rule: writeLoop.induct)
  case (3 orc pkt queue groups s)
  obtain buf rest where f: "fill_batch 0 (pkt # queue) [] = (buf, rest)" by force
  obtain d where d: "pkt # queue = d @ rest" "buf = encode_frames (queued_frames d)" using fill_batch_frames [OF f] by auto
  obtain e s1 where w: "writeFull orc buf s = (e, s1)" by force
  obtain k where k: "st_wire s1 = st_wire s @ take k buf" "e = None \<longrightarrow> take k buf = buf" using writeFull_prefix [OF w] by auto
  let ?all = "encode_frames (queued_frames (concat ((pkt # queue) # groups)))"
  let ?rest = "encode_frames (queued_frames (concat (rest # groups)))"
  have all: "?all = buf @ ?rest" unfolding concat.simps d(1) using d(2) by simp
  have fl: "frame_flush orc buf s = (e, [], s1)" using w by (simp add: frame_flush_def)
  show ?case
  proof (cases e)
    case (Some x)
    then have "(err, s') = (Some x, s1)" using 3(2) f fl by simp
    then show ?thesis using k(1) unfolding all by (intro exI [of _ "min k (length buf)"]) (simp add: min_def)
  next
    case None
    then have l: "writeLoop orc (rest # groups) s1 = (err, s')" using 3(2) f fl by simp
    have fl': "(None, [], s1) = frame_flush orc buf s" using fl None by simp
    obtain j where j: "st_wire s' = st_wire s1 @ take j ?rest" "err = None \<longrightarrow> take j ?rest = ?rest"
      using 3(1) [OF f [symmetric] fl' refl refl l] by auto
    have sb: "st_wire s1 = st_wire s @ buf" using k None by simp
    show ?thesis unfolding all using j sb by (intro exI [of _ "length buf + j"]) simp
  qed
qed auto

text \<open>A frame at the head of the stream is read back; cut anywhere, it ends the reading with an EOF.\<close>

lemma frame_read_whole:
  assumes "length f \<le> maxFrame"
  shows "frame_read maxFrame \<lparr>pending = put32 (of_nat (length f)) @ f @ rest, failure = None\<rparr> = (Inr f, \<lparr>pending = rest, failure = None\<rparr>)"
proof -
  have "unat (of_nat (length f) :: u32) = length f" using assms by (simp add: maxFrame_def unat_of_nat take_bit_nat_eq_self)
  moreover have "take 4 (put32 v @ xs) = put32 v" "drop 4 (put32 v @ xs) = xs" for v xs by (simp_all add: put32_def)
  moreover have "be32 (put32 v ! 0) (put32 v ! 1) (put32 v ! 2) (put32 v ! 3) = v" for v by (simp add: put32_def go_bytes)
  ultimately show ?thesis using assms by (simp add: frame_read_def read_full_def Let_def)
qed

lemma frame_read_cut:
  assumes "length f \<le> maxFrame" "k < 4 + length f"
  shows "\<exists>s. frame_read maxFrame \<lparr>pending = take k (put32 (of_nat (length f)) @ f), failure = None\<rparr> =
    (Inl (FrameIO (if k = 0 then EOF else UnexpectedEOF)), s)"
proof (cases "k < 4")
  case True
  then show ?thesis by (cases "k = 0") (auto simp: frame_read_def read_full_def end_error_def min_def Let_def put32_def)
next
  case False
  have "unat (of_nat (length f) :: u32) = length f" using assms by (simp add: maxFrame_def unat_of_nat take_bit_nat_eq_self)
  moreover have "take k (put32 v @ f) = put32 v @ take (k - 4) f" for v using False by simp
  moreover have "take 4 (put32 v @ xs) = put32 v" "drop 4 (put32 v @ xs) = xs" for v xs by (simp_all add: put32_def)
  moreover have "be32 (put32 v ! 0) (put32 v ! 1) (put32 v ! 2) (put32 v ! 3) = v" for v by (simp add: put32_def go_bytes)
  ultimately show ?thesis using assms False by (auto simp: frame_read_def read_full_def end_error_def Let_def)
qed

lemma readLoop_prefix:
  "\<forall>f \<in> set fs. length f \<le> maxFrame \<Longrightarrow>
   \<exists>j e. readLoop \<lparr>pending = take k (encode_frames fs), failure = None\<rparr> = (take j fs, FrameIO e) \<and> e \<in> {EOF, UnexpectedEOF} \<and>
     (length (encode_frames fs) \<le> k \<longrightarrow> take j fs = fs \<and> e = EOF)"
proof (induction fs arbitrary: k)
  case Nil
  show ?case by (subst readLoop.simps) (simp add: frame_read_def read_full_def end_error_def)
next
  case (Cons f fs)
  let ?h = "put32 (of_nat (length f)) @ f"
  have len: "length ?h = 4 + length f" by simp
  have enc: "encode_frames (f # fs) = ?h @ encode_frames fs" by simp
  show ?case
  proof (cases "k < length ?h")
    case True
    then have "take k (encode_frames (f # fs)) = take k ?h" unfolding enc by simp
    moreover obtain s where "frame_read maxFrame \<lparr>pending = take k ?h, failure = None\<rparr> =
        (Inl (FrameIO (if k = 0 then EOF else UnexpectedEOF)), s)"
      using frame_read_cut [of f k] Cons(2) True len by auto
    ultimately have "readLoop \<lparr>pending = take k (encode_frames (f # fs)), failure = None\<rparr> = (take 0 (f # fs), FrameIO (if k = 0 then EOF else UnexpectedEOF))"
      by (subst readLoop.simps) (simp only: prod.case sum.case take_0)
    moreover have "\<not> length (encode_frames (f # fs)) \<le> k" using True unfolding enc by simp
    ultimately show ?thesis by (intro exI [of _ 0] exI [of _ "if k = 0 then EOF else UnexpectedEOF"]) (simp del: encode_frames_simps)
  next
    case False
    obtain j e where j: "readLoop \<lparr>pending = take (k - length ?h) (encode_frames fs), failure = None\<rparr> = (take j fs, FrameIO e)"
      "e \<in> {EOF, UnexpectedEOF}" "length (encode_frames fs) \<le> k - length ?h \<longrightarrow> take j fs = fs \<and> e = EOF"
      using Cons(1) [of "k - length ?h"] Cons(2) by auto
    have p: "take k (encode_frames (f # fs)) = put32 (of_nat (length f)) @ f @ take (k - length ?h) (encode_frames fs)"
      unfolding enc using False by simp
    have w: "frame_read maxFrame \<lparr>pending = put32 (of_nat (length f)) @ f @ rest, failure = None\<rparr> = (Inr f, \<lparr>pending = rest, failure = None\<rparr>)" for rest
      using frame_read_whole [of f] Cons(2) by simp
    have "readLoop \<lparr>pending = take k (encode_frames (f # fs)), failure = None\<rparr> = (take (Suc j) (f # fs), FrameIO e)"
      unfolding p by (subst readLoop.simps) (simp only: w prod.case sum.case j(1) take_Suc_Cons)
    then show ?thesis using j(2,3) False unfolding enc by (intro exI [of _ "Suc j"] exI [of _ e]) auto
  qed
qed

section \<open>Property: frames cross the stream whole and in order\<close>

text \<open>
  C47: Whatever the stream does to the writes of writeLoop (short writes, errors at any point), and
  however the outgoing packets are grouped into batches, the loop at the other end delivers a prefix of
  the queued frames, each one whole, padded to the Ethernet minimum and in order, and then ends with an
  end of file; when no write failed it delivers all of them and the end is clean.
\<close>

theorem frames_cross:
  assumes "\<And>data. Some data \<in> set (concat groups) \<Longrightarrow> length data \<le> maxFrame"
  shows "case writeLoop orc groups \<lparr>st_wire = [], st_calls = n\<rparr> of
      (err, s) \<Rightarrow> (case readLoop \<lparr>pending = st_wire s, failure = None\<rparr> of
        (fs, e) \<Rightarrow> prefix fs (queued_frames (concat groups)) \<and> e \<in> {FrameIO EOF, FrameIO UnexpectedEOF} \<and>
          (err \<noteq> None \<or> (fs = queued_frames (concat groups) \<and> e = FrameIO EOF)))"
proof -
  obtain err s where w: "writeLoop orc groups \<lparr>st_wire = [], st_calls = n\<rparr> = (err, s)" by force
  let ?fs = "queued_frames (concat groups)"
  obtain k where k: "st_wire s = take k (encode_frames ?fs)" "err = None \<longrightarrow> length (encode_frames ?fs) \<le> k"
    using writeLoop_prefix [OF w] by auto
  have "\<forall>f \<in> set ?fs. length f \<le> maxFrame"
    using assms by (fastforce simp: queued_frames_def List.map_filter_def pad_frame_def maxFrame_def)
  from readLoop_prefix [OF this, of k] obtain j e where
    r: "readLoop \<lparr>pending = st_wire s, failure = None\<rparr> = (take j ?fs, FrameIO e)" "e \<in> {EOF, UnexpectedEOF}"
      "length (encode_frames ?fs) \<le> k \<longrightarrow> take j ?fs = ?fs \<and> e = EOF"
    unfolding k(1) by blast
  show ?thesis using w r k(2) take_is_prefix [of j ?fs] by auto
qed

text \<open>A stream that takes 40 bytes, then fails after 30: the first of two frames arrives, padded.\<close>

theorem frames_cross_witness:
  "(case writeLoop (\<lambda>k n. if k = 0 then (40, None) else (30, Some 5)) [[Some [1, 2], None], [Some [3]]] \<lparr>st_wire = [], st_calls = 0\<rparr> of
      (err, s) \<Rightarrow> (case readLoop \<lparr>pending = st_wire s, failure = None\<rparr> of
        (fs, e) \<Rightarrow> prefix fs (queued_frames (concat [[Some [1, 2], None], [Some [3]]])) \<and> e \<in> {FrameIO EOF, FrameIO UnexpectedEOF} \<and>
          (err \<noteq> None \<or> (fs = queued_frames (concat [[Some [1, 2], None], [Some [3]]]) \<and> e = FrameIO EOF)))) \<and>
   fst (writeLoop (\<lambda>k n. if k = 0 then (40, None) else (30, Some 5)) [[Some [1, 2], None], [Some [3]]] \<lparr>st_wire = [], st_calls = 0\<rparr>) = Some (StreamErr 5)"
proof (rule conjI)
  show "fst (writeLoop (\<lambda>k n. if k = 0 then (40, None) else (30, Some 5)) [[Some [1, 2], None], [Some [3]]] \<lparr>st_wire = [], st_calls = 0\<rparr>) = Some (StreamErr 5)"
    by code_simp
qed (rule frames_cross, auto simp: maxFrame_def)

end
