(* ===== verification/Spec2Isabelle.thy ===== *)
theory Spec2Isabelle
  imports Unixpack Unixcompress Dvh Efs Efs_View Nfs_Server Nfs_Client Vfs_Build Tftp Bootp Sharefs_Multi
    Shell_Output Shell_Transfers Shell_Commands Source_Fetch
    Inst_Dist Rcmd Qemunet
begin

text \<open>
  A verification library for instigator, a Go program that installs SGI IRIX over
  the network from disc images.

  \<^bold>\<open>The program.\<close> A configuration names install sets, each an ordered list of
  layers. A layer's source is a disc image or a host directory. An image is
  opened by reading its SGI volume header (src/dvh) and the EFS filesystem in
  its partition (src/efs), which is then an io/fs filesystem (src/efs/fsys.go).
  src/internal/vfs merges the layers' distribution directories into one
  read-only tree with stable inode numbers. Protocol servers hand that tree and
  writable shares to the machine being installed; the NFS server
  (src/nfs) has its own XDR, ONC-RPC, portmap, MOUNT and NFS versions 2 and 3.
  Files of the media may be compressed with compress(1) or pack(1)
  (src/unixcompress, src/unixpack).

  \<^bold>\<open>Conventions.\<close> A byte is an \<open>8 word\<close>; uint16, uint32 and uint64 are words, int
  and int64 are \<open>nat\<close> or \<open>int\<close> where a theory's introduction says why they cannot
  overflow. A Go call that can fail yields an \<open>outcome\<close> (Go_Prelude): \<open>Ok\<close> a
  value, \<open>Err\<close> an error value, \<open>Panic\<close> a run-time panic (index or slice out of
  range), \<open>Diverge\<close> a loop that used up its fuel. An io.ReaderAt is a function of
  offset and length, an io.Reader a step function of its state, an fs.FS a
  record of functions: code outside the repository stands behind these
  parameters, and what is assumed of it is a named predicate or a locale.

  \<^bold>\<open>Theories.\<close>
  \<^item> Go_Prelude, Go_Strings: outcomes, big-endian integers, byte sources, Go's
    strings, path and io/fs name functions; the locales \<open>byte_decoder\<close> and
    \<open>go_reader\<close> through which the decoders are read.
  \<^item> Unixpack, Unixcompress: the two decompressors. Decoding inverts encoding
    (Unixpack, over canonical codes), every decoded string is the one of the LZW
    dictionary the table represents (Unixcompress), no input makes them panic.
  \<^item> Dvh: the volume header; Parse inverts the layout.
  \<^item> Efs: superblock, inodes, extents, ReadAt, ReadDir, Readlink, Lookup. Reads
    return exactly the file the extents describe; inodes and directories are read
    back from their layout; reads stay inside the inode areas; no image makes a
    read of a sound inode panic, and overlapping extents do (a finding).
  \<^item> Efs_View: the io/fs view, file handles and directory pages.
  \<^item> Xdr: reader and writer, the locale \<open>xdr_codec\<close> for a pair of an encoder and a
    decoder.
  \<^item> Rpc: record marking, the connection loop, dispatch, the duplicate request
    cache with its at-most-once invariant.
  \<^item> Nfs_Base, Portmap_Mount, Nfs2, Nfs3: filehandles, statuses, and every procedure
    of the programs over an arbitrary FS given as a record of functions on its
    state.
  \<^item> Nfs_Server: the table of programs. Its locale \<open>rpc_program\<close>, interpreted on all
    of them, gives the server's safety: a call refused for its arguments changes
    nothing, a read-only export is never changed.
  \<^item> Nfs_Client: what a client that loops over READ and READDIR replies obtains
    through encoding, the server's handler and decoding.
  \<^item> Go_Maps: Go maps as sorted association lists, shared by Vfs_Tree and
    Sharefs_Table.
  \<^item> Vfs_Tree, Vfs_Build: the install tree and how it is built. Merging a layer is
    specified path by path; inode numbers are unique and never change.
  \<^item> Go_Net: addresses and prefixes of net/netip and net.
  \<^item> Bootp (src/internal/bootp): one datagram of BOOTP or DHCP from parsing to the
    reply and where it is sent.
  \<^item> Tftp (src/internal/tftp): requests, options, the transfer loop with its
    retransmissions over a link that loses, repeats and delays packets; a transfer
    always ends, and with a fair link it delivers the file.
  \<^item> Sharefs_Table (src/internal/sharefs/table.go): the numbering of paths behind
    filehandles and its file, across renames, removals and restarts.
  \<^item> Sharefs, Sharefs_Calls (src/internal/sharefs/sharefs.go): a writable host directory.
    \<open>secures\<close> is a Hoare-style statement over the share's state, and its rules
    (collection \<open>confined\<close>) carry the proof that no sequence of calls leaves the
    directory. Filehandles name the file they were issued for.
  \<^item> Sharefs_Multi (src/internal/sharefs/multi.go): several shares behind one server.
  \<^item> Shell_Env, Shell_Commands, Shell_Copy (src/internal/instcmd): the commands the installer runs
    through rsh on the tree: the environment with its working directory, the handlers the shell interpreter
    calls for builtins, commands, redirects, globs and stat. No command asks the tree for a path outside
    it; cat and dd copy exactly the bytes named, through the locale \<open>eof_source\<close> of sources that end.
  \<^item> Shell_Output, Shell_Transfers (src/internal/instcmd/shell.go): output held back until the client
    could notice, as a refinement of writing at once, and the controller that turns interrupt bytes into
    the end of a running transfer, as a step relation with an invariant.
  \<^item> Source_Cache, Source_Range, Source_Fetch (src/internal/source): images read over HTTP. The chunk cache under
    concurrent reads is a step relation whose invariant makes it invisible; its client lemmas are proved in the locale
    \<open>truthful_reader\<close>, which the range reader and its fallback file satisfy. The range reader runs against an oracle
    for everything outside: its bytes are of one version of the file, and a server that recovers is not noticed.
    Source_Fetch holds what a reference is opened as and where credentials go.
  \<^item> Inst_Idb, Inst_Dist (src/inst): the manifests and archives of a software distribution. A line printed from its
    parts parses back, the offsets a manifest leaves out are found by walking it, and Open returns the bytes of a record.
  \<^item> Rcmd (src/rcmd): one exchange of the rsh server as the sequence of what it does, and the tracking of connections
    that Shutdown relies on as a step function with an invariant.
  \<^item> Qemunet (src/internal/qemunet): Ethernet frames over a byte stream that may take any part of a write or fail, and
    how the two pumps stop.

  \<^bold>\<open>Fuel.\<close> Only loops that the code itself does not bound carry fuel. walkFS takes
  the number of directory levels it may enter; every source whose directories
  have a finite depth is walked with that depth as fuel, and a source that
  contains itself is walked forever (a finding). The client loops of Nfs_Client
  take the number of calls; the theorems state how many are enough. The search of a
  share for a file by inode takes the number of directories it may open; what is
  stated of it holds for every fuel. The copy loops of cat and dd take the number of reads;
  more than the bytes of the file are enough, and the block sizes of \<open>dd_overflow\<close> loop with every fuel. A read through the chunk cache takes the number of chunks; its length is enough. The loops
  of the decompressors, of readRecord and of the readers are total functions.

  \<^bold>\<open>Not modelled.\<close> Sockets, goroutines and the wiring of services
  (src/internal/serve), logging and capture, the command line, YAML decoding, the
  third-party shell interpreter and network stack, host system calls. PROJECT.json
  lists every part.
\<close>

end
